(* ===== verification/Prelude.thy ===== *)
theory Prelude
  imports Complex_Main "HOL-Library.AList"
begin

text \<open>
  Shared vocabulary of the development.

  \<^item> Python dictionaries keep their insertion order and several routines of the platform
    depend on it (\<^verbatim>\<open>in_degree.items()\<close>, \<^verbatim>\<open>OrderedDict\<close>).  A dictionary is therefore an
    association list with distinct keys (\<open>wf_dict\<close>); \<^const>\<open>AList.update\<close> overwrites in place or
    appends at the end and \<^const>\<open>AList.delete\<close> removes a key, exactly as Python does.
  \<^item> Python floats are idealised as \<^typ>\<open>real\<close>: no rounding, no NaN.  Clock readings
    (\<^verbatim>\<open>time.monotonic()\<close>, \<^verbatim>\<open>time.time()\<close>) are explicit arguments.
  \<^item> \<open>int(x)\<close> on a float truncates towards zero (\<open>py_int\<close>).
  \<^item> \<open>res\<close> is the result of code that may raise.
\<close>

named_theorems dict_simps \<open>equations about dictionaries\<close>
named_theorems frame_simps \<open>fields that an operation leaves alone\<close>
named_theorems inv_intros \<open>operations that preserve a component invariant\<close>

type_synonym ('k, 'v) dict = "('k \<times> 'v) list"
type_synonym clock = real
type_synonym ('e, 'a) res = "'e + 'a"

section \<open>Dictionaries\<close>

definition wf_dict :: "('k, 'v) dict \<Rightarrow> bool" where
  "wf_dict d \<longleftrightarrow> distinct (map fst d)"

definition dict_has :: "('k, 'v) dict \<Rightarrow> 'k \<Rightarrow> bool" where
  "dict_has d k \<longleftrightarrow> k \<in> fst ` set d"

definition dict_get_or :: "('k, 'v) dict \<Rightarrow> 'k \<Rightarrow> 'v \<Rightarrow> 'v" where
  "dict_get_or d k v = (case map_of d k of None \<Rightarrow> v | Some w \<Rightarrow> w)"

text \<open>\<^verbatim>\<open>OrderedDict.move_to_end(k)\<close> for a key that is present.\<close>

definition dict_move_to_end :: "'k \<Rightarrow> ('k, 'v) dict \<Rightarrow> ('k, 'v) dict" where
  "dict_move_to_end k d =
     (case map_of d k of None \<Rightarrow> d | Some v \<Rightarrow> AList.delete k d @ [(k, v)])"

text \<open>\<^verbatim>\<open>d.update(other)\<close>.\<close>

definition dict_merge :: "('k, 'v) dict \<Rightarrow> ('k, 'v) dict \<Rightarrow> ('k, 'v) dict" where
  "dict_merge d other = fold (\<lambda>(k, v). AList.update k v) other d"

section \<open>Results\<close>

definition res_bind :: "('e, 'a) res \<Rightarrow> ('a \<Rightarrow> ('e, 'b) res) \<Rightarrow> ('e, 'b) res" where
  "res_bind r f = (case r of Inl e \<Rightarrow> Inl e | Inr a \<Rightarrow> f a)"

text \<open>A list comprehension whose element expression may raise.\<close>

fun traverse :: "('a \<Rightarrow> ('e, 'b) res) \<Rightarrow> 'a list \<Rightarrow> ('e, 'b list) res" where
  "traverse f [] = Inr []"
| "traverse f (x # xs) = res_bind (f x) (\<lambda>y. res_bind (traverse f xs) (\<lambda>ys. Inr (y # ys)))"

lemma res_bind_simps [simp]: "res_bind (Inl e) f = Inl e" "res_bind (Inr a) f = f a"
  by (simp_all add: res_bind_def)

lemma traverse_Inr: "traverse f xs = Inr ys \<longleftrightarrow> list_all2 (\<lambda>x y. f x = Inr y) xs ys"
proof (induction xs arbitrary: ys)
  case (Cons x xs)
  show ?case
  proof (cases "f x")
    case (Inr y)
    show ?thesis by (cases "traverse f xs") (auto simp: Inr list_all2_Cons1 simp flip: Cons.IH)
  qed (simp add: list_all2_Cons1)
qed auto

section \<open>Numbers\<close>

definition py_int :: "real \<Rightarrow> int" where
  "py_int x = (if 0 \<le> x then \<lfloor>x\<rfloor> else \<lceil>x\<rceil>)"

text \<open>\<^verbatim>\<open>round(x, d)\<close>: half to even.\<close>

definition py_round :: "nat \<Rightarrow> real \<Rightarrow> real" where
  "py_round d x =
     (let y = x * 10 ^ d; f = \<lfloor>y\<rfloor>; r = y - of_int f
      in of_int (if r < 1 / 2 then f else if r > 1 / 2 then f + 1 else if even f then f else f + 1) / 10 ^ d)"

section \<open>Strings\<close>

text \<open>Text between single quotes, as in \<^verbatim>\<open>f"Node '{nid}'"\<close>.\<close>

definition squote :: "string \<Rightarrow> string" where
  "squote s = CHR 0x27 # s @ [CHR 0x27]"

definition dquote :: "string \<Rightarrow> string" where
  "dquote s = CHR 0x22 # s @ [CHR 0x22]"

text \<open>\<^verbatim>\<open>sep.join(xs)\<close>.\<close>

fun join_with :: "string \<Rightarrow> string list \<Rightarrow> string" where
  "join_with sep [] = []"
| "join_with sep [x] = x"
| "join_with sep (x # y # xs) = x @ sep @ join_with sep (y # xs)"

definition py_startswith :: "string \<Rightarrow> string \<Rightarrow> bool" where
  "py_startswith s p \<longleftrightarrow> take (length p) s = p"

text \<open>\<^verbatim>\<open>str(n)\<close> for an integer, and \<^verbatim>\<open>s.strip()\<close> on 8-bit text.\<close>

definition digit_char :: "nat \<Rightarrow> char" where
  "digit_char d = char_of (48 + d)"

fun nat_str :: "nat \<Rightarrow> string" where
  "nat_str n = (if n < 10 then [digit_char n] else nat_str (n div 10) @ [digit_char (n mod 10)])"

declare nat_str.simps [simp del]

definition int_str :: "int \<Rightarrow> string" where
  "int_str i = (if i < 0 then ''-'' @ nat_str (nat (- i)) else nat_str (nat i))"

definition py_isspace :: "char \<Rightarrow> bool" where
  "py_isspace c \<longleftrightarrow> of_char c \<in> {9, 10, 11, 12, 13, 28, 29, 30, 31, 32, 133, 160 :: nat}"

definition py_strip :: "string \<Rightarrow> string" where
  "py_strip s = rev (dropWhile py_isspace (rev (dropWhile py_isspace s)))"

text \<open>\<^verbatim>\<open>s.upper()\<close>, \<^verbatim>\<open>s.lower()\<close> and the word characters of regular expressions, for ASCII text.\<close>

definition py_upper :: "string \<Rightarrow> string" where
  "py_upper s = map (\<lambda>c. if 97 \<le> (of_char c :: nat) \<and> (of_char c :: nat) \<le> 122 then char_of (of_char c - 32 :: nat) else c) s"

definition py_lower :: "string \<Rightarrow> string" where
  "py_lower s = map (\<lambda>c. if 65 \<le> (of_char c :: nat) \<and> (of_char c :: nat) \<le> 90 then char_of (of_char c + 32 :: nat) else c) s"

definition is_letter :: "char \<Rightarrow> bool" where
  "is_letter c \<longleftrightarrow> (let n = (of_char c :: nat) in 65 \<le> n \<and> n \<le> 90 \<or> 97 \<le> n \<and> n \<le> 122)"

definition is_word :: "char \<Rightarrow> bool" where
  "is_word c \<longleftrightarrow> is_letter c \<or> c = CHR ''_'' \<or> (let n = (of_char c :: nat) in 48 \<le> n \<and> n \<le> 57)"

text \<open>\<^verbatim>\<open>s.split()\<close>: maximal runs without white space.\<close>

fun split_ws :: "string \<Rightarrow> string \<Rightarrow> string list" where
  "split_ws cur [] = (if cur = [] then [] else [rev cur])"
| "split_ws cur (c # cs) =
     (if py_isspace c then (if cur = [] then [] else [rev cur]) @ split_ws [] cs
      else split_ws (c # cur) cs)"

definition py_split :: "string \<Rightarrow> string list" where
  "py_split s = split_ws [] s"

text \<open>\<^verbatim>\<open>text.find(block, start)\<close>.\<close>

definition py_find :: "string \<Rightarrow> string \<Rightarrow> nat \<Rightarrow> nat option" where
  "py_find t b start = List.find (\<lambda>i. take (length b) (drop i t) = b) [start..<length t + 1 - length b]"

section \<open>Slices\<close>

text \<open>\<^verbatim>\<open>xs[:n]\<close> and \<^verbatim>\<open>xs[n:]\<close>, where a negative bound counts from the end.\<close>

definition slice_to :: "int \<Rightarrow> 'a list \<Rightarrow> 'a list" where
  "slice_to n xs = (if 0 \<le> n then take (nat n) xs else take (length xs - nat (- n)) xs)"

definition slice_from :: "int \<Rightarrow> 'a list \<Rightarrow> 'a list" where
  "slice_from n xs = (if 0 \<le> n then drop (nat n) xs else drop (length xs - nat (- n)) xs)"

text \<open>\<^verbatim>\<open>xs[i:j]\<close>.\<close>

definition py_slice :: "int \<Rightarrow> int \<Rightarrow> 'a list \<Rightarrow> 'a list" where
  "py_slice i j xs =
     (let n = int (length xs); clamp = (\<lambda>k. if k < 0 then max 0 (n + k) else min k n)
      in take (nat (clamp j - clamp i)) (drop (nat (clamp i)) xs))"

section \<open>JSON values\<close>

datatype json = JNull | JBool bool | JNum real | JStr string | JList "json list" | JObj "(string \<times> json) list"

text \<open>\<^verbatim>\<open>bool(x)\<close>.\<close>

fun json_truthy :: "json \<Rightarrow> bool" where
  "json_truthy JNull = False"
| "json_truthy (JBool b) = b"
| "json_truthy (JNum x) = (x \<noteq> 0)"
| "json_truthy (JStr s) = (s \<noteq> [])"
| "json_truthy (JList xs) = (xs \<noteq> [])"
| "json_truthy (JObj d) = (d \<noteq> [])"

section \<open>Lemmas on lists\<close>

lemma list_all2_right: "list_all2 P xs ys \<Longrightarrow> y \<in> set ys \<Longrightarrow> \<exists>x \<in> set xs. P x y"
  by (induction rule: list_all2_induct) auto

lemma join_with_Cons: "ys \<noteq> [] \<Longrightarrow> join_with sep (x # ys) = x @ sep @ join_with sep ys"
  by (cases ys) auto

lemma join_with_snoc: "ps \<noteq> [] \<Longrightarrow> join_with sep (ps @ [x]) = join_with sep ps @ sep @ x"
  by (induction ps rule: induct_list012) auto

lemma slices: "slice_to n xs @ slice_from n xs = xs"
  by (simp add: slice_to_def slice_from_def)

section \<open>Lemmas on dictionaries\<close>

lemma wf_dict_Nil [simp]: "wf_dict []"
  by (simp add: wf_dict_def)

lemma wf_dict_update [simp, intro]: "wf_dict d \<Longrightarrow> wf_dict (AList.update k v d)"
  by (simp add: wf_dict_def distinct_update)

lemma wf_dict_delete [simp, intro]: "wf_dict d \<Longrightarrow> wf_dict (AList.delete k d)"
  by (simp add: wf_dict_def distinct_delete)

lemma dict_has_map_of: "dict_has d k \<longleftrightarrow> map_of d k \<noteq> None"
  by (auto simp: dict_has_def map_of_eq_None_iff)

lemma map_of_update_dict [dict_simps]: "map_of (AList.update k v d) = (map_of d)(k \<mapsto> v)"
  by (rule update_conv')

lemma map_of_delete_dict [dict_simps]: "map_of (AList.delete k d) = (map_of d)(k := None)"
  by (rule delete_conv')

lemma dict_has_update [dict_simps]: "dict_has (AList.update k v d) x \<longleftrightarrow> x = k \<or> dict_has d x"
  by (auto simp: dict_has_map_of map_of_update_dict)

lemma dict_has_delete [dict_simps]: "dict_has (AList.delete k d) x \<longleftrightarrow> x \<noteq> k \<and> dict_has d x"
  by (auto simp: dict_has_map_of map_of_delete_dict)

lemma length_delete_dict:
  "wf_dict d \<Longrightarrow> length (AList.delete k d) = length d - (if dict_has d k then 1 else 0)"
proof (induction d)
  case Nil
  then show ?case by (simp add: dict_has_def)
next
  case (Cons p d)
  show ?case
  proof (cases "fst p = k")
    case True
    with Cons.prems have "\<not> dict_has d k" by (simp add: wf_dict_def dict_has_def)
    then have "AList.delete k d = d"
      by (intro delete_id) (auto simp: dict_has_def)
    with True show ?thesis by (cases p) (simp add: dict_has_def)
  next
    case False
    with Cons show ?thesis
      by (cases p) (auto simp: wf_dict_def dict_has_def Suc_diff_le neq_Nil_conv
          dest!: split_list)
  qed
qed

lemma length_update_dict:
  "length (AList.update k v d) = length d + (if dict_has d k then 0 else 1)"
  by (induction d) (auto simp: dict_has_def)

lemma fst_delete_filter: "map fst (AList.delete k d) = filter (\<lambda>x. x \<noteq> k) (map fst d)"
  by (induction d) auto

lemma wf_dict_move_to_end [simp, intro]: "wf_dict d \<Longrightarrow> wf_dict (dict_move_to_end k d)"
  by (auto simp: dict_move_to_end_def wf_dict_def fst_delete_filter split: option.splits)

lemma map_of_move_to_end [dict_simps]: "map_of (dict_move_to_end k d) = map_of d"
  by (auto simp: dict_move_to_end_def map_of_delete_dict map_add_def fun_eq_iff
      split: option.splits)

lemma length_move_to_end: "wf_dict d \<Longrightarrow> length (dict_move_to_end k d) = length d"
  by (auto simp: dict_move_to_end_def length_delete_dict dict_has_map_of neq_Nil_conv
      split: option.splits dest: map_of_SomeD) (metis length_pos_if_in_set map_of_SomeD Suc_pred)

lemma map_of_wf_in_set: "wf_dict d \<Longrightarrow> (k, v) \<in> set d \<longleftrightarrow> map_of d k = Some v"
  by (auto simp: wf_dict_def)

lemma wf_dict_filter [simp, intro]: "wf_dict d \<Longrightarrow> wf_dict (filter P d)"
  by (simp add: wf_dict_def distinct_map_filter)

lemma wf_dict_append_single: "wf_dict d \<Longrightarrow> \<not> dict_has d k \<Longrightarrow> wf_dict (d @ [(k, v)])"
  by (simp add: wf_dict_def dict_has_def)

lemma update_absent: "\<not> dict_has d k \<Longrightarrow> AList.update k v d = d @ [(k, v)]"
  by (induction d) (auto simp: dict_has_def)

lemma set_update_dict: "wf_dict d \<Longrightarrow> set (AList.update k v d) = insert (k, v) {p \<in> set d. fst p \<noteq> k}"
  by (induction d) (auto simp: wf_dict_def image_iff)

lemma set_delete_dict: "set (AList.delete k d) = {p \<in> set d. fst p \<noteq> k}"
  by (induction d) auto

lemma wf_dict_merge [simp, intro]: "wf_dict d \<Longrightarrow> wf_dict (dict_merge d e)"
  unfolding dict_merge_def by (induction e arbitrary: d) (auto simp: split_beta)

lemma map_of_merge [dict_simps]: "wf_dict e \<Longrightarrow> map_of (dict_merge d e) = map_of d ++ map_of e"
proof (induction e arbitrary: d)
  case (Cons p e)
  obtain k v where p: "p = (k, v)" by fastforce
  with Cons.prems have k: "k \<notin> fst ` set e" and w: "wf_dict e" by (auto simp: wf_dict_def)
  have "dict_merge d (p # e) = dict_merge (AList.update k v d) e" by (simp add: dict_merge_def p)
  with Cons.IH [OF w, of "AList.update k v d"] k show ?case
    by (auto simp: p map_of_update_dict map_add_def fun_eq_iff map_of_eq_None_iff split: option.splits)
qed (simp add: dict_merge_def)

lemma map_of_merge_other: "wf_dict e \<Longrightarrow> \<not> dict_has e k \<Longrightarrow> map_of (dict_merge d e) k = map_of d k"
  by (simp add: map_of_merge map_add_def dict_has_map_of)

section \<open>Lemmas on numbers\<close>

lemma int_str_0: "int_str 0 = ''0''"
  by code_simp

text \<open>Decimal numerals are read back.\<close>

lemma nat_str_value: "foldl (\<lambda>n c. 10 * n + (of_char c - 48)) 0 (nat_str n) = (n :: nat)"
proof (induction n rule: nat_str.induct)
  case (1 n)
  have d: "of_char (digit_char d) - 48 = d" if "d < 10" for d :: nat using that by (simp add: digit_char_def)
  show ?case
  proof (cases "n < 10")
    case True
    then show ?thesis by (subst nat_str.simps) (simp add: d)
  next
    case False
    with 1 show ?thesis by (subst nat_str.simps) (simp add: d)
  qed
qed

lemma nat_str_inj: "nat_str m = nat_str n \<Longrightarrow> m = n"
  by (metis nat_str_value)

lemma cauchy_schwarz:
  fixes f g :: "'a \<Rightarrow> real"
  shows "(\<Sum>i \<in> S. f i * g i)\<^sup>2 \<le> (\<Sum>i \<in> S. (f i)\<^sup>2) * (\<Sum>i \<in> S. (g i)\<^sup>2)"
proof -
  let ?A = "\<Sum>i \<in> S. (f i)\<^sup>2" and ?B = "\<Sum>i \<in> S. (g i)\<^sup>2" and ?C = "\<Sum>i \<in> S. f i * g i"
  have B0: "0 \<le> ?B" by (rule sum_nonneg) simp
  have "0 \<le> (\<Sum>i \<in> S. (?B * f i - ?C * g i)\<^sup>2)" by (rule sum_nonneg) simp
  also have "\<dots> = (\<Sum>i \<in> S. ?B\<^sup>2 * (f i)\<^sup>2 + (?C\<^sup>2 * (g i)\<^sup>2 - 2 * ?B * ?C * (f i * g i)))"
    by (rule sum.cong) (simp_all add: power2_eq_square algebra_simps)
  also have "\<dots> = ?B\<^sup>2 * ?A + (?C\<^sup>2 * ?B - 2 * ?B * ?C * ?C)"
    by (simp only: sum.distrib sum_subtractf sum_distrib_left [symmetric])
  also have "\<dots> = ?B * (?A * ?B - ?C\<^sup>2)" by (simp add: power2_eq_square algebra_simps)
  finally have p: "0 \<le> ?B * (?A * ?B - ?C\<^sup>2)" .
  show ?thesis
  proof (cases "?B = 0")
    case False
    with B0 have "0 < ?B" by simp
    with p have "0 \<le> ?A * ?B - ?C\<^sup>2" by (simp add: zero_le_mult_iff)
    then show ?thesis by simp
  next
    case True
    show ?thesis
    proof (cases "finite S")
      case fin: True
      have "\<forall>i \<in> S. g i = 0" using True fin by (simp add: sum_nonneg_eq_0_iff)
      then show ?thesis by simp
    qed simp
  qed
qed

definition half_even :: "real \<Rightarrow> int" where
  "half_even y = (let f = \<lfloor>y\<rfloor>; r = y - of_int f in if r < 1 / 2 then f else if r > 1 / 2 then f + 1 else if even f then f else f + 1)"

lemma py_round_half_even: "py_round d x = of_int (half_even (x * 10 ^ d)) / 10 ^ d"
  unfolding py_round_def half_even_def Let_def ..

lemma half_even_bounds: "\<lfloor>y\<rfloor> \<le> half_even y \<and> half_even y \<le> \<lfloor>y\<rfloor> + 1"
  by (simp add: half_even_def Let_def)

lemma half_even_mono: "x \<le> y \<Longrightarrow> half_even x \<le> half_even y"
proof (cases "\<lfloor>x\<rfloor> = \<lfloor>y\<rfloor>")
  case True
  assume "x \<le> y"
  with True show ?thesis unfolding half_even_def Let_def by auto
next
  case False
  assume "x \<le> y"
  with False have "\<lfloor>x\<rfloor> < \<lfloor>y\<rfloor>" using floor_mono [of x y] by linarith
  with half_even_bounds [of x] half_even_bounds [of y] show ?thesis by linarith
qed

lemma py_round_mono: "x \<le> y \<Longrightarrow> py_round d x \<le> py_round d y"
  unfolding py_round_half_even by (intro divide_right_mono of_int_le_iff [THEN iffD2] half_even_mono mult_right_mono) simp_all

lemma half_even_int: "half_even (of_int i) = i"
  by (simp add: half_even_def)

lemma py_round_one: "py_round d 1 = 1"
  using half_even_int [of "10 ^ d"] by (simp add: py_round_half_even)

lemma py_round_unit: "0 \<le> x \<Longrightarrow> x \<le> 1 \<Longrightarrow> 0 \<le> py_round d x \<and> py_round d x \<le> 1"
proof -
  assume "0 \<le> x" "x \<le> 1"
  moreover have "py_round d 0 = 0" using half_even_int [of 0] by (simp add: py_round_half_even)
  ultimately show ?thesis using py_round_one [of d] py_round_mono [of 0 x d] py_round_mono [of x 1 d] by simp
qed

lemma py_int_nonneg: "0 \<le> x \<Longrightarrow> 0 \<le> py_int x"
  by (simp add: py_int_def)

lemma py_int_le: "0 \<le> x \<Longrightarrow> of_int (py_int x) \<le> x"
  by (simp add: py_int_def)

lemma py_int_mono: "x \<le> y \<Longrightarrow> py_int x \<le> py_int y"
proof (cases "0 \<le> x")
  case True
  moreover assume "x \<le> y"
  ultimately show ?thesis by (simp add: py_int_def floor_mono)
next
  case False
  moreover assume "x \<le> y"
  moreover have "\<lceil>x\<rceil> \<le> 0" using False by simp
  moreover have "0 \<le> y \<Longrightarrow> 0 \<le> \<lfloor>y\<rfloor>" by simp
  ultimately show ?thesis by (auto simp: py_int_def ceiling_mono simp del: zero_le_floor ceiling_le_zero)
qed

end
