(* ===== verification/Circuit_Breaker.thy ===== *)
theory Circuit_Breaker
  imports Prelude
begin

text \<open>
  The two circuit breakers of the platform: \<^verbatim>\<open>core/kg/utils/circuit_breaker.py\<close> (used around
  Neo4j, LLM and embedding calls) and \<^verbatim>\<open>gateway/middleware/circuit_breaker.py\<close> (used by the
  reverse proxy).  Every read of \<^verbatim>\<open>time.monotonic()\<close> is an argument; an operation that reads the
  clock twice takes two readings, in program order.  Logging is left out.

  The locale \<open>breaker\<close> states what callers of either class rely on; both classes interpret it.
  The core breaker is also run as a step relation in which calls overlap (an entered call may end
  after others have changed the state), because its lock protects single operations only.
\<close>

section \<open>The core breaker\<close>

datatype circuit_state = CLOSED | OPEN | HALF_OPEN

datatype circuit_error = CircuitOpenError string real

record circuit_stats =
  total_calls :: int
  total_successes :: int
  total_failures :: int
  consecutive_failures :: int
  consecutive_successes :: int
  last_failure_time :: "clock option"
  last_success_time :: "clock option"
  last_state_change :: clock

record circuit_breaker =
  cb_name :: string
  cb_failure_threshold :: int
  cb_recovery_timeout :: real
  cb_success_threshold :: int
  cb_excluded_exceptions :: "string list"
  cb_state :: circuit_state
  cb_stats :: circuit_stats

text \<open>An exception is given by the names of its class and of its base classes.\<close>

type_synonym exc = "string list"

definition isinstance :: "exc \<Rightarrow> string list \<Rightarrow> bool" where
  "isinstance e clss \<longleftrightarrow> (\<exists>c \<in> set clss. c \<in> set e)"

definition circuit_stats_init :: "clock \<Rightarrow> circuit_stats" where
  "circuit_stats_init now = \<lparr>total_calls = 0, total_successes = 0, total_failures = 0,
     consecutive_failures = 0, consecutive_successes = 0, last_failure_time = None,
     last_success_time = None, last_state_change = now\<rparr>"

definition cb_init :: "string \<Rightarrow> int \<Rightarrow> real \<Rightarrow> int \<Rightarrow> string list \<Rightarrow> clock \<Rightarrow> circuit_breaker" where
  "cb_init name ft rt st ex now = \<lparr>cb_name = name, cb_failure_threshold = ft,
     cb_recovery_timeout = rt, cb_success_threshold = st, cb_excluded_exceptions = ex,
     cb_state = CLOSED, cb_stats = circuit_stats_init now\<rparr>"

definition cb_recovery_timeout_elapsed :: "clock \<Rightarrow> circuit_breaker \<Rightarrow> bool" where
  "cb_recovery_timeout_elapsed now b \<longleftrightarrow>
     now - last_state_change (cb_stats b) \<ge> cb_recovery_timeout b"

definition cb_transition :: "circuit_state \<Rightarrow> clock \<Rightarrow> circuit_breaker \<Rightarrow> circuit_breaker" where
  "cb_transition new now b =
     (let s = (cb_stats b)\<lparr>last_state_change := now\<rparr>;
          s' = (if new = CLOSED
                then s\<lparr>consecutive_failures := 0, consecutive_successes := 0\<rparr> else s)
      in b\<lparr>cb_state := new, cb_stats := s'\<rparr>)"

text \<open>The \<^verbatim>\<open>state\<close> property: it may move OPEN to HALF_OPEN before it is read.\<close>

definition cb_poll :: "clock \<Rightarrow> clock \<Rightarrow> circuit_breaker \<Rightarrow> circuit_breaker" where
  "cb_poll t1 t2 b =
     (if cb_state b = OPEN
      then (if cb_recovery_timeout_elapsed t1 b then cb_transition HALF_OPEN t2 b else b)
      else b)"

definition cb_before_call ::
  "clock \<Rightarrow> clock \<Rightarrow> circuit_breaker \<Rightarrow> (circuit_error, circuit_breaker) res" where
  "cb_before_call t1 t2 b =
     (let b' = cb_poll t1 t2 b in
      if cb_state b' = OPEN
      then (let retry_after = cb_recovery_timeout b' - (t2 - last_state_change (cb_stats b'))
            in Inl (CircuitOpenError (cb_name b') (max 0 retry_after)))
      else Inr (b'\<lparr>cb_stats := (cb_stats b')\<lparr>total_calls := total_calls (cb_stats b') + 1\<rparr>\<rparr>))"

definition cb_on_success :: "clock \<Rightarrow> clock \<Rightarrow> circuit_breaker \<Rightarrow> circuit_breaker" where
  "cb_on_success t1 t2 b =
     (let s = cb_stats b;
          s' = s\<lparr>total_successes := total_successes s + 1, consecutive_failures := 0,
                 consecutive_successes := consecutive_successes s + 1,
                 last_success_time := Some t1\<rparr>;
          b' = b\<lparr>cb_stats := s'\<rparr>
      in if cb_state b' = HALF_OPEN
         then (if consecutive_successes s' \<ge> cb_success_threshold b'
               then cb_transition CLOSED t2 b' else b')
         else b')"

definition cb_on_failure :: "clock \<Rightarrow> clock \<Rightarrow> circuit_breaker \<Rightarrow> circuit_breaker" where
  "cb_on_failure t1 t2 b =
     (let s = cb_stats b;
          s' = s\<lparr>total_failures := total_failures s + 1,
                 consecutive_failures := consecutive_failures s + 1,
                 consecutive_successes := 0, last_failure_time := Some t1\<rparr>;
          b' = b\<lparr>cb_stats := s'\<rparr>
      in if cb_state b' = HALF_OPEN then cb_transition OPEN t2 b'
         else if cb_state b' = CLOSED
         then (if consecutive_failures s' \<ge> cb_failure_threshold b'
               then cb_transition OPEN t2 b' else b')
         else b')"

text \<open>\<^verbatim>\<open>__exit__\<close> and \<^verbatim>\<open>__aexit__\<close>: no exception and an excluded one both count as success.\<close>

definition cb_exit :: "exc option \<Rightarrow> clock \<Rightarrow> clock \<Rightarrow> circuit_breaker \<Rightarrow> circuit_breaker" where
  "cb_exit oc t1 t2 b =
     (case oc of
        None \<Rightarrow> cb_on_success t1 t2 b
      | Some e \<Rightarrow> if cb_excluded_exceptions b \<noteq> [] \<and> isinstance e (cb_excluded_exceptions b)
                  then cb_on_success t1 t2 b else cb_on_failure t1 t2 b)"

text \<open>One protected call with no other call in between: \<^verbatim>\<open>with breaker: func()\<close>.\<close>

definition cb_call :: "clock \<Rightarrow> clock \<Rightarrow> exc option \<Rightarrow> clock \<Rightarrow> clock \<Rightarrow> circuit_breaker
    \<Rightarrow> (circuit_error, circuit_breaker) res" where
  "cb_call t1 t2 oc t3 t4 b =
     (case cb_before_call t1 t2 b of Inl e \<Rightarrow> Inl e | Inr b' \<Rightarrow> Inr (cb_exit oc t3 t4 b'))"

definition cb_reset :: "clock \<Rightarrow> circuit_breaker \<Rightarrow> circuit_breaker" where
  "cb_reset t b =
     (let b' = cb_transition CLOSED t b
      in b'\<lparr>cb_stats := (cb_stats b')\<lparr>consecutive_failures := 0, consecutive_successes := 0\<rparr>\<rparr>)"

section \<open>The gateway breaker\<close>

record gateway_breaker =
  gb_failure_threshold :: int
  gb_recovery_timeout :: real
  gb_success_threshold :: int
  gb_state :: circuit_state
  gb_failure_count :: int
  gb_success_count :: int
  gb_last_failure_time :: clock

definition gb_init :: "int \<Rightarrow> real \<Rightarrow> int \<Rightarrow> gateway_breaker" where
  "gb_init ft rt st = \<lparr>gb_failure_threshold = ft, gb_recovery_timeout = rt,
     gb_success_threshold = st, gb_state = CLOSED, gb_failure_count = 0, gb_success_count = 0,
     gb_last_failure_time = 0\<rparr>"

definition gb_poll :: "clock \<Rightarrow> gateway_breaker \<Rightarrow> gateway_breaker" where
  "gb_poll now b =
     (if gb_state b = OPEN
      then (if now - gb_last_failure_time b \<ge> gb_recovery_timeout b
            then b\<lparr>gb_state := HALF_OPEN, gb_success_count := 0\<rparr> else b)
      else b)"

definition gb_allow_request :: "clock \<Rightarrow> gateway_breaker \<Rightarrow> bool \<times> gateway_breaker" where
  "gb_allow_request now b =
     (let b' = gb_poll now b in
      if gb_state b' = CLOSED then (True, b')
      else if gb_state b' = HALF_OPEN then (True, b')
      else (False, b'))"

definition gb_record_success :: "gateway_breaker \<Rightarrow> gateway_breaker" where
  "gb_record_success b =
     (if gb_state b = HALF_OPEN
      then (let b' = b\<lparr>gb_success_count := gb_success_count b + 1\<rparr> in
            if gb_success_count b' \<ge> gb_success_threshold b'
            then b'\<lparr>gb_state := CLOSED, gb_failure_count := 0\<rparr> else b')
      else b\<lparr>gb_failure_count := 0\<rparr>)"

definition gb_record_failure :: "clock \<Rightarrow> gateway_breaker \<Rightarrow> gateway_breaker" where
  "gb_record_failure now b =
     (let b' = b\<lparr>gb_failure_count := gb_failure_count b + 1, gb_last_failure_time := now\<rparr> in
      if gb_failure_count b' \<ge> gb_failure_threshold b' then b'\<lparr>gb_state := OPEN\<rparr>
      else if gb_state b' = HALF_OPEN then b'\<lparr>gb_state := OPEN\<rparr>
      else b')"

definition gb_reset :: "gateway_breaker \<Rightarrow> gateway_breaker" where
  "gb_reset b = b\<lparr>gb_state := CLOSED, gb_failure_count := 0, gb_success_count := 0\<rparr>"

section \<open>Runs\<close>

text \<open>
  Overlapping use of the core breaker: the second component counts calls that have entered and not
  yet left.
\<close>

inductive cb_step :: "circuit_breaker \<times> nat \<Rightarrow> circuit_breaker \<times> nat \<Rightarrow> bool" where
  enter: "cb_before_call t1 t2 b = Inr b' \<Longrightarrow> cb_step (b, n) (b', Suc n)"
| reject: "cb_before_call t1 t2 b = Inl e \<Longrightarrow> cb_step (b, n) (b, n)"
| leave: "cb_step (b, Suc n) (cb_exit oc t1 t2 b, n)"
| look: "cb_step (b, n) (cb_poll t1 t2 b, n)"
| force_reset: "cb_step (b, n) (cb_reset t b, n)"

inductive cb_reach :: "circuit_breaker \<Rightarrow> circuit_breaker \<times> nat \<Rightarrow> bool" for b0 where
  start: "cb_reach b0 (b0, 0)"
| step: "cb_reach b0 s \<Longrightarrow> cb_step s s' \<Longrightarrow> cb_reach b0 s'"

text \<open>Sequential use: each call runs to its end before the next; a rejected call changes nothing.\<close>

type_synonym cb_event = "clock \<times> clock \<times> exc option \<times> clock \<times> clock"

fun cb_run :: "cb_event list \<Rightarrow> circuit_breaker \<Rightarrow> circuit_breaker" where
  "cb_run [] b = b"
| "cb_run ((t1, t2, oc, t3, t4) # es) b =
     (case cb_call t1 t2 oc t3 t4 b of Inl e \<Rightarrow> cb_run es b | Inr b' \<Rightarrow> cb_run es b')"

datatype gb_event = GAllow clock | GSuccess | GFailure clock | GReset

fun gb_apply :: "gb_event \<Rightarrow> gateway_breaker \<Rightarrow> gateway_breaker" where
  "gb_apply (GAllow t) b = snd (gb_allow_request t b)"
| "gb_apply GSuccess b = gb_record_success b"
| "gb_apply (GFailure t) b = gb_record_failure t b"
| "gb_apply GReset b = gb_reset b"

definition gb_run :: "gb_event list \<Rightarrow> gateway_breaker \<Rightarrow> gateway_breaker" where
  "gb_run es b = fold gb_apply es b"

section \<open>Invariants\<close>

definition cb_inv :: "circuit_breaker \<times> nat \<Rightarrow> bool" where
  "cb_inv s \<longleftrightarrow> (case s of (b, n) \<Rightarrow> let st = cb_stats b in
     total_calls st = total_successes st + total_failures st + int n
     \<and> 0 \<le> total_successes st \<and> 0 \<le> total_failures st
     \<and> 0 \<le> consecutive_failures st \<and> 0 \<le> consecutive_successes st
     \<and> consecutive_failures st \<le> total_failures st
     \<and> consecutive_successes st \<le> total_successes st
     \<and> (consecutive_failures st = 0 \<or> consecutive_successes st = 0)
     \<and> (cb_state b = CLOSED \<longrightarrow> consecutive_failures st < cb_failure_threshold b))"

definition cb_seq_inv :: "circuit_breaker \<Rightarrow> bool" where
  "cb_seq_inv b \<longleftrightarrow> cb_inv (b, 0)
     \<and> (cb_state b = OPEN \<longrightarrow> consecutive_successes (cb_stats b) = 0)
     \<and> (cb_state b = HALF_OPEN \<longrightarrow> consecutive_successes (cb_stats b) < cb_success_threshold b)"

definition gb_inv :: "gateway_breaker \<Rightarrow> bool" where
  "gb_inv b \<longleftrightarrow> 0 \<le> gb_failure_count b \<and> 0 \<le> gb_success_count b
     \<and> (gb_state b = CLOSED \<longrightarrow> gb_failure_count b < gb_failure_threshold b)
     \<and> (gb_state b = HALF_OPEN \<longrightarrow> gb_success_count b < gb_success_threshold b)"

section \<open>What callers rely on\<close>

locale breaker =
  fixes st :: "'b \<Rightarrow> circuit_state"
    and opened :: "'b \<Rightarrow> clock"
    and timeout :: "'b \<Rightarrow> real"
    and poll :: "clock \<Rightarrow> clock \<Rightarrow> 'b \<Rightarrow> 'b"
    and failure :: "clock \<Rightarrow> clock \<Rightarrow> 'b \<Rightarrow> 'b"
  assumes poll_not_open: "st b \<noteq> OPEN \<Longrightarrow> poll t1 t2 b = b"
    and poll_early: "st b = OPEN \<Longrightarrow> t1 < opened b + timeout b \<Longrightarrow> poll t1 t2 b = b"
    and poll_late: "st b = OPEN \<Longrightarrow> opened b + timeout b \<le> t1 \<Longrightarrow> st (poll t1 t2 b) = HALF_OPEN"
    and failure_half_open: "st b = HALF_OPEN \<Longrightarrow> st (failure t1 t2 b) = OPEN"
    and failure_timeout: "timeout (failure t1 t2 b) = timeout b"
    and failure_opened: "st b \<noteq> OPEN \<Longrightarrow> st (failure t1 t2 b) = OPEN \<Longrightarrow> t1 \<le> t2
      \<Longrightarrow> t1 \<le> opened (failure t1 t2 b)"
begin

lemma polls_blocked:
  "st b = OPEN \<Longrightarrow> \<forall>u \<in> set us. fst u < opened b + timeout b
    \<Longrightarrow> fold (\<lambda>(u1, u2). poll u1 u2) us b = b"
  by (induction us) (auto simp: poll_early)

lemma blocked_after_trip:
  assumes "st b \<noteq> OPEN" and "st (failure t1 t2 b) = OPEN" and "t1 \<le> t2"
    and early: "\<forall>u \<in> set us. fst u < t1 + timeout b"
  shows "fold (\<lambda>(u1, u2). poll u1 u2) us (failure t1 t2 b) = failure t1 t2 b"
proof (rule polls_blocked [OF assms(2)])
  show "\<forall>u \<in> set us. fst u < opened (failure t1 t2 b) + timeout (failure t1 t2 b)"
    using early failure_opened [OF assms(1,2,3)] by (force simp: failure_timeout)
qed

lemma poll_idem_state:
  "st b = OPEN \<Longrightarrow> opened b + timeout b \<le> t1 \<Longrightarrow> poll u1 u2 (poll t1 t2 b) = poll t1 t2 b"
  by (simp add: poll_late poll_not_open)

end

lemmas cb_defs = cb_poll_def cb_before_call_def cb_on_success_def cb_on_failure_def cb_reset_def
  cb_transition_def cb_recovery_timeout_elapsed_def Let_def
lemmas gb_defs = gb_poll_def gb_allow_request_def gb_record_success_def gb_record_failure_def
  gb_reset_def Let_def

interpretation core_cb: breaker cb_state "\<lambda>b. last_state_change (cb_stats b)"
  cb_recovery_timeout cb_poll cb_on_failure
  by unfold_locales (auto simp: cb_defs split: if_splits)

interpretation gw_cb: breaker gb_state gb_last_failure_time gb_recovery_timeout
  "\<lambda>t1 t2. gb_poll t1" "\<lambda>t1 t2. gb_record_failure t1"
  by unfold_locales (auto simp: gb_defs split: if_splits)

section \<open>Preservation lemmas\<close>

lemma cb_config_frame [frame_simps]:
  "cb_failure_threshold (cb_poll t1 t2 b) = cb_failure_threshold b"
  "cb_failure_threshold (cb_on_success t1 t2 b) = cb_failure_threshold b"
  "cb_failure_threshold (cb_on_failure t1 t2 b) = cb_failure_threshold b"
  "cb_failure_threshold (cb_exit oc t1 t2 b) = cb_failure_threshold b"
  "cb_failure_threshold (cb_reset t b) = cb_failure_threshold b"
  "cb_success_threshold (cb_poll t1 t2 b) = cb_success_threshold b"
  "cb_success_threshold (cb_on_success t1 t2 b) = cb_success_threshold b"
  "cb_success_threshold (cb_on_failure t1 t2 b) = cb_success_threshold b"
  "cb_success_threshold (cb_exit oc t1 t2 b) = cb_success_threshold b"
  "cb_success_threshold (cb_reset t b) = cb_success_threshold b"
  by (auto simp: cb_defs cb_exit_def split: option.splits)

lemma cb_before_call_frame [frame_simps]:
  "cb_before_call t1 t2 b = Inr b' \<Longrightarrow> cb_failure_threshold b' = cb_failure_threshold b"
  "cb_before_call t1 t2 b = Inr b' \<Longrightarrow> cb_success_threshold b' = cb_success_threshold b"
  by (auto simp: cb_defs split: if_splits)

lemma cb_inv_init: "0 < ft \<Longrightarrow> cb_inv (cb_init nm ft rt st ex now, 0)"
  by (simp add: cb_inv_def cb_init_def circuit_stats_init_def)

lemma cb_inv_poll [inv_intros]: "cb_inv (b, n) \<Longrightarrow> cb_inv (cb_poll t1 t2 b, n)"
  by (auto simp: cb_inv_def cb_defs)

lemma cb_inv_before_call [inv_intros]:
  "cb_inv (b, n) \<Longrightarrow> cb_before_call t1 t2 b = Inr b' \<Longrightarrow> cb_inv (b', Suc n)"
  by (auto simp: cb_inv_def cb_defs split: if_splits)

lemma cb_inv_on_success [inv_intros]:
  "0 < cb_failure_threshold b \<Longrightarrow> cb_inv (b, Suc n) \<Longrightarrow> cb_inv (cb_on_success t1 t2 b, n)"
  by (auto simp: cb_inv_def cb_defs)

lemma cb_inv_on_failure [inv_intros]:
  "0 < cb_failure_threshold b \<Longrightarrow> cb_inv (b, Suc n) \<Longrightarrow> cb_inv (cb_on_failure t1 t2 b, n)"
  by (auto simp: cb_inv_def cb_defs)

lemma cb_inv_exit [inv_intros]:
  "0 < cb_failure_threshold b \<Longrightarrow> cb_inv (b, Suc n) \<Longrightarrow> cb_inv (cb_exit oc t1 t2 b, n)"
  by (auto simp: cb_exit_def cb_inv_on_success cb_inv_on_failure split: option.splits)

lemma cb_inv_reset [inv_intros]:
  "0 < cb_failure_threshold b \<Longrightarrow> cb_inv (b, n) \<Longrightarrow> cb_inv (cb_reset t b, n)"
  by (auto simp: cb_inv_def cb_defs)

lemma cb_step_inv:
  "cb_step s s' \<Longrightarrow> 0 < cb_failure_threshold (fst s) \<and> cb_inv s
    \<Longrightarrow> 0 < cb_failure_threshold (fst s') \<and> cb_inv s'"
  by (induction rule: cb_step.induct) (auto simp: frame_simps intro: inv_intros)

lemma cb_reach_inv:
  "cb_reach b0 s \<Longrightarrow> 0 < cb_failure_threshold b0 \<Longrightarrow> cb_inv (b0, 0)
    \<Longrightarrow> 0 < cb_failure_threshold (fst s) \<and> cb_inv s"
  by (induction rule: cb_reach.induct) (auto dest: cb_step_inv)

lemma cb_seq_inv_init:
  "0 < ft \<Longrightarrow> 0 < st \<Longrightarrow> cb_seq_inv (cb_init nm ft rt st ex now)"
  by (simp add: cb_seq_inv_def cb_inv_init) (simp add: cb_init_def)

lemma cb_exit_cases:
  "cb_exit oc t1 t2 b = cb_on_success t1 t2 b \<or> cb_exit oc t1 t2 b = cb_on_failure t1 t2 b"
  by (auto simp: cb_exit_def split: option.splits)

lemma cb_before_call_InrD:
  "cb_before_call t1 t2 b = Inr b' \<Longrightarrow> cb_state b' \<noteq> OPEN \<and>
     cb_stats b' = (cb_stats (cb_poll t1 t2 b))\<lparr>total_calls := total_calls (cb_stats b) + 1\<rparr> \<and>
     cb_state b' = cb_state (cb_poll t1 t2 b)"
  by (auto simp: cb_defs split: if_splits)

lemma cb_on_success_phase:
  assumes "cb_state c \<noteq> OPEN"
  shows "(cb_state (cb_on_success t1 t2 c) = OPEN
      \<longrightarrow> consecutive_successes (cb_stats (cb_on_success t1 t2 c)) = 0)
    \<and> (cb_state (cb_on_success t1 t2 c) = HALF_OPEN
      \<longrightarrow> consecutive_successes (cb_stats (cb_on_success t1 t2 c))
          < cb_success_threshold (cb_on_success t1 t2 c))"
  using assms by (simp add: cb_defs)

lemma cb_on_failure_phase:
  assumes "cb_state c \<noteq> OPEN"
  shows "(cb_state (cb_on_failure t1 t2 c) = OPEN
      \<longrightarrow> consecutive_successes (cb_stats (cb_on_failure t1 t2 c)) = 0)
    \<and> (cb_state (cb_on_failure t1 t2 c) = HALF_OPEN
      \<longrightarrow> consecutive_successes (cb_stats (cb_on_failure t1 t2 c))
          < cb_success_threshold (cb_on_failure t1 t2 c))"
  using assms by (simp add: cb_defs)

lemma cb_call_seq_inv:
  assumes "cb_seq_inv b" and "0 < cb_failure_threshold b" and "0 < cb_success_threshold b"
    and "cb_call t1 t2 oc t3 t4 b = Inr b'"
  shows "cb_seq_inv b'"
proof -
  from assms(4) obtain c where c: "cb_before_call t1 t2 b = Inr c" and b': "b' = cb_exit oc t3 t4 c"
    by (auto simp: cb_call_def split: sum.splits)
  have inv: "cb_inv (b', 0)"
    using assms(1,2) c b' by (auto simp: cb_seq_inv_def frame_simps intro: inv_intros)
  from c have "cb_state c \<noteq> OPEN" by (auto simp: cb_defs split: if_splits)
  then have "(cb_state b' = OPEN \<longrightarrow> consecutive_successes (cb_stats b') = 0) \<and>
    (cb_state b' = HALF_OPEN \<longrightarrow> consecutive_successes (cb_stats b') < cb_success_threshold b')"
    using cb_exit_cases [of oc t3 t4 c] cb_on_success_phase [of c] cb_on_failure_phase [of c]
    unfolding b' by metis
  with inv show ?thesis by (simp add: cb_seq_inv_def)
qed

lemma cb_call_frame [frame_simps]:
  "cb_call t1 t2 oc t3 t4 b = Inr b' \<Longrightarrow> cb_failure_threshold b' = cb_failure_threshold b"
  "cb_call t1 t2 oc t3 t4 b = Inr b' \<Longrightarrow> cb_success_threshold b' = cb_success_threshold b"
  by (auto simp: cb_call_def frame_simps split: sum.splits)

lemma cb_run_seq_inv:
  "cb_seq_inv b \<Longrightarrow> 0 < cb_failure_threshold b \<Longrightarrow> 0 < cb_success_threshold b
    \<Longrightarrow> cb_seq_inv (cb_run es b)"
  by (induction es b rule: cb_run.induct)
    (auto split: sum.splits simp: frame_simps dest: cb_call_seq_inv)

lemma cb_run_frame [frame_simps]: "cb_success_threshold (cb_run es b) = cb_success_threshold b"
  by (induction es b rule: cb_run.induct) (auto split: sum.splits simp: frame_simps)

lemma cb_call_success_half_open:
  assumes "cb_state b = HALF_OPEN"
  shows "\<exists>b'. cb_call t1 t2 None t3 t4 b = Inr b' \<and> cb_success_threshold b' = cb_success_threshold b
    \<and> (if consecutive_successes (cb_stats b) + 1 \<ge> cb_success_threshold b
       then cb_state b' = CLOSED
       else cb_state b' = HALF_OPEN \<and>
            consecutive_successes (cb_stats b') = consecutive_successes (cb_stats b) + 1)"
  using assms by (simp add: cb_call_def cb_exit_def cb_defs)

lemma cb_call_success_closed:
  "cb_state b = CLOSED \<Longrightarrow> \<exists>b'. cb_call t1 t2 None t3 t4 b = Inr b' \<and> cb_state b' = CLOSED"
  by (simp add: cb_call_def cb_exit_def cb_defs)

lemma cb_run_success_closed:
  "cb_state b = CLOSED \<Longrightarrow> \<forall>e \<in> set es. fst (snd (snd e)) = None \<Longrightarrow> cb_state (cb_run es b) = CLOSED"
proof (induction es arbitrary: b)
  case (Cons e es)
  obtain t1 t2 oc t3 t4 where e: "e = (t1, t2, oc, t3, t4)" by (cases e) auto
  with cb_call_success_closed [OF Cons.prems(1), of t1 t2 t3 t4] Cons show ?case by auto
qed simp

lemma cb_run_success_half_open:
  "cb_state b = HALF_OPEN \<Longrightarrow> consecutive_successes (cb_stats b) < cb_success_threshold b
    \<Longrightarrow> \<forall>e \<in> set es. fst (snd (snd e)) = None
    \<Longrightarrow> cb_state (cb_run es b) =
        (if consecutive_successes (cb_stats b) + int (length es) \<ge> cb_success_threshold b
         then CLOSED else HALF_OPEN)"
proof (induction es arbitrary: b)
  case (Cons e es)
  obtain t1 t2 oc t3 t4 where e: "e = (t1, t2, oc, t3, t4)" by (cases e) auto
  from cb_call_success_half_open [OF Cons.prems(1), of t1 t2 t3 t4] obtain b'
    where b': "cb_call t1 t2 None t3 t4 b = Inr b'" "cb_success_threshold b' = cb_success_threshold b"
      "if consecutive_successes (cb_stats b) + 1 \<ge> cb_success_threshold b
       then cb_state b' = CLOSED
       else cb_state b' = HALF_OPEN \<and>
            consecutive_successes (cb_stats b') = consecutive_successes (cb_stats b) + 1" by blast
  with e Cons show ?case by (auto simp: cb_run_success_closed split: if_splits)
qed simp

lemma cb_open_probe:
  assumes "cb_state b = OPEN" and "consecutive_successes (cb_stats b) = 0"
    and "cb_recovery_timeout b \<le> t1 - last_state_change (cb_stats b)"
  shows "cb_call t1 t2 None t3 t4 b = cb_call t1 t2 None t3 t4 (cb_transition HALF_OPEN t2 b)"
  using assms by (simp add: cb_call_def cb_exit_def cb_defs)

lemma gb_apply_inv:
  "0 < gb_failure_threshold b \<Longrightarrow> 0 < gb_success_threshold b \<Longrightarrow> gb_inv b \<Longrightarrow>
    gb_inv (gb_apply e b) \<and> gb_failure_threshold (gb_apply e b) = gb_failure_threshold b
    \<and> gb_success_threshold (gb_apply e b) = gb_success_threshold b"
  by (cases e) (auto simp: gb_inv_def gb_defs)

lemma gb_run_inv:
  "0 < gb_failure_threshold b \<Longrightarrow> 0 < gb_success_threshold b \<Longrightarrow> gb_inv b \<Longrightarrow> gb_inv (gb_run es b)"
  unfolding gb_run_def by (induction es arbitrary: b) (auto simp: gb_apply_inv)

lemma cb_call_failure_closed:
  assumes "cb_state b = CLOSED" and "cb_excluded_exceptions b = []"
  shows "\<exists>b'. cb_call t1 t2 (Some e) t3 t4 b = Inr b' \<and> cb_excluded_exceptions b' = []
    \<and> consecutive_failures (cb_stats b') = consecutive_failures (cb_stats b) + 1
    \<and> cb_failure_threshold b' = cb_failure_threshold b
    \<and> cb_state b' = (if consecutive_failures (cb_stats b) + 1 \<ge> cb_failure_threshold b
                      then OPEN else CLOSED)"
  using assms by (simp add: cb_call_def cb_exit_def cb_defs)

lemma cb_run_failures:
  "cb_state b = CLOSED \<Longrightarrow> cb_excluded_exceptions b = [] \<Longrightarrow>
    consecutive_failures (cb_stats b) + int (length es) \<le> cb_failure_threshold b \<Longrightarrow>
    consecutive_failures (cb_stats b) < cb_failure_threshold b \<Longrightarrow>
    \<forall>e \<in> set es. fst (snd (snd e)) \<noteq> None \<Longrightarrow>
    cb_state (cb_run es b) =
      (if consecutive_failures (cb_stats b) + int (length es) = cb_failure_threshold b
       then OPEN else CLOSED)"
proof (induction es arbitrary: b)
  case (Cons ev es)
  obtain t1 t2 e t3 t4 where ev: "ev = (t1, t2, Some e, t3, t4)" using Cons.prems(5) by (cases ev) auto
  from cb_call_failure_closed [OF Cons.prems(1,2), of t1 t2 e t3 t4] obtain b'
    where b': "cb_call t1 t2 (Some e) t3 t4 b = Inr b'" "cb_excluded_exceptions b' = []"
      "consecutive_failures (cb_stats b') = consecutive_failures (cb_stats b) + 1"
      "cb_failure_threshold b' = cb_failure_threshold b"
      "cb_state b' = (if consecutive_failures (cb_stats b) + 1 \<ge> cb_failure_threshold b
                      then OPEN else CLOSED)" by blast
  show ?case
  proof (cases es)
    case Nil
    with b' ev Cons.prems show ?thesis by auto
  next
    case (Cons ev' es')
    with Cons.prems have "consecutive_failures (cb_stats b') < cb_failure_threshold b'"
      using b' by simp
    with Cons.IH [of b'] b' ev Cons.prems show ?thesis by auto
  qed
qed simp

lemma cb_before_call_open:
  "cb_state b = OPEN \<Longrightarrow> cb_poll t1 t2 b = b \<Longrightarrow> cb_before_call t1 t2 b =
    Inl (CircuitOpenError (cb_name b)
      (max 0 (cb_recovery_timeout b - (t2 - last_state_change (cb_stats b)))))"
  by (simp add: cb_before_call_def Let_def)

lemma cb_on_failure_trip:
  "cb_state b \<noteq> OPEN \<Longrightarrow> cb_state (cb_on_failure t1 t2 b) = OPEN \<Longrightarrow>
    last_state_change (cb_stats (cb_on_failure t1 t2 b)) = t2"
  by (auto simp: cb_defs split: if_splits)

lemma cb_identity_frame [frame_simps]:
  "cb_name (cb_on_failure t1 t2 b) = cb_name b"
  "cb_recovery_timeout (cb_on_failure t1 t2 b) = cb_recovery_timeout b"
  by (auto simp: cb_defs)

lemma cb_before_call_closed:
  "cb_state b = CLOSED \<Longrightarrow> cb_before_call t1 t2 b =
    Inr (b\<lparr>cb_stats := (cb_stats b)\<lparr>total_calls := total_calls (cb_stats b) + 1\<rparr>\<rparr>)"
  by (simp add: cb_before_call_def cb_poll_def Let_def)

lemma cb_step_enter_closed:
  "cb_state b = CLOSED \<Longrightarrow> cb_step (b, n)
    (b\<lparr>cb_stats := (cb_stats b)\<lparr>total_calls := total_calls (cb_stats b) + 1\<rparr>\<rparr>, Suc n)"
  by (rule cb_step.enter [of 0 0]) (rule cb_before_call_closed)

lemma gb_allow_request_snd: "snd (gb_allow_request u b) = gb_poll u b"
  by (simp add: gb_allow_request_def Let_def)

section \<open>Properties\<close>

text \<open>C12. However calls overlap, every state of a core breaker created with a positive failure
  threshold counts each entered call exactly once (as a success, a failure or a call still in
  flight), never has a failure streak and a success streak at the same time, and while CLOSED its
  failure streak is below the threshold.\<close>

theorem cb_reachable_invariant:
  assumes "0 < ft" and "cb_reach (cb_init nm ft rt sth ex now) (b, n)"
  shows "total_calls (cb_stats b) = total_successes (cb_stats b) + total_failures (cb_stats b) + int n
    \<and> (consecutive_failures (cb_stats b) = 0 \<or> consecutive_successes (cb_stats b) = 0)
    \<and> (cb_state b = CLOSED \<longrightarrow> consecutive_failures (cb_stats b) < cb_failure_threshold b)"
  using cb_reach_inv [OF assms(2)] assms(1) cb_inv_init [OF assms(1)]
  by (simp add: cb_init_def) (auto simp: cb_inv_def Let_def)

theorem cb_reachable_invariant_witness:
  "cb_reach (cb_init ''neo4j'' 5 30 2 [] 0) (cb_init ''neo4j'' 5 30 2 [] 0, 0)
   \<and> consecutive_failures (cb_stats (cb_init ''neo4j'' 5 30 2 [] 0)) < 5"
proof -
  have r: "cb_reach (cb_init ''neo4j'' 5 30 2 [] 0) (cb_init ''neo4j'' 5 30 2 [] 0, 0)"
    by (rule cb_reach.start)
  show ?thesis
    using r cb_reachable_invariant [OF _ r] by (simp add: cb_init_def)
qed

text \<open>C39. Fail fast: when a failure at clock reading \<open>t1\<close> opens the core breaker, any number of
  looks at its state before \<open>t1 + recovery_timeout\<close> leave it untouched, and an attempted call in
  that period raises CircuitOpenError with a retry hint between zero and the recovery timeout.\<close>

theorem cb_fail_fast:
  assumes "cb_state b \<noteq> OPEN" and "t1 \<le> t2" and "cb_state (cb_on_failure t1 t2 b) = OPEN"
    and "\<forall>u \<in> set us. fst u < t1 + cb_recovery_timeout b"
    and "u1 < t1 + cb_recovery_timeout b" and "t2 \<le> u2" and "0 \<le> cb_recovery_timeout b"
  shows "fold (\<lambda>(u1, u2). cb_poll u1 u2) us (cb_on_failure t1 t2 b) = cb_on_failure t1 t2 b
    \<and> (\<exists>r. cb_before_call u1 u2 (cb_on_failure t1 t2 b) = Inl (CircuitOpenError (cb_name b) r)
           \<and> 0 \<le> r \<and> r \<le> cb_recovery_timeout b)"
proof -
  have "cb_poll u1 u2 (cb_on_failure t1 t2 b) = cb_on_failure t1 t2 b"
    using core_cb.blocked_after_trip [OF assms(1,3,2), of "[(u1, u2)]"] assms(5) by simp
  from cb_before_call_open [OF assms(3) this] cb_on_failure_trip [OF assms(1,3)]
  show ?thesis
    using core_cb.blocked_after_trip [OF assms(1,3,2,4)] assms(6,7) by (simp add: frame_simps)
qed

theorem cb_fail_fast_witness:
  "\<exists>r. cb_before_call 20 21 (cb_on_failure 10 11 (cb_init ''neo4j'' 1 30 2 [] 0))
      = Inl (CircuitOpenError ''neo4j'' r) \<and> 0 \<le> r \<and> r \<le> 30"
proof -
  let ?b = "cb_init ''neo4j'' 1 30 2 [] 0"
  have "cb_state ?b \<noteq> OPEN" "cb_state (cb_on_failure 10 11 ?b) = OPEN"
    by (simp_all add: cb_init_def circuit_stats_init_def cb_defs)
  from cb_fail_fast [OF this(1) _ this(2), of "[(12, 13)]" 20 21] show ?thesis
    by (simp add: cb_init_def)
qed

text \<open>In sequential use, a breaker with failure threshold \<open>ft\<close> and no excluded exceptions stays
  CLOSED during fewer than \<open>ft\<close> failing calls in a row and is OPEN after exactly \<open>ft\<close>.\<close>

theorem cb_opens_exactly_at_threshold:
  assumes "int (length es) \<le> ft" and "0 < ft" and "\<forall>e \<in> set es. fst (snd (snd e)) \<noteq> None"
  shows "cb_state (cb_run es (cb_init nm ft rt sth [] now)) =
    (if int (length es) = ft then OPEN else CLOSED)"
  using cb_run_failures [of "cb_init nm ft rt sth [] now" es] assms
  by (simp add: cb_init_def circuit_stats_init_def)

theorem cb_opens_exactly_at_threshold_witness:
  "cb_state (cb_run [(1, 1, Some [''E''], 2, 2), (3, 3, Some [''E''], 4, 4)]
     (cb_init ''x'' 2 30 2 [] 0)) = OPEN"
  using cb_opens_exactly_at_threshold
    [of "[(1, 1, Some [''E''], 2, 2), (3, 3, Some [''E''], 4, 4)]" 2] by simp

text \<open>Recovery: in sequential use, from any reachable OPEN breaker, once the recovery timeout
  has passed a run of \<open>k\<close> successful calls closes the circuit exactly when \<open>k\<close> reaches the success
  threshold; before that the breaker is HALF_OPEN.\<close>

theorem cb_recovers:
  assumes "cb_run pre (cb_init nm ft rt sth ex now) = b" and "0 < ft" and "0 < sth"
    and "cb_state b = OPEN"
    and "cb_recovery_timeout b \<le> t1 - last_state_change (cb_stats b)"
    and "\<forall>e \<in> set es. fst (snd (snd e)) = None"
  shows "cb_state (cb_run ((t1, t2, None, t3, t4) # es) b) =
    (if 1 + int (length es) \<ge> sth then CLOSED else HALF_OPEN)"
proof -
  let ?h = "cb_transition HALF_OPEN t2 b" and ?e = "(t1, t2, None, t3, t4)"
  have "cb_seq_inv b"
    using cb_run_seq_inv [of "cb_init nm ft rt sth ex now" pre] cb_seq_inv_init assms(1,2,3)
    by (auto simp: cb_init_def)
  with assms(4) have z: "consecutive_successes (cb_stats b) = 0" by (simp add: cb_seq_inv_def)
  have sth: "cb_success_threshold b = sth"
    unfolding assms(1) [symmetric] by (simp add: frame_simps) (simp add: cb_init_def)
  have "cb_run (?e # es) b = cb_run (?e # es) ?h"
    using cb_call_success_half_open [of ?h t1 t2 t3 t4] cb_open_probe [OF assms(4) z assms(5)]
    by (auto simp: cb_transition_def Let_def split: sum.splits)
  moreover have "cb_state (cb_run (?e # es) ?h) =
      (if 0 + int (length (?e # es)) \<ge> cb_success_threshold ?h then CLOSED else HALF_OPEN)"
    using cb_run_success_half_open [of ?h "?e # es"] assms(3,6) sth z
    by (simp add: cb_transition_def Let_def)
  ultimately show ?thesis using sth by (simp add: cb_transition_def Let_def)
qed

theorem cb_recovers_witness:
  "cb_state (cb_run [(40, 40, None, 41, 41), (42, 42, None, 43, 43)]
     (cb_run [(1, 1, Some [''E''], 2, 2)] (cb_init ''llm'' 1 30 2 [] 0))) = CLOSED"
proof -
  let ?b = "cb_run [(1, 1, Some [''E''], 2, 2)] (cb_init ''llm'' 1 30 2 [] 0)"
  have "cb_state ?b = OPEN" "cb_recovery_timeout ?b \<le> 40 - last_state_change (cb_stats ?b)"
    by (simp_all add: cb_init_def circuit_stats_init_def cb_call_def cb_exit_def cb_defs)
  from cb_recovers [OF refl _ _ this, of "[(42, 42, None, 43, 43)]" 40 41 41] show ?thesis by simp
qed

text \<open>Overlapping calls weaken that guarantee: a core breaker with success threshold 2 can be
  driven from OPEN to CLOSED by a single probe, because the success of a call that was already in
  flight while the breaker was OPEN stays in the success streak (\<^verbatim>\<open>_transition\<close> clears the streaks
  only on the way to CLOSED).\<close>

theorem cb_late_success_closes_early:
  "\<exists>b b'. cb_reach (cb_init ''neo4j'' 1 30 2 [] 0) (b, 0) \<and> cb_state b = OPEN
     \<and> cb_before_call 50 50 b = Inr b' \<and> cb_state b' = HALF_OPEN \<and> cb_success_threshold b' = 2
     \<and> cb_state (cb_exit None 51 51 b') = CLOSED"
proof -
  let ?ini = "cb_init ''neo4j'' 1 30 2 [] 0"
  let ?enter = "\<lambda>b. b\<lparr>cb_stats := (cb_stats b)\<lparr>total_calls := total_calls (cb_stats b) + 1\<rparr>\<rparr>"
  let ?b = "cb_exit None 12 12 (cb_exit (Some [''E'']) 11 11 (?enter (?enter ?ini)))"
  have "cb_reach ?ini (?enter ?ini, Suc 0)"
    by (rule cb_reach.step [OF cb_reach.start cb_step_enter_closed]) (simp add: cb_init_def)
  then have "cb_reach ?ini (?enter (?enter ?ini), Suc (Suc 0))"
    by (rule cb_reach.step [OF _ cb_step_enter_closed]) (simp add: cb_init_def)
  then have r: "cb_reach ?ini (?b, 0)"
    by (blast intro: cb_reach.step cb_step.leave)
  have b: "cb_state ?b = OPEN" "last_state_change (cb_stats ?b) = 11"
    "consecutive_successes (cb_stats ?b) = 1" "cb_recovery_timeout ?b = 30" "cb_success_threshold ?b = 2"
    by (simp_all add: cb_exit_def cb_defs cb_init_def circuit_stats_init_def)
  have "\<exists>b'. cb_before_call 50 50 ?b = Inr b' \<and> cb_state b' = HALF_OPEN
      \<and> cb_success_threshold b' = 2 \<and> consecutive_successes (cb_stats b') = 1"
    using b by (simp add: cb_before_call_def cb_poll_def cb_transition_def
        cb_recovery_timeout_elapsed_def Let_def)
  then obtain b' where b': "cb_before_call 50 50 ?b = Inr b'" "cb_state b' = HALF_OPEN"
    "cb_success_threshold b' = 2" "consecutive_successes (cb_stats b') = 1" by blast
  then have "cb_state (cb_exit None 51 51 b') = CLOSED"
    by (simp add: cb_exit_def cb_on_success_def cb_transition_def Let_def)
  with r b b' show ?thesis by blast
qed

text \<open>The gateway breaker fails fast as well: when a failure recorded at \<open>t\<close> opens it, every
  request checked before \<open>t + recovery_timeout\<close> is refused and leaves the breaker unchanged.\<close>

theorem gb_fail_fast:
  assumes "gb_state b \<noteq> OPEN" and "gb_state (gb_record_failure t b) = OPEN"
    and "\<forall>u \<in> set us. u < t + gb_recovery_timeout b"
  shows "fold (\<lambda>u c. snd (gb_allow_request u c)) us (gb_record_failure t b) = gb_record_failure t b
    \<and> (\<forall>u \<in> set us. \<not> fst (gb_allow_request u (gb_record_failure t b)))"
proof
  let ?b = "gb_record_failure t b"
  have polls: "gb_poll u ?b = ?b" if "u \<in> set us" for u
    using gw_cb.blocked_after_trip [OF assms(1,2) order.refl, of "[(u, u)]"] assms(3) that by simp
  then show "fold (\<lambda>u c. snd (gb_allow_request u c)) us ?b = ?b"
    by (induction us) (simp_all add: gb_allow_request_snd)
  show "\<forall>u \<in> set us. \<not> fst (gb_allow_request u ?b)"
    using polls assms(2) by (simp add: gb_allow_request_def Let_def)
qed

theorem gb_fail_fast_witness:
  "\<not> fst (gb_allow_request 20 (gb_record_failure 10 (gb_init 1 30 2)))"
  using gb_fail_fast [of "gb_init 1 30 2" 10 "[20]"]
  by (simp add: gb_init_def gb_record_failure_def Let_def)

text \<open>Whatever sequence of requests, successes, failures and resets a gateway breaker with
  positive thresholds sees, it is never CLOSED with a failure count at or above the failure
  threshold and never HALF_OPEN with a success count at or above the success threshold.\<close>

theorem gb_run_invariant:
  assumes "0 < ft" and "0 < sth"
  shows "gb_inv (gb_run es (gb_init ft rt sth))"
  using gb_run_inv [of "gb_init ft rt sth" es] assms by (simp add: gb_init_def gb_inv_def)

theorem gb_run_invariant_witness: "gb_inv (gb_run [GFailure 1, GAllow 40, GSuccess] (gb_init 1 30 2))"
  using gb_run_invariant [of 1 2 "[GFailure 1, GAllow 40, GSuccess]" 30] by simp

end
