(* ===== verification/Workflow_Graph.thy ===== *)
theory Workflow_Graph
  imports Prelude
begin

text \<open>
  The graph half of \<^verbatim>\<open>core/workflow/executor.py\<close>: building \<open>node_map\<close>, \<open>adjacency\<close> and
  \<open>in_degree\<close> from a VueFlow definition and Kahn's algorithm with cycle detection.

  The queue loop of \<open>_topological_sort\<close> is the function \<open>kahn\<close>; it ends on every input because a
  node is appended only when its positive degree drops to zero.  A missing key in \<open>in_degree\<close>
  raises \<open>KeyError\<close> in Python and is an error value here; on graphs built by \<open>build_graph\<close> it never
  occurs.
\<close>

section \<open>Workflow definitions\<close>

record 'v node_data =
  nd_type :: "string option"
  nd_params :: "(string, 'v) dict option"

record 'v node_def =
  node_id :: "string option"
  node_type_attr :: "string option"
  node_data_attr :: "'v node_data option"

record edge_def =
  edge_source :: "string option"
  edge_target :: "string option"

datatype wf_error = CycleDetectedError "string list" | WfKeyError string

type_synonym adjacency = "(string, string list) dict"
type_synonym in_degree = "(string, int) dict"

definition str_or :: "string option \<Rightarrow> string \<Rightarrow> string" where
  "str_or x d = (case x of None \<Rightarrow> d | Some s \<Rightarrow> s)"

definition get_node_type :: "'v node_def \<Rightarrow> string" where
  "get_node_type nd =
     (let dflt = str_or (node_type_attr nd) ''unknown'' in
      case node_data_attr nd of None \<Rightarrow> dflt | Some d \<Rightarrow> str_or (nd_type d) dflt)"

definition get_node_params :: "'v node_def \<Rightarrow> (string, 'v) dict" where
  "get_node_params nd =
     (case node_data_attr nd of
        None \<Rightarrow> []
      | Some d \<Rightarrow> (case nd_params d of None \<Rightarrow> [] | Some p \<Rightarrow> p))"

section \<open>Building the graph\<close>

definition build_node_map :: "'v node_def list \<Rightarrow> (string, 'v node_def) dict" where
  "build_node_map nodes = fold (\<lambda>n m. AList.update (str_or (node_id n) '''') n m) nodes []"

definition init_in_degree :: "(string, 'v node_def) dict \<Rightarrow> in_degree" where
  "init_in_degree nm = map (\<lambda>(nid, _). (nid, 0)) nm"

definition add_edge :: "(string, 'v node_def) dict \<Rightarrow> edge_def \<Rightarrow> adjacency \<times> in_degree
    \<Rightarrow> adjacency \<times> in_degree" where
  "add_edge nm e = (\<lambda>(adj, deg).
     let src = str_or (edge_source e) ''''; tgt = str_or (edge_target e) '''' in
     if dict_has nm src \<and> dict_has nm tgt
     then (AList.update src (dict_get_or adj src [] @ [tgt]) adj,
           AList.update tgt (dict_get_or deg tgt 0 + 1) deg)
     else (adj, deg))"

definition build_graph :: "(string, 'v node_def) dict \<Rightarrow> edge_def list \<Rightarrow> adjacency \<times> in_degree" where
  "build_graph nm es = fold (add_edge nm) es ([], init_in_degree nm)"

section \<open>Kahn's algorithm\<close>

text \<open>The inner loop over the downstream nodes of one node.\<close>

fun relax :: "string list \<Rightarrow> string list \<Rightarrow> in_degree \<Rightarrow> (wf_error, string list \<times> in_degree) res" where
  "relax [] q d = Inr (q, d)"
| "relax (x # xs) q d =
     (case map_of d x of
        None \<Rightarrow> Inl (WfKeyError x)
      | Some k \<Rightarrow> relax xs (if k - 1 = 0 then q @ [x] else q) (AList.update x (k - 1) d))"

definition positive_degrees :: "in_degree \<Rightarrow> nat" where
  "positive_degrees d = length (filter (\<lambda>p. snd p > 0) d)"

lemma positive_degrees_update:
  "map_of d x = Some k \<Longrightarrow>
    (if k - 1 = 0 then 1 else 0) + positive_degrees (AList.update x (k - 1) d) \<le> positive_degrees d"
  by (induction d) (auto simp: positive_degrees_def split: if_splits)

lemma relax_measure:
  "relax xs q d = Inr (q', d') \<Longrightarrow> length q' + positive_degrees d' \<le> length q + positive_degrees d"
proof (induction xs q d rule: relax.induct)
  case (2 x xs q d)
  from "2.prems" obtain k where k: "map_of d x = Some k"
    and r: "relax xs (if k - 1 = 0 then q @ [x] else q) (AList.update x (k - 1) d) = Inr (q', d')"
    by (auto split: option.splits)
  from "2.IH" [OF k r] positive_degrees_update [OF k] show ?case by (auto split: if_splits)
qed simp

function kahn :: "adjacency \<Rightarrow> string list \<Rightarrow> string list \<Rightarrow> in_degree \<Rightarrow> (wf_error, string list) res" where
  "kahn adj [] out d = Inr out"
| "kahn adj (nid # q) out d =
     (case relax (dict_get_or adj nid []) q d of
        Inl e \<Rightarrow> Inl e
      | Inr (q', d') \<Rightarrow> kahn adj q' (out @ [nid]) d')"
  by pat_completeness auto
termination
  by (relation "measure (\<lambda>(adj, q, out, d). length q + positive_degrees d)")
    (auto dest!: relax_measure)

definition topological_sort ::
  "(string, 'v node_def) dict \<Rightarrow> adjacency \<Rightarrow> in_degree \<Rightarrow> (wf_error, string list) res" where
  "topological_sort nm adj deg =
     (case kahn adj (map fst (filter (\<lambda>p. snd p = 0) deg)) [] deg of
        Inl e \<Rightarrow> Inl e
      | Inr out \<Rightarrow>
          if length out \<noteq> length nm
          then Inl (CycleDetectedError (filter (\<lambda>n. n \<notin> set out) (map fst nm)))
          else Inr out)"

section \<open>Specification\<close>

text \<open>The edges the executor keeps: both ends are nodes of the workflow.\<close>

definition valid_edges :: "(string, 'v node_def) dict \<Rightarrow> edge_def list \<Rightarrow> (string \<times> string) list" where
  "valid_edges nm es =
     filter (\<lambda>(u, v). dict_has nm u \<and> dict_has nm v)
       (map (\<lambda>e. (str_or (edge_source e) '''', str_or (edge_target e) '''')) es)"

definition before :: "'a list \<Rightarrow> 'a \<Rightarrow> 'a \<Rightarrow> bool" where
  "before xs u v \<longleftrightarrow> (\<exists>ys zs. xs = ys @ v # zs \<and> u \<in> set ys)"

definition topo_order :: "'a set \<Rightarrow> ('a \<times> 'a) set \<Rightarrow> 'a list \<Rightarrow> bool" where
  "topo_order V E xs \<longleftrightarrow> distinct xs \<and> set xs = V \<and> (\<forall>(u, v) \<in> E. before xs u v)"

section \<open>The built graph\<close>

lemma wf_build_node_map: "wf_dict (build_node_map ns)"
proof -
  have "wf_dict m \<Longrightarrow> wf_dict (fold (\<lambda>n m. AList.update (str_or (node_id n) '''') n m) ns m)" for m
    by (induction ns arbitrary: m) auto
  then show ?thesis by (simp add: build_node_map_def)
qed

lemma build_node_map_keys: "dict_has (build_node_map ns) k \<longleftrightarrow> (\<exists>n \<in> set ns. str_or (node_id n) '''' = k)"
proof -
  have "dict_has (fold (\<lambda>n m. AList.update (str_or (node_id n) '''') n m) ns m) k
      \<longleftrightarrow> dict_has m k \<or> (\<exists>n \<in> set ns. str_or (node_id n) '''' = k)" for m
    by (induction ns arbitrary: m) (auto simp: dict_simps)
  from this [of "[]"] show ?thesis by (simp add: build_node_map_def dict_has_def)
qed

definition out_edges :: "('a \<times> 'a) list \<Rightarrow> 'a \<Rightarrow> 'a list" where
  "out_edges es u = map snd (filter (\<lambda>e. fst e = u) es)"

definition pending :: "('a \<times> 'a) list \<Rightarrow> 'a set \<Rightarrow> 'a \<Rightarrow> nat" where
  "pending es P v = length (filter (\<lambda>e. snd e = v \<and> fst e \<notin> P) es)"

lemma valid_edges_Cons:
  "valid_edges nm (e # es) =
    (let u = str_or (edge_source e) ''''; v = str_or (edge_target e) '''' in
     if dict_has nm u \<and> dict_has nm v then (u, v) # valid_edges nm es else valid_edges nm es)"
  by (simp add: valid_edges_def Let_def)

lemma add_edge_pair:
  "add_edge nm e (adj, deg) =
    (let u = str_or (edge_source e) ''''; v = str_or (edge_target e) '''' in
     if dict_has nm u \<and> dict_has nm v
     then (AList.update u (dict_get_or adj u [] @ [v]) adj, AList.update v (dict_get_or deg v 0 + 1) deg)
     else (adj, deg))"
  by (simp add: add_edge_def)

lemma build_graph_fold:
  assumes "fold (add_edge nm) es (adj, deg) = (adj', deg')"
    and "\<forall>v. dict_has deg v \<longleftrightarrow> dict_has nm v"
  shows "(\<forall>u. dict_get_or adj' u [] = dict_get_or adj u [] @ out_edges (valid_edges nm es) u)
    \<and> (\<forall>v. dict_has nm v \<longrightarrow> map_of deg' v =
          Some (dict_get_or deg v 0 + int (pending (valid_edges nm es) {} v)))
    \<and> map fst deg' = map fst deg"
  using assms
proof (induction es arbitrary: adj deg)
  case Nil
  then show ?case
    by (auto simp: valid_edges_def out_edges_def pending_def dict_get_or_def dict_has_map_of
        split: option.splits) (metis not_None_eq)
next
  case (Cons e es)
  let ?u = "str_or (edge_source e) ''''" and ?v = "str_or (edge_target e) ''''"
  show ?case
  proof (cases "dict_has nm ?u \<and> dict_has nm ?v")
    case True
    let ?adj = "AList.update ?u (dict_get_or adj ?u [] @ [?v]) adj"
    let ?deg = "AList.update ?v (dict_get_or deg ?v 0 + 1) deg"
    from Cons.prems True have f: "fold (add_edge nm) es (?adj, ?deg) = (adj', deg')"
      by (simp add: add_edge_pair Let_def)
    have h: "\<forall>v. dict_has ?deg v \<longleftrightarrow> dict_has nm v"
      using Cons.prems(2) True by (auto simp: dict_simps)
    have "map fst ?deg = map fst deg"
      using Cons.prems(2) True by (simp add: update_keys dict_has_def)
    with Cons.IH [OF f h] True show ?thesis
      by (auto simp: valid_edges_Cons out_edges_def pending_def dict_get_or_def dict_simps)
  next
    case False
    with Cons show ?thesis by (auto simp: valid_edges_Cons add_edge_pair Let_def)
  qed
qed

lemma build_graph_spec:
  assumes "build_graph nm es = (adj, deg)"
  shows "dict_get_or adj u [] = out_edges (valid_edges nm es) u"
    and "dict_has nm v \<Longrightarrow> map_of deg v = Some (int (pending (valid_edges nm es) {} v))"
    and "map fst deg = map fst nm"
proof -
  have k: "map fst (init_in_degree nm) = map fst nm"
    by (induction nm) (auto simp: init_in_degree_def)
  have h: "\<forall>v. dict_has (init_in_degree nm) v \<longleftrightarrow> dict_has nm v"
    unfolding dict_has_def by (metis k list.set_map)
  have z: "dict_get_or (init_in_degree nm) v 0 = 0" for v
    by (induction nm) (auto simp: init_in_degree_def dict_get_or_def)
  from build_graph_fold [OF assms [unfolded build_graph_def] h] k z
  show "dict_get_or adj u [] = out_edges (valid_edges nm es) u"
    and "dict_has nm v \<Longrightarrow> map_of deg v = Some (int (pending (valid_edges nm es) {} v))"
    and "map fst deg = map fst nm"
    by (auto simp: dict_get_or_def)
qed

text \<open>The keys of the adjacency are the sources in the order of their first edge.\<close>

definition first_occurrences :: "'a list \<Rightarrow> 'a list" where
  "first_occurrences xs = rev (remdups (rev xs))"

lemma first_occurrences_snoc:
  "first_occurrences (xs @ [x]) = (if x \<in> set xs then first_occurrences xs else first_occurrences xs @ [x])"
  by (simp add: first_occurrences_def)

lemma set_first_occurrences [simp]: "set (first_occurrences xs) = set xs"
  by (simp add: first_occurrences_def)

lemma distinct_first_occurrences: "distinct (first_occurrences xs)"
  by (simp add: first_occurrences_def)

lemma build_graph_keys:
  "map fst (fst (build_graph nm es)) = first_occurrences (map fst (valid_edges nm es))"
proof (induction es rule: rev_induct)
  case Nil
  show ?case by (simp add: build_graph_def valid_edges_def first_occurrences_def)
next
  case (snoc e es)
  obtain adj deg where g: "fold (add_edge nm) es ([], init_in_degree nm) = (adj, deg)" by fastforce
  with snoc have k: "map fst adj = first_occurrences (map fst (valid_edges nm es))" by (simp add: build_graph_def)
  then have "set (map fst adj) = set (map fst (valid_edges nm es))" by simp
  moreover have "valid_edges nm (es @ [e]) = valid_edges nm es @ valid_edges nm [e]" by (simp add: valid_edges_def)
  ultimately show ?case using k
    by (simp add: build_graph_def g add_edge_pair Let_def update_keys valid_edges_def first_occurrences_snoc)
qed

section \<open>The loop invariant\<close>

lemma relax_spec:
  "(\<And>x. x \<in> set xs \<Longrightarrow> \<exists>k. map_of d x = Some k \<and> int (count_list xs x) \<le> k) \<Longrightarrow>
    \<exists>r d'. relax xs q d = Inr (q @ r, d') \<and> map fst d' = map fst d
      \<and> (\<forall>x. map_of d' x = map_option (\<lambda>k. k - int (count_list xs x)) (map_of d x))
      \<and> distinct r \<and> set r = {x \<in> set xs. map_of d x = Some (int (count_list xs x))}"
proof (induction xs arbitrary: q d)
  case Nil
  then show ?case by (simp add: option.map_ident)
next
  case (Cons x xs)
  from Cons.prems [of x] obtain k where k: "map_of d x = Some k" "int (count_list xs x) + 1 \<le> k"
    by auto
  let ?d = "AList.update x (k - 1) d" and ?q = "if k - 1 = 0 then q @ [x] else q"
  have m: "map_of ?d y = (if y = x then Some (k - 1) else map_of d y)" for y
    by (simp add: map_of_update_dict)
  have "\<exists>j. map_of ?d y = Some j \<and> int (count_list xs y) \<le> j" if "y \<in> set xs" for y
    using Cons.prems [of y] that k by (auto simp: m)
  from Cons.IH [OF this, of ?q] obtain r d' where r: "relax xs ?q ?d = Inr (?q @ r, d')"
    "map fst d' = map fst ?d"
    "\<forall>y. map_of d' y = map_option (\<lambda>k. k - int (count_list xs y)) (map_of ?d y)"
    "distinct r" "set r = {y \<in> set xs. map_of ?d y = Some (int (count_list xs y))}" by blast
  have keys: "map fst ?d = map fst d"
    using k(1) by (simp add: update_keys) (metis map_of_SomeD fst_conv image_eqI)
  show ?case
  proof (cases "k - 1 = 0")
    case True
    with k have "x \<notin> set xs" by (auto simp: count_list_0_iff [symmetric])
    with r k True keys show ?thesis by (intro exI [of _ "x # r"] exI [of _ d']) (auto simp: map_of_update_dict)
  next
    case False
    have "x \<in> set xs" if "k = int (count_list xs x) + 1"
      using that False by (cases "x \<in> set xs") auto
    with r k False keys show ?thesis by (intro exI [of _ r] exI [of _ d']) (auto simp: map_of_update_dict)
  qed
qed

text \<open>
  \<open>es\<close> are the kept edges, \<open>V\<close> the nodes; \<open>out\<close> has been emitted, \<open>q\<close> is queued and \<open>d\<close> counts,
  for every node, the edges whose source has not been emitted.
\<close>

definition kahn_inv :: "(string \<times> string) list \<Rightarrow> string set \<Rightarrow> string list \<Rightarrow> string list
    \<Rightarrow> in_degree \<Rightarrow> bool" where
  "kahn_inv es V q out d \<longleftrightarrow>
     distinct (out @ q) \<and> set (out @ q) = {v \<in> V. pending es (set out) v = 0}
     \<and> (\<forall>v \<in> V. map_of d v = Some (int (pending es (set out) v)))
     \<and> (\<forall>(u, v) \<in> set es. v \<in> set out \<longrightarrow> before out u v)"

lemma pending_zero: "pending es P v = 0 \<longleftrightarrow> (\<forall>u. (u, v) \<in> set es \<longrightarrow> u \<in> P)"
  by (auto simp: pending_def filter_empty_conv)

lemma pending_insert:
  "n \<notin> P \<Longrightarrow> pending es P v = pending es (insert n P) v + count_list (out_edges es n) v"
  by (induction es) (auto simp: pending_def out_edges_def)

lemma before_append: "before xs u v \<Longrightarrow> before (xs @ ys) u v"
  by (auto simp: before_def) (metis append.assoc append_Cons)

lemma before_last: "u \<in> set xs \<Longrightarrow> before (xs @ [v]) u v"
  by (auto simp: before_def)

lemma kahn_inv_step:
  assumes inv: "kahn_inv es V (n # q) out d"
    and E: "\<forall>(u, v) \<in> set es. u \<in> V \<and> v \<in> V"
  shows "\<exists>q' d'. relax (out_edges es n) q d = Inr (q', d') \<and> kahn_inv es V q' (out @ [n]) d'"
proof -
  let ?xs = "out_edges es n" and ?P = "set out"
  from inv have n: "n \<in> V" "n \<notin> ?P" "pending es ?P n = 0" and dq: "distinct (out @ n # q)"
    and S: "set (out @ n # q) = {v \<in> V. pending es ?P v = 0}"
    and D: "\<forall>v \<in> V. map_of d v = Some (int (pending es ?P v))"
    and B: "\<forall>(u, v) \<in> set es. v \<in> ?P \<longrightarrow> before out u v"
    by (auto simp: kahn_inv_def)
  have split: "pending es ?P v = pending es (insert n ?P) v + count_list ?xs v" for v
    using n(2) by (rule pending_insert)
  have xsV: "set ?xs \<subseteq> V" using E by (auto simp: out_edges_def)
  have "\<exists>k. map_of d x = Some k \<and> int (count_list ?xs x) \<le> k" if "x \<in> set ?xs" for x
    using D xsV that split [of x] by auto
  from relax_spec [OF this, of q] obtain r d' where r: "relax ?xs q d = Inr (q @ r, d')"
    "\<forall>x. map_of d' x = map_option (\<lambda>k. k - int (count_list ?xs x)) (map_of d x)"
    "distinct r" "set r = {x \<in> set ?xs. map_of d x = Some (int (count_list ?xs x))}" by blast
  have r_new: "set r = {v \<in> V. pending es ?P v \<noteq> 0 \<and> pending es (insert n ?P) v = 0}"
    using r(4) D xsV split by (auto simp: count_list_0_iff)
  have mono: "pending es (insert n ?P) v = 0" if "pending es ?P v = 0" for v
    using split [of v] that by simp
  have "set (out @ [n] @ q @ r) = {v \<in> V. pending es (insert n ?P) v = 0}"
    using S r_new mono by auto
  moreover have "distinct (out @ [n] @ q @ r)"
    using dq r(3) r_new S by auto
  moreover have "\<forall>v \<in> V. map_of d' v = Some (int (pending es (insert n ?P) v))"
    using r(2) D split by simp
  moreover have "\<forall>(u, v) \<in> set es. v \<in> set (out @ [n]) \<longrightarrow> before (out @ [n]) u v"
    using B n(3) by (auto simp: pending_zero intro: before_append before_last)
  ultimately show ?thesis using r(1) by (auto simp: kahn_inv_def)
qed

lemma kahn_result:
  assumes "kahn_inv es V q out d" and "\<forall>(u, v) \<in> set es. u \<in> V \<and> v \<in> V"
    and "\<forall>u. dict_get_or adj u [] = out_edges es u"
  shows "\<exists>xs d'. kahn adj q out d = Inr xs \<and> kahn_inv es V [] xs d'"
  using assms
proof (induction adj q out d rule: kahn.induct)
  case (2 adj n q out d)
  from kahn_inv_step [OF "2.prems"(1,2)] obtain q' d'
    where step: "relax (dict_get_or adj n []) q d = Inr (q', d')" "kahn_inv es V q' (out @ [n]) d'"
    using "2.prems"(3) by auto
  from "2.IH" [OF step(1) refl step(2) "2.prems"(2,3)] step(1) show ?case by simp
qed auto

lemma no_minimal_cyclic:
  assumes "finite E" and "R \<noteq> {}" and "\<And>v. v \<in> R \<Longrightarrow> \<exists>u \<in> R. (u, v) \<in> E"
  shows "\<not> acyclic E"
proof
  assume "acyclic E"
  with assms(1) have "wf E" by (rule finite_acyclic_wf)
  with assms(2) obtain z where "z \<in> R" "\<And>y. (y, z) \<in> E \<Longrightarrow> y \<notin> R"
    by (auto simp: wf_eq_minimal)
  with assms(3) show False by blast
qed

lemma topo_order_acyclic:
  assumes "topo_order V E xs"
  shows "acyclic E"
proof -
  define pos where "pos = (\<lambda>x. LEAST i. xs ! i = x \<and> i < length xs)"
  have "pos u < pos v" if uv: "(u, v) \<in> E" for u v
  proof -
    from assms uv obtain ys zs where xs: "xs = ys @ v # zs" "u \<in> set ys"
      by (auto simp: topo_order_def before_def)
    from assms have d: "distinct xs" by (simp add: topo_order_def)
    from xs(2) obtain i where i: "i < length ys" "ys ! i = u" by (auto simp: in_set_conv_nth)
    have p: "pos (xs ! j) = j" if "j < length xs" for j
      unfolding pos_def by (rule Least_equality) (use d that in \<open>auto simp: nth_eq_iff_index_eq\<close>)
    have "xs ! i = u" "xs ! length ys = v" using i xs(1) by (auto simp: nth_append)
    with p [of i] p [of "length ys"] i xs(1) show ?thesis by simp
  qed
  then have "E \<subseteq> measure pos" by auto
  then show ?thesis by (meson acyclic_subset wf_acyclic wf_measure)
qed

lemma kahn_inv_initial:
  assumes "build_graph nm es = (adj, deg)" and "wf_dict nm"
  shows "kahn_inv (valid_edges nm es) (fst ` set nm) (map fst (filter (\<lambda>p. snd p = 0) deg)) [] deg"
proof -
  have keys: "map fst deg = map fst nm" by (rule build_graph_spec(3) [OF assms(1)])
  with assms(2) have wf: "wf_dict deg" by (simp add: wf_dict_def)
  have D: "map_of deg v = Some (int (pending (valid_edges nm es) {} v))" if "v \<in> fst ` set nm" for v
    using build_graph_spec(2) [OF assms(1)] that by (simp add: dict_has_def)
  have V: "fst ` set deg = fst ` set nm" using keys by (metis list.set_map)
  have "set (map fst (filter (\<lambda>p. snd p = 0) deg)) =
      {v \<in> fst ` set nm. pending (valid_edges nm es) {} v = 0}"
  proof (intro set_eqI iffI)
    fix v
    assume "v \<in> set (map fst (filter (\<lambda>p. snd p = 0) deg))"
    then have m: "(v, 0) \<in> set deg" by auto
    then have "v \<in> fst ` set nm" using V by force
    moreover from m wf have "map_of deg v = Some 0" by (simp add: map_of_wf_in_set)
    ultimately show "v \<in> {v \<in> fst ` set nm. pending (valid_edges nm es) {} v = 0}"
      using D by simp
  next
    fix v
    assume "v \<in> {v \<in> fst ` set nm. pending (valid_edges nm es) {} v = 0}"
    with D [of v] have "map_of deg v = Some 0" by simp
    then have "(v, 0) \<in> set deg" by (rule map_of_SomeD)
    then show "v \<in> set (map fst (filter (\<lambda>p. snd p = 0) deg))" by force
  qed
  moreover have "distinct (map fst (filter (\<lambda>p. snd p = 0) deg))"
    using wf by (simp add: wf_dict_def distinct_map_filter)
  ultimately show ?thesis using D by (simp add: kahn_inv_def)
qed

lemma valid_edges_nodes: "(u, v) \<in> set (valid_edges nm es) \<Longrightarrow> u \<in> fst ` set nm \<and> v \<in> fst ` set nm"
  by (auto simp: valid_edges_def dict_has_def)

lemma kahn_built:
  assumes "build_graph nm es = (adj, deg)" and "wf_dict nm"
  shows "\<exists>xs d. kahn adj (map fst (filter (\<lambda>p. snd p = 0) deg)) [] deg = Inr xs
    \<and> kahn_inv (valid_edges nm es) (fst ` set nm) [] xs d"
proof (rule kahn_result)
  show "kahn_inv (valid_edges nm es) (fst ` set nm) (map fst (filter (\<lambda>p. snd p = 0) deg)) [] deg"
    by (rule kahn_inv_initial [OF assms])
  show "\<forall>(u, v) \<in> set (valid_edges nm es). u \<in> fst ` set nm \<and> v \<in> fst ` set nm"
    by (auto dest: valid_edges_nodes)
  show "\<forall>u. dict_get_or adj u [] = out_edges (valid_edges nm es) u"
    using build_graph_spec(1) [OF assms(1)] by blast
qed

lemma topological_sort_cases:
  assumes "build_graph nm es = (adj, deg)" and "wf_dict nm"
  obtains (sorted) xs where "topological_sort nm adj deg = Inr xs"
      "topo_order (fst ` set nm) (set (valid_edges nm es)) xs"
  | (cyclic) ns where "topological_sort nm adj deg = Inl (CycleDetectedError ns)"
      "\<not> acyclic (set (valid_edges nm es))" "set ns \<subseteq> fst ` set nm" "ns \<noteq> []"
      "\<And>v. v \<in> set ns \<Longrightarrow> \<exists>u \<in> set ns. (u, v) \<in> set (valid_edges nm es)"
proof -
  let ?E = "valid_edges nm es" and ?V = "fst ` set nm"
  from kahn_built [OF assms] obtain xs d
    where k: "kahn adj (map fst (filter (\<lambda>p. snd p = 0) deg)) [] deg = Inr xs"
      and inv: "kahn_inv ?E ?V [] xs d" by blast
  from inv have dx: "distinct xs" and sx: "set xs = {v \<in> ?V. pending ?E (set xs) v = 0}"
    and bx: "\<forall>(u, v) \<in> set ?E. v \<in> set xs \<longrightarrow> before xs u v" by (auto simp: kahn_inv_def)
  have card: "card ?V = length nm" using assms(2) by (metis distinct_card length_map list.set_map wf_dict_def)
  show thesis
  proof (cases "length xs = length nm")
    case True
    with dx card have "card (set xs) = card ?V" by (simp add: distinct_card)
    then have "set xs = ?V" using sx by (intro card_subset_eq) auto
    moreover from this bx have "\<forall>(u, v) \<in> set ?E. before xs u v"
      by (auto dest: valid_edges_nodes)
    ultimately have "topo_order ?V (set ?E) xs" using dx by (simp add: topo_order_def)
    then show thesis using sorted k True by (simp add: topological_sort_def)
  next
    case False
    let ?ns = "filter (\<lambda>n. n \<notin> set xs) (map fst nm)"
    have "set xs \<noteq> ?V" using False dx card by (metis distinct_card)
    then have ne: "?ns \<noteq> []" using sx by (auto simp: filter_empty_conv)
    have pred: "\<exists>u \<in> set ?ns. (u, v) \<in> set ?E" if "v \<in> set ?ns" for v
    proof -
      from that sx have "v \<in> ?V" "pending ?E (set xs) v \<noteq> 0" by auto
      then obtain u where "(u, v) \<in> set ?E" "u \<notin> set xs" by (auto simp: pending_zero)
      then show ?thesis by (auto dest: valid_edges_nodes)
    qed
    have "\<not> acyclic (set ?E)"
      by (rule no_minimal_cyclic [of _ "set ?ns"]) (use ne pred in \<open>auto simp del: set_filter\<close>)
    then show thesis using k False ne pred by (intro cyclic [of ?ns]) (auto simp: topological_sort_def)
  qed
qed

section \<open>A sample workflow\<close>

text \<open>Two nodes, one edge from the second listed to the first and one dangling edge.\<close>

definition sample_nodes :: "unit node_def list" where
  "sample_nodes =
     [\<lparr>node_id = Some ''b'', node_type_attr = Some ''transform'', node_data_attr = None\<rparr>,
      \<lparr>node_id = Some ''a'', node_type_attr = Some ''data_input'', node_data_attr = None\<rparr>]"

definition sample_edges :: "edge_def list" where
  "sample_edges = [\<lparr>edge_source = Some ''a'', edge_target = Some ''b''\<rparr>,
                   \<lparr>edge_source = Some ''a'', edge_target = Some ''zz''\<rparr>]"

definition loop_edges :: "edge_def list" where
  "loop_edges = [\<lparr>edge_source = Some ''a'', edge_target = Some ''a''\<rparr>]"

lemma sample_node_keys: "fst ` set (build_node_map sample_nodes) = {''a'', ''b''}"
  by (auto simp: build_node_map_def sample_nodes_def str_or_def)

lemma sample_valid_edges: "valid_edges (build_node_map sample_nodes) sample_edges = [(''a'', ''b'')]"
  by (simp add: valid_edges_def sample_edges_def dict_has_def sample_node_keys str_or_def)

section \<open>Properties\<close>

text \<open>C2. Topological sort: for any node list and any edge list (duplicate ids, dangling and
  parallel edges included), \<open>_topological_sort\<close> on the graph \<open>execute\<close> builds returns an order of
  exactly the workflow's nodes, each once and every kept edge forward, whenever the kept edges have
  no cycle.\<close>

theorem topological_sort_complete:
  assumes "nm = build_node_map nodes" and "build_graph nm es = (adj, deg)"
    and "acyclic (set (valid_edges nm es))"
  shows "\<exists>xs. topological_sort nm adj deg = Inr xs
    \<and> topo_order (fst ` set nm) (set (valid_edges nm es)) xs"
proof -
  have "wf_dict nm" unfolding assms(1) by (rule wf_build_node_map)
  from topological_sort_cases [OF assms(2) this] assms(3) show ?thesis by metis
qed

theorem topological_sort_complete_witness:
  "\<exists>xs. topological_sort (build_node_map sample_nodes)
       (fst (build_graph (build_node_map sample_nodes) sample_edges))
       (snd (build_graph (build_node_map sample_nodes) sample_edges)) = Inr xs
     \<and> topo_order {''a'', ''b''} {(''a'', ''b'')} xs"
proof -
  have "acyclic (set (valid_edges (build_node_map sample_nodes) sample_edges))"
    by (simp add: sample_valid_edges acyclic_insert) (simp add: acyclic_def)
  from topological_sort_complete [OF refl prod.collapse [symmetric] this] show ?thesis
    by (simp add: sample_valid_edges sample_node_keys)
qed

text \<open>C29. Cycle detection is exact: \<open>_topological_sort\<close> raises CycleDetectedError if and only if the
  kept edges contain a cycle, it never fails in another way, and the nodes it names are workflow
  nodes each of which has a predecessor among the named ones.\<close>

theorem cycle_detection_exact:
  assumes "nm = build_node_map nodes" and "build_graph nm es = (adj, deg)"
  shows "((\<exists>ns. topological_sort nm adj deg = Inl (CycleDetectedError ns))
      \<longleftrightarrow> \<not> acyclic (set (valid_edges nm es)))
    \<and> (\<forall>k. topological_sort nm adj deg \<noteq> Inl (WfKeyError k))
    \<and> (\<forall>ns. topological_sort nm adj deg = Inl (CycleDetectedError ns) \<longrightarrow>
         ns \<noteq> [] \<and> set ns \<subseteq> fst ` set nm
         \<and> (\<forall>v \<in> set ns. \<exists>u \<in> set ns. (u, v) \<in> set (valid_edges nm es)))"
proof -
  have "wf_dict nm" unfolding assms(1) by (rule wf_build_node_map)
  then show ?thesis
    by (rule topological_sort_cases [OF assms(2)]) (auto dest: topo_order_acyclic)
qed

theorem cycle_detection_exact_witness:
  "\<exists>ns. topological_sort (build_node_map sample_nodes)
       (fst (build_graph (build_node_map sample_nodes) loop_edges))
       (snd (build_graph (build_node_map sample_nodes) loop_edges)) = Inl (CycleDetectedError ns)"
proof -
  have "valid_edges (build_node_map sample_nodes) loop_edges = [(''a'', ''a'')]"
    by (simp add: valid_edges_def loop_edges_def dict_has_def sample_node_keys str_or_def)
  then have "\<not> acyclic (set (valid_edges (build_node_map sample_nodes) loop_edges))"
    by (auto simp: acyclic_def)
  with cycle_detection_exact [OF refl prod.collapse [symmetric], of sample_nodes loop_edges]
  show ?thesis by blast
qed

end
