(* ===== verification/Workflow_Executor.thy ===== *)
theory Workflow_Executor
  imports Workflow_Graph "HOL-Library.List_Lexorder" "HOL-Library.Char_ord"
begin

text \<open>
  \<^verbatim>\<open>core/workflow/models.py\<close>, \<^verbatim>\<open>core/workflow/registry.py\<close> and \<open>WorkflowExecutor.execute\<close>.

  What the executor cannot decide itself is an environment: which cancellations arrive before which
  node, what a node's \<open>execute\<close> does (an output, a timeout of \<open>asyncio.wait_for\<close> or an exception),
  and the clock readings around it.  The node function is indexed by the node id so that two nodes
  of one type may behave differently.  Status callbacks never influence the run (their exceptions
  are swallowed), so they are recorded as a list of notifications.
\<close>

section \<open>Data model\<close>

datatype execution_status = PENDING | RUNNING | SUCCESS | ERROR | CANCELLED

datatype node_status = NIdle | NRunning | NSuccess | NError | NSkipped

datatype trigger_type = MANUAL | SCHEDULE | WEBHOOK | EVENT

record 'i node_execution_result =
  nr_node_id :: string
  nr_node_type :: string
  nr_status :: node_status
  nr_input_data :: "'i list"
  nr_output_data :: "'i list"
  nr_error_message :: string
  nr_started_at :: "clock option"
  nr_finished_at :: "clock option"
  nr_duration_ms :: real

record 'i execution_result =
  execution_id :: string
  workflow_id :: string
  status :: execution_status
  trigger :: trigger_type
  node_results :: "(string, 'i node_execution_result) dict"
  started_at :: clock
  finished_at :: "clock option"
  error_message :: string

definition node_result_init :: "string \<Rightarrow> string \<Rightarrow> 'i node_execution_result" where
  "node_result_init nid ty = \<lparr>nr_node_id = nid, nr_node_type = ty, nr_status = NIdle,
     nr_input_data = [], nr_output_data = [], nr_error_message = [], nr_started_at = None,
     nr_finished_at = None, nr_duration_ms = 0\<rparr>"

definition execution_result_init ::
  "string \<Rightarrow> string \<Rightarrow> trigger_type \<Rightarrow> clock \<Rightarrow> 'i execution_result" where
  "execution_result_init eid wid trig now = \<lparr>execution_id = eid, workflow_id = wid,
     status = PENDING, trigger = trig, node_results = [], started_at = now, finished_at = None,
     error_message = []\<rparr>"

section \<open>The node registry\<close>

text \<open>
  A node class: its class attributes and what \<open>execute\<close> does on an input (instances carry no state
  of their own).  The first argument of the behaviour is the id of the node that runs.
\<close>

datatype 'i node_outcome = Output "'i list" | TimedOut | Raised string

record ('i, 'v) node_class =
  nc_name :: string
  nc_display_name :: string
  nc_description :: string
  nc_category :: string
  nc_schema :: "(string, 'v) dict"
  nc_execute :: "string \<Rightarrow> 'i list \<Rightarrow> (string, 'v) dict \<Rightarrow> 'i node_outcome"

type_synonym ('i, 'v) registry = "(string, ('i, 'v) node_class) dict"

datatype registry_error = NoNameAttribute | UnknownNodeType string "string list"

definition registry_register ::
  "('i, 'v) node_class \<Rightarrow> ('i, 'v) registry \<Rightarrow> (registry_error, ('i, 'v) registry) res" where
  "registry_register c reg =
     (if nc_name c = [] then Inl NoNameAttribute else Inr (AList.update (nc_name c) c reg))"

definition registry_get :: "('i, 'v) registry \<Rightarrow> string \<Rightarrow> (registry_error, ('i, 'v) node_class) res" where
  "registry_get reg ty =
     (case map_of reg ty of
        None \<Rightarrow> Inl (UnknownNodeType ty (sort (map fst reg)))
      | Some c \<Rightarrow> Inr c)"

definition registry_has :: "('i, 'v) registry \<Rightarrow> string \<Rightarrow> bool" where
  "registry_has reg ty \<longleftrightarrow> dict_has reg ty"

definition registry_list_types :: "('i, 'v) registry
    \<Rightarrow> (string \<times> string \<times> string \<times> string \<times> (string, 'v) dict) list" where
  "registry_list_types reg =
     map (\<lambda>(n, c). (n, nc_display_name c, nc_description c, nc_category c, nc_schema c))
       (sort_key fst reg)"

definition registry_clear :: "('i, 'v) registry \<Rightarrow> ('i, 'v) registry" where
  "registry_clear reg = []"

section \<open>Environment and executor state\<close>

datatype note_extra =
    XWorkflow execution_status string
  | XError string
  | XDone real nat
  | XNone

datatype notification = Notify string string node_status note_extra

text \<open>\<open>env_timeout\<close> is the text of the configured \<open>_node_timeout\<close>.\<close>

record exec_env =
  env_cancels :: "string \<Rightarrow> string list"
  env_start :: "string \<Rightarrow> clock"
  env_finish :: "string \<Rightarrow> clock"
  env_end :: clock
  env_timeout :: string

record 'i exec_state =
  xs_result :: "'i execution_result"
  xs_outputs :: "(string, 'i list) dict"
  xs_cancelled :: "string list"
  xs_notes :: "notification list"

definition cancel :: "string \<Rightarrow> string list \<Rightarrow> string list" where
  "cancel eid cs = (if eid \<in> set cs then cs else eid # cs)"

definition notify :: "string \<Rightarrow> node_status \<Rightarrow> note_extra \<Rightarrow> 'i exec_state \<Rightarrow> 'i exec_state" where
  "notify nid st x s =
     s\<lparr>xs_notes := xs_notes s @ [Notify (execution_id (xs_result s)) nid st x]\<rparr>"

definition set_node_result ::
  "string \<Rightarrow> 'i node_execution_result \<Rightarrow> 'i exec_state \<Rightarrow> 'i exec_state" where
  "set_node_result nid nr s =
     s\<lparr>xs_result := (xs_result s)\<lparr>node_results := AList.update nid nr (node_results (xs_result s))\<rparr>\<rparr>"

definition set_outcome :: "execution_status \<Rightarrow> string \<Rightarrow> 'i exec_state \<Rightarrow> 'i exec_state" where
  "set_outcome st msg s = s\<lparr>xs_result := (xs_result s)\<lparr>status := st, error_message := msg\<rparr>\<rparr>"

definition upstream_ids :: "adjacency \<Rightarrow> string \<Rightarrow> string list" where
  "upstream_ids adj nid = map fst (filter (\<lambda>(src, targets). nid \<in> set targets) adj)"

definition gather_inputs ::
  "string \<Rightarrow> adjacency \<Rightarrow> (string, 'i list) dict \<Rightarrow> 'i list option \<Rightarrow> 'i list" where
  "gather_inputs nid adj outs ini =
     (let upstream = upstream_ids adj nid in
      if upstream = [] then (case ini of None \<Rightarrow> [] | Some xs \<Rightarrow> xs)
      else concat (map (\<lambda>u. dict_get_or outs u []) upstream))"

definition run_node :: "('i, 'v) registry \<Rightarrow> string \<Rightarrow> string \<Rightarrow> 'i list \<Rightarrow> (string, 'v) dict
    \<Rightarrow> 'i node_outcome" where
  "run_node reg nid ty inp params =
     (case registry_get reg ty of
        Inl (UnknownNodeType t av) \<Rightarrow>
          Raised (dquote (''Unknown node type '' @ squote t @ ''. Available: '' @ join_with '', '' av))
      | Inl NoNameAttribute \<Rightarrow> Raised []
      | Inr c \<Rightarrow> nc_execute c nid inp params)"

text \<open>\<open>NodeRegistry.get\<close> raises only KeyError, whose text is the quoted message.\<close>

section \<open>One node\<close>

text \<open>
  The body of the \<open>for nid in sorted_ids\<close> loop after the cancellation check.  The boolean says
  whether the loop goes on (no \<open>break\<close>).
\<close>

definition exec_node :: "exec_env \<Rightarrow> ('i, 'v) registry \<Rightarrow> adjacency \<Rightarrow> 'i list option \<Rightarrow> string \<Rightarrow> 'v node_def
    \<Rightarrow> 'i exec_state \<Rightarrow> bool \<times> 'i exec_state" where
  "exec_node env reg adj ini nid nd s =
     (let ty = get_node_type nd;
          nr = (case map_of (node_results (xs_result s)) nid of
                  None \<Rightarrow> node_result_init nid ty | Some r \<Rightarrow> r) in
      if \<not> registry_has reg ty
      then (let msg = ''Unknown node type: '' @ ty;
                s1 = set_node_result nid (nr\<lparr>nr_status := NError, nr_error_message := msg\<rparr>) s;
                s2 = set_outcome ERROR (''Node '' @ squote nid @ '' has unknown type: '' @ ty) s1
            in (False, notify nid NError (XError msg) s2))
      else (let inp = gather_inputs nid adj (xs_outputs s) ini;
                params = get_node_params nd;
                t0 = env_start env nid;
                t1 = env_finish env nid;
                nr1 = nr\<lparr>nr_input_data := inp, nr_status := NRunning, nr_started_at := Some t0\<rparr>;
                s1 = notify nid NRunning XNone (set_node_result nid nr1 s)
            in case run_node reg nid ty inp params of
                 Output out \<Rightarrow>
                   (let dur = (t1 - t0) * 1000;
                        nr2 = nr1\<lparr>nr_output_data := out, nr_status := NSuccess,
                                  nr_finished_at := Some t1, nr_duration_ms := dur\<rparr>;
                        s2 = set_node_result nid nr2 s1;
                        s3 = s2\<lparr>xs_outputs := AList.update nid out (xs_outputs s2)\<rparr>
                    in (True, notify nid NSuccess (XDone dur (length out)) s3))
               | TimedOut \<Rightarrow>
                   (let msg = ''Node execution timed out after '' @ env_timeout env @ ''s'';
                        nr2 = nr1\<lparr>nr_status := NError, nr_error_message := msg,
                                  nr_finished_at := Some t1\<rparr>;
                        s2 = set_outcome ERROR (''Node '' @ squote nid @ '' timed out'')
                               (set_node_result nid nr2 s1)
                    in (False, notify nid NError (XError msg) s2))
               | Raised msg \<Rightarrow>
                   (let nr2 = nr1\<lparr>nr_status := NError, nr_error_message := msg,
                                  nr_finished_at := Some t1\<rparr>;
                        s2 = set_outcome ERROR (''Node '' @ squote nid @ '' failed: '' @ msg)
                               (set_node_result nid nr2 s1)
                    in (False, notify nid NError (XError msg) s2))))"

section \<open>The loop\<close>

text \<open>
  The end of the list is the \<open>else\<close> branch of the loop.  A node id without a definition would raise
  inside the outer \<open>try\<close>.
\<close>

fun exec_loop :: "exec_env \<Rightarrow> ('i, 'v) registry \<Rightarrow> adjacency \<Rightarrow> 'i list option \<Rightarrow> (string, 'v node_def) dict
    \<Rightarrow> string list \<Rightarrow> 'i exec_state \<Rightarrow> 'i exec_state" where
  "exec_loop env reg adj ini nm [] s =
     (if status (xs_result s) = RUNNING
      then s\<lparr>xs_result := (xs_result s)\<lparr>status := SUCCESS\<rparr>\<rparr> else s)"
| "exec_loop env reg adj ini nm (nid # ids) s =
     (let s0 = s\<lparr>xs_cancelled := fold cancel (env_cancels env nid) (xs_cancelled s)\<rparr>;
          eid = execution_id (xs_result s0) in
      if eid \<in> set (xs_cancelled s0)
      then set_outcome CANCELLED ''Execution cancelled by user''
             (s0\<lparr>xs_cancelled := filter (\<lambda>c. c \<noteq> eid) (xs_cancelled s0)\<rparr>)
      else (case map_of nm nid of
              None \<Rightarrow> set_outcome ERROR (''Executor error: '' @ nid) s0
            | Some nd \<Rightarrow>
                (case exec_node env reg adj ini nid nd s0 of
                   (True, s1) \<Rightarrow> exec_loop env reg adj ini nm ids s1
                 | (False, s1) \<Rightarrow> s1)))"

definition skip_idle :: "'i node_execution_result \<Rightarrow> 'i node_execution_result" where
  "skip_idle nr = (if nr_status nr = NIdle then nr\<lparr>nr_status := NSkipped\<rparr> else nr)"

text \<open>The \<open>finally\<close> block.\<close>

definition finalize :: "exec_env \<Rightarrow> 'i exec_state \<Rightarrow> 'i exec_state" where
  "finalize env s =
     (let r = (xs_result s)\<lparr>finished_at := Some (env_end env),
              node_results := map (\<lambda>(k, nr). (k, skip_idle nr)) (node_results (xs_result s))\<rparr>
      in notify ''__workflow__'' NIdle (XWorkflow (status r) (error_message r)) (s\<lparr>xs_result := r\<rparr>))"

record 'v workflow_def =
  wd_id :: "string option"
  wd_nodes :: "'v node_def list"
  wd_edges :: "edge_def list"

definition init_results :: "(string, 'v node_def) dict \<Rightarrow> (string, 'i node_execution_result) dict" where
  "init_results nm = map (\<lambda>(nid, nd). (nid, node_result_init nid (get_node_type nd))) nm"

text \<open>\<open>execute\<close>; the execution id is a fresh uuid of the caller's choice here.\<close>

definition execute :: "exec_env \<Rightarrow> ('i, 'v) registry \<Rightarrow> string \<Rightarrow> clock \<Rightarrow> string list \<Rightarrow> 'v workflow_def \<Rightarrow> trigger_type
    \<Rightarrow> 'i list option \<Rightarrow> (wf_error, 'i exec_state) res" where
  "execute env reg eid now cancelled wd trig ini =
     (let r0 = execution_result_init eid (str_or (wd_id wd) []) trig now;
          s0 = \<lparr>xs_result = r0, xs_outputs = [], xs_cancelled = cancelled, xs_notes = []\<rparr> in
      if wd_nodes wd = []
      then Inr (s0\<lparr>xs_result := r0\<lparr>status := ERROR, error_message := ''Workflow has no nodes'',
                                  finished_at := Some (env_end env)\<rparr>\<rparr>)
      else (let nm = build_node_map (wd_nodes wd); (adj, deg) = build_graph nm (wd_edges wd) in
            case topological_sort nm adj deg of
              Inl e \<Rightarrow> Inl e
            | Inr ids \<Rightarrow>
                (let s1 = s0\<lparr>xs_result := r0\<lparr>node_results := init_results nm, status := RUNNING\<rparr>\<rparr>;
                     s2 = notify ''__workflow__'' NRunning (XWorkflow RUNNING (workflow_id r0)) s1
                 in Inr (finalize env (exec_loop env reg adj ini nm ids s2)))))"

section \<open>What a node may rely on\<close>

text \<open>
  A node that ended in SUCCESS: its recorded input is what its upstream nodes put out, its recorded
  output is what its class computes from that input, and the output is what downstream nodes read.
\<close>

definition node_ok :: "(string, 'v node_def) dict \<Rightarrow> ('i, 'v) registry \<Rightarrow> adjacency \<Rightarrow> 'i list option
    \<Rightarrow> 'i exec_state \<Rightarrow> string \<Rightarrow> bool" where
  "node_ok nm reg adj ini s nid \<longleftrightarrow>
     (\<exists>nd nr. map_of nm nid = Some nd \<and> map_of (node_results (xs_result s)) nid = Some nr
        \<and> nr_status nr = NSuccess
        \<and> nr_input_data nr = gather_inputs nid adj (xs_outputs s) ini
        \<and> run_node reg nid (get_node_type nd) (nr_input_data nr) (get_node_params nd)
            = Output (nr_output_data nr)
        \<and> map_of (xs_outputs s) nid = Some (nr_output_data nr))"

text \<open>
  The same in terms of the edges of the workflow alone: \<open>flow_input\<close> is the concatenation of the
  recorded outputs of the sources of the edges into a node, in the order of their first edge.
\<close>

definition recorded_output :: "'i exec_state \<Rightarrow> string \<Rightarrow> 'i list" where
  "recorded_output s u =
     (case map_of (node_results (xs_result s)) u of None \<Rightarrow> [] | Some nr \<Rightarrow> nr_output_data nr)"

definition flow_input :: "(string \<times> string) list \<Rightarrow> 'i list option \<Rightarrow> 'i exec_state \<Rightarrow> string \<Rightarrow> 'i list" where
  "flow_input es ini s x =
     (if x \<notin> snd ` set es then (case ini of None \<Rightarrow> [] | Some xs \<Rightarrow> xs)
      else concat (map (recorded_output s)
             (filter (\<lambda>u. (u, x) \<in> set es) (first_occurrences (map fst es)))))"

definition node_flow :: "(string, 'v node_def) dict \<Rightarrow> ('i, 'v) registry \<Rightarrow> (string \<times> string) list \<Rightarrow> 'i list option
    \<Rightarrow> 'i exec_state \<Rightarrow> string \<Rightarrow> bool" where
  "node_flow nm reg es ini s x \<longleftrightarrow>
     (\<exists>nd nr c. map_of nm x = Some nd \<and> map_of (node_results (xs_result s)) x = Some nr
        \<and> nr_status nr = NSuccess \<and> map_of reg (get_node_type nd) = Some c
        \<and> nr_input_data nr = flow_input es ini s x
        \<and> nc_execute c x (nr_input_data nr) (get_node_params nd) = Output (nr_output_data nr))"

definition node_has_status :: "'i exec_state \<Rightarrow> node_status \<Rightarrow> string \<Rightarrow> bool" where
  "node_has_status s st nid \<longleftrightarrow>
     (\<exists>nr. map_of (node_results (xs_result s)) nid = Some nr \<and> nr_status nr = st)"

text \<open>How a run over \<open>pre @ rest\<close> may end: \<open>left\<close> is the status of the nodes never reached.\<close>

definition run_ended :: "node_status \<Rightarrow> string list \<Rightarrow> 'i exec_state \<Rightarrow> bool" where
  "run_ended left rest s \<longleftrightarrow>
     (status (xs_result s) = SUCCESS \<and> rest = [])
   \<or> (status (xs_result s) = ERROR \<and> (\<exists>n ns. rest = n # ns \<and> node_has_status s NError n
        \<and> (\<forall>x \<in> set ns. node_has_status s left x)))
   \<or> (status (xs_result s) = CANCELLED \<and> rest \<noteq> [] \<and> (\<forall>x \<in> set rest. node_has_status s left x))"

section \<open>Lemmas\<close>

lemmas exec_defs = notify_def set_node_result_def set_outcome_def Let_def

lemma gather_inputs_cong:
  "(\<And>u. u \<in> set (upstream_ids adj nid) \<Longrightarrow> dict_get_or o1 u [] = dict_get_or o2 u [])
    \<Longrightarrow> gather_inputs nid adj o1 ini = gather_inputs nid adj o2 ini"
  by (auto simp: gather_inputs_def Let_def intro!: arg_cong [of _ _ concat] map_cong)

lemma exec_node_continue:
  assumes "exec_node env reg adj ini nid nd s = (True, s')"
  shows "\<exists>nr. map_of (node_results (xs_result s')) = (map_of (node_results (xs_result s)))(nid \<mapsto> nr)
    \<and> nr_status nr = NSuccess \<and> nr_input_data nr = gather_inputs nid adj (xs_outputs s) ini
    \<and> run_node reg nid (get_node_type nd) (nr_input_data nr) (get_node_params nd) = Output (nr_output_data nr)
    \<and> xs_outputs s' = AList.update nid (nr_output_data nr) (xs_outputs s)
    \<and> status (xs_result s') = status (xs_result s)
    \<and> execution_id (xs_result s') = execution_id (xs_result s)
    \<and> xs_cancelled s' = xs_cancelled s"
  using assms
  by (auto simp: exec_node_def exec_defs map_of_update_dict fun_upd_def fun_eq_iff
      split: if_splits node_outcome.splits)

lemma exec_node_break:
  assumes "exec_node env reg adj ini nid nd s = (False, s')"
  shows "\<exists>nr. map_of (node_results (xs_result s')) = (map_of (node_results (xs_result s)))(nid \<mapsto> nr)
    \<and> nr_status nr = NError \<and> xs_outputs s' = xs_outputs s \<and> status (xs_result s') = ERROR"
  using assms
  by (auto simp: exec_node_def exec_defs map_of_update_dict fun_upd_def fun_eq_iff
      split: if_splits node_outcome.splits)

lemma node_ok_frame:
  assumes "node_ok nm reg adj ini s x"
    and "map_of (node_results (xs_result s')) x = map_of (node_results (xs_result s)) x"
    and "\<And>u. u = x \<or> u \<in> set (upstream_ids adj x) \<Longrightarrow>
      map_of (xs_outputs s') u = map_of (xs_outputs s) u"
  shows "node_ok nm reg adj ini s' x"
proof -
  have "gather_inputs x adj (xs_outputs s') ini = gather_inputs x adj (xs_outputs s) ini"
    by (rule gather_inputs_cong) (simp add: dict_get_or_def assms(3))
  with assms show ?thesis by (simp add: node_ok_def)
qed

lemma before_prefix:
  assumes "distinct (pre @ x # post)" and "before (pre @ x # post) u x"
  shows "u \<in> set pre"
proof -
  from assms(2) obtain ys zs where eq: "pre @ x # post = ys @ x # zs" and u: "u \<in> set ys"
    by (auto simp: before_def)
  have "distinct (ys @ x # zs)" using assms(1) by (simp add: eq)
  then have "x \<notin> set pre" "x \<notin> set ys" using assms(1) by auto
  with eq have "pre = ys" by (auto simp: append_eq_append_conv2 Cons_eq_append_conv append_eq_Cons_conv)
  with u show ?thesis by simp
qed

text \<open>The loop at a point where \<open>pre\<close> has succeeded and \<open>rest\<close> is still idle.\<close>

definition loop_inv :: "(string, 'v node_def) dict \<Rightarrow> ('i, 'v) registry \<Rightarrow> adjacency \<Rightarrow> 'i list option
    \<Rightarrow> string list \<Rightarrow> string list \<Rightarrow> 'i exec_state \<Rightarrow> bool" where
  "loop_inv nm reg adj ini pre rest s \<longleftrightarrow>
     distinct (pre @ rest)
     \<and> (\<forall>x \<in> set (pre @ rest). map_of nm x \<noteq> None
          \<and> (\<forall>u \<in> set (upstream_ids adj x). before (pre @ rest) u x))
     \<and> status (xs_result s) = RUNNING
     \<and> (\<forall>x \<in> set pre. node_ok nm reg adj ini s x) \<and> (\<forall>x \<in> set rest. node_has_status s NIdle x)"

lemma loop_inv_upstream:
  assumes "loop_inv nm reg adj ini pre rest s" and "x \<in> set pre" and "u \<in> set (upstream_ids adj x)"
  shows "u \<in> set pre"
proof -
  from assms(2) obtain a b where ab: "pre = a @ x # b" by (auto dest: split_list)
  with assms have "distinct (a @ x # (b @ rest))" "before (a @ x # (b @ rest)) u x"
    by (auto simp: loop_inv_def)
  then have "u \<in> set a" by (rule before_prefix)
  with ab show ?thesis by simp
qed

lemma loop_inv_upstream_next:
  assumes "loop_inv nm reg adj ini pre (n # rest) s" and "u \<in> set (upstream_ids adj n)"
  shows "u \<in> set pre"
  by (rule before_prefix [of pre n rest]) (use assms in \<open>auto simp: loop_inv_def\<close>)

lemma loop_inv_continue:
  assumes inv: "loop_inv nm reg adj ini pre (n # rest) s" and nd: "map_of nm n = Some nd"
    and ex: "exec_node env reg adj ini n nd s = (True, s')"
  shows "loop_inv nm reg adj ini (pre @ [n]) rest s'"
proof -
  from exec_node_continue [OF ex] obtain nr where nr:
    "map_of (node_results (xs_result s')) = (map_of (node_results (xs_result s)))(n \<mapsto> nr)"
    "nr_status nr = NSuccess" "nr_input_data nr = gather_inputs n adj (xs_outputs s) ini"
    "run_node reg n (get_node_type nd) (nr_input_data nr) (get_node_params nd) = Output (nr_output_data nr)"
    "xs_outputs s' = AList.update n (nr_output_data nr) (xs_outputs s)"
    "status (xs_result s') = status (xs_result s)" by blast
  from inv have new: "n \<notin> set pre" "n \<notin> set rest" by (auto simp: loop_inv_def)
  have same: "gather_inputs n adj (xs_outputs s') ini = gather_inputs n adj (xs_outputs s) ini"
    using loop_inv_upstream_next [OF inv] new
    by (intro gather_inputs_cong) (auto simp: dict_get_or_def nr(5) map_of_update_dict)
  have "node_ok nm reg adj ini s' n"
    using nd nr same by (simp add: node_ok_def map_of_update_dict)
  moreover have "node_ok nm reg adj ini s' x" if x: "x \<in> set pre" for x
  proof (rule node_ok_frame)
    show "node_ok nm reg adj ini s x" using inv x by (simp add: loop_inv_def)
    show "map_of (node_results (xs_result s')) x = map_of (node_results (xs_result s)) x"
      using x new by (auto simp: nr(1))
    show "map_of (xs_outputs s') u = map_of (xs_outputs s) u"
      if "u = x \<or> u \<in> set (upstream_ids adj x)" for u
      using that x new loop_inv_upstream [OF inv x] by (auto simp: nr(5) map_of_update_dict)
  qed
  moreover have "node_has_status s' NIdle x" if "x \<in> set rest" for x
    using inv that new by (auto simp: loop_inv_def node_has_status_def nr(1))
  ultimately show ?thesis using inv nr(6) by (auto simp: loop_inv_def)
qed

lemma loop_inv_break:
  assumes inv: "loop_inv nm reg adj ini pre (n # rest) s"
    and ex: "exec_node env reg adj ini n nd s = (False, s')"
  shows "(\<forall>x \<in> set pre. node_ok nm reg adj ini s' x) \<and> run_ended NIdle (n # rest) s'"
proof -
  from exec_node_break [OF ex] obtain nr where nr:
    "map_of (node_results (xs_result s')) = (map_of (node_results (xs_result s)))(n \<mapsto> nr)"
    "nr_status nr = NError" "xs_outputs s' = xs_outputs s" "status (xs_result s') = ERROR" by blast
  from inv have new: "n \<notin> set pre" "n \<notin> set rest" by (auto simp: loop_inv_def)
  have "node_ok nm reg adj ini s' x" if "x \<in> set pre" for x
    by (rule node_ok_frame [of nm reg adj ini s]) (use inv that new in \<open>auto simp: loop_inv_def nr\<close>)
  moreover have "run_ended NIdle (n # rest) s'"
    using inv new nr by (auto simp: loop_inv_def run_ended_def node_has_status_def)
  ultimately show ?thesis by blast
qed

lemma loop_inv_cancelled_field:
  "loop_inv nm reg adj ini pre rest (s\<lparr>xs_cancelled := c\<rparr>) = loop_inv nm reg adj ini pre rest s"
  by (simp add: loop_inv_def node_ok_def node_has_status_def)

lemma exec_loop_ends:
  "loop_inv nm reg adj ini pre rest s \<Longrightarrow> \<exists>pre' rest'. pre @ rest = pre' @ rest'
    \<and> (\<forall>x \<in> set pre'. node_ok nm reg adj ini (exec_loop env reg adj ini nm rest s) x)
    \<and> run_ended NIdle rest' (exec_loop env reg adj ini nm rest s)"
proof (induction rest arbitrary: pre s)
  case Nil
  have "\<forall>x \<in> set pre. node_ok nm reg adj ini (exec_loop env reg adj ini nm [] s) x"
    using Nil by (auto simp: loop_inv_def node_ok_def)
  moreover have "run_ended NIdle [] (exec_loop env reg adj ini nm [] s)"
    using Nil by (simp add: run_ended_def loop_inv_def)
  ultimately show ?case by blast
next
  case (Cons n rest)
  let ?s = "s\<lparr>xs_cancelled := fold cancel (env_cancels env n) (xs_cancelled s)\<rparr>"
  let ?s' = "exec_loop env reg adj ini nm (n # rest) s"
  have inv: "loop_inv nm reg adj ini pre (n # rest) ?s"
    using Cons.prems by (simp add: loop_inv_cancelled_field)
  then obtain nd where nd: "map_of nm n = Some nd" by (auto simp: loop_inv_def)
  show ?case
  proof (cases "execution_id (xs_result s) \<in> set (xs_cancelled ?s)")
    case True
    then have "node_results (xs_result ?s') = node_results (xs_result s)" "xs_outputs ?s' = xs_outputs s"
      "status (xs_result ?s') = CANCELLED" by (simp_all add: exec_defs)
    then have "(\<forall>x \<in> set pre. node_ok nm reg adj ini ?s' x) \<and> run_ended NIdle (n # rest) ?s'"
      using Cons.prems
      by (simp add: loop_inv_def run_ended_def node_has_status_def node_ok_def del: exec_loop.simps)
    then show ?thesis by blast
  next
    case False
    show ?thesis
    proof (cases "exec_node env reg adj ini n nd ?s")
      case (Pair go t)
      then have loop: "?s' = (if go then exec_loop env reg adj ini nm rest t else t)"
        using False nd by (simp add: Let_def)
      show ?thesis
      proof (cases go)
        case True
        with Cons.IH [OF loop_inv_continue [OF inv nd]] Pair loop show ?thesis
          by (simp del: exec_loop.simps)
      next
        case stop: False
        with loop_inv_break [OF inv] Pair loop show ?thesis by (metis (full_types))
      qed
    qed
  qed
qed

section \<open>From the graph to the loop\<close>

lemma wf_build_graph_adj: "wf_dict (fst (build_graph nm es))"
proof -
  have "wf_dict (fst a) \<Longrightarrow> wf_dict (fst (fold (add_edge nm) es a))" for a
    by (induction es arbitrary: a) (auto simp: add_edge_def Let_def split: prod.splits)
  then show ?thesis by (simp add: build_graph_def)
qed

lemma upstream_valid_edge:
  assumes "build_graph nm es = (adj, deg)" and "u \<in> set (upstream_ids adj x)"
  shows "(u, x) \<in> set (valid_edges nm es)"
proof -
  from assms(2) obtain ts where "(u, ts) \<in> set adj" and x: "x \<in> set ts"
    by (auto simp: upstream_ids_def)
  then have "map_of adj u = Some ts"
    using wf_build_graph_adj [of nm es] assms(1) by (simp add: map_of_wf_in_set)
  then have "dict_get_or adj u [] = ts" by (simp add: dict_get_or_def)
  with x show ?thesis
    using build_graph_spec(1) [OF assms(1), of u] by (auto simp: out_edges_def)
qed

lemma map_of_init_results:
  "map_of (init_results nm) x = map_option (\<lambda>nd. node_result_init x (get_node_type nd)) (map_of nm x)"
  by (induction nm) (auto simp: init_results_def)

lemma loop_inv_initial:
  assumes "build_graph nm es = (adj, deg)"
    and "topo_order (fst ` set nm) (set (valid_edges nm es)) ids"
    and "status (xs_result s) = RUNNING" and "node_results (xs_result s) = init_results nm"
  shows "loop_inv nm reg adj ini [] ids s"
proof -
  have key: "map_of nm x \<noteq> None" if "x \<in> set ids" for x
    using assms(2) that by (auto simp: topo_order_def map_of_eq_None_iff)
  moreover have "before ids u x" if "x \<in> set ids" "u \<in> set (upstream_ids adj x)" for x u
    using upstream_valid_edge [OF assms(1) that(2)] assms(2) by (auto simp: topo_order_def)
  moreover have "node_has_status s NIdle x" if "x \<in> set ids" for x
    using key [OF that] by (auto simp: node_has_status_def assms(4) map_of_init_results node_result_init_def)
  ultimately show ?thesis using assms(2,3) by (auto simp: loop_inv_def topo_order_def)
qed

lemma finalize_result:
  "map_of (node_results (xs_result (finalize env s))) x =
     map_option skip_idle (map_of (node_results (xs_result s)) x)"
  "xs_outputs (finalize env s) = xs_outputs s"
  "status (xs_result (finalize env s)) = status (xs_result s)"
  "finished_at (xs_result (finalize env s)) = Some (env_end env)"
  by (auto simp: finalize_def exec_defs map_of_map)

lemma finalize_node_ok: "node_ok nm reg adj ini s x \<Longrightarrow> node_ok nm reg adj ini (finalize env s) x"
  unfolding node_ok_def finalize_result by (elim exE conjE) (simp add: skip_idle_def)

lemma finalize_run_ended: "run_ended NIdle rest s \<Longrightarrow> run_ended NSkipped rest (finalize env s)"
  unfolding run_ended_def node_has_status_def finalize_result
  by (fastforce simp: skip_idle_def)

lemma execute_nonempty:
  assumes "execute env reg eid now cancelled wd trig ini = Inr s" and "wd_nodes wd \<noteq> []"
    and "build_graph (build_node_map (wd_nodes wd)) (wd_edges wd) = (adj, deg)"
  shows "\<exists>ids t. topological_sort (build_node_map (wd_nodes wd)) adj deg = Inr ids
    \<and> loop_inv (build_node_map (wd_nodes wd)) reg adj ini [] ids t
    \<and> s = finalize env (exec_loop env reg adj ini (build_node_map (wd_nodes wd)) ids t)"
proof -
  let ?nm = "build_node_map (wd_nodes wd)"
  from assms obtain ids where ids: "topological_sort ?nm adj deg = Inr ids"
    by (auto simp: execute_def Let_def split: sum.splits)
  have "topo_order (fst ` set ?nm) (set (valid_edges ?nm (wd_edges wd))) ids"
    by (rule topological_sort_cases [OF assms(3) wf_build_node_map]) (use ids in auto)
  then have "loop_inv ?nm reg adj ini [] ids t"
    if "status (xs_result t) = RUNNING" "node_results (xs_result t) = init_results ?nm"
    for t :: "'a exec_state"
    using loop_inv_initial [OF assms(3)] that by blast
  moreover have "\<exists>t. status (xs_result t) = RUNNING \<and> node_results (xs_result t) = init_results ?nm
      \<and> s = finalize env (exec_loop env reg adj ini ?nm ids t)"
    using assms ids by (auto simp: execute_def exec_defs intro!: exI)
  ultimately show ?thesis using ids by blast
qed

lemma execute_run:
  assumes "execute env reg eid now cancelled wd trig ini = Inr s" and "wd_nodes wd \<noteq> []"
    and nm: "nm = build_node_map (wd_nodes wd)" and "build_graph nm (wd_edges wd) = (adj, deg)"
  shows "\<exists>pre rest. topo_order (fst ` set nm) (set (valid_edges nm (wd_edges wd))) (pre @ rest)
    \<and> (\<forall>x \<in> set pre. node_ok nm reg adj ini s x) \<and> run_ended NSkipped rest s"
proof -
  from execute_nonempty [OF assms(1,2) assms(4) [unfolded nm]] obtain ids t
    where ids: "topological_sort nm adj deg = Inr ids" and inv: "loop_inv nm reg adj ini [] ids t"
      and s: "s = finalize env (exec_loop env reg adj ini nm ids t)" unfolding nm by blast
  from exec_loop_ends [OF inv, of env] obtain pre rest where "ids = pre @ rest"
    "\<forall>x \<in> set pre. node_ok nm reg adj ini s x" "run_ended NSkipped rest s"
    unfolding s by (auto intro: finalize_node_ok finalize_run_ended)
  moreover have "topo_order (fst ` set nm) (set (valid_edges nm (wd_edges wd))) ids"
    by (rule topological_sort_cases [OF assms(4)]) (use ids wf_build_node_map nm in auto)
  ultimately show ?thesis by blast
qed

lemma upstream_ids_edges:
  assumes "build_graph nm es = (adj, deg)"
  shows "upstream_ids adj x =
    filter (\<lambda>u. (u, x) \<in> set (valid_edges nm es)) (first_occurrences (map fst (valid_edges nm es)))"
proof -
  let ?E = "valid_edges nm es"
  have keys: "map fst adj = first_occurrences (map fst ?E)" using build_graph_keys [of nm es] assms by simp
  then have "wf_dict adj" by (simp add: wf_dict_def distinct_first_occurrences)
  then have "x \<in> set ts \<longleftrightarrow> (u, x) \<in> set ?E" if "(u, ts) \<in> set adj" for u ts
    using that build_graph_spec(1) [OF assms, of u]
    by (force simp: map_of_wf_in_set dict_get_or_def out_edges_def)
  then have "upstream_ids adj x = map fst (filter (\<lambda>p. (fst p, x) \<in> set ?E) adj)"
    unfolding upstream_ids_def by (intro arg_cong [of _ _ "map fst"] filter_cong) auto
  also have "\<dots> = filter (\<lambda>u. (u, x) \<in> set ?E) (map fst adj)" by (simp add: filter_map comp_def)
  finally show ?thesis by (simp add: keys)
qed

lemma node_ok_flow:
  assumes g: "build_graph nm es = (adj, deg)" and ok: "node_ok nm reg adj ini s x"
    and up: "\<And>u. (u, x) \<in> set (valid_edges nm es) \<Longrightarrow> node_ok nm reg adj ini s u"
  shows "node_flow nm reg (valid_edges nm es) ini s x"
proof -
  let ?E = "valid_edges nm es"
  let ?us = "filter (\<lambda>u. (u, x) \<in> set ?E) (first_occurrences (map fst ?E))"
  have none: "?us = [] \<longleftrightarrow> x \<notin> snd ` set ?E" by (force simp: filter_empty_conv)
  have "dict_get_or (xs_outputs s) u [] = recorded_output s u" if "u \<in> set ?us" for u
    using up [of u] that by (auto simp: node_ok_def dict_get_or_def recorded_output_def)
  then have "map (\<lambda>u. dict_get_or (xs_outputs s) u []) ?us = map (recorded_output s) ?us" by (rule map_cong [OF refl])
  then have "gather_inputs x adj (xs_outputs s) ini = flow_input ?E ini s x"
    by (simp only: gather_inputs_def Let_def upstream_ids_edges [OF g] flow_input_def none not_not split: if_split)
  moreover from ok obtain nd nr where n: "map_of nm x = Some nd" "map_of (node_results (xs_result s)) x = Some nr"
    "nr_status nr = NSuccess" "nr_input_data nr = gather_inputs x adj (xs_outputs s) ini"
    "run_node reg x (get_node_type nd) (nr_input_data nr) (get_node_params nd) = Output (nr_output_data nr)"
    by (auto simp: node_ok_def)
  moreover from n(5) obtain c where "map_of reg (get_node_type nd) = Some c"
    "nc_execute c x (nr_input_data nr) (get_node_params nd) = Output (nr_output_data nr)"
    by (auto simp: run_node_def registry_get_def split: option.splits)
  ultimately show ?thesis unfolding node_flow_def by auto
qed

lemma execute_flow:
  assumes "execute env reg eid now cancelled wd trig ini = Inr s" and "wd_nodes wd \<noteq> []"
    and "nm = build_node_map (wd_nodes wd)" and es: "es = valid_edges nm (wd_edges wd)"
  shows "\<exists>pre rest. topo_order (fst ` set nm) (set es) (pre @ rest)
    \<and> (\<forall>x \<in> set pre. node_flow nm reg es ini s x) \<and> run_ended NSkipped rest s"
proof -
  obtain adj deg where g: "build_graph nm (wd_edges wd) = (adj, deg)" by fastforce
  from execute_run [OF assms(1-3) g] obtain pre rest where t: "topo_order (fst ` set nm) (set es) (pre @ rest)"
    and ok: "\<forall>x \<in> set pre. node_ok nm reg adj ini s x" and e: "run_ended NSkipped rest s" unfolding es by blast
  have "u \<in> set pre" if "x \<in> set pre" "(u, x) \<in> set es" for u x
  proof -
    from that(1) obtain a b where ab: "pre = a @ x # b" by (auto dest: split_list)
    have "distinct (a @ x # (b @ rest))" "before (a @ x # (b @ rest)) u x"
      using t that(2) by (auto simp: topo_order_def ab)
    then have "u \<in> set a" by (rule before_prefix)
    with ab show ?thesis by simp
  qed
  then have "\<forall>x \<in> set pre. node_flow nm reg es ini s x" using node_ok_flow [OF g] ok unfolding es by blast
  with t e show ?thesis by blast
qed

lemma execute_returns:
  assumes "acyclic (set (valid_edges (build_node_map (wd_nodes wd)) (wd_edges wd)))"
  shows "\<exists>s. execute env reg eid now cancelled wd trig ini = Inr s"
proof -
  let ?nm = "build_node_map (wd_nodes wd)"
  obtain adj deg where g: "build_graph ?nm (wd_edges wd) = (adj, deg)" by fastforce
  have "\<exists>ids. topological_sort ?nm adj deg = Inr ids"
    by (rule topological_sort_cases [OF g wf_build_node_map]) (use assms in auto)
  then show ?thesis by (auto simp: execute_def g Let_def)
qed

lemma node_has_status_unique: "node_has_status s a x \<Longrightarrow> node_has_status s b x \<longleftrightarrow> a = b"
  by (auto simp: node_has_status_def)

lemma run_ended_status:
  assumes "run_ended NSkipped rest s" and p: "\<forall>x \<in> set pre. node_has_status s NSuccess x"
  shows "status (xs_result s) \<in> {SUCCESS, ERROR, CANCELLED}
    \<and> (\<forall>x \<in> set (pre @ rest). \<exists>st \<in> {NSuccess, NError, NSkipped}. node_has_status s st x)
    \<and> (status (xs_result s) = SUCCESS \<longleftrightarrow> (\<forall>x \<in> set (pre @ rest). node_has_status s NSuccess x))
    \<and> (status (xs_result s) = ERROR \<longleftrightarrow> (\<exists>x \<in> set (pre @ rest). node_has_status s NError x))"
proof -
  have np: "x \<in> set pre \<Longrightarrow> \<not> node_has_status s NError x" for x
    using p node_has_status_unique [of s NSuccess x NError] by auto
  from assms(1) consider (ok) "status (xs_result s) = SUCCESS" "rest = []"
    | (err) n ns where "status (xs_result s) = ERROR" "rest = n # ns" "node_has_status s NError n"
        "\<forall>x \<in> set ns. node_has_status s NSkipped x"
    | (can) n ns where "status (xs_result s) = CANCELLED" "rest = n # ns"
        "\<forall>x \<in> set rest. node_has_status s NSkipped x"
    by (auto simp: run_ended_def neq_Nil_conv)
  then show ?thesis
  proof cases
    case ok
    with p np show ?thesis by auto
  next
    case err
    then have "\<not> node_has_status s NSuccess n" by (simp add: node_has_status_unique [OF err(3)])
    with err p show ?thesis by auto
  next
    case can
    then have "x \<in> set rest \<Longrightarrow> \<not> node_has_status s NSuccess x \<and> \<not> node_has_status s NError x" for x
      using node_has_status_unique [of s NSkipped x] by auto
    with can p np show ?thesis by auto
  qed
qed

text \<open>A run never ends in PENDING or RUNNING, and every notification carries the id of the run.\<close>

lemma execute_terminal:
  assumes "execute env reg eid now cancelled wd trig ini = Inr s"
  shows "status (xs_result s) \<in> {SUCCESS, ERROR, CANCELLED}"
proof (cases "wd_nodes wd = []")
  case True
  with assms show ?thesis by (auto simp: execute_def Let_def)
next
  case False
  obtain adj deg where "build_graph (build_node_map (wd_nodes wd)) (wd_edges wd) = (adj, deg)" by fastforce
  from execute_run [OF assms False refl this] show ?thesis by (auto simp: run_ended_def)
qed

definition notes_of :: "string \<Rightarrow> 'i exec_state \<Rightarrow> bool" where
  "notes_of eid s \<longleftrightarrow> execution_id (xs_result s) = eid
     \<and> (\<forall>n \<in> set (xs_notes s). case n of Notify x nid st e \<Rightarrow> x = eid)"

lemma notes_of_ops:
  assumes "notes_of eid s"
  shows "notes_of eid (notify nid st x s)" and "notes_of eid (set_node_result nid nr s)"
    and "notes_of eid (set_outcome o' msg s)" and "notes_of eid (s\<lparr>xs_cancelled := cs\<rparr>)"
    and "notes_of eid (s\<lparr>xs_outputs := ps\<rparr>)" and "notes_of eid (finalize env s)"
  using assms by (auto simp: notes_of_def exec_defs finalize_def)

lemma exec_node_notes: "notes_of eid s \<Longrightarrow> exec_node env reg adj ini nid nd s = (b, s') \<Longrightarrow> notes_of eid s'"
  by (auto simp: exec_node_def Let_def notes_of_ops split: if_splits node_outcome.splits)

lemma exec_loop_notes: "notes_of eid s \<Longrightarrow> notes_of eid (exec_loop env reg adj ini nm ids s)"
proof (induction ids arbitrary: s)
  case Nil
  then show ?case by (simp add: notes_of_def)
next
  case (Cons nid ids)
  let ?s = "s\<lparr>xs_cancelled := fold cancel (env_cancels env nid) (xs_cancelled s)\<rparr>"
  have "notes_of eid ?s" using Cons.prems by (rule notes_of_ops)
  then have "notes_of eid s1" "notes_of eid (exec_loop env reg adj ini nm ids s1)"
    if "exec_node env reg adj ini nid nd ?s = (b, s1)" for nd b s1
    using that Cons.IH by (blast intro: exec_node_notes)+
  with Cons.prems show ?case
    by (auto simp: Let_def notes_of_ops split: option.split prod.split bool.split)
qed

lemma execute_notes:
  assumes "execute env reg eid now cancelled wd trig ini = Inr s"
  shows "notes_of eid s"
proof (cases "wd_nodes wd = []")
  case True
  with assms show ?thesis by (auto simp: execute_def Let_def notes_of_def execution_result_init_def)
next
  case False
  have "notes_of eid (exec_loop env reg adj ini nm ids (notify ''__workflow__'' NRunning (XWorkflow RUNNING x)
      \<lparr>xs_result = (execution_result_init eid w trig now)\<lparr>node_results := nrs, status := RUNNING\<rparr>,
       xs_outputs = [], xs_cancelled = cancelled, xs_notes = []\<rparr>))" for adj nm ids x w nrs
    by (intro exec_loop_notes notes_of_ops) (simp add: notes_of_def execution_result_init_def)
  with False assms show ?thesis
    by (auto simp: execute_def Let_def notes_of_ops split: prod.splits sum.splits)
qed

text \<open>A two-node run: the registry knows both types, and a transform doubles its input list.\<close>

definition sample_class :: "string \<Rightarrow> (nat list \<Rightarrow> nat list) \<Rightarrow> (nat, unit) node_class" where
  "sample_class n f = \<lparr>nc_name = n, nc_display_name = n, nc_description = [], nc_category = ''data'',
     nc_schema = [], nc_execute = (\<lambda>nid xs ps. Output (f xs))\<rparr>"

definition sample_registry :: "(nat, unit) registry" where
  "sample_registry = [(''data_input'', sample_class ''data_input'' id),
                      (''transform'', sample_class ''transform'' (\<lambda>xs. xs @ xs))]"

definition sample_env :: exec_env where
  "sample_env = \<lparr>env_cancels = (\<lambda>_. []), env_start = (\<lambda>_. 1), env_finish = (\<lambda>_. 2), env_end = 3,
     env_timeout = ''300.0''\<rparr>"

definition sample_workflow :: "unit workflow_def" where
  "sample_workflow = \<lparr>wd_id = Some ''w1'', wd_nodes = sample_nodes, wd_edges = sample_edges\<rparr>"

lemma sample_execute:
  "\<exists>s. execute sample_env sample_registry ''e1'' 0 [] sample_workflow MANUAL (Some [7]) = Inr s"
  by (rule execute_returns)
    (simp add: sample_workflow_def sample_valid_edges acyclic_insert, simp add: acyclic_def)

section \<open>Properties\<close>

text \<open>C1. Data flow: when a non-empty workflow runs, its nodes are taken in a topological order
  \<open>pre @ rest\<close>; every node of \<open>pre\<close> succeeded on an input that is exactly the concatenation of the
  recorded outputs of the sources of its incoming edges (the initial data for a node without any), and its
  recorded output is what the registered class of its type computed from that input; and the run ended in one of three ways: all nodes succeeded,
  one node is in ERROR and everything after it is SKIPPED, or the run was cancelled and everything
  from that point on is SKIPPED.\<close>

theorem execute_dataflow:
  assumes "execute env reg eid now cancelled wd trig ini = Inr s" and "wd_nodes wd \<noteq> []"
    and "nm = build_node_map (wd_nodes wd)" and "es = valid_edges nm (wd_edges wd)"
  shows "\<exists>pre rest. topo_order (fst ` set nm) (set es) (pre @ rest)
    \<and> (\<forall>x \<in> set pre. node_flow nm reg es ini s x) \<and> run_ended NSkipped rest s"
  using assms by (rule execute_flow)

theorem execute_dataflow_witness:
  "\<exists>s pre rest. execute sample_env sample_registry ''e1'' 0 [] sample_workflow MANUAL (Some [7]) = Inr s
     \<and> set (pre @ rest) = {''a'', ''b''} \<and> run_ended NSkipped rest s"
proof -
  from sample_execute obtain s
    where s: "execute sample_env sample_registry ''e1'' 0 [] sample_workflow MANUAL (Some [7]) = Inr s" ..
  have "wd_nodes sample_workflow \<noteq> []" by (simp add: sample_workflow_def sample_nodes_def)
  from execute_dataflow [OF s this refl refl] obtain pre rest
    where t: "topo_order (fst ` set (build_node_map (wd_nodes sample_workflow)))
        (set (valid_edges (build_node_map (wd_nodes sample_workflow)) (wd_edges sample_workflow)))
        (pre @ rest)"
      and e: "run_ended NSkipped rest s" by blast
  from t have "set (pre @ rest) = fst ` set (build_node_map (wd_nodes sample_workflow))"
    unfolding topo_order_def by blast
  also have "\<dots> = {''a'', ''b''}" unfolding sample_workflow_def workflow_def.simps
    by (rule sample_node_keys)
  finally show ?thesis using s e by blast
qed

text \<open>C25. Status consistency: a finished run of a non-empty workflow is SUCCESS, ERROR or CANCELLED
  and carries a finish time; every node is left in SUCCESS, ERROR or SKIPPED; the run is SUCCESS
  exactly when every node succeeded, and a node is in ERROR exactly when the run is.\<close>

theorem execute_status_consistent:
  assumes "execute env reg eid now cancelled wd trig ini = Inr s" and "wd_nodes wd \<noteq> []"
    and "nm = build_node_map (wd_nodes wd)"
  shows "status (xs_result s) \<in> {SUCCESS, ERROR, CANCELLED}
    \<and> finished_at (xs_result s) = Some (env_end env)
    \<and> (\<forall>x \<in> fst ` set nm. \<exists>st \<in> {NSuccess, NError, NSkipped}. node_has_status s st x)
    \<and> (status (xs_result s) = SUCCESS \<longleftrightarrow> (\<forall>x \<in> fst ` set nm. node_has_status s NSuccess x))
    \<and> (status (xs_result s) = ERROR \<longleftrightarrow> (\<exists>x \<in> fst ` set nm. node_has_status s NError x))"
proof -
  obtain adj deg where g: "build_graph nm (wd_edges wd) = (adj, deg)" by fastforce
  from execute_run [OF assms(1,2,3) g] obtain pre rest
    where V: "set (pre @ rest) = fst ` set nm" and pre: "\<forall>x \<in> set pre. node_ok nm reg adj ini s x"
      and e: "run_ended NSkipped rest s" unfolding topo_order_def by blast
  from pre have p: "\<forall>x \<in> set pre. node_has_status s NSuccess x"
    by (auto simp: node_ok_def node_has_status_def)
  have fin: "finished_at (xs_result s) = Some (env_end env)"
    using execute_nonempty [OF assms(1,2) g [unfolded assms(3)]] by (auto simp: finalize_result)
  from run_ended_status [OF e p] fin show ?thesis unfolding V by blast
qed

theorem execute_status_consistent_witness:
  "\<exists>s. execute sample_env sample_registry ''e1'' 0 [] sample_workflow MANUAL (Some [7]) = Inr s
     \<and> status (xs_result s) \<in> {SUCCESS, ERROR, CANCELLED}"
proof -
  from sample_execute obtain s
    where s: "execute sample_env sample_registry ''e1'' 0 [] sample_workflow MANUAL (Some [7]) = Inr s" ..
  have "wd_nodes sample_workflow \<noteq> []" by (simp add: sample_workflow_def sample_nodes_def)
  from execute_status_consistent [OF s this refl] s show ?thesis by blast
qed

text \<open>\<open>execute\<close> either raises CycleDetectedError, exactly when the workflow has nodes and its kept
  edges contain a cycle, or returns a result; a workflow without nodes returns an ERROR result and
  runs nothing.\<close>

theorem execute_raises_iff_cycle:
  "((\<exists>e. execute env reg eid now cancelled wd trig ini = Inl e) \<longleftrightarrow>
      wd_nodes wd \<noteq> [] \<and> \<not> acyclic (set (valid_edges (build_node_map (wd_nodes wd)) (wd_edges wd))))
   \<and> (wd_nodes wd = [] \<longrightarrow> (\<exists>s. execute env reg eid now cancelled wd trig ini = Inr s
        \<and> status (xs_result s) = ERROR \<and> node_results (xs_result s) = [] \<and> xs_notes s = []))"
proof (cases "wd_nodes wd = []")
  case True
  then show ?thesis by (simp add: execute_def Let_def execution_result_init_def)
next
  case False
  let ?nm = "build_node_map (wd_nodes wd)"
  obtain adj deg where g: "build_graph ?nm (wd_edges wd) = (adj, deg)" by fastforce
  have "\<not> acyclic (set (valid_edges ?nm (wd_edges wd))) \<Longrightarrow> \<exists>e. topological_sort ?nm adj deg = Inl e"
    by (rule topological_sort_cases [OF g wf_build_node_map]) (auto dest: topo_order_acyclic)
  then have "\<not> acyclic (set (valid_edges ?nm (wd_edges wd))) \<Longrightarrow>
      \<exists>e. execute env reg eid now cancelled wd trig ini = Inl e"
    using False by (auto simp: execute_def g Let_def)
  moreover have "acyclic (set (valid_edges ?nm (wd_edges wd))) \<Longrightarrow>
      \<nexists>e. execute env reg eid now cancelled wd trig ini = Inl e"
    using execute_returns by (metis Inl_Inr_False)
  ultimately show ?thesis using False by blast
qed

theorem execute_raises_iff_cycle_witness:
  "\<exists>e. execute sample_env sample_registry ''e1'' 0 [] (sample_workflow\<lparr>wd_edges := loop_edges\<rparr>) MANUAL None = Inl e"
proof -
  have "valid_edges (build_node_map sample_nodes) loop_edges = [(''a'', ''a'')]"
    by (simp add: valid_edges_def loop_edges_def dict_has_def sample_node_keys str_or_def)
  then have "\<not> acyclic (set (valid_edges (build_node_map sample_nodes) loop_edges))"
    by (auto simp: acyclic_def)
  moreover have "sample_nodes \<noteq> []" by (simp add: sample_nodes_def)
  ultimately show ?thesis
    using execute_raises_iff_cycle [of sample_env sample_registry "''e1''" 0 "[]"
        "sample_workflow\<lparr>wd_edges := loop_edges\<rparr>" MANUAL None]
    by (simp add: sample_workflow_def)
qed

end
