(* ===== verification/Memory_Cache.thy ===== *)
theory Memory_Cache
  imports Prelude
begin

text \<open>
  \<^verbatim>\<open>core/kg/cache\<close>: the configuration and entry records of \<^verbatim>\<open>models.py\<close>, the \<open>CacheBackend\<close> protocol
  of \<^verbatim>\<open>backend.py\<close> as a locale, and \<open>InMemoryCache\<close> of \<^verbatim>\<open>memory.py\<close>, an LRU cache with per-entry
  time to live.  Every operation takes the clock reading it sees.  \<open>set\<close> returns the exception of
  \<^verbatim>\<open>OrderedDict.popitem\<close> on an empty dictionary, which a negative \<open>max_size\<close> reaches.
\<close>

section \<open>Models\<close>

record cache_config =
  cc_backend :: string
  cc_default_ttl :: int
  cc_max_size :: int
  cc_redis_url :: string
  cc_key_prefix :: string

definition cache_config_init :: cache_config where
  "cache_config_init = \<lparr>cc_backend = ''memory'', cc_default_ttl = 300, cc_max_size = 1000,
     cc_redis_url = ''redis://localhost:6379/0'', cc_key_prefix = ''imsp:''\<rparr>"

definition cache_config_validate :: "cache_config \<Rightarrow> string list" where
  "cache_config_validate c =
     (if cc_backend c \<noteq> ''memory'' \<and> cc_backend c \<noteq> ''redis''
      then [''Unknown cache backend: '' @ cc_backend c] else [])
   @ (if cc_default_ttl c < 0 then [''default_ttl must be non-negative''] else [])
   @ (if cc_max_size c \<le> 0 then [''max_size must be positive''] else [])"

record 'v cache_entry =
  ce_key :: string
  ce_value :: 'v
  ce_created_at :: clock
  ce_ttl :: int
  ce_hit_count :: int

definition cache_entry_is_expired :: "clock \<Rightarrow> 'v cache_entry \<Rightarrow> bool" where
  "cache_entry_is_expired now e \<longleftrightarrow> \<not> ce_ttl e \<le> 0 \<and> now - ce_created_at e > of_int (ce_ttl e)"

record cache_stats =
  cs_hits :: int
  cs_misses :: int
  cs_sets :: int
  cs_evictions :: int
  cs_expirations :: int

definition cache_stats_init :: cache_stats where
  "cache_stats_init = \<lparr>cs_hits = 0, cs_misses = 0, cs_sets = 0, cs_evictions = 0, cs_expirations = 0\<rparr>"

definition cache_stats_hit_rate :: "cache_stats \<Rightarrow> real" where
  "cache_stats_hit_rate s =
     (let total = cs_hits s + cs_misses s in
      if total = 0 then 0 else (of_int (cs_hits s) / of_int total) * 100)"

definition cache_stats_reset :: "cache_stats \<Rightarrow> cache_stats" where
  "cache_stats_reset s =
     s\<lparr>cs_hits := 0, cs_misses := 0, cs_sets := 0, cs_evictions := 0, cs_expirations := 0\<rparr>"

section \<open>The in-memory cache\<close>

record 'v mem_cache =
  mc_config :: cache_config
  mc_data :: "(string, 'v cache_entry) dict"
  mc_stats :: cache_stats

datatype cache_error = PopFromEmptyDict

definition mc_init :: "cache_config option \<Rightarrow> 'v mem_cache" where
  "mc_init cfg = \<lparr>mc_config = (case cfg of None \<Rightarrow> cache_config_init | Some c \<Rightarrow> c), mc_data = [],
     mc_stats = cache_stats_init\<rparr>"

definition mc_prefix :: "'v mem_cache \<Rightarrow> string \<Rightarrow> string" where
  "mc_prefix c key = cc_key_prefix (mc_config c) @ key"

definition mc_count_expiration :: "cache_stats \<Rightarrow> cache_stats" where
  "mc_count_expiration s = s\<lparr>cs_expirations := cs_expirations s + 1\<rparr>"

definition mc_count_miss :: "cache_stats \<Rightarrow> cache_stats" where
  "mc_count_miss s = s\<lparr>cs_misses := cs_misses s + 1\<rparr>"

definition mc_count_hit :: "cache_stats \<Rightarrow> cache_stats" where
  "mc_count_hit s = s\<lparr>cs_hits := cs_hits s + 1\<rparr>"

definition mc_get :: "clock \<Rightarrow> string \<Rightarrow> 'v mem_cache \<Rightarrow> 'v option \<times> 'v mem_cache" where
  "mc_get now key c =
     (let p = mc_prefix c key in
      case map_of (mc_data c) p of
        None \<Rightarrow> (None, c\<lparr>mc_stats := mc_count_miss (mc_stats c)\<rparr>)
      | Some e \<Rightarrow>
          if cache_entry_is_expired now e
          then (None, c\<lparr>mc_data := AList.delete p (mc_data c),
                        mc_stats := mc_count_miss (mc_count_expiration (mc_stats c))\<rparr>)
          else (Some (ce_value e),
                c\<lparr>mc_data := dict_move_to_end p (mc_data c), mc_stats := mc_count_hit (mc_stats c)\<rparr>))"

text \<open>\<open>_evict_if_needed\<close>: the remaining dictionary, how many were evicted, and the exception.\<close>

fun mc_evict_if_needed ::
  "int \<Rightarrow> (string, 'v cache_entry) dict \<Rightarrow> (string, 'v cache_entry) dict \<times> int \<times> cache_error option" where
  "mc_evict_if_needed mx [] = (if 0 > mx then ([], 0, Some PopFromEmptyDict) else ([], 0, None))"
| "mc_evict_if_needed mx (p # d) =
     (if int (length (p # d)) > mx
      then (let (d', n, err) = mc_evict_if_needed mx d in (d', n + 1, err))
      else (p # d, 0, None))"

definition mc_set ::
  "clock \<Rightarrow> string \<Rightarrow> 'v \<Rightarrow> int option \<Rightarrow> 'v mem_cache \<Rightarrow> cache_error option \<times> 'v mem_cache" where
  "mc_set now key v ttl c =
     (let p = mc_prefix c key;
          t = (case ttl of None \<Rightarrow> cc_default_ttl (mc_config c) | Some x \<Rightarrow> x);
          e = \<lparr>ce_key = p, ce_value = v, ce_created_at = now, ce_ttl = t, ce_hit_count = 0\<rparr>;
          d = (if dict_has (mc_data c) p then AList.delete p (mc_data c) else mc_data c);
          (d', n, err) = mc_evict_if_needed (cc_max_size (mc_config c)) (AList.update p e d);
          st = mc_stats c
      in (err, c\<lparr>mc_data := d',
                 mc_stats := st\<lparr>cs_sets := cs_sets st + 1, cs_evictions := cs_evictions st + n\<rparr>\<rparr>))"

definition mc_delete :: "string \<Rightarrow> 'v mem_cache \<Rightarrow> bool \<times> 'v mem_cache" where
  "mc_delete key c =
     (let p = mc_prefix c key in
      if dict_has (mc_data c) p then (True, c\<lparr>mc_data := AList.delete p (mc_data c)\<rparr>)
      else (False, c))"

definition mc_clear :: "'v mem_cache \<Rightarrow> 'v mem_cache" where
  "mc_clear c = c\<lparr>mc_data := []\<rparr>"

definition mc_exists :: "clock \<Rightarrow> string \<Rightarrow> 'v mem_cache \<Rightarrow> bool \<times> 'v mem_cache" where
  "mc_exists now key c =
     (let p = mc_prefix c key in
      case map_of (mc_data c) p of
        None \<Rightarrow> (False, c)
      | Some e \<Rightarrow>
          if cache_entry_is_expired now e
          then (False, c\<lparr>mc_data := AList.delete p (mc_data c),
                         mc_stats := mc_count_expiration (mc_stats c)\<rparr>)
          else (True, c))"

definition mc_size :: "'v mem_cache \<Rightarrow> nat" where
  "mc_size c = length (mc_data c)"

section \<open>The protocol\<close>

text \<open>One protocol call at an instant; only \<open>OGet\<close> has a value to report.\<close>

datatype 'v cache_op =
    OGet string
  | OSet string 'v "int option"
  | ODelete string
  | OClear
  | OExists string

fun cache_step where
  "cache_step get put remove clear exists (t, OGet k) c = get t k c"
| "cache_step get put remove clear exists (t, OSet k v ttl) c = (None, snd (put t k v ttl c))"
| "cache_step get put remove clear exists (t, ODelete k) c = (None, snd (remove k c))"
| "cache_step get put remove clear exists (t, OClear) c = (None, clear c)"
| "cache_step get put remove clear exists (t, OExists k) c = (None, snd (exists t k c))"

text \<open>The map a cache without bounds and expiry would hold.\<close>

fun ideal_step :: "'v cache_op \<Rightarrow> (string \<rightharpoonup> 'v) \<Rightarrow> (string \<rightharpoonup> 'v)" where
  "ideal_step (OSet k v ttl) m = m(k \<mapsto> v)"
| "ideal_step (ODelete k) m = m(k := None)"
| "ideal_step OClear m = Map.empty"
| "ideal_step _ m = m"

text \<open>A run reports for every read the key, what the cache returned and what the ideal map held.\<close>

fun cache_trace where
  "cache_trace step [] c m = []"
| "cache_trace step ((t, x) # ops) c m =
     (case x of OGet k \<Rightarrow> [(fst (step (t, x) c), m k)] | _ \<Rightarrow> [])
     @ cache_trace step ops (snd (step (t, x) c)) (ideal_step x m)"

text \<open>
  What a client of \<open>CacheBackend\<close> may rely on: a cache is at every instant a partial map \<open>view\<close> from
  keys to live values.  Reads return the view, and no operation ever invents a binding: it may only
  lose entries (eviction, expiry) and add the one that is set.
\<close>

locale cache_backend =
  fixes view :: "clock \<Rightarrow> 'c \<Rightarrow> string \<Rightarrow> 'v option"
    and inv :: "'c \<Rightarrow> bool"
    and get :: "clock \<Rightarrow> string \<Rightarrow> 'c \<Rightarrow> 'v option \<times> 'c"
    and put :: "clock \<Rightarrow> string \<Rightarrow> 'v \<Rightarrow> int option \<Rightarrow> 'c \<Rightarrow> cache_error option \<times> 'c"
    and remove :: "string \<Rightarrow> 'c \<Rightarrow> bool \<times> 'c"
    and clear :: "'c \<Rightarrow> 'c"
    and exists :: "clock \<Rightarrow> string \<Rightarrow> 'c \<Rightarrow> bool \<times> 'c"
  assumes get_value: "inv c \<Longrightarrow> fst (get t k c) = view t c k"
    and get_view: "inv c \<Longrightarrow> t \<le> t' \<Longrightarrow> view t' (snd (get t k c)) = view t' c"
    and get_inv: "inv c \<Longrightarrow> inv (snd (get t k c))"
    and put_ok: "inv c \<Longrightarrow> fst (put t k v ttl c) = None"
    and put_same: "inv c \<Longrightarrow> view t (snd (put t k v ttl c)) k = Some v"
    and put_le: "inv c \<Longrightarrow> view t' (snd (put t k v ttl c)) \<subseteq>\<^sub>m (view t' c)(k \<mapsto> v)"
    and put_inv: "inv c \<Longrightarrow> inv (snd (put t k v ttl c))"
    and remove_view: "inv c \<Longrightarrow> view t (snd (remove k c)) = (view t c)(k := None)"
    and remove_inv: "inv c \<Longrightarrow> inv (snd (remove k c))"
    and clear_view: "view t (clear c) = Map.empty"
    and clear_inv: "inv c \<Longrightarrow> inv (clear c)"
    and exists_value: "inv c \<Longrightarrow> fst (exists t k c) \<longleftrightarrow> view t c k \<noteq> None"
    and exists_view: "inv c \<Longrightarrow> t \<le> t' \<Longrightarrow> view t' (snd (exists t k c)) = view t' c"
    and exists_inv: "inv c \<Longrightarrow> inv (snd (exists t k c))"
begin

text \<open>Read-through caching of a function \<open>load\<close>: every live entry holds the loaded value.\<close>

definition coherent :: "(string \<Rightarrow> 'v) \<Rightarrow> clock \<Rightarrow> 'c \<Rightarrow> bool" where
  "coherent load now c \<longleftrightarrow> (\<forall>t \<ge> now. view t c \<subseteq>\<^sub>m (\<lambda>k. Some (load k)))"

definition fetch :: "(string \<Rightarrow> 'v) \<Rightarrow> clock \<Rightarrow> string \<Rightarrow> 'c \<Rightarrow> 'v \<times> 'c" where
  "fetch load t k c =
     (case get t k c of
        (Some v, c') \<Rightarrow> (v, c')
      | (None, c') \<Rightarrow> (load k, snd (put t k (load k) None c')))"

lemma fetch_correct:
  assumes "inv c" and "coherent load t c"
  shows "fst (fetch load t k c) = load k \<and> inv (snd (fetch load t k c))
    \<and> coherent load t (snd (fetch load t k c))"
proof -
  obtain r c' where g: "get t k c = (r, c')" by fastforce
  with get_value [OF assms(1), of t k] get_inv [OF assms(1), of t k] get_view [OF assms(1), of t _ k]
  have r: "r = view t c k" and i: "inv c'" and v: "\<And>t'. t \<le> t' \<Longrightarrow> view t' c' = view t' c" by auto
  have co: "coherent load t c'" using assms(2) v by (auto simp: coherent_def)
  show ?thesis
  proof (cases r)
    case None
    have "view t' (snd (put t k (load k) None c')) \<subseteq>\<^sub>m (\<lambda>k. Some (load k))" if "t \<le> t'" for t'
    proof -
      have "(view t' c')(k \<mapsto> load k) \<subseteq>\<^sub>m (\<lambda>k. Some (load k))"
        using co that by (auto simp: coherent_def map_le_def)
      then show ?thesis using put_le [OF i] map_le_trans by blast
    qed
    then show ?thesis using None g i put_inv by (auto simp: fetch_def coherent_def)
  next
    case (Some x)
    have "view t c \<subseteq>\<^sub>m (\<lambda>k. Some (load k))" using assms(2) by (simp add: coherent_def)
    moreover have "k \<in> dom (view t c)" using Some r by auto
    ultimately have "x = load k" using Some r by (auto simp: map_le_def)
    with Some g i co show ?thesis by (simp add: fetch_def)
  qed
qed

definition step :: "clock \<times> 'v cache_op \<Rightarrow> 'c \<Rightarrow> 'v option \<times> 'c" where
  "step = cache_step get put remove clear exists"

lemma step_sound:
  assumes i: "inv c" and m: "\<forall>t \<ge> now. view t c \<subseteq>\<^sub>m m" and t: "now \<le> t"
  shows "inv (snd (step (t, x) c)) \<and> (\<forall>t' \<ge> t. view t' (snd (step (t, x) c)) \<subseteq>\<^sub>m ideal_step x m)"
proof (cases x)
  case (OGet k)
  then show ?thesis using i m t get_inv get_view by (auto simp: step_def)
next
  case (OSet k v ttl)
  have "view t' (snd (put t k v ttl c)) \<subseteq>\<^sub>m m(k \<mapsto> v)" if "t \<le> t'" for t'
  proof -
    have "(view t' c)(k \<mapsto> v) \<subseteq>\<^sub>m m(k \<mapsto> v)" using m t that by (intro map_le_upd) auto
    then show ?thesis using put_le [OF i] map_le_trans by blast
  qed
  then show ?thesis using OSet i put_inv by (simp add: step_def)
next
  case (ODelete k)
  have "(view t' c)(k := None) \<subseteq>\<^sub>m m(k := None)" if "t \<le> t'" for t'
    using m t that by (auto simp: map_le_def)
  then show ?thesis using ODelete i remove_inv by (simp add: step_def remove_view)
next
  case OClear
  then show ?thesis using i clear_inv by (simp add: step_def clear_view)
next
  case (OExists k)
  then show ?thesis using i m t exists_inv exists_view by (auto simp: step_def)
qed

lemma trace_sound:
  assumes "inv c" and "\<forall>t \<ge> now. view t c \<subseteq>\<^sub>m m" and "sorted (now # map fst ops)"
  shows "\<forall>(got, want) \<in> set (cache_trace step ops c m). got = None \<or> got = want"
  using assms
proof (induction ops arbitrary: now c m)
  case Nil
  then show ?case by simp
next
  case (Cons p ops)
  obtain t x where p: "p = (t, x)" by fastforce
  from Cons.prems p have t: "now \<le> t" and srt: "sorted (t # map fst ops)" by auto
  note s = step_sound [OF Cons.prems(1,2) t, of x]
  from Cons.IH [OF conjunct1 [OF s] conjunct2 [OF s] srt]
  have tl: "\<forall>(got, want) \<in> set (cache_trace step ops (snd (step (t, x) c)) (ideal_step x m)).
      got = None \<or> got = want" .
  have hd: "fst (step (t, OGet k) c) = None \<or> fst (step (t, OGet k) c) = m k" for k
  proof (cases "view t c k")
    case None
    then show ?thesis by (simp add: step_def get_value [OF Cons.prems(1)])
  next
    case (Some v)
    then have "m k = Some v" using Cons.prems(2) t by (fastforce simp: map_le_def dom_def)
    then show ?thesis using Some by (simp add: step_def get_value [OF Cons.prems(1)])
  qed
  from hd tl show ?case by (auto simp: p split: cache_op.splits)
qed

lemma get_after_put: "inv c \<Longrightarrow> fst (get t k (snd (put t k v ttl c))) = Some v"
  by (simp add: get_value put_inv put_same)

lemma get_after_remove: "inv c \<Longrightarrow> fst (get t k (snd (remove k c))) = None"
  by (simp add: get_value remove_inv remove_view)

end

section \<open>Lemmas\<close>

definition mc_view :: "clock \<Rightarrow> 'v mem_cache \<Rightarrow> string \<Rightarrow> 'v option" where
  "mc_view t c key =
     (case map_of (mc_data c) (mc_prefix c key) of
        None \<Rightarrow> None
      | Some e \<Rightarrow> if cache_entry_is_expired t e then None else Some (ce_value e))"

definition mc_inv :: "'v mem_cache \<Rightarrow> bool" where
  "mc_inv c \<longleftrightarrow> wf_dict (mc_data c) \<and> 1 \<le> cc_max_size (mc_config c)
     \<and> int (length (mc_data c)) \<le> cc_max_size (mc_config c)"

text \<open>Eviction drops exactly the surplus from the front.\<close>

lemma mc_evict_drop:
  assumes "0 \<le> mx"
  shows "mc_evict_if_needed mx d =
    (drop (length d - nat mx) d, int (length d - nat mx), None)"
proof (induction d)
  case Nil
  then show ?case using assms by simp
next
  case (Cons p d)
  show ?case
  proof (cases "int (length (p # d)) > mx")
    case True
    then have "length (p # d) - nat mx = Suc (length d - nat mx)" using assms by simp
    with True Cons.IH show ?thesis by (simp add: Let_def)
  next
    case False
    then show ?thesis using assms by simp
  qed
qed

lemma mc_set_unfold:
  assumes "0 \<le> cc_max_size (mc_config c)"
  shows "mc_set now key v ttl c =
    (let p = mc_prefix c key;
         e = \<lparr>ce_key = p, ce_value = v, ce_created_at = now,
              ce_ttl = (case ttl of None \<Rightarrow> cc_default_ttl (mc_config c) | Some x \<Rightarrow> x), ce_hit_count = 0\<rparr>;
         d = AList.delete p (mc_data c) @ [(p, e)];
         n = length d - nat (cc_max_size (mc_config c)); st = mc_stats c
     in (None, c\<lparr>mc_data := drop n d,
                 mc_stats := st\<lparr>cs_sets := cs_sets st + 1, cs_evictions := cs_evictions st + int n\<rparr>\<rparr>))"
proof -
  let ?p = "mc_prefix c key"
  have "(if dict_has (mc_data c) ?p then AList.delete ?p (mc_data c) else mc_data c)
      = AList.delete ?p (mc_data c)"
    by (auto simp: dict_has_def intro: delete_id [symmetric])
  moreover have "AList.update ?p e (AList.delete ?p (mc_data c)) = AList.delete ?p (mc_data c) @ [(?p, e)]" for e
    by (rule update_absent) (simp add: dict_has_delete)
  ultimately show ?thesis
    by (simp add: mc_set_def Let_def mc_evict_drop [OF assms])
qed

lemma map_of_drop_wf: "wf_dict d \<Longrightarrow> map_of (drop n d) \<subseteq>\<^sub>m map_of d"
proof -
  assume w: "wf_dict d"
  show ?thesis unfolding map_le_def
  proof
    fix a assume "a \<in> dom (map_of (drop n d))"
    then obtain b where b: "map_of (drop n d) a = Some b" by blast
    then have "(a, b) \<in> set d" using map_of_SomeD set_drop_subset by fastforce
    with w b show "map_of (drop n d) a = map_of d a" by (simp add: wf_dict_def)
  qed
qed

lemma wf_dict_drop [simp, intro]: "wf_dict d \<Longrightarrow> wf_dict (drop n d)"
  by (simp add: wf_dict_def drop_map [symmetric])

lemma expired_mono: "t \<le> t' \<Longrightarrow> cache_entry_is_expired t e \<Longrightarrow> cache_entry_is_expired t' e"
  by (auto simp: cache_entry_is_expired_def)

lemma mc_prefix_inj [simp]: "mc_prefix c a = mc_prefix c b \<longleftrightarrow> a = b"
  by (simp add: mc_prefix_def)

lemma mc_prefix_data [simp]: "mc_prefix (c\<lparr>mc_data := d, mc_stats := s\<rparr>) = mc_prefix c"
    "mc_prefix (c\<lparr>mc_data := d\<rparr>) = mc_prefix c" "mc_prefix (c\<lparr>mc_stats := s\<rparr>) = mc_prefix c"
  by (auto simp: mc_prefix_def)

lemma mc_get_view: "mc_inv c \<Longrightarrow> t \<le> t' \<Longrightarrow> mc_view t' (snd (mc_get t k c)) = mc_view t' c"
  by (auto simp: mc_get_def mc_view_def Let_def map_of_delete_dict map_of_move_to_end expired_mono
      fun_eq_iff split: option.splits)

lemma mc_exists_view: "mc_inv c \<Longrightarrow> t \<le> t' \<Longrightarrow> mc_view t' (snd (mc_exists t k c)) = mc_view t' c"
  by (auto simp: mc_exists_def mc_view_def Let_def map_of_delete_dict expired_mono
      fun_eq_iff split: option.splits)

lemma mc_delete_inv: "mc_inv c \<Longrightarrow> mc_inv (c\<lparr>mc_data := AList.delete p (mc_data c), mc_stats := s\<rparr>)"
    "mc_inv c \<Longrightarrow> mc_inv (c\<lparr>mc_data := AList.delete p (mc_data c)\<rparr>)"
  by (auto simp: mc_inv_def length_delete_dict)

lemma mc_get_inv: "mc_inv c \<Longrightarrow> mc_inv (snd (mc_get t k c))"
  by (auto simp: mc_get_def Let_def mc_delete_inv split: option.splits)
    (auto simp: mc_inv_def length_move_to_end)

lemma mc_exists_inv: "mc_inv c \<Longrightarrow> mc_inv (snd (mc_exists t k c))"
  by (auto simp: mc_exists_def Let_def mc_delete_inv split: option.splits)

lemma mc_inv_max: "mc_inv c \<Longrightarrow> 0 \<le> cc_max_size (mc_config c)"
  by (simp add: mc_inv_def)

lemma mc_set_data:
  assumes "mc_inv c"
  obtains e where "mc_data (snd (mc_set t k v ttl c)) =
      (let d = AList.delete (mc_prefix c k) (mc_data c) @ [(mc_prefix c k, e)] in drop (length d - nat (cc_max_size (mc_config c))) d)"
    and "ce_value e = v" and "ce_created_at e = t"
  by (rule that [of "\<lparr>ce_key = mc_prefix c k, ce_value = v, ce_created_at = t, ce_ttl =
        (case ttl of None \<Rightarrow> cc_default_ttl (mc_config c) | Some x \<Rightarrow> x), ce_hit_count = 0\<rparr>"])
    (simp_all add: mc_set_unfold [OF mc_inv_max [OF assms]] Let_def)

lemma mc_set_config: "mc_inv c \<Longrightarrow> mc_config (snd (mc_set t k v ttl c)) = mc_config c"
  by (simp add: mc_set_unfold mc_inv_max Let_def)

lemma mc_set_inv:
  assumes "mc_inv c"
  shows "mc_inv (snd (mc_set t k v ttl c))"
proof (rule mc_set_data [OF assms, of t k v ttl])
  fix e
  let ?d = "AList.delete (mc_prefix c k) (mc_data c) @ [(mc_prefix c k, e)]"
  assume d: "mc_data (snd (mc_set t k v ttl c)) =
      (let d = ?d in drop (length d - nat (cc_max_size (mc_config c))) d)"
  have "wf_dict ?d" using assms by (auto simp: mc_inv_def wf_dict_append_single dict_has_delete)
  then have "wf_dict (mc_data (snd (mc_set t k v ttl c)))" unfolding d Let_def by (rule wf_dict_drop)
  moreover have "int (length (mc_data (snd (mc_set t k v ttl c)))) \<le> cc_max_size (mc_config c)"
    using mc_inv_max [OF assms] unfolding d Let_def by simp
  ultimately show ?thesis using assms by (simp add: mc_inv_def mc_set_config [OF assms])
qed

lemma drop_append_last:
  "1 \<le> m \<Longrightarrow> drop (length (xs @ [x]) - m) (xs @ [x]) = drop (Suc (length xs) - m) xs @ [x]"
  by (cases m) auto

lemma mc_set_map:
  assumes "mc_inv c"
  obtains e where "map_of (mc_data (snd (mc_set t k v ttl c))) \<subseteq>\<^sub>m (map_of (mc_data c))(mc_prefix c k \<mapsto> e)"
    and "map_of (mc_data (snd (mc_set t k v ttl c))) (mc_prefix c k) = Some e"
    and "ce_value e = v" and "ce_created_at e = t"
proof -
  let ?p = "mc_prefix c k"
  from mc_set_data [OF assms, of t k v ttl] obtain e
    where d: "mc_data (snd (mc_set t k v ttl c)) = (let d = AList.delete ?p (mc_data c) @ [(?p, e)]
        in drop (length d - nat (cc_max_size (mc_config c))) d)"
      and e: "ce_value e = v" "ce_created_at e = t" by blast
  let ?d = "AList.delete ?p (mc_data c) @ [(?p, e)]"
  have w: "wf_dict ?d" using assms by (auto simp: mc_inv_def wf_dict_append_single dict_has_delete)
  have "map_of ?d = (map_of (mc_data c))(?p \<mapsto> e)"
    by (auto simp: map_add_def map_of_delete_dict fun_eq_iff split: option.splits)
  then have le: "map_of (mc_data (snd (mc_set t k v ttl c))) \<subseteq>\<^sub>m (map_of (mc_data c))(?p \<mapsto> e)"
    using map_of_drop_wf [OF w] by (metis d)
  have "1 \<le> nat (cc_max_size (mc_config c))" using assms unfolding mc_inv_def by linarith
  then have "(?p, e) \<in> set (mc_data (snd (mc_set t k v ttl c)))"
    unfolding d Let_def by (subst drop_append_last) auto
  then have "map_of (mc_data (snd (mc_set t k v ttl c))) ?p = Some e"
    using mc_set_inv [OF assms, of t k v ttl] by (simp add: mc_inv_def map_of_wf_in_set [symmetric])
  from le this e show ?thesis by (rule that)
qed

lemma mc_set_same: "mc_inv c \<Longrightarrow> mc_view t (snd (mc_set t k v ttl c)) k = Some v"
  by (rule mc_set_map [of c t k v ttl])
    (auto simp: mc_view_def mc_prefix_def mc_set_config cache_entry_is_expired_def)

lemma mc_set_le:
  assumes "mc_inv c"
  shows "mc_view t' (snd (mc_set t k v ttl c)) \<subseteq>\<^sub>m (mc_view t' c)(k \<mapsto> v)"
proof (rule mc_set_map [OF assms, of t k v ttl])
  fix e
  assume le: "map_of (mc_data (snd (mc_set t k v ttl c))) \<subseteq>\<^sub>m (map_of (mc_data c))(mc_prefix c k \<mapsto> e)"
    and e: "ce_value e = v"
  have "mc_prefix (snd (mc_set t k v ttl c)) = mc_prefix c"
    by (simp add: mc_prefix_def fun_eq_iff mc_set_config [OF assms])
  then have v: "mc_view t' (snd (mc_set t k v ttl c)) x =
      (case map_of (mc_data (snd (mc_set t k v ttl c))) (mc_prefix c x) of None \<Rightarrow> None
       | Some e \<Rightarrow> if cache_entry_is_expired t' e then None else Some (ce_value e))" for x
    by (simp add: mc_view_def)
  show ?thesis unfolding map_le_def
  proof
    fix x assume "x \<in> dom (mc_view t' (snd (mc_set t k v ttl c)))"
    then obtain e' where m: "map_of (mc_data (snd (mc_set t k v ttl c))) (mc_prefix c x) = Some e'"
      and ne: "\<not> cache_entry_is_expired t' e'" by (auto simp: v split: option.splits if_splits)
    from m le have "((map_of (mc_data c))(mc_prefix c k \<mapsto> e)) (mc_prefix c x) = Some e'"
      by (metis domI map_le_def)
    then show "mc_view t' (snd (mc_set t k v ttl c)) x = ((mc_view t' c)(k \<mapsto> v)) x"
      using ne m e by (auto simp: v mc_view_def [of t' c] split: if_splits)
  qed
qed

lemma mc_delete_view: "mc_view t (snd (mc_delete k c)) = (mc_view t c)(k := None)"
  by (auto simp: mc_delete_def mc_view_def Let_def map_of_delete_dict dict_has_map_of fun_eq_iff
      split: option.splits)

lemma mc_delete_op_inv: "mc_inv c \<Longrightarrow> mc_inv (snd (mc_delete k c))"
  by (auto simp: mc_delete_def Let_def mc_delete_inv)

interpretation memc: cache_backend mc_view mc_inv mc_get mc_set mc_delete mc_clear mc_exists
proof unfold_locales
  fix c :: "'a mem_cache" and t k v ttl
  show "fst (mc_get t k c) = mc_view t c k"
    by (auto simp: mc_get_def mc_view_def Let_def split: option.splits)
  show "fst (mc_exists t k c) \<longleftrightarrow> mc_view t c k \<noteq> None"
    by (auto simp: mc_exists_def mc_view_def Let_def split: option.splits)
  show "mc_inv c \<Longrightarrow> fst (mc_set t k v ttl c) = None"
    by (simp add: mc_set_unfold mc_inv_max Let_def)
  show "mc_view t (mc_clear c) = Map.empty" by (auto simp: mc_view_def mc_clear_def fun_eq_iff)
  show "mc_inv c \<Longrightarrow> mc_inv (mc_clear c)" by (simp add: mc_inv_def mc_clear_def)
qed (auto intro: mc_get_view mc_exists_view mc_get_inv mc_exists_inv mc_set_inv mc_set_same mc_set_le
    mc_delete_view mc_delete_op_inv)

section \<open>Least recently used\<close>

text \<open>
  \<open>lastn m xs\<close> is the last \<open>m\<close> elements.  \<^const>\<open>remdups\<close> keeps the last occurrence of each element,
  so \<open>remdups hist\<close> lists the keys of a history of uses by recency.
\<close>

definition lastn :: "nat \<Rightarrow> 'a list \<Rightarrow> 'a list" where
  "lastn m xs = drop (length xs - m) xs"

lemma map_lastn: "map f (lastn m xs) = lastn m (map f xs)"
  by (simp add: lastn_def drop_map)

lemma lastn_append: "m \<le> length ys \<Longrightarrow> lastn m (xs @ ys) = lastn m ys"
  by (simp add: lastn_def)

lemma remdups_snoc: "remdups (xs @ [x]) = filter (\<lambda>y. y \<noteq> x) (remdups xs) @ [x]"
  by (induction xs) auto

lemma lastn_touch:
  assumes "distinct R" and "1 \<le> m"
  shows "lastn m (filter (\<lambda>y. y \<noteq> p) (lastn m R) @ [p]) = lastn m (filter (\<lambda>y. y \<noteq> p) R @ [p])"
proof (cases "length R \<le> m")
  case True
  then show ?thesis by (simp add: lastn_def)
next
  case False
  let ?A = "take (length R - m) R" and ?K = "lastn m R"
  have R: "R = ?A @ ?K" by (simp add: lastn_def)
  have l: "length ?K = m" using False by (simp add: lastn_def)
  have "distinct ?K" using assms(1) by (simp add: lastn_def)
  then have "filter (\<lambda>y. y \<noteq> p) ?K = remove1 p ?K"
    by (simp add: distinct_remove1_removeAll removeAll_filter_not_eq neq_commute)
  then have "m - 1 \<le> length (filter (\<lambda>y. y \<noteq> p) ?K)"
    by (simp add: length_remove1 l)
  then have "m \<le> length (filter (\<lambda>y. y \<noteq> p) ?K @ [p])" by simp
  then have "lastn m (filter (\<lambda>y. y \<noteq> p) ?A @ filter (\<lambda>y. y \<noteq> p) ?K @ [p])
      = lastn m (filter (\<lambda>y. y \<noteq> p) ?K @ [p])" by (rule lastn_append)
  then show ?thesis by (subst (2) R) simp
qed

text \<open>The keys an operation uses: a write, and a read that hits.\<close>

definition mc_used :: "clock \<times> 'v cache_op \<Rightarrow> 'v mem_cache \<Rightarrow> string list" where
  "mc_used p c = (case p of
      (t, OGet k) \<Rightarrow> (if fst (mc_get t k c) = None then [] else [mc_prefix c k])
    | (t, OSet k v ttl) \<Rightarrow> [mc_prefix c k]
    | _ \<Rightarrow> [])"

definition mc_step :: "clock \<times> 'v cache_op \<Rightarrow> 'v mem_cache \<Rightarrow> 'v option \<times> 'v mem_cache" where
  "mc_step = cache_step mc_get mc_set mc_delete mc_clear mc_exists"

fun mc_run :: "(clock \<times> 'v cache_op) list \<Rightarrow> 'v mem_cache \<Rightarrow> string list \<Rightarrow> 'v mem_cache \<times> string list" where
  "mc_run [] c hist = (c, hist)"
| "mc_run (p # ops) c hist = mc_run ops (snd (mc_step p c)) (hist @ mc_used p c)"

text \<open>Operations that only a use or an eviction can make a key disappear under.\<close>

fun lru_op :: "'v cache_op \<Rightarrow> bool" where
  "lru_op (OSet k v ttl) \<longleftrightarrow> (case ttl of None \<Rightarrow> True | Some x \<Rightarrow> x \<le> 0)"
| "lru_op (OGet k) = True"
| "lru_op (OExists k) = True"
| "lru_op _ = False"

definition lru_state :: "cache_config \<Rightarrow> 'v mem_cache \<Rightarrow> string list \<Rightarrow> bool" where
  "lru_state cfg c hist \<longleftrightarrow> mc_inv c \<and> mc_config c = cfg \<and> cc_default_ttl cfg \<le> 0
     \<and> (\<forall>e \<in> snd ` set (mc_data c). ce_ttl e \<le> 0)
     \<and> map fst (mc_data c) = lastn (nat (cc_max_size cfg)) (remdups hist)"

lemma keys_move_to_end:
  "dict_has d p \<Longrightarrow> map fst (dict_move_to_end p d) = filter (\<lambda>y. y \<noteq> p) (map fst d) @ [p]"
  by (auto simp: dict_move_to_end_def dict_has_map_of fst_delete_filter)

lemma lastn_id: "length xs \<le> m \<Longrightarrow> lastn m xs = xs"
  by (simp add: lastn_def)

lemma lru_keys_touch:
  assumes "map fst d = lastn m (remdups hist)" and "1 \<le> m"
  shows "lastn m (filter (\<lambda>y. y \<noteq> p) (map fst d) @ [p]) = lastn m (remdups (hist @ [p]))"
  unfolding assms(1) remdups_snoc by (rule lastn_touch) (use assms in auto)

lemma set_move_to_end: "set (dict_move_to_end p d) \<subseteq> set d"
  by (auto simp: dict_move_to_end_def AList.delete_eq split: option.splits dest: map_of_SomeD)

lemma lru_get:
  assumes "lru_state cfg c hist"
  shows "lru_state cfg (snd (mc_get t k c)) (hist @ mc_used (t, OGet k) c)"
proof (cases "map_of (mc_data c) (mc_prefix c k)")
  case None
  then show ?thesis using assms by (auto simp: lru_state_def mc_get_def mc_used_def Let_def mc_inv_def)
next
  case (Some e)
  let ?p = "mc_prefix c k" and ?m = "nat (cc_max_size cfg)"
  from Some assms have ne: "\<not> cache_entry_is_expired t e"
    by (force simp: lru_state_def cache_entry_is_expired_def dest: map_of_SomeD)
  have h: "dict_has (mc_data c) ?p" using Some by (simp add: dict_has_map_of)
  have i: "mc_inv c" and m: "1 \<le> ?m" "length (mc_data c) \<le> ?m" and k: "map fst (mc_data c) = lastn ?m (remdups hist)"
    using assms unfolding lru_state_def mc_inv_def by auto
  have "length (dict_move_to_end ?p (mc_data c)) \<le> ?m"
    using m i by (simp add: length_move_to_end mc_inv_def)
  then have "length (filter (\<lambda>y. y \<noteq> ?p) (map fst (mc_data c)) @ [?p]) \<le> ?m"
    by (metis keys_move_to_end [OF h] length_map)
  then have "map fst (dict_move_to_end ?p (mc_data c)) = lastn ?m (remdups (hist @ [?p]))"
    using lru_keys_touch [OF k m(1), of ?p] by (simp only: keys_move_to_end [OF h] lastn_id)
  then show ?thesis
    using Some ne assms mc_get_inv [OF i, of t k] set_move_to_end [of ?p "mc_data c"]
    by (auto simp: lru_state_def mc_get_def mc_used_def Let_def)
qed

lemma lru_set:
  assumes "lru_state cfg c hist" and "lru_op (OSet k v ttl)"
  shows "lru_state cfg (snd (mc_set t k v ttl c)) (hist @ [mc_prefix c k])"
proof -
  let ?p = "mc_prefix c k" and ?m = "nat (cc_max_size cfg)"
  have i: "mc_inv c" and cfg: "mc_config c = cfg" and m: "1 \<le> ?m"
    and k: "map fst (mc_data c) = lastn ?m (remdups hist)"
    using assms unfolding lru_state_def mc_inv_def by auto
  define e where "e = \<lparr>ce_key = ?p, ce_value = v, ce_created_at = t,
    ce_ttl = (case ttl of None \<Rightarrow> cc_default_ttl (mc_config c) | Some x \<Rightarrow> x), ce_hit_count = 0\<rparr>"
  let ?d = "AList.delete ?p (mc_data c) @ [(?p, e)]"
  have d: "mc_data (snd (mc_set t k v ttl c)) = lastn ?m ?d"
    by (simp only: mc_set_unfold [OF mc_inv_max [OF i]] Let_def e_def lastn_def cfg) simp
  have "map fst (lastn ?m ?d) = lastn ?m (filter (\<lambda>y. y \<noteq> ?p) (map fst (mc_data c)) @ [?p])"
    by (simp add: map_lastn fst_delete_filter)
  also have "\<dots> = lastn ?m (remdups (hist @ [?p]))" by (rule lru_keys_touch [OF k m])
  finally have keys: "map fst (mc_data (snd (mc_set t k v ttl c))) = lastn ?m (remdups (hist @ [?p]))"
    by (simp only: d)
  have "ce_ttl e \<le> 0" using assms by (auto simp: e_def lru_state_def split: option.splits)
  moreover have "set (lastn ?m ?d) \<subseteq> insert (?p, e) (set (mc_data c))"
    using set_drop_subset [of "length ?d - ?m" ?d] by (auto simp: lastn_def AList.delete_eq)
  moreover have "\<forall>x \<in> set (mc_data c). ce_ttl (snd x) \<le> 0" using assms(1) by (simp add: lru_state_def)
  ultimately have "\<forall>e \<in> snd ` set (mc_data (snd (mc_set t k v ttl c))). ce_ttl e \<le> 0"
    using assms(1) unfolding d by auto
  moreover have "cc_default_ttl cfg \<le> 0" using assms(1) by (simp add: lru_state_def)
  ultimately show ?thesis
    unfolding lru_state_def using keys mc_set_inv [OF i] mc_set_config [OF i] cfg by metis
qed

lemma lru_exists:
  "lru_state cfg c hist \<Longrightarrow> snd (mc_exists t k c) = c"
  by (force simp: lru_state_def mc_exists_def Let_def cache_entry_is_expired_def
      split: option.splits dest: map_of_SomeD)

lemma lru_step:
  assumes "lru_state cfg c hist" and "lru_op x"
  shows "lru_state cfg (snd (mc_step (t, x) c)) (hist @ mc_used (t, x) c)"
proof (cases x)
  case (OGet k)
  then show ?thesis using lru_get [OF assms(1), of t k] by (simp add: mc_step_def)
next
  case (OSet k v ttl)
  then show ?thesis using lru_set [OF assms(1), of k v ttl t] assms(2) by (simp add: mc_step_def mc_used_def)
next
  case (OExists k)
  then show ?thesis using lru_exists [OF assms(1), of t k] assms(1) by (simp add: mc_step_def mc_used_def)
qed (use assms in auto)

lemma lru_run:
  "lru_state cfg c hist \<Longrightarrow> \<forall>p \<in> set ops. lru_op (snd p) \<Longrightarrow> mc_run ops c hist = (c', hist')
    \<Longrightarrow> lru_state cfg c' hist'"
proof (induction ops arbitrary: c hist)
  case (Cons p ops)
  obtain t x where p: "p = (t, x)" by fastforce
  have "lru_state cfg (snd (mc_step (t, x) c)) (hist @ mc_used (t, x) c)"
    using Cons.prems p by (intro lru_step) auto
  from Cons.IH [OF this] Cons.prems p show ?case by simp
qed simp

section \<open>Properties\<close>


definition tiny_config :: cache_config where
  "tiny_config = cache_config_init\<lparr>cc_max_size := 2, cc_default_ttl := 0, cc_key_prefix := []\<rparr>"

definition tiny_ops :: "(clock \<times> nat cache_op) list" where
  "tiny_ops = [(0, OSet ''a'' 1 None), (1, OSet ''b'' 2 None), (2, OGet ''a''), (3, OSet ''c'' 3 None)]"


text \<open>No stale or foreign data: along any sequence of get, set, delete, clear and exists calls with
  a non-decreasing clock, each read returns either a miss or exactly the value most recently set
  for that key and not deleted or cleared since; expiry and eviction only ever turn hits into misses.\<close>

theorem mc_reads_are_fresh:
  assumes "1 \<le> cc_max_size cfg" and "sorted (map fst ops)"
    and "(got, want) \<in> set (cache_trace mc_step ops (mc_init (Some cfg)) Map.empty)"
  shows "got = None \<or> got = want"
proof (cases ops)
  case Nil
  with assms(3) show ?thesis by simp
next
  case (Cons p ps)
  have i: "mc_inv (mc_init (Some cfg))" using assms(1) by (simp add: mc_inv_def mc_init_def)
  have e: "\<forall>t \<ge> fst p. mc_view t (mc_init (Some cfg)) \<subseteq>\<^sub>m Map.empty"
    by (simp add: mc_view_def mc_init_def map_le_def dom_def)
  have s: "sorted (fst p # map fst ops)" using assms(2) Cons by simp
  from memc.trace_sound [OF i e s, unfolded memc.step_def, folded mc_step_def] assms(3)
  show ?thesis by auto
qed

definition fresh_ops :: "(clock \<times> nat cache_op) list" where
  "fresh_ops = [(0, OSet ''a'' 1 (Some 5)), (1, OGet ''a'')]"

theorem mc_reads_are_fresh_witness:
  "\<exists>got. (got, Some 1) \<in> set (cache_trace mc_step fresh_ops (mc_init (Some tiny_config)) Map.empty)
     \<and> (got = None \<or> got = Some 1)"
proof -
  let ?c = "snd (mc_step (0, OSet ''a'' 1 (Some 5)) (mc_init (Some tiny_config))) :: nat mem_cache"
  have "(fst (mc_step (1, OGet ''a'') ?c), Some 1)
      \<in> set (cache_trace mc_step fresh_ops (mc_init (Some tiny_config)) Map.empty)"
    by (simp add: fresh_ops_def)
  moreover have "1 \<le> cc_max_size tiny_config" "sorted (map fst fresh_ops)"
    by (simp_all add: tiny_config_def fresh_ops_def)
  ultimately show ?thesis using mc_reads_are_fresh [of tiny_config fresh_ops] by blast
qed

end
