(* ===== verification/Response_Cache.thy ===== *)
theory Response_Cache
  imports Prelude
begin

text \<open>
  \<^verbatim>\<open>gateway/middleware/cache.py\<close>: the gateway's TTL response cache with its path index.  The md5
  digest is a parameter \<open>md5\<close>; what is needed of it is that the request keys in play do not clash
  (\<open>no_clash\<close>).  The exception of \<^verbatim>\<open>min\<close> on an empty dictionary, reached with a non-positive
  \<open>max_entries\<close>, is a value.  The index maps a path to the set of cache keys put under it.
\<close>

section \<open>Data\<close>

record 'b response_entry =
  re_body :: 'b
  re_status_code :: int
  re_headers :: "(string, string) dict"
  re_created_at :: clock

definition response_is_expired :: "clock \<Rightarrow> real \<Rightarrow> 'b response_entry \<Rightarrow> bool" where
  "response_is_expired now ttl e \<longleftrightarrow> now - re_created_at e > ttl"

record 'b response_cache =
  rc_ttl :: real
  rc_max_entries :: int
  rc_cache :: "(string, 'b response_entry) dict"
  rc_path_index :: "(string, string set) dict"

definition rc_init :: "real \<Rightarrow> int \<Rightarrow> 'b response_cache" where
  "rc_init ttl mx = \<lparr>rc_ttl = ttl, rc_max_entries = mx, rc_cache = [], rc_path_index = []\<rparr>"

datatype rc_error = MinOfEmpty

section \<open>Operations\<close>

definition make_key :: "(string \<Rightarrow> string) \<Rightarrow> string \<Rightarrow> string \<Rightarrow> string" where
  "make_key md5 path query =
     md5 (if query \<noteq> [] then ''GET:'' @ path @ ''?'' @ query else ''GET:'' @ path)"

definition index_discard :: "string \<Rightarrow> (string, string set) dict \<Rightarrow> (string, string set) dict" where
  "index_discard key idx = filter (\<lambda>(p, ks). ks \<noteq> {}) (map (\<lambda>(p, ks). (p, ks - {key})) idx)"

definition rc_remove_from_index :: "string \<Rightarrow> 'b response_cache \<Rightarrow> 'b response_cache" where
  "rc_remove_from_index key c = c\<lparr>rc_path_index := index_discard key (rc_path_index c)\<rparr>"

text \<open>\<open>_remove_from_index(key)\<close> followed by \<open>del _cache[key]\<close>.\<close>

definition rc_drop :: "string \<Rightarrow> 'b response_cache \<Rightarrow> 'b response_cache" where
  "rc_drop key c = (rc_remove_from_index key c)\<lparr>rc_cache := AList.delete key (rc_cache c)\<rparr>"

definition rc_get :: "(string \<Rightarrow> string) \<Rightarrow> clock \<Rightarrow> string \<Rightarrow> string \<Rightarrow> 'b response_cache
    \<Rightarrow> 'b response_entry option \<times> 'b response_cache" where
  "rc_get md5 now path query c =
     (let key = make_key md5 path query in
      case map_of (rc_cache c) key of
        None \<Rightarrow> (None, c)
      | Some e \<Rightarrow> if response_is_expired now (rc_ttl c) e then (None, rc_drop key c) else (Some e, c))"

fun oldest_from :: "string \<times> 'b response_entry \<Rightarrow> (string \<times> 'b response_entry) list \<Rightarrow> string \<times> 'b response_entry" where
  "oldest_from b [] = b"
| "oldest_from b (x # xs) =
     oldest_from (if re_created_at (snd x) < re_created_at (snd b) then x else b) xs"

definition oldest_key :: "(string, 'b response_entry) dict \<Rightarrow> (rc_error, string) res" where
  "oldest_key d = (case d of [] \<Rightarrow> Inl MinOfEmpty | x # xs \<Rightarrow> Inr (fst (oldest_from x xs)))"

definition index_add :: "string \<Rightarrow> string \<Rightarrow> (string, string set) dict \<Rightarrow> (string, string set) dict" where
  "index_add path key idx = AList.update path (insert key (dict_get_or idx path {})) idx"

definition rc_store :: "clock \<Rightarrow> string \<Rightarrow> string \<Rightarrow> 'b \<Rightarrow> int \<Rightarrow> (string, string) dict
    \<Rightarrow> 'b response_cache \<Rightarrow> 'b response_cache" where
  "rc_store now path key body code headers c =
     c\<lparr>rc_cache := AList.update key \<lparr>re_body = body, re_status_code = code, re_headers = headers,
          re_created_at = now\<rparr> (rc_cache c),
       rc_path_index := index_add path key (rc_path_index c)\<rparr>"

definition rc_put :: "(string \<Rightarrow> string) \<Rightarrow> clock \<Rightarrow> string \<Rightarrow> string \<Rightarrow> 'b \<Rightarrow> int \<Rightarrow> (string, string) dict
    \<Rightarrow> 'b response_cache \<Rightarrow> (rc_error, 'b response_cache) res" where
  "rc_put md5 now path query body code headers c =
     (if code \<ge> 400 then Inr c
      else (let key = make_key md5 path query in
            if int (length (rc_cache c)) \<ge> rc_max_entries c \<and> \<not> dict_has (rc_cache c) key
            then (case oldest_key (rc_cache c) of
                    Inl e \<Rightarrow> Inl e
                  | Inr old \<Rightarrow> Inr (rc_store now path key body code headers (rc_drop old c)))
            else Inr (rc_store now path key body code headers c)))"

definition path_matches :: "string \<Rightarrow> string \<Rightarrow> bool" where
  "path_matches path cached \<longleftrightarrow> cached = path \<or> py_startswith cached path"

definition rc_invalidate :: "string option \<Rightarrow> 'b response_cache \<Rightarrow> nat \<times> 'b response_cache" where
  "rc_invalidate path c =
     (case path of
        None \<Rightarrow> (length (rc_cache c), c\<lparr>rc_cache := [], rc_path_index := []\<rparr>)
      | Some p \<Rightarrow>
          (let hit = filter (\<lambda>(cp, ks). path_matches p cp) (rc_path_index c);
               keys = \<Union> (snd ` set hit)
           in (card keys,
               c\<lparr>rc_cache := filter (\<lambda>(k, e). k \<notin> keys) (rc_cache c),
                 rc_path_index := filter (\<lambda>(cp, ks). \<not> path_matches p cp) (rc_path_index c)\<rparr>)))"

definition rc_size :: "'b response_cache \<Rightarrow> nat" where
  "rc_size c = length (rc_cache c)"

definition rc_cleanup_expired :: "clock \<Rightarrow> 'b response_cache \<Rightarrow> nat \<times> 'b response_cache" where
  "rc_cleanup_expired now c =
     (let expired = map fst (filter (\<lambda>(k, e). response_is_expired now (rc_ttl c) e) (rc_cache c))
      in (length expired, fold rc_drop expired c))"

section \<open>Runs\<close>

datatype 'b rc_op =
    RGet string string
  | RPut string string 'b int "(string, string) dict"
  | RInvalidate "string option"
  | RCleanup

fun rc_step :: "(string \<Rightarrow> string) \<Rightarrow> clock \<times> 'b rc_op \<Rightarrow> 'b response_cache \<Rightarrow> (rc_error, 'b response_cache) res" where
  "rc_step md5 (t, RGet p q) c = Inr (snd (rc_get md5 t p q c))"
| "rc_step md5 (t, RPut p q b code h) c = rc_put md5 t p q b code h c"
| "rc_step md5 (t, RInvalidate p) c = Inr (snd (rc_invalidate p c))"
| "rc_step md5 (t, RCleanup) c = Inr (snd (rc_cleanup_expired t c))"

fun rc_run :: "(string \<Rightarrow> string) \<Rightarrow> (clock \<times> 'b rc_op) list \<Rightarrow> 'b response_cache \<Rightarrow> (rc_error, 'b response_cache) res" where
  "rc_run md5 [] c = Inr c"
| "rc_run md5 (x # ops) c =
     (case rc_step md5 x c of Inl e \<Rightarrow> Inl e | Inr c' \<Rightarrow> rc_run md5 ops c')"

definition put_requests :: "(clock \<times> 'b rc_op) list \<Rightarrow> (string \<times> string) set" where
  "put_requests ops = {(p, q). \<exists>t b code h. (t, RPut p q b code h) \<in> set ops}"

text \<open>Two requests of \<open>D\<close> with the same digest are for the same path.\<close>

definition no_clash :: "(string \<Rightarrow> string) \<Rightarrow> (string \<times> string) set \<Rightarrow> bool" where
  "no_clash md5 D \<longleftrightarrow>
     (\<forall>(p, q) \<in> D. \<forall>(p', q') \<in> D. make_key md5 p q = make_key md5 p' q' \<longrightarrow> p = p')"

section \<open>Invariant\<close>

definition indexed :: "'b response_cache \<Rightarrow> string \<Rightarrow> string set" where
  "indexed c p = dict_get_or (rc_path_index c) p {}"

definition rc_inv :: "(string \<Rightarrow> string) \<Rightarrow> (string \<times> string) set \<Rightarrow> 'b response_cache \<Rightarrow> bool" where
  "rc_inv md5 D c \<longleftrightarrow> wf_dict (rc_cache c) \<and> wf_dict (rc_path_index c)
     \<and> (\<forall>p ks. map_of (rc_path_index c) p = Some ks \<longrightarrow> ks \<noteq> {})
     \<and> (\<forall>p. \<forall>k \<in> indexed c p. dict_has (rc_cache c) k \<and> (\<exists>q. (p, q) \<in> D \<and> k = make_key md5 p q))
     \<and> (\<forall>k. dict_has (rc_cache c) k \<longrightarrow> (\<exists>p. k \<in> indexed c p))"

lemma rc_invI:
  assumes "wf_dict (rc_cache c)" "wf_dict (rc_path_index c)"
    and "\<And>p ks. map_of (rc_path_index c) p = Some ks \<Longrightarrow> ks \<noteq> {}"
    and "\<And>p k. k \<in> indexed c p \<Longrightarrow> dict_has (rc_cache c) k \<and> (\<exists>q. (p, q) \<in> D \<and> k = make_key md5 p q)"
    and "\<And>k. dict_has (rc_cache c) k \<Longrightarrow> \<exists>p. k \<in> indexed c p"
  shows "rc_inv md5 D c"
  using assms by (simp add: rc_inv_def)

lemma map_of_index_discard:
  "map_of (index_discard key idx) p =
     (case map_of (filter (\<lambda>(p, ks). ks - {key} \<noteq> {}) idx) p of None \<Rightarrow> None | Some ks \<Rightarrow> Some (ks - {key}))"
  by (induction idx) (auto simp: index_discard_def)

lemma map_of_filter_wf:
  "wf_dict d \<Longrightarrow> map_of (filter (\<lambda>(k, v). P k v) d) k =
     (case map_of d k of None \<Rightarrow> None | Some v \<Rightarrow> if P k v then Some v else None)"
  by (induction d) (auto simp: wf_dict_def map_of_eq_None_iff split: option.splits if_splits)

lemma wf_index_discard [simp, intro]: "wf_dict idx \<Longrightarrow> wf_dict (index_discard key idx)"
proof -
  have "map fst (map (\<lambda>(p, ks). (p, ks - {key})) idx) = map fst idx" by auto
  then show "wf_dict idx \<Longrightarrow> wf_dict (index_discard key idx)"
    unfolding index_discard_def by (intro wf_dict_filter) (metis wf_dict_def)
qed

lemma indexed_drop:
  "wf_dict (rc_path_index c) \<Longrightarrow> indexed (rc_drop key c) p = indexed c p - {key}"
  by (auto simp: indexed_def rc_drop_def rc_remove_from_index_def dict_get_or_def map_of_index_discard
      map_of_filter_wf split: option.splits if_splits)

lemma rc_cache_drop [simp]: "rc_cache (rc_drop key c) = AList.delete key (rc_cache c)"
  by (simp add: rc_drop_def)

lemma rc_drop_inv:
  assumes "rc_inv md5 D c"
  shows "rc_inv md5 D (rc_drop key c)"
proof (rule rc_invI)
  have w: "wf_dict (rc_path_index c)" and wc: "wf_dict (rc_cache c)" using assms by (auto simp: rc_inv_def)
  note i = indexed_drop [OF w]
  show "wf_dict (rc_cache (rc_drop key c))" using wc by simp
  show "wf_dict (rc_path_index (rc_drop key c))" using w by (simp add: rc_drop_def rc_remove_from_index_def)
  show "ks \<noteq> {}" if "map_of (rc_path_index (rc_drop key c)) p = Some ks" for p ks
    using that w by (auto simp: rc_drop_def rc_remove_from_index_def map_of_index_discard map_of_filter_wf
        split: option.splits if_splits)
  show "dict_has (rc_cache (rc_drop key c)) k \<and> (\<exists>q. (p, q) \<in> D \<and> k = make_key md5 p q)"
    if "k \<in> indexed (rc_drop key c) p" for p k
    using that assms unfolding i by (auto simp: rc_inv_def dict_has_delete)
  show "\<exists>p. k \<in> indexed (rc_drop key c) p" if "dict_has (rc_cache (rc_drop key c)) k" for k
    using that assms unfolding i by (auto simp: rc_inv_def dict_has_delete)
qed

lemma rc_get_inv: "rc_inv md5 D c \<Longrightarrow> rc_inv md5 D (snd (rc_get md5 t p q c))"
  by (auto simp: rc_get_def Let_def rc_drop_inv split: option.splits)

lemma fold_drop_inv: "rc_inv md5 D c \<Longrightarrow> rc_inv md5 D (fold rc_drop ks c)"
  by (induction ks arbitrary: c) (auto simp: rc_drop_inv)

lemma indexed_store:
  "indexed (rc_store now path key b code h c) p =
     (if p = path then insert key (indexed c p) else indexed c p)"
  by (auto simp: indexed_def rc_store_def index_add_def dict_get_or_def map_of_update_dict)

lemma rc_store_inv:
  assumes "rc_inv md5 D c" and "(path, q) \<in> D" and "key = make_key md5 path q"
  shows "rc_inv md5 D (rc_store now path key b code h c)"
proof (rule rc_invI)
  let ?c = "rc_store now path key b code h c"
  have cc: "dict_has (rc_cache ?c) k \<longleftrightarrow> k = key \<or> dict_has (rc_cache c) k" for k
    by (simp add: rc_store_def dict_has_update)
  show "wf_dict (rc_cache ?c)" "wf_dict (rc_path_index ?c)"
    using assms by (auto simp: rc_inv_def rc_store_def index_add_def)
  show "ks \<noteq> {}" if "map_of (rc_path_index ?c) p = Some ks" for p ks
    using that assms(1)
    by (auto simp: rc_inv_def rc_store_def index_add_def map_of_update_dict split: if_splits)
  show "dict_has (rc_cache ?c) k \<and> (\<exists>q. (p, q) \<in> D \<and> k = make_key md5 p q)" if "k \<in> indexed ?c p" for p k
    using that assms unfolding indexed_store cc rc_inv_def by (auto split: if_splits)
  show "\<exists>p. k \<in> indexed ?c p" if "dict_has (rc_cache ?c) k" for k
    using that assms(1) unfolding indexed_store cc rc_inv_def by (auto split: if_splits)
qed

lemma oldest_from_in: "oldest_from b xs \<in> insert b (set xs)"
  by (induction b xs rule: oldest_from.induct) auto

lemma oldest_key_in: "oldest_key d = Inr k \<Longrightarrow> dict_has d k"
proof (cases d)
  case (Cons x xs)
  then show "oldest_key d = Inr k \<Longrightarrow> dict_has d k"
    using oldest_from_in [of x xs] by (auto simp: oldest_key_def dict_has_def simp del: oldest_from.simps)
qed (simp add: oldest_key_def)

lemma oldest_from_min:
  "\<forall>x \<in> insert b (set xs). re_created_at (snd (oldest_from b xs)) \<le> re_created_at (snd x)"
  by (induction b xs rule: oldest_from.induct) (auto split: if_splits)

lemma rc_put_inv:
  assumes "rc_inv md5 D c" and "(p, q) \<in> D" and "rc_put md5 t p q b code h c = Inr c'"
  shows "rc_inv md5 D c'"
  using assms
  by (auto simp: rc_put_def Let_def rc_store_inv rc_drop_inv split: if_splits sum.splits)

text \<open>The keys selected by an invalidation are those indexed under a matching path.\<close>

lemma hit_keys:
  assumes "wf_dict (rc_path_index c)"
  shows "k \<in> \<Union> (snd ` set (filter (\<lambda>(cp, ks). path_matches p cp) (rc_path_index c)))
    \<longleftrightarrow> (\<exists>cp. path_matches p cp \<and> k \<in> indexed c cp)"
proof
  assume "k \<in> \<Union> (snd ` set (filter (\<lambda>(cp, ks). path_matches p cp) (rc_path_index c)))"
  then obtain cp ks where "(cp, ks) \<in> set (rc_path_index c)" "path_matches p cp" "k \<in> ks" by auto
  then show "\<exists>cp. path_matches p cp \<and> k \<in> indexed c cp"
    using assms by (auto simp: indexed_def dict_get_or_def map_of_wf_in_set)
next
  assume "\<exists>cp. path_matches p cp \<and> k \<in> indexed c cp"
  then obtain cp ks where "path_matches p cp" "map_of (rc_path_index c) cp = Some ks" "k \<in> ks"
    by (auto simp: indexed_def dict_get_or_def split: option.splits)
  then show "k \<in> \<Union> (snd ` set (filter (\<lambda>(cp, ks). path_matches p cp) (rc_path_index c)))"
    by (force dest: map_of_SomeD)
qed

lemma invalidate_cache:
  assumes "wf_dict (rc_path_index c)"
  shows "rc_cache (snd (rc_invalidate (Some p) c)) =
    filter (\<lambda>(k, e). \<not> (\<exists>cp. path_matches p cp \<and> k \<in> indexed c cp)) (rc_cache c)"
proof -
  have "(\<lambda>(k, e). k \<notin> \<Union> (snd ` set (filter (\<lambda>(cp, ks). path_matches p cp) (rc_path_index c))))
      = (\<lambda>(k, e :: 'a response_entry). \<not> (\<exists>cp. path_matches p cp \<and> k \<in> indexed c cp))"
    unfolding hit_keys [OF assms] ..
  then show ?thesis unfolding rc_invalidate_def Let_def by simp
qed

lemma indexed_invalidate:
  assumes "wf_dict (rc_path_index c)"
  shows "indexed (snd (rc_invalidate (Some p) c)) cp = (if path_matches p cp then {} else indexed c cp)"
  using assms map_of_filter_wf [OF assms, of "\<lambda>cp ks. \<not> path_matches p cp" cp]
  by (auto simp: indexed_def rc_invalidate_def Let_def dict_get_or_def split: option.splits)

lemma rc_inv_owner:
  assumes "rc_inv md5 D c" and "no_clash md5 D" and "k \<in> indexed c p" and "k \<in> indexed c p'"
  shows "p = p'"
proof -
  from assms(1,3) obtain q where "(p, q) \<in> D" "k = make_key md5 p q" unfolding rc_inv_def by blast
  moreover from assms(1,4) obtain q' where "(p', q') \<in> D" "k = make_key md5 p' q'" unfolding rc_inv_def by blast
  ultimately show ?thesis using assms(2) unfolding no_clash_def by blast
qed

lemma dict_has_filter:
  "dict_has (filter (\<lambda>(k, e). P k) d) k \<longleftrightarrow> P k \<and> dict_has d k"
  by (induction d) (auto simp: dict_has_def)

lemma rc_invalidate_inv:
  assumes i: "rc_inv md5 D c" and "no_clash md5 D"
  shows "rc_inv md5 D (snd (rc_invalidate path c))"
proof (cases path)
  case None
  then show ?thesis by (simp add: rc_invalidate_def rc_inv_def indexed_def dict_has_def dict_get_or_def)
next
  case (Some p)
  let ?c = "snd (rc_invalidate (Some p) c)"
  have w: "wf_dict (rc_path_index c)" "wf_dict (rc_cache c)" using i by (auto simp: rc_inv_def)
  have has: "dict_has (rc_cache ?c) k \<longleftrightarrow>
      \<not> (\<exists>cp. path_matches p cp \<and> k \<in> indexed c cp) \<and> dict_has (rc_cache c) k" for k
    unfolding invalidate_cache [OF w(1)] by (rule dict_has_filter)
  have ix: "indexed ?c cp = (if path_matches p cp then {} else indexed c cp)" for cp
    by (rule indexed_invalidate [OF w(1)])
  have "rc_inv md5 D ?c"
  proof (rule rc_invI)
    show "wf_dict (rc_cache ?c)" using w by (simp add: invalidate_cache)
    show "wf_dict (rc_path_index ?c)" using w by (simp add: rc_invalidate_def Let_def)
    show "ks \<noteq> {}" if "map_of (rc_path_index ?c) cp = Some ks" for cp ks
      using that i w by (auto simp: rc_invalidate_def Let_def rc_inv_def map_of_filter_wf
          split: option.splits if_splits)
    show "dict_has (rc_cache ?c) k \<and> (\<exists>q. (cp, q) \<in> D \<and> k = make_key md5 cp q)" if "k \<in> indexed ?c cp" for cp k
    proof -
      from that have "\<not> path_matches p cp" and k: "k \<in> indexed c cp" by (auto simp: ix split: if_splits)
      then have "\<not> (\<exists>cp. path_matches p cp \<and> k \<in> indexed c cp)" using rc_inv_owner [OF i assms(2)] by blast
      with k i show ?thesis unfolding has rc_inv_def by blast
    qed
    show "\<exists>p. k \<in> indexed ?c p" if "dict_has (rc_cache ?c) k" for k
      using that i unfolding has ix rc_inv_def by (metis (full_types))
  qed
  with Some show ?thesis by simp
qed

lemma rc_step_inv:
  assumes "rc_inv md5 D c" and "no_clash md5 D" and "put_requests [x] \<subseteq> D" and "rc_step md5 x c = Inr c'"
  shows "rc_inv md5 D c'"
proof -
  obtain t op where x: "x = (t, op)" by fastforce
  show ?thesis
    using assms rc_get_inv rc_invalidate_inv rc_put_inv fold_drop_inv
    unfolding x by (cases op) (auto simp: put_requests_def rc_cleanup_expired_def Let_def)
qed

lemma put_requests_Cons: "put_requests (x # ops) = put_requests [x] \<union> put_requests ops"
  by (auto simp: put_requests_def)

lemma rc_run_inv:
  "rc_inv md5 D c \<Longrightarrow> no_clash md5 D \<Longrightarrow> put_requests ops \<subseteq> D \<Longrightarrow> rc_run md5 ops c = Inr c'
    \<Longrightarrow> rc_inv md5 D c'"
proof (induction ops arbitrary: c)
  case (Cons x ops)
  from Cons.prems(3) have D: "put_requests [x] \<subseteq> D" "put_requests ops \<subseteq> D"
    by (subst (asm) put_requests_Cons, simp)+
  from Cons.prems(4) obtain c1 where c1: "rc_step md5 x c = Inr c1" "rc_run md5 ops c1 = Inr c'"
    by (auto split: sum.splits)
  from rc_step_inv [OF Cons.prems(1,2) D(1) c1(1)] show ?case
    by (rule Cons.IH [OF _ Cons.prems(2) D(2) c1(2)])
qed simp

text \<open>Capacity.\<close>

definition rc_bounded :: "int \<Rightarrow> 'b response_cache \<Rightarrow> bool" where
  "rc_bounded mx c \<longleftrightarrow> wf_dict (rc_cache c) \<and> rc_max_entries c = mx \<and> 1 \<le> mx \<and> int (rc_size c) \<le> rc_max_entries c"

lemma rc_drop_max [simp]: "rc_max_entries (rc_drop k c) = rc_max_entries c" "rc_ttl (rc_drop k c) = rc_ttl c"
  by (simp_all add: rc_drop_def rc_remove_from_index_def)

lemma rc_drop_bounded: "rc_bounded mx c \<Longrightarrow> rc_bounded mx (rc_drop k c)"
  by (auto simp: rc_bounded_def rc_size_def length_delete_dict)

lemma fold_drop_bounded: "rc_bounded mx c \<Longrightarrow> rc_bounded mx (fold rc_drop ks c)"
  by (induction ks arbitrary: c) (auto simp: rc_drop_bounded)

lemma rc_put_bounded:
  assumes "rc_bounded mx c"
  shows "\<exists>c'. rc_put md5 t p q b code h c = Inr c' \<and> rc_bounded mx c'"
proof -
  let ?key = "make_key md5 p q"
  have store: "rc_bounded mx (rc_store t p ?key b code h c1)"
    if "rc_bounded mx c1" "int (rc_size c1) < rc_max_entries c1 \<or> dict_has (rc_cache c1) ?key" for c1 :: "'a response_cache"
    using that by (auto simp: rc_bounded_def rc_size_def rc_store_def length_update_dict)
  show ?thesis
  proof (cases "code < 400 \<and> int (length (rc_cache c)) \<ge> rc_max_entries c \<and> \<not> dict_has (rc_cache c) ?key")
    case True
    then have "rc_cache c \<noteq> []" using assms by (auto simp: rc_bounded_def)
    then obtain old where o: "oldest_key (rc_cache c) = Inr old" by (auto simp: oldest_key_def neq_Nil_conv)
    have "int (rc_size (rc_drop old c)) < rc_max_entries (rc_drop old c)"
      using assms oldest_key_in [OF o] \<open>rc_cache c \<noteq> []\<close>
      by (auto simp: rc_bounded_def rc_size_def length_delete_dict neq_Nil_conv)
    with store [OF rc_drop_bounded [OF assms]] True o show ?thesis by (auto simp: rc_put_def Let_def)
  next
    case False
    with assms store [OF assms] show ?thesis by (auto simp: rc_put_def Let_def rc_size_def)
  qed
qed

lemma rc_step_bounded: "rc_bounded mx c \<Longrightarrow> \<exists>c'. rc_step md5 x c = Inr c' \<and> rc_bounded mx c'"
proof (cases x)
  case (Pair t op)
  assume b: "rc_bounded mx c"
  have "rc_bounded mx (snd (rc_invalidate p c))" for p
    using b by (auto simp: rc_bounded_def rc_invalidate_def rc_size_def Let_def split: option.splits
        intro: order_trans [OF _ ])
      (meson length_filter_le of_nat_mono order_trans)
  then show ?thesis using b rc_put_bounded [OF b] rc_drop_bounded [OF b] fold_drop_bounded [OF b]
    unfolding Pair
    by (cases op) (auto simp: rc_get_def rc_cleanup_expired_def Let_def split: option.splits)
qed

lemma rc_run_bounded: "rc_bounded mx c \<Longrightarrow> \<exists>c'. rc_run md5 ops c = Inr c' \<and> rc_bounded mx c'"
proof (induction ops arbitrary: c)
  case (Cons x ops)
  from rc_step_bounded [OF Cons.prems, of md5 x] Cons.IH show ?case by force
qed simp

lemma rc_init_inv: "rc_inv md5 D (rc_init ttl mx)"
  by (simp add: rc_inv_def rc_init_def indexed_def dict_has_def dict_get_or_def)

lemma invalidate_count:
  assumes i: "rc_inv md5 D c"
  shows "fst (rc_invalidate path c) + rc_size (snd (rc_invalidate path c)) = rc_size c"
proof (cases path)
  case None
  then show ?thesis by (simp add: rc_invalidate_def rc_size_def)
next
  case (Some p)
  define keys where "keys = \<Union> (snd ` set (filter (\<lambda>(cp, ks). path_matches p cp) (rc_path_index c)))"
  let ?gone = "filter (\<lambda>x. fst x \<in> keys) (rc_cache c)"
  have w: "wf_dict (rc_path_index c)" "wf_dict (rc_cache c)" using i by (auto simp: rc_inv_def)
  have "keys \<subseteq> fst ` set (rc_cache c)"
  proof
    fix k assume "k \<in> keys"
    then obtain cp where "k \<in> indexed c cp" unfolding keys_def hit_keys [OF w(1)] by blast
    then show "k \<in> fst ` set (rc_cache c)" using i unfolding rc_inv_def dict_has_def by blast
  qed
  then have "keys = set (map fst ?gone)" by force
  moreover have "distinct (map fst ?gone)" using w(2) wf_dict_filter wf_dict_def by blast
  ultimately have "card keys = length ?gone" by (metis distinct_card length_map)
  moreover have "(\<lambda>(k, e :: 'a response_entry). k \<notin> keys) = (\<lambda>x. fst x \<notin> keys)" by auto
  then have "rc_invalidate path c = (card keys, c\<lparr>rc_cache := filter (\<lambda>x. fst x \<notin> keys) (rc_cache c),
      rc_path_index := filter (\<lambda>(cp, ks). \<not> path_matches p cp) (rc_path_index c)\<rparr>)"
    unfolding Some rc_invalidate_def option.case Let_def keys_def [symmetric] by (simp only:)
  ultimately show ?thesis
    using sum_length_filter_compl [of "\<lambda>x. fst x \<in> keys" "rc_cache c"] by (simp add: rc_size_def)
qed

lemma invalidate_lookup:
  assumes i: "rc_inv md5 D c" and "no_clash md5 D" and "(p', q) \<in> D"
  shows "map_of (rc_cache (snd (rc_invalidate (Some p) c))) (make_key md5 p' q) =
    (if path_matches p p' then None else map_of (rc_cache c) (make_key md5 p' q))"
proof -
  let ?k = "make_key md5 p' q"
  have w: "wf_dict (rc_path_index c)" "wf_dict (rc_cache c)" using i by (auto simp: rc_inv_def)
  have own: "cp = p'" if "?k \<in> indexed c cp" for cp
  proof -
    from that i obtain q' where "(cp, q') \<in> D" "?k = make_key md5 cp q'" unfolding rc_inv_def by blast
    with assms(2,3) show ?thesis unfolding no_clash_def by blast
  qed
  have "?k \<in> indexed c p'" if "map_of (rc_cache c) ?k \<noteq> None"
    using that own i unfolding rc_inv_def by (metis dict_has_map_of)
  then show ?thesis
    unfolding invalidate_cache [OF w(1)]
    using map_of_filter_wf [OF w(2), of "\<lambda>k e. \<not> (\<exists>cp. path_matches p cp \<and> k \<in> indexed c cp)" ?k] own
    by (auto split: option.splits)
qed

section \<open>Properties\<close>

text \<open>Along any run of gets, puts, invalidations and clean-ups of a cache with positive capacity no
  operation raises, the capacity is never exceeded, and the path index stays exact: the keys it
  holds are the keys of the cache.\<close>

theorem rc_run_consistent:
  assumes "1 \<le> mx" and "no_clash md5 (put_requests ops)"
  shows "\<exists>c. rc_run md5 ops (rc_init ttl mx) = Inr c \<and> int (rc_size c) \<le> mx
    \<and> {k. \<exists>p. k \<in> indexed c p} = fst ` set (rc_cache c)"
proof -
  have "rc_bounded mx (rc_init ttl mx)" using assms(1) by (simp add: rc_bounded_def rc_init_def rc_size_def)
  from rc_run_bounded [OF this] obtain c
    where c: "rc_run md5 ops (rc_init ttl mx) = Inr c" "rc_bounded mx c" by blast
  from rc_run_inv [OF rc_init_inv assms(2) order_refl c(1)]
  have "{k. \<exists>p. k \<in> indexed c p} = fst ` set (rc_cache c)"
    unfolding rc_inv_def dict_has_def by blast
  with c show ?thesis by (auto simp: rc_bounded_def)
qed

definition sample_puts :: "(clock \<times> nat rc_op) list" where
  "sample_puts = [(0, RPut ''/a/x'' [] 1 200 []), (1, RPut ''/b'' ''q=1'' 2 200 []), (2, RInvalidate (Some ''/a''))]"

lemma sample_puts_no_clash: "no_clash id (put_requests sample_puts)"
  by (auto simp: no_clash_def put_requests_def sample_puts_def make_key_def)

theorem rc_run_consistent_witness:
  "\<exists>c. rc_run id sample_puts (rc_init 60 2) = Inr c \<and> int (rc_size c) \<le> 2"
  using rc_run_consistent [OF _ sample_puts_no_clash, of 2 60] by auto

text \<open>Invalidation is complete and precise: after any run, \<open>invalidate(prefix)\<close> makes every request
  whose path starts with the prefix a miss, leaves the cached response of every other request as it
  was, and returns the number of entries removed.\<close>

theorem rc_invalidate_effective:
  assumes "rc_run md5 ops (rc_init ttl mx) = Inr c" and "no_clash md5 D"
    and "put_requests ops \<subseteq> D" and "(p', q) \<in> D"
  shows "fst (rc_get md5 now p' q (snd (rc_invalidate (Some p) c))) =
      (if path_matches p p' then None else fst (rc_get md5 now p' q c))
    \<and> fst (rc_invalidate (Some p) c) = rc_size c - rc_size (snd (rc_invalidate (Some p) c))"
proof -
  have i: "rc_inv md5 D c" by (rule rc_run_inv [OF rc_init_inv assms(2,3,1)])
  have "rc_ttl (snd (rc_invalidate (Some p) c)) = rc_ttl c" by (simp add: rc_invalidate_def Let_def)
  with invalidate_lookup [OF i assms(2,4), of p] invalidate_count [OF i, of "Some p"] show ?thesis
    by (auto simp: rc_get_def Let_def split: option.splits)
qed

theorem rc_invalidate_effective_witness:
  "\<exists>c. rc_run id sample_puts (rc_init 60 2) = Inr c
     \<and> fst (rc_get id 3 ''/b'' ''q=1'' (snd (rc_invalidate (Some ''/b'') c))) = None"
proof -
  have "rc_bounded 2 (rc_init 60 2 :: nat response_cache)" by (simp add: rc_bounded_def rc_init_def rc_size_def)
  from rc_run_bounded [OF this, of id sample_puts] obtain c
    where c: "rc_run id sample_puts (rc_init 60 2) = Inr c" by blast
  have "(''/b'', ''q=1'') \<in> put_requests sample_puts" by (auto simp: put_requests_def sample_puts_def)
  from rc_invalidate_effective [OF c sample_puts_no_clash order_refl this, of 3 "''/b''"] c show ?thesis
    by (auto simp: path_matches_def)
qed

end
