(* ===== verification/Rate_Limit.thy ===== *)
theory Rate_Limit
  imports Prelude
begin

text \<open>
  \<^verbatim>\<open>gateway/middleware/rate_limit.py\<close> (sliding window) and \<^verbatim>\<open>core/kg/api/middleware/rate_limit.py\<close>
  (token bucket): the in-memory and Redis backends and the two middlewares.

  Clock readings are arguments.  A Redis pipeline \<^verbatim>\<open>INCR key; EXPIRE key window\<close> is a parameter
  \<open>pipe\<close> on an opaque server state: it returns the counter, or nothing when the client raises.  The
  downstream application is a parameter \<open>call_next\<close>.
\<close>

section \<open>Gateway: data\<close>

record rl_info =
  ri_limit :: int
  ri_remaining :: int
  ri_reset_ts :: int

record sliding_window =
  sw_windows :: "(string, clock list) dict"
  sw_last_cleanup :: clock

datatype rl_error = ZeroDivisionError

type_synonym 'r redis_pipe = "'r \<Rightarrow> clock \<Rightarrow> string \<Rightarrow> int \<Rightarrow> int option \<times> 'r"

definition cleanup_interval :: real where
  "cleanup_interval = 60"

section \<open>Gateway: in-memory backend\<close>

definition sw_init :: "clock \<Rightarrow> sliding_window" where
  "sw_init now = \<lparr>sw_windows = [], sw_last_cleanup = now\<rparr>"

definition sw_maybe_cleanup :: "clock \<Rightarrow> real \<Rightarrow> sliding_window \<Rightarrow> sliding_window" where
  "sw_maybe_cleanup now window s =
     (if now - sw_last_cleanup s < cleanup_interval then s
      else s\<lparr>sw_windows := filter (\<lambda>(k, ts). \<exists>t \<in> set ts. t > now - window) (sw_windows s),
             sw_last_cleanup := now\<rparr>)"

definition sw_check_rate_limit ::
  "clock \<Rightarrow> string \<Rightarrow> int \<Rightarrow> real \<Rightarrow> sliding_window \<Rightarrow> (bool \<times> rl_info) \<times> sliding_window" where
  "sw_check_rate_limit now key limit window s =
     (let window_start = now - window;
          s1 = sw_maybe_cleanup now window s;
          ts = filter (\<lambda>t. t > window_start) (dict_get_or (sw_windows s1) key []);
          reset_ts = py_int (window_start + window) + 1
      in if int (length ts) \<ge> limit
         then ((False, \<lparr>ri_limit = limit, ri_remaining = 0, ri_reset_ts = reset_ts\<rparr>),
               s1\<lparr>sw_windows := AList.update key ts (sw_windows s1)\<rparr>)
         else (let ts' = ts @ [now] in
               ((True, \<lparr>ri_limit = limit, ri_remaining = max 0 (limit - int (length ts')),
                        ri_reset_ts = reset_ts\<rparr>),
                s1\<lparr>sw_windows := AList.update key ts' (sw_windows s1)\<rparr>)))"

section \<open>Gateway: Redis backend\<close>

record redis_limiter =
  rl_key_prefix :: string
  rl_fallback :: "sliding_window option"

definition rl_init :: "string \<Rightarrow> bool \<Rightarrow> clock \<Rightarrow> redis_limiter" where
  "rl_init prefix up now =
     \<lparr>rl_key_prefix = prefix, rl_fallback = (if up then None else Some (sw_init now))\<rparr>"

definition rl_check_rate_limit :: "'r redis_pipe \<Rightarrow> clock \<Rightarrow> string \<Rightarrow> int \<Rightarrow> real
    \<Rightarrow> redis_limiter \<times> 'r \<Rightarrow> (rl_error, (bool \<times> rl_info) \<times> redis_limiter \<times> 'r) res" where
  "rl_check_rate_limit pipe now key limit window st =
     (let (b, r) = st in
      case rl_fallback b of
        Some f \<Rightarrow> (let (out, f') = sw_check_rate_limit now key limit window f
                    in Inr (out, b\<lparr>rl_fallback := Some f'\<rparr>, r))
      | None \<Rightarrow>
          (let window_int = py_int window; now_int = py_int now in
           if window_int = 0 then Inl ZeroDivisionError
           else (let reset_ts = (now_int div window_int) * window_int + window_int in
                 case pipe r now (rl_key_prefix b @ key) window_int of
                   (Some count, r') \<Rightarrow>
                     Inr ((count \<le> limit, \<lparr>ri_limit = limit, ri_remaining = max 0 (limit - count),
                                           ri_reset_ts = reset_ts\<rparr>), b, r')
                 | (None, r') \<Rightarrow>
                     (let (out, f') = sw_check_rate_limit now key limit window (sw_init now)
                      in Inr (out, b\<lparr>rl_fallback := Some f'\<rparr>, r')))))"

section \<open>Gateway: configuration and middleware\<close>

record rate_limit_config =
  rlc_requests_per_minute :: int
  rlc_burst_multiplier :: real
  rlc_exclude_paths :: "string list"

definition rate_limit_config_init :: rate_limit_config where
  "rate_limit_config_init = \<lparr>rlc_requests_per_minute = 300, rlc_burst_multiplier = 3 / 2,
     rlc_exclude_paths = [''/health'', ''/ready'']\<rparr>"

definition burst_limit :: "rate_limit_config \<Rightarrow> int" where
  "burst_limit c = py_int (of_int (rlc_requests_per_minute c) * rlc_burst_multiplier c)"

definition is_excluded :: "rate_limit_config \<Rightarrow> string \<Rightarrow> bool" where
  "is_excluded c path =
     list_ex (\<lambda>ex. path = ex \<or> py_startswith path (ex @ ''/'')) (rlc_exclude_paths c)"

record http_request =
  rq_path :: string
  rq_forwarded_for :: "string option"
  rq_client_host :: "string option"

record http_response =
  rs_status :: int
  rs_content :: "(string, string) dict"
  rs_headers :: "(string, string) dict"

definition get_client_ip :: "http_request \<Rightarrow> string" where
  "get_client_ip rq =
     (let fwd = (case rq_forwarded_for rq of None \<Rightarrow> [] | Some h \<Rightarrow> h) in
      if fwd \<noteq> [] then py_strip (takeWhile (\<lambda>c. c \<noteq> CHR '','') fwd)
      else (case rq_client_host rq of Some h \<Rightarrow> h | None \<Rightarrow> ''unknown''))"

text \<open>
  \<open>dispatch\<close> over any backend operation; \<open>now\<close> is the reading taken for \<^verbatim>\<open>Retry-After\<close>.  The flag says
  whether the request reached the application.
\<close>

definition gw_dispatch :: "rate_limit_config
    \<Rightarrow> (string \<Rightarrow> int \<Rightarrow> real \<Rightarrow> 's \<Rightarrow> (rl_error, (bool \<times> rl_info) \<times> 's) res)
    \<Rightarrow> clock \<Rightarrow> (http_request \<Rightarrow> http_response) \<Rightarrow> http_request \<Rightarrow> 's
    \<Rightarrow> (rl_error, (bool \<times> http_response) \<times> 's) res" where
  "gw_dispatch cfg check now call_next rq s =
     (if is_excluded cfg (rq_path rq) then Inr ((True, call_next rq), s)
      else (let limit = rlc_requests_per_minute cfg in
            case check (get_client_ip rq) limit 60 s of
              Inl e \<Rightarrow> Inl e
            | Inr ((allowed, info), s') \<Rightarrow>
               (let reset_ts = ri_reset_ts info in
                if \<not> allowed
                then Inr ((False,
                  \<lparr>rs_status = 429,
                   rs_content = [(''type'', ''about:blank''), (''title'', ''Too Many Requests''),
                     (''status'', int_str 429),
                     (''detail'', ''Rate limit of '' @ int_str limit @ '' requests/minute exceeded. ''
                        @ ''Try again after '' @ int_str reset_ts @ ''.'')],
                   rs_headers = [(''X-RateLimit-Limit'', int_str limit),
                                 (''X-RateLimit-Remaining'', ''0''),
                                 (''X-RateLimit-Reset'', int_str reset_ts),
                                 (''Retry-After'', int_str (max 0 (reset_ts - py_int now)))]\<rparr>), s')
                else (let rsp = call_next rq in
                  Inr ((True, rsp\<lparr>rs_headers :=
                      AList.update ''X-RateLimit-Reset'' (int_str reset_ts)
                        (AList.update ''X-RateLimit-Remaining'' (int_str (ri_remaining info))
                          (AList.update ''X-RateLimit-Limit'' (int_str limit) (rs_headers rsp)))\<rparr>), s')))))"

section \<open>Core: token bucket\<close>

definition role_limits :: "(string, int) dict" where
  "role_limits = [(''admin'', 600), (''researcher'', 300), (''operator'', 300), (''data_provider'', 200),
                  (''viewer'', 100), (''user'', 100)]"

definition default_limit :: int where
  "default_limit = 100"

record token_bucket =
  tb_capacity :: int
  tb_refill_rate :: real
  tb_tokens :: real
  tb_last_refill :: clock

definition tb_init :: "int \<Rightarrow> real \<Rightarrow> clock \<Rightarrow> token_bucket" where
  "tb_init cap rate now =
     \<lparr>tb_capacity = cap, tb_refill_rate = rate, tb_tokens = of_int cap, tb_last_refill = now\<rparr>"

definition tb_consume :: "clock \<Rightarrow> token_bucket \<Rightarrow> bool \<times> token_bucket" where
  "tb_consume now b =
     (let elapsed = now - tb_last_refill b;
          tokens = min (of_int (tb_capacity b)) (tb_tokens b + elapsed * tb_refill_rate b);
          b1 = b\<lparr>tb_tokens := tokens, tb_last_refill := now\<rparr>
      in if tokens \<ge> 1 then (True, b1\<lparr>tb_tokens := tokens - 1\<rparr>) else (False, b1))"

definition tb_remaining :: "token_bucket \<Rightarrow> int" where
  "tb_remaining b = max 0 (py_int (tb_tokens b))"

text \<open>Python's \<open>%\<close> on floats with a positive divisor.\<close>

definition py_fmod :: "real \<Rightarrow> real \<Rightarrow> real" where
  "py_fmod x w = x - w * of_int \<lfloor>x / w\<rfloor>"

type_synonym bucket_store = "(string, token_bucket) dict"

definition get_bucket :: "clock \<Rightarrow> string \<Rightarrow> int \<Rightarrow> int \<Rightarrow> bucket_store \<Rightarrow> (rl_error, token_bucket \<times> bucket_store) res" where
  "get_bucket now key max_requests window_seconds bs =
     (case map_of bs key of
        Some b \<Rightarrow> Inr (b, bs)
      | None \<Rightarrow>
          if window_seconds = 0 then Inl ZeroDivisionError
          else (let b = tb_init max_requests (of_int max_requests / of_int window_seconds) now
                in Inr (b, AList.update key b bs)))"

type_synonym rl_headers = "(string, string) dict"

definition limit_headers :: "int \<Rightarrow> int \<Rightarrow> int \<Rightarrow> rl_headers" where
  "limit_headers limit remaining reset =
     [(''X-RateLimit-Limit'', int_str limit), (''X-RateLimit-Remaining'', int_str remaining),
      (''X-RateLimit-Reset'', int_str reset)]"

text \<open>\<open>check_limit\<close>: the bucket is created at \<open>now0\<close>, asked at \<open>now\<close> and the reset computed at \<open>now2\<close>.\<close>

definition tb_check_limit :: "clock \<times> clock \<times> clock \<Rightarrow> string \<Rightarrow> int \<Rightarrow> int \<Rightarrow> bucket_store
    \<Rightarrow> (rl_error, (bool \<times> rl_headers) \<times> bucket_store) res" where
  "tb_check_limit nows key max_requests window_seconds bs =
     (let (now0, now, now2) = nows in
      case get_bucket now0 key max_requests window_seconds bs of
        Inl e \<Rightarrow> Inl e
      | Inr (b, bs1) \<Rightarrow>
          (let (allowed, b') = tb_consume now b in
           if window_seconds = 0 then Inl ZeroDivisionError
           else (let reset = py_int (of_int window_seconds
                       - py_fmod (now2 - tb_last_refill b') (of_int window_seconds))
                 in Inr ((allowed, limit_headers max_requests (tb_remaining b') reset),
                         AList.update key b' bs1))))"

section \<open>Core: Redis backend and middleware\<close>

record core_redis_limiter =
  cr_prefix :: string
  cr_fallback :: "bucket_store option"

definition cr_check_limit :: "'r redis_pipe \<Rightarrow> clock \<times> clock \<times> clock \<Rightarrow> string \<Rightarrow> int \<Rightarrow> int
    \<Rightarrow> core_redis_limiter \<times> 'r \<Rightarrow> (rl_error, (bool \<times> rl_headers) \<times> core_redis_limiter \<times> 'r) res" where
  "cr_check_limit pipe nows key max_requests window_seconds st =
     (let (b, r) = st in
      case pipe r (fst nows) (cr_prefix b @ key) window_seconds of
        (Some current, r') \<Rightarrow>
          Inr ((current \<le> max_requests,
                limit_headers max_requests (max 0 (max_requests - current)) window_seconds), b, r')
      | (None, r') \<Rightarrow>
          (let f = (case cr_fallback b of None \<Rightarrow> [] | Some f \<Rightarrow> f) in
           case tb_check_limit nows key max_requests window_seconds f of
             Inl e \<Rightarrow> Inl e
           | Inr (out, f') \<Rightarrow> Inr (out, b\<lparr>cr_fallback := Some f'\<rparr>, r')))"

record core_request =
  cq_path :: string
  cq_user :: "(string, string) dict option"
  cq_client_host :: "string option"

definition skip_paths :: "string list" where
  "skip_paths = [''/api/v1/health'', ''/metrics'']"

text \<open>An empty user dictionary is falsy.\<close>

definition core_identity :: "core_request \<Rightarrow> string \<times> string" where
  "core_identity rq =
     (case cq_user rq of
        Some (u # us) \<Rightarrow> (dict_get_or (u # us) ''sub'' [], dict_get_or (u # us) ''role'' ''user'')
      | _ \<Rightarrow> ((case cq_client_host rq of Some h \<Rightarrow> h | None \<Rightarrow> ''unknown''), ''user''))"

definition core_limit :: "int \<Rightarrow> string \<Rightarrow> int" where
  "core_limit dflt role = dict_get_or role_limits role dflt"

text \<open>The reset header is a decimal numeral, so reading it with \<^verbatim>\<open>int\<close> and printing it again keeps it.\<close>

definition core_dispatch :: "int \<Rightarrow> (string \<Rightarrow> int \<Rightarrow> int \<Rightarrow> 's \<Rightarrow> (rl_error, (bool \<times> rl_headers) \<times> 's) res)
    \<Rightarrow> (core_request \<Rightarrow> http_response) \<Rightarrow> core_request \<Rightarrow> 's
    \<Rightarrow> (rl_error, (bool \<times> http_response) \<times> 's) res" where
  "core_dispatch dflt check call_next rq s =
     (if cq_path rq \<in> set skip_paths then Inr ((True, call_next rq), s)
      else (let (identity, role) = core_identity rq; limit = core_limit dflt role in
            case check identity limit 60 s of
              Inl e \<Rightarrow> Inl e
            | Inr ((allowed, hs), s') \<Rightarrow>
                if \<not> allowed
                then (let reset = dict_get_or hs ''X-RateLimit-Reset'' ''60'' in
                  Inr ((False,
                    \<lparr>rs_status = 429,
                     rs_content = [(''type'', ''https://imsp.kriso.re.kr/errors/API-5002''),
                       (''title'', ''Rate Limit Exceeded''), (''status'', int_str 429),
                       (''detail'', ''Rate limit of '' @ int_str limit @ ''/min exceeded. Retry after ''
                          @ reset @ ''s.'')],
                     rs_headers = [(''X-RateLimit-Limit'', int_str limit), (''X-RateLimit-Remaining'', ''0''),
                                   (''X-RateLimit-Reset'', reset), (''Retry-After'', reset)]\<rparr>), s'))
                else (let rsp = call_next rq in
                  Inr ((True, rsp\<lparr>rs_headers :=
                    AList.update ''X-RateLimit-Reset'' (dict_get_or hs ''X-RateLimit-Reset'' ''60'')
                      (AList.update ''X-RateLimit-Remaining'' (dict_get_or hs ''X-RateLimit-Remaining'' ''0'')
                        (AList.update ''X-RateLimit-Limit'' (dict_get_or hs ''X-RateLimit-Limit'' (int_str limit))
                          (rs_headers rsp)))\<rparr>), s'))))"

section \<open>Sliding window: refinement to a log of admissions\<close>

text \<open>
  The ideal limiter keeps the full log of admission nows of a key and admits when fewer than
  \<open>limit\<close> of them lie within the window.
\<close>

definition log_admits :: "int \<Rightarrow> real \<Rightarrow> clock list \<Rightarrow> clock \<Rightarrow> bool" where
  "log_admits limit window h now \<longleftrightarrow> int (length (filter (\<lambda>t. t > now - window) h)) < limit"

fun log_run :: "int \<Rightarrow> real \<Rightarrow> (clock \<times> string) list \<Rightarrow> (string \<Rightarrow> clock list) \<Rightarrow> bool list \<times> (string \<Rightarrow> clock list)" where
  "log_run limit window [] h = ([], h)"
| "log_run limit window ((now, key) # rs) h =
     (let ok = log_admits limit window (h key) now;
          (oks, h') = log_run limit window rs (if ok then h(key := h key @ [now]) else h)
      in (ok # oks, h'))"

fun sw_run :: "int \<Rightarrow> real \<Rightarrow> (clock \<times> string) list \<Rightarrow> sliding_window \<Rightarrow> bool list \<times> sliding_window" where
  "sw_run limit window [] s = ([], s)"
| "sw_run limit window ((now, key) # rs) s =
     (let ((ok, info), s1) = sw_check_rate_limit now key limit window s;
          (oks, s') = sw_run limit window rs s1
      in (ok # oks, s'))"

text \<open>What is stored for a key agrees with its log on the part any later window can see.\<close>

definition sw_rel :: "real \<Rightarrow> clock \<Rightarrow> (string \<Rightarrow> clock list) \<Rightarrow> sliding_window \<Rightarrow> bool" where
  "sw_rel window now h s \<longleftrightarrow> wf_dict (sw_windows s)
     \<and> (\<forall>k. \<forall>t \<ge> now. filter (\<lambda>x. x > t - window) (dict_get_or (sw_windows s) k [])
            = filter (\<lambda>x. x > t - window) (h k))"

lemma dict_get_or_update: "dict_get_or (AList.update k v d) x y = (if x = k then v else dict_get_or d x y)"
  by (simp add: dict_get_or_def map_of_update_dict)

lemma sw_rel_later: "sw_rel w now h s \<Longrightarrow> now \<le> t \<Longrightarrow> sw_rel w t h s"
  by (auto simp: sw_rel_def)

lemma map_of_filter_value:
  "wf_dict d \<Longrightarrow> map_of (filter (\<lambda>(k, v). P v) d) k =
     (case map_of d k of None \<Rightarrow> None | Some v \<Rightarrow> if P v then Some v else None)"
  by (induction d) (auto simp: wf_dict_def map_of_eq_None_iff split: option.splits if_splits)

lemma cleanup_rel:
  assumes "sw_rel w now h s"
  shows "sw_rel w now h (sw_maybe_cleanup now w s)"
proof -
  have wf: "wf_dict (sw_windows s)" using assms by (simp add: sw_rel_def)
  have "filter (\<lambda>x. x > t - w) (dict_get_or (filter (\<lambda>(k, ts). \<exists>t \<in> set ts. t > now - w) (sw_windows s)) k [])
      = filter (\<lambda>x. x > t - w) (dict_get_or (sw_windows s) k [])" if "now \<le> t" for t k
  proof (cases "map_of (sw_windows s) k")
    case (Some ts)
    have "filter (\<lambda>x. x > t - w) ts = []" if "\<forall>x \<in> set ts. \<not> x > now - w"
      using that \<open>now \<le> t\<close> by (force simp: filter_empty_conv)
    with Some show ?thesis
      using map_of_filter_value [OF wf, of "\<lambda>ts. \<exists>t \<in> set ts. t > now - w" k]
      by (auto simp: dict_get_or_def)
  qed (simp add: dict_get_or_def map_of_filter_value [OF wf, of "\<lambda>ts. \<exists>t \<in> set ts. t > now - w" k])
  with assms show ?thesis by (auto simp: sw_rel_def sw_maybe_cleanup_def)
qed

lemma sw_check_rel:
  assumes "sw_rel w now h s"
    and ok_def: "ok = log_admits limit w (h key) now"
  shows "fst (fst (sw_check_rate_limit now key limit w s)) = ok
    \<and> sw_rel w now (if ok then h(key := h key @ [now]) else h) (snd (sw_check_rate_limit now key limit w s))"
proof -
  let ?s = "sw_maybe_cleanup now w s"
  let ?ts = "filter (\<lambda>t. t > now - w) (dict_get_or (sw_windows ?s) key [])"
  have r: "sw_rel w now h ?s" by (rule cleanup_rel [OF assms(1)])
  then have ts: "?ts = filter (\<lambda>t. t > now - w) (h key)" by (simp add: sw_rel_def)
  have e: "fst (fst (sw_check_rate_limit now key limit w s)) = ok"
    unfolding ok_def log_admits_def ts [symmetric]
    by (auto simp: sw_check_rate_limit_def Let_def)
  have "filter (\<lambda>x. x > t - w) ?ts = filter (\<lambda>x. x > t - w) (h key)" if "now \<le> t" for t
    unfolding ts using that by (auto simp: filter_filter intro: filter_cong)
  with r have "sw_rel w now (if ok then h(key := h key @ [now]) else h)
      (?s\<lparr>sw_windows := AList.update key (if ok then ?ts @ [now] else ?ts) (sw_windows ?s)\<rparr>)"
    by (auto simp: sw_rel_def dict_get_or_update)
  moreover have "snd (sw_check_rate_limit now key limit w s) =
      ?s\<lparr>sw_windows := AList.update key (if ok then ?ts @ [now] else ?ts) (sw_windows ?s)\<rparr>"
    unfolding ok_def log_admits_def ts [symmetric]
    by (auto simp: sw_check_rate_limit_def Let_def)
  ultimately show ?thesis using e by simp
qed

lemma sw_run_log:
  "sw_rel w now h s \<Longrightarrow> sorted (now # map fst rs)
    \<Longrightarrow> fst (sw_run limit w rs s) = fst (log_run limit w rs h)"
proof (induction rs arbitrary: now h s)
  case (Cons r rs)
  obtain t key where r: "r = (t, key)" by fastforce
  let ?h = "if log_admits limit w (h key) t then h(key := h key @ [t]) else h"
  from Cons.prems r have t: "sw_rel w t h s" "sorted (t # map fst rs)" by (auto intro: sw_rel_later)
  obtain ok info s1 where c: "sw_check_rate_limit t key limit w s = ((ok, info), s1)" by (metis prod.exhaust)
  with sw_check_rel [OF t(1) refl, of key limit] have "ok = log_admits limit w (h key) t" "sw_rel w t ?h s1" by auto
  with Cons.IH [OF this(2) t(2)] show ?case by (simp add: r c Let_def case_prod_beta)
qed simp

text \<open>The log never holds more than \<open>limit\<close> admissions in one window.\<close>

definition log_bounded :: "int \<Rightarrow> real \<Rightarrow> clock list \<Rightarrow> bool" where
  "log_bounded limit w h \<longleftrightarrow> (\<forall>u. int (length (filter (\<lambda>t. u - w < t \<and> t \<le> u) h)) \<le> limit)"

lemma length_filter_imp: "(\<And>x. P x \<Longrightarrow> Q x) \<Longrightarrow> length (filter P xs) \<le> length (filter Q xs)"
  by (induction xs) (auto simp: le_SucI)

lemma log_bounded_admit:
  assumes "log_bounded limit w h" and "log_admits limit w h now"
  shows "log_bounded limit w (h @ [now])"
  unfolding log_bounded_def
proof
  fix u
  show "int (length (filter (\<lambda>t. u - w < t \<and> t \<le> u) (h @ [now]))) \<le> limit"
  proof (cases "u - w < now \<and> now \<le> u")
    case True
    then have "length (filter (\<lambda>t. u - w < t \<and> t \<le> u) h) \<le> length (filter (\<lambda>t. t > now - w) h)"
      by (intro length_filter_imp) linarith
    with True assms(2) show ?thesis by (simp add: log_admits_def)
  next
    case False
    then have "filter (\<lambda>t. u - w < t \<and> t \<le> u) (h @ [now]) = filter (\<lambda>t. u - w < t \<and> t \<le> u) h" by auto
    then show ?thesis using assms(1) unfolding log_bounded_def by metis
  qed
qed

fun admissions :: "string \<Rightarrow> (clock \<times> string) list \<Rightarrow> bool list \<Rightarrow> clock list" where
  "admissions key ((t, k) # rs) (ok # oks) = (if ok \<and> k = key then [t] else []) @ admissions key rs oks"
| "admissions key _ _ = []"

lemma log_run_bounded:
  "log_bounded limit w (h key) \<Longrightarrow> log_bounded limit w (h key @ admissions key rs (fst (log_run limit w rs h)))"
proof (induction rs arbitrary: h)
  case (Cons r rs)
  obtain t k where r: "r = (t, k)" by fastforce
  let ?ok = "log_admits limit w (h k) t"
  let ?h = "if ?ok then h(k := h k @ [t]) else h"
  have "log_bounded limit w (?h key)" using Cons.prems log_bounded_admit by auto
  then have "log_bounded limit w (?h key @ admissions key rs (fst (log_run limit w rs ?h)))" by (rule Cons.IH)
  then show ?case by (auto simp: r Let_def case_prod_beta)
qed simp

section \<open>Token bucket\<close>

definition tb_ok :: "token_bucket \<Rightarrow> bool" where
  "tb_ok b \<longleftrightarrow> 0 \<le> tb_capacity b \<and> 0 \<le> tb_refill_rate b \<and> 0 \<le> tb_tokens b \<and> tb_tokens b \<le> of_int (tb_capacity b)"

fun tb_run :: "clock list \<Rightarrow> token_bucket \<Rightarrow> bool list \<times> token_bucket" where
  "tb_run [] b = ([], b)"
| "tb_run (t # ts) b =
     (let (ok, b1) = tb_consume t b; (oks, b') = tb_run ts b1 in (ok # oks, b'))"

definition admitted :: "bool list \<Rightarrow> nat" where
  "admitted oks = length (filter id oks)"

lemma tb_consume_ok:
  assumes "tb_ok b" and "tb_last_refill b \<le> t" and "tb_consume t b = (ok, b')"
  shows "tb_ok b' \<and> tb_last_refill b' = t \<and> tb_refill_rate b' = tb_refill_rate b
    \<and> tb_capacity b' = tb_capacity b
    \<and> tb_tokens b' + (if ok then 1 else 0)
        = min (of_int (tb_capacity b)) (tb_tokens b + (t - tb_last_refill b) * tb_refill_rate b)"
proof -
  have "0 \<le> (t - tb_last_refill b) * tb_refill_rate b" using assms by (simp add: tb_ok_def)
  then show ?thesis using assms by (auto simp: tb_consume_def tb_ok_def Let_def split: if_splits)
qed

lemma tb_run_ok:
  assumes "tb_ok b" and "sorted (tb_last_refill b # ts)" and "tb_run ts b = (oks, b')"
  shows "tb_ok b' \<and> tb_last_refill b' = last (tb_last_refill b # ts) \<and> tb_capacity b' = tb_capacity b
    \<and> tb_refill_rate b' = tb_refill_rate b
    \<and> tb_tokens b' + real (admitted oks) \<le> tb_tokens b + (tb_last_refill b' - tb_last_refill b) * tb_refill_rate b"
  using assms
proof (induction ts arbitrary: b oks)
  case Nil
  then show ?case by (simp add: admitted_def)
next
  case (Cons t ts)
  obtain ok b1 where c: "tb_consume t b = (ok, b1)" by fastforce
  obtain oks1 where r: "tb_run ts b1 = (oks1, b')" "oks = ok # oks1"
    using Cons.prems(3) by (auto simp: c Let_def split: prod.splits)
  from Cons.prems(2) have t: "tb_last_refill b \<le> t" by simp
  note ok = tb_consume_ok [OF Cons.prems(1) t c]
  have "sorted (tb_last_refill b1 # ts)" using ok Cons.prems(2) by simp
  from Cons.IH [OF conjunct1 [OF ok] this r(1)] ok show ?case
    by (auto simp: r(2) admitted_def algebra_simps)
qed

lemma tb_run_append:
  "tb_run (xs @ ys) b = (let (o1, b1) = tb_run xs b; (o2, b2) = tb_run ys b1 in (o1 @ o2, b2))"
  by (induction xs arbitrary: b) (auto simp: Let_def split: prod.splits)

lemma length_tb_run: "tb_run ts b = (oks, b') \<Longrightarrow> length oks = length ts"
  by (induction ts arbitrary: b oks) (auto simp: Let_def split: prod.splits)

text \<open>From the first request of a burst on, at most the capacity plus the refill is admitted.\<close>

lemma tb_burst:
  assumes "tb_ok b" and "sorted (tb_last_refill b # t # ts)" and "tb_run (t # ts) b = (oks, b')"
  shows "real (admitted oks) \<le> of_int (tb_capacity b) + (last (t # ts) - t) * tb_refill_rate b"
proof -
  obtain ok b1 where c: "tb_consume t b = (ok, b1)" by fastforce
  obtain oks1 where r: "tb_run ts b1 = (oks1, b')" "oks = ok # oks1"
    using assms(3) by (auto simp: c Let_def split: prod.splits)
  from assms(2) have t: "tb_last_refill b \<le> t" by simp
  note ok = tb_consume_ok [OF assms(1) t c]
  have "sorted (tb_last_refill b1 # ts)" using ok assms(2) by simp
  note run = tb_run_ok [OF conjunct1 [OF ok] this r(1)]
  have "real (admitted oks) = (if ok then 1 else 0) + real (admitted oks1)" by (simp add: r(2) admitted_def)
  moreover have "tb_tokens b1 + (if ok then 1 else 0) \<le> of_int (tb_capacity b)" using ok by linarith
  moreover have "0 \<le> tb_tokens b'" using run by (simp add: tb_ok_def)
  moreover have "tb_last_refill b' = last (t # ts)" "tb_refill_rate b1 = tb_refill_rate b" "tb_last_refill b1 = t"
    using run ok by auto
  ultimately show ?thesis using run by (smt (verit))
qed

section \<open>The backend protocol\<close>

text \<open>
  What \<open>RateLimitBackend\<close> promises the gateway middleware: the answer echoes the limit, counts the
  remaining requests from zero, and reports none left when it refuses; a 60 second window never
  fails.
\<close>

locale rate_limit_backend =
  fixes check :: "string \<Rightarrow> int \<Rightarrow> real \<Rightarrow> 's \<Rightarrow> (rl_error, (bool \<times> rl_info) \<times> 's) res"
  assumes total: "\<exists>r. check key limit 60 s = Inr r"
    and limit_echo: "check key limit 60 s = Inr ((ok, info), s') \<Longrightarrow> ri_limit info = limit"
    and remaining_nonneg: "check key limit 60 s = Inr ((ok, info), s') \<Longrightarrow> 0 \<le> ri_remaining info"
    and refused: "check key limit 60 s = Inr ((False, info), s') \<Longrightarrow> ri_remaining info = 0"
begin

lemma dispatch_sound:
  assumes "\<not> is_excluded cfg (rq_path rq)"
  shows "\<exists>ok info s' rsp. check (get_client_ip rq) (rlc_requests_per_minute cfg) 60 s = Inr ((ok, info), s')
    \<and> gw_dispatch cfg check now call_next rq s = Inr ((ok, rsp), s')
    \<and> map_of (rs_headers rsp) ''X-RateLimit-Remaining'' = Some (int_str (ri_remaining info))
    \<and> map_of (rs_headers rsp) ''X-RateLimit-Limit'' = Some (int_str (ri_limit info))
    \<and> map_of (rs_headers rsp) ''X-RateLimit-Reset'' = Some (int_str (ri_reset_ts info))
    \<and> (if ok then rs_status rsp = rs_status (call_next rq) else rs_status rsp = 429)"
proof -
  obtain ok info s' where c: "check (get_client_ip rq) (rlc_requests_per_minute cfg) 60 s = Inr ((ok, info), s')"
    using total by (metis prod.exhaust)
  have l: "ri_limit info = rlc_requests_per_minute cfg" by (rule limit_echo [OF c])
  show ?thesis
  proof (cases ok)
    case True
    with c l assms show ?thesis by (simp add: gw_dispatch_def Let_def map_of_update_dict) blast
  next
    case False
    with c refused have "ri_remaining info = 0" by auto
    then have "int_str (ri_remaining info) = ''0''" by (simp add: int_str_0)
    with False c l assms show ?thesis by (simp add: gw_dispatch_def Let_def) blast
  qed
qed

end

definition sw_check :: "clock \<Rightarrow> string \<Rightarrow> int \<Rightarrow> real \<Rightarrow> sliding_window
    \<Rightarrow> (rl_error, (bool \<times> rl_info) \<times> sliding_window) res" where
  "sw_check now key limit window s = Inr (sw_check_rate_limit now key limit window s)"

lemma sw_check_info:
  assumes "sw_check_rate_limit now key limit w s = ((ok, info), s')"
  shows "ri_limit info = limit" and "0 \<le> ri_remaining info" and "ri_remaining info \<le> max 0 limit"
    and "\<not> ok \<Longrightarrow> ri_remaining info = 0" and "ri_reset_ts info = py_int now + 1"
  using assms by (auto simp: sw_check_rate_limit_def Let_def split: if_splits)

interpretation memory_rl: rate_limit_backend "sw_check now"
  by unfold_locales (auto simp: sw_check_def dest: sw_check_info)

lemma rl_check_info:
  assumes "rl_check_rate_limit pipe now key limit 60 st = Inr ((ok, info), st')"
  shows "ri_limit info = limit" and "0 \<le> ri_remaining info" and "\<not> ok \<Longrightarrow> ri_remaining info = 0"
  using assms
  by (auto simp: rl_check_rate_limit_def Let_def py_int_def split: prod.splits option.splits if_splits
      dest: sw_check_info)

lemma rl_check_total: "\<exists>r. rl_check_rate_limit pipe now key limit 60 st = Inr r"
  by (auto simp: rl_check_rate_limit_def Let_def py_int_def split: prod.splits option.splits)

interpretation redis_rl: rate_limit_backend "rl_check_rate_limit pipe now"
  by unfold_locales (rule rl_check_total, auto dest: rl_check_info)

section \<open>Redis counters\<close>

text \<open>
  The documented behaviour of the pipeline \<^verbatim>\<open>INCR key; EXPIRE key window\<close>: a live counter is
  incremented, a missing or expired one starts at 1, and its life is set to \<open>window\<close> seconds from
  now.  \<open>view\<close> reads the counter and its expiry.
\<close>

definition incr_expire :: "'r redis_pipe \<Rightarrow> ('r \<Rightarrow> string \<Rightarrow> (int \<times> clock) option) \<Rightarrow> bool" where
  "incr_expire pipe view \<longleftrightarrow> (\<forall>r now key w.
     (let c = (case view r key of Some (n, ex) \<Rightarrow> if now < ex then n + 1 else 1 | None \<Rightarrow> 1)
      in fst (pipe r now key w) = Some c
       \<and> view (snd (pipe r now key w)) = (view r)(key \<mapsto> (c, now + of_int w))))"

fun rl_run :: "'r redis_pipe \<Rightarrow> string \<Rightarrow> int \<Rightarrow> real \<Rightarrow> clock list \<Rightarrow> redis_limiter \<times> 'r \<Rightarrow> bool list" where
  "rl_run pipe key limit window [] st = []"
| "rl_run pipe key limit window (t # ts) st =
     (case rl_check_rate_limit pipe t key limit window st of
        Inl e \<Rightarrow> []
      | Inr ((ok, info), st') \<Rightarrow> ok # rl_run pipe key limit window ts st')"

lemma rl_check_redis:
  assumes "incr_expire pipe view" and "rl_fallback b = None" and "1 \<le> py_int window"
    and "c = (case view r (rl_key_prefix b @ key) of Some (n, ex) \<Rightarrow> if t < ex then n + 1 else 1 | None \<Rightarrow> 1)"
  shows "\<exists>info r'. rl_check_rate_limit pipe t key limit window (b, r) = Inr ((c \<le> limit, info), b, r')
    \<and> view r' = (view r)(rl_key_prefix b @ key \<mapsto> (c, t + of_int (py_int window)))"
proof -
  let ?k = "rl_key_prefix b @ key"
  obtain o1 r' where p: "pipe r t ?k (py_int window) = (o1, r')" by fastforce
  from assms(1) have "fst (pipe r t ?k (py_int window)) = Some c
      \<and> view (snd (pipe r t ?k (py_int window))) = (view r)(?k \<mapsto> (c, t + of_int (py_int window)))"
    unfolding incr_expire_def Let_def assms(4) by blast
  then have "o1 = Some c" "view r' = (view r)(?k \<mapsto> (c, t + of_int (py_int window)))" by (auto simp: p)
  with p assms(2,3) show ?thesis by (simp add: rl_check_rate_limit_def Let_def)
qed

lemma rl_run_counts:
  assumes "incr_expire pipe view" and "rl_fallback b = None" and "1 \<le> py_int window"
    and "view r (rl_key_prefix b @ key) = Some (n, t0 + of_int (py_int window))"
    and "successively (\<lambda>a b. b < a + of_int (py_int window)) (t0 # ts)"
  shows "rl_run pipe key limit window ts (b, r) = map (\<lambda>i. n + 1 + int i \<le> limit) [0..<length ts]"
  using assms(4,5)
proof (induction ts arbitrary: n t0 r)
  case (Cons t ts)
  from Cons.prems have t: "t < t0 + of_int (py_int window)" and g: "successively (\<lambda>a b. b < a + of_int (py_int window)) (t # ts)"
    by auto
  from rl_check_redis [OF assms(1,2,3) refl, where r = r and key = key and t = t and limit = limit] Cons.prems(1) t obtain info r'
    where c: "rl_check_rate_limit pipe t key limit window (b, r) = Inr ((n + 1 \<le> limit, info), b, r')"
      and v: "view r' = (view r)(rl_key_prefix b @ key \<mapsto> (n + 1, t + of_int (py_int window)))"
    by auto
  from v have "view r' (rl_key_prefix b @ key) = Some (n + 1, t + of_int (py_int window))" by simp
  from Cons.IH [OF this g] c show ?case
    by (simp add: map_upt_Suc algebra_simps del: upt_Suc)
qed simp

section \<open>Properties\<close>

text \<open>The in-memory sliding window is exact: over any sequence of requests in time order, whatever
  the interleaving of clients and of periodic clean-ups, its decisions are those of a limiter that
  keeps the complete log of admissions of every client.\<close>

theorem sw_refines_log:
  assumes "sorted (map fst rs)"
  shows "fst (sw_run limit w rs (sw_init t0)) = fst (log_run limit w rs (\<lambda>k. []))"
proof (cases rs)
  case (Cons r rs')
  have "sw_rel w (fst r) (\<lambda>k. []) (sw_init t0)" by (simp add: sw_rel_def sw_init_def dict_get_or_def)
  moreover have "sorted (fst r # map fst rs)" using assms Cons by simp
  ultimately show ?thesis by (rule sw_run_log)
qed simp

definition sample_requests :: "(clock \<times> string) list" where
  "sample_requests = [(0, ''a''), (10, ''a''), (20, ''b''), (59, ''a''), (61, ''a'')]"

theorem sw_refines_log_witness:
  "sorted (map fst sample_requests)
   \<and> fst (sw_run 2 60 sample_requests (sw_init 0)) = [True, True, True, False, True]"
proof -
  have s: "sorted (map fst sample_requests)" by (simp add: sample_requests_def)
  moreover have "fst (log_run 2 60 sample_requests (\<lambda>k. [])) = [True, True, True, False, True]"
    by (simp add: sample_requests_def log_admits_def Let_def)
  ultimately show ?thesis by (simp add: sw_refines_log)
qed

text \<open>C5. The limit holds in every window: whatever the traffic, no interval of length \<open>window\<close> contains
  more than \<open>limit\<close> admitted requests of one client.\<close>

theorem sw_window_bound:
  assumes "sorted (map fst rs)" and "0 \<le> limit"
  shows "int (length (filter (\<lambda>t. u - w < t \<and> t \<le> u)
    (admissions key rs (fst (sw_run limit w rs (sw_init t0)))))) \<le> limit"
proof (cases rs)
  case Nil
  with assms show ?thesis by simp
next
  case (Cons r rs')
  have "sw_rel w (fst r) (\<lambda>k. []) (sw_init t0)" by (simp add: sw_rel_def sw_init_def dict_get_or_def)
  moreover have "sorted (fst r # map fst rs)" using assms Cons by simp
  ultimately have "fst (sw_run limit w rs (sw_init t0)) = fst (log_run limit w rs (\<lambda>k. []))" by (rule sw_run_log)
  moreover have "log_bounded limit w []" using assms(2) by (simp add: log_bounded_def)
  ultimately show ?thesis
    using log_run_bounded [of limit w "\<lambda>k. []" key rs] by (simp add: log_bounded_def)
qed

theorem sw_window_bound_witness:
  "int (length (filter (\<lambda>t. 61 - 60 < t \<and> t \<le> 61)
    (admissions ''a'' sample_requests (fst (sw_run 2 60 sample_requests (sw_init 0)))))) \<le> 2"
  by (rule sw_window_bound) (simp_all add: sample_requests_def)

text \<open>Token bucket: after any earlier requests, a burst of requests from time \<open>t\<close> to time \<open>t'\<close> is
  admitted at most \<open>capacity + refill_rate * (t' - t)\<close> times, and the tokens stay between 0 and the
  capacity.\<close>

theorem tb_burst_bound:
  assumes "0 \<le> cap" and "0 \<le> rate" and "sorted (t0 # earlier @ t # ts)"
    and "tb_run (earlier @ t # ts) (tb_init cap rate t0) = (oks, b')"
  shows "real (admitted (drop (length earlier) oks)) \<le> of_int cap + (last (t # ts) - t) * rate
    \<and> 0 \<le> tb_tokens b' \<and> tb_tokens b' \<le> of_int cap \<and> 0 \<le> tb_remaining b'"
proof -
  let ?b = "tb_init cap rate t0"
  have ok: "tb_ok ?b" using assms(1,2) by (simp add: tb_ok_def tb_init_def)
  obtain o1 b1 o2 where r: "tb_run earlier ?b = (o1, b1)" "tb_run (t # ts) b1 = (o2, b')" "oks = o1 @ o2"
    using assms(4) unfolding tb_run_append by (auto simp: Let_def split: prod.splits)
  have f: "tb_last_refill ?b = t0" "tb_capacity ?b = cap" "tb_refill_rate ?b = rate" by (simp_all add: tb_init_def)
  have s: "sorted (t0 # earlier)" "sorted (last (t0 # earlier) # t # ts)"
    using assms(3) by (auto simp: sorted_append)
  have "sorted (tb_last_refill ?b # earlier)" using s(1) f(1) by simp
  note e = tb_run_ok [OF ok this r(1), unfolded f]
  then have s': "sorted (tb_last_refill b1 # t # ts)" using s(2) by simp
  note e' = tb_run_ok [OF conjunct1 [OF e] s' r(2)]
  have "drop (length earlier) oks = o2" using length_tb_run [OF r(1)] r(3) by simp
  moreover have "tb_capacity b1 = cap" "tb_refill_rate b1 = rate" "tb_capacity b' = cap" "tb_ok b'"
    using e e' by simp_all
  ultimately show ?thesis using tb_burst [OF conjunct1 [OF e] s' r(2)]
    by (simp add: tb_ok_def tb_remaining_def)
qed

theorem tb_burst_bound_witness:
  "real (admitted (drop (length [0]) (fst (tb_run ([0] @ 1 # [2, 3]) (tb_init 2 (1/2) 0)))))
     \<le> of_int 2 + (last [1, 2, 3] - 1) * (1 / 2)"
  using tb_burst_bound [OF _ _ _ prod.collapse [symmetric], of 2 "1/2" 0 "[0]" 1 "[2, 3]"] by simp

text \<open>The retry hint of the sliding window is always the next full second, never the moment the
  window frees up: there is a client that waits exactly until the announced reset time and is
  refused again.\<close>

theorem sw_reset_hint_is_not_the_reset:
  "(\<forall>now key limit w s. ri_reset_ts (snd (fst (sw_check_rate_limit now key limit w s))) = py_int now + 1)
   \<and> (\<exists>s1 s2 s3 i1 i2 i3. sw_check_rate_limit 0 ''a'' 1 60 (sw_init 0) = ((True, i1), s1)
        \<and> sw_check_rate_limit 1 ''a'' 1 60 s1 = ((False, i2), s2)
        \<and> sw_check_rate_limit (of_int (ri_reset_ts i2)) ''a'' 1 60 s2 = ((False, i3), s3))"
proof
  show "\<forall>now key limit w s. ri_reset_ts (snd (fst (sw_check_rate_limit now key limit w s))) = py_int now + 1"
    by (metis prod.collapse sw_check_info(5))
  show "\<exists>s1 s2 s3 i1 i2 i3. sw_check_rate_limit 0 ''a'' 1 60 (sw_init 0) = ((True, i1), s1)
        \<and> sw_check_rate_limit 1 ''a'' 1 60 s1 = ((False, i2), s2)
        \<and> sw_check_rate_limit (of_int (ri_reset_ts i2)) ''a'' 1 60 s2 = ((False, i3), s3)"
    by (simp add: sw_check_rate_limit_def sw_maybe_cleanup_def sw_init_def Let_def dict_get_or_def
        cleanup_interval_def py_int_def)
qed

text \<open>The Redis counter of the gateway never resets under steady traffic: with the documented
  behaviour of INCR and EXPIRE, a client whose requests are each less than a window apart is
  admitted for its first \<open>limit\<close> requests in total and refused for ever after, however slow it is.\<close>

theorem redis_window_never_resets:
  assumes "incr_expire pipe view" and "view r (prefix @ key) = None" and "1 \<le> py_int window"
    and "successively (\<lambda>a b. b < a + of_int (py_int window)) ts"
  shows "rl_run pipe key limit window ts (rl_init prefix True t0, r)
    = map (\<lambda>i. int i + 1 \<le> limit) [0..<length ts]"
proof (cases ts)
  case (Cons t ts')
  let ?b = "rl_init prefix True t0"
  have b: "rl_fallback ?b = None" "rl_key_prefix ?b = prefix" by (simp_all add: rl_init_def)
  from rl_check_redis [OF assms(1) b(1) assms(3) refl, where r = r and key = key and t = t and limit = limit] assms(2) b(2) obtain info r'
    where c: "rl_check_rate_limit pipe t key limit window (?b, r) = Inr ((1 \<le> limit, info), ?b, r')"
      and v: "view r' = (view r)(prefix @ key \<mapsto> (1, t + of_int (py_int window)))" by auto
  from v b(2) have "view r' (rl_key_prefix ?b @ key) = Some (1, t + of_int (py_int window))" by simp
  from rl_run_counts [OF assms(1) b(1) assms(3) this, of ts' limit] assms(4) c Cons show ?thesis
    by (simp add: map_upt_Suc algebra_simps del: upt_Suc)
qed simp

definition map_pipe :: "(string \<rightharpoonup> int \<times> clock) redis_pipe" where
  "map_pipe r now key w =
     (let c = (case r key of Some (n, ex) \<Rightarrow> if now < ex then n + 1 else 1 | None \<Rightarrow> 1)
      in (Some c, r(key \<mapsto> (c, now + of_int w))))"

theorem redis_window_never_resets_witness:
  "rl_run map_pipe ''ip'' 1 60 [0, 59, 118] (rl_init ''rl:'' True 0, Map.empty) = [True, False, False]"
proof -
  have "incr_expire map_pipe id" by (simp add: incr_expire_def map_pipe_def Let_def)
  from redis_window_never_resets [OF this, of Map.empty "''rl:''" "''ip''" 60 "[0, 59, 118]" 1 0]
  show ?thesis by (simp add: py_int_def upt_rec)
qed

text \<open>The gateway middleware: a non-excluded request is forwarded exactly when the in-memory backend
  admits it, otherwise it is answered with status 429 without reaching the application, and in both
  cases the response carries the limit and the remaining count the backend reported.\<close>

theorem gw_dispatch_sound:
  assumes "\<not> is_excluded cfg (rq_path rq)"
  shows "\<exists>ok info s' rsp.
    sw_check_rate_limit t (get_client_ip rq) (rlc_requests_per_minute cfg) 60 s = ((ok, info), s')
    \<and> gw_dispatch cfg (sw_check t) now call_next rq s = Inr ((ok, rsp), s')
    \<and> map_of (rs_headers rsp) ''X-RateLimit-Remaining'' = Some (int_str (ri_remaining info))
    \<and> map_of (rs_headers rsp) ''X-RateLimit-Limit'' = Some (int_str (ri_limit info))
    \<and> (if ok then rs_status rsp = rs_status (call_next rq) else rs_status rsp = 429)"
  using memory_rl.dispatch_sound [OF assms, of t s now call_next]
  unfolding sw_check_def sum.inject by blast

theorem gw_dispatch_sound_witness:
  "\<exists>ok rsp s'. gw_dispatch rate_limit_config_init (sw_check 5) 5
     (\<lambda>rq. \<lparr>rs_status = 200, rs_content = [], rs_headers = []\<rparr>)
     \<lparr>rq_path = ''/api/x'', rq_forwarded_for = Some ''1.2.3.4, 5.6.7.8'', rq_client_host = None\<rparr> (sw_init 0)
     = Inr ((ok, rsp), s') \<and> rs_status rsp \<in> {200, 429}"
proof -
  let ?rq = "\<lparr>rq_path = ''/api/x'', rq_forwarded_for = Some ''1.2.3.4, 5.6.7.8'', rq_client_host = None\<rparr>"
  have "\<not> is_excluded rate_limit_config_init (rq_path ?rq)"
    by (simp add: is_excluded_def rate_limit_config_init_def py_startswith_def)
  from gw_dispatch_sound [OF this, of 5 "sw_init 0" 5 "\<lambda>rq. \<lparr>rs_status = 200, rs_content = [], rs_headers = []\<rparr>"]
  show ?thesis by (auto split: if_splits)
qed

end
