(* ===== verification/Scheduler.thy ===== *)
theory Scheduler
  imports Prelude
begin

text \<open>
  \<^verbatim>\<open>core/workflow/scheduler.py\<close>: \<open>WorkflowScheduler\<close> with its simplified cron parser and its interval and
  cron loops, and \<open>WebhookTokenManager\<close>.

  A UTC \<^verbatim>\<open>datetime\<close> is its number of microseconds since the epoch, so \<^verbatim>\<open>replace\<close> on hour, minute and
  second is arithmetic on the part of the day.  The PostgreSQL repositories are parameters: records
  of functions on an opaque store, whose exceptions (\<open>None\<close>) the code swallows.  A task is its
  configuration, its kind of loop and whether it was cancelled.
\<close>

section \<open>Time of day\<close>

type_synonym datetime = int

definition minute_us :: int where "minute_us = 60 * 1000000"
definition hour_us :: int where "hour_us = 60 * minute_us"
definition day_us :: int where "day_us = 24 * hour_us"

definition dt_hour :: "datetime \<Rightarrow> int" where "dt_hour t = (t mod day_us) div hour_us"
definition dt_minute :: "datetime \<Rightarrow> int" where "dt_minute t = (t mod hour_us) div minute_us"

text \<open>\<^verbatim>\<open>t.replace(hour=h, minute=m, second=0, microsecond=0)\<close> for values in range.\<close>

definition dt_replace :: "datetime \<Rightarrow> int \<Rightarrow> int \<Rightarrow> datetime" where
  "dt_replace t h m = (t div day_us) * day_us + h * hour_us + m * minute_us"

section \<open>Cron expressions\<close>

datatype cron_error = CronZeroDivision | CronValueError

definition is_ascii_digit :: "char \<Rightarrow> bool" where
  "is_ascii_digit c \<longleftrightarrow> (48::nat) \<le> of_char c \<and> of_char c \<le> (57::nat)"

definition digit_value :: "char \<Rightarrow> int" where
  "digit_value c = int (of_char c) - 48"

definition digits_value :: "string \<Rightarrow> int" where
  "digits_value s = foldl (\<lambda>n c. 10 * n + digit_value c) 0 s"

text \<open>\<^verbatim>\<open>s.isdigit()\<close> also holds of the three Latin-1 superscripts, which \<^verbatim>\<open>int\<close> then rejects.\<close>

definition py_isdigit :: "string \<Rightarrow> bool" where
  "py_isdigit s \<longleftrightarrow> s \<noteq> [] \<and> list_all (\<lambda>c. is_ascii_digit c \<or> of_char c \<in> {178, 179, 185 :: nat}) s"

definition py_int_of_str :: "string \<Rightarrow> (cron_error, int) res" where
  "py_int_of_str s = (if list_all is_ascii_digit s then Inr (digits_value s) else Inl CronValueError)"

text \<open>\<^verbatim>\<open>re.match(r"\*/(\d+)", s)\<close>: the digits of the group.\<close>

definition match_every :: "string \<Rightarrow> string option" where
  "match_every s =
     (case s of
        a # b # rest \<Rightarrow>
          (let ds = takeWhile is_ascii_digit rest in
           if a = CHR ''*'' \<and> b = CHR ''/'' \<and> ds \<noteq> [] then Some ds else None)
      | _ \<Rightarrow> None)"

definition next_every :: "datetime \<Rightarrow> int \<Rightarrow> (cron_error, datetime) res" where
  "next_every now interval =
     (if interval = 0 then Inl CronZeroDivision
      else (let next_minute = (dt_minute now div interval + 1) * interval in
            if next_minute \<ge> 60
            then Inr (dt_replace now ((dt_hour now + 1) mod 24) (next_minute mod 60))
            else Inr (dt_replace now (dt_hour now) next_minute)))"

definition next_daily :: "datetime \<Rightarrow> int \<Rightarrow> int \<Rightarrow> (cron_error, datetime) res" where
  "next_daily now h m =
     (if 0 \<le> h \<and> h < 24 \<and> 0 \<le> m \<and> m < 60
      then (let t = dt_replace now h m in Inr (if t \<le> now then t + day_us else t))
      else Inl CronValueError)"

definition next_cron_time :: "datetime \<Rightarrow> string \<Rightarrow> (cron_error, datetime) res" where
  "next_cron_time now cron =
     (case py_split (py_strip cron) of
        minute_part # hour_part # p3 # p4 # p5 # rest \<Rightarrow>
          (case match_every minute_part of
             Some ds \<Rightarrow> next_every now (digits_value ds)
           | None \<Rightarrow>
               if py_isdigit minute_part \<and> py_isdigit hour_part
               then (case (py_int_of_str hour_part, py_int_of_str minute_part) of
                       (Inr h, Inr m) \<Rightarrow> next_daily now h m
                     | _ \<Rightarrow> Inl CronValueError)
               else Inr (now + minute_us))
      | _ \<Rightarrow> Inr (now + minute_us))"

section \<open>Scheduler\<close>

record schedule_config =
  sc_schedule_id :: string
  sc_workflow_id :: string
  sc_cron_expression :: string
  sc_interval_seconds :: "int option"
  sc_enabled :: bool
  sc_description :: string
  sc_created_at :: datetime

datatype loop_kind = IntervalLoop | CronLoop

record sched_task =
  tk_config :: schedule_config
  tk_kind :: loop_kind
  tk_cancelled :: bool

text \<open>The repository: \<open>None\<close> is an exception.\<close>

record 'r schedule_repo =
  sr_list :: "'r \<Rightarrow> schedule_config list option"
  sr_create :: "schedule_config \<Rightarrow> 'r \<Rightarrow> 'r option"
  sr_delete :: "string \<Rightarrow> 'r \<Rightarrow> 'r option"
  sr_update_enabled :: "string \<Rightarrow> bool \<Rightarrow> 'r \<Rightarrow> 'r option"

record 'r scheduler =
  sd_repo :: "('r schedule_repo \<times> 'r) option"
  sd_schedules :: "(string, schedule_config) dict"
  sd_tasks :: "(string, sched_task) dict"
  sd_running :: bool

definition sd_init :: "('r schedule_repo \<times> 'r) option \<Rightarrow> 'r scheduler" where
  "sd_init repo = \<lparr>sd_repo = repo, sd_schedules = [], sd_tasks = [], sd_running = False\<rparr>"

definition repo_call :: "('r schedule_repo \<Rightarrow> 'r \<Rightarrow> 'r option) \<Rightarrow> 'r scheduler \<Rightarrow> 'r scheduler" where
  "repo_call f s =
     (case sd_repo s of
        None \<Rightarrow> s
      | Some (ops, r) \<Rightarrow> (case f ops r of None \<Rightarrow> s | Some r' \<Rightarrow> s\<lparr>sd_repo := Some (ops, r')\<rparr>))"

definition has_interval :: "schedule_config \<Rightarrow> bool" where
  "has_interval c \<longleftrightarrow> (case sc_interval_seconds c of None \<Rightarrow> False | Some n \<Rightarrow> n \<noteq> 0)"

definition task_cancel :: "string \<Rightarrow> (string, sched_task) dict \<Rightarrow> (string, sched_task) dict" where
  "task_cancel sid ts =
     (case map_of ts sid of None \<Rightarrow> ts | Some t \<Rightarrow> AList.update sid (t\<lparr>tk_cancelled := True\<rparr>) ts)"

definition start_schedule_task :: "schedule_config \<Rightarrow> 'r scheduler \<Rightarrow> 'r scheduler" where
  "start_schedule_task c s =
     (let sid = sc_schedule_id c; ts = task_cancel sid (sd_tasks s) in
      if has_interval c
      then s\<lparr>sd_tasks := AList.update sid \<lparr>tk_config = c, tk_kind = IntervalLoop, tk_cancelled = False\<rparr> ts\<rparr>
      else if sc_cron_expression c \<noteq> []
      then s\<lparr>sd_tasks := AList.update sid \<lparr>tk_config = c, tk_kind = CronLoop, tk_cancelled = False\<rparr> ts\<rparr>
      else s\<lparr>sd_tasks := ts\<rparr>)"

definition load_from_db :: "'r scheduler \<Rightarrow> 'r scheduler" where
  "load_from_db s =
     (case sd_repo s of
        None \<Rightarrow> s
      | Some (ops, r) \<Rightarrow>
          (case sr_list ops r of
             None \<Rightarrow> s
           | Some rows \<Rightarrow>
               s\<lparr>sd_schedules := fold (\<lambda>c d. AList.update (sc_schedule_id c) c d) rows (sd_schedules s)\<rparr>))"

definition sd_start :: "'r scheduler \<Rightarrow> 'r scheduler" where
  "sd_start s =
     (let s1 = (load_from_db s)\<lparr>sd_running := True\<rparr>
      in fold (\<lambda>(sid, c) s. if sc_enabled c then start_schedule_task c s else s) (sd_schedules s1) s1)"

definition sd_stop :: "'r scheduler \<Rightarrow> 'r scheduler" where
  "sd_stop s = s\<lparr>sd_running := False, sd_tasks := []\<rparr>"

datatype schedule_error = NeitherCronNorInterval

definition add_schedule :: "schedule_config \<Rightarrow> 'r scheduler \<Rightarrow> (schedule_error, 'r scheduler) res" where
  "add_schedule c s =
     (if sc_cron_expression c = [] \<and> \<not> has_interval c then Inl NeitherCronNorInterval
      else (let s1 = s\<lparr>sd_schedules := AList.update (sc_schedule_id c) c (sd_schedules s)\<rparr>;
                s2 = repo_call (\<lambda>ops. sr_create ops c) s1
            in Inr (if sd_running s2 \<and> sc_enabled c then start_schedule_task c s2 else s2)))"

definition remove_schedule :: "string \<Rightarrow> 'r scheduler \<Rightarrow> bool \<times> 'r scheduler" where
  "remove_schedule sid s =
     (if \<not> dict_has (sd_schedules s) sid then (False, s)
      else (True, repo_call (\<lambda>ops. sr_delete ops sid)
              (s\<lparr>sd_tasks := AList.delete sid (sd_tasks s),
                 sd_schedules := AList.delete sid (sd_schedules s)\<rparr>)))"

definition enable_schedule :: "string \<Rightarrow> 'r scheduler \<Rightarrow> bool \<times> 'r scheduler" where
  "enable_schedule sid s =
     (case map_of (sd_schedules s) sid of
        None \<Rightarrow> (False, s)
      | Some old \<Rightarrow>
          (let c = old\<lparr>sc_enabled := True\<rparr>;
               s1 = repo_call (\<lambda>ops. sr_update_enabled ops sid True)
                      (s\<lparr>sd_schedules := AList.update sid c (sd_schedules s)\<rparr>)
           in (True, if sd_running s1 then start_schedule_task c s1 else s1)))"

definition disable_schedule :: "string \<Rightarrow> 'r scheduler \<Rightarrow> bool \<times> 'r scheduler" where
  "disable_schedule sid s =
     (case map_of (sd_schedules s) sid of
        None \<Rightarrow> (False, s)
      | Some old \<Rightarrow>
          (let c = old\<lparr>sc_enabled := False\<rparr>;
               s1 = repo_call (\<lambda>ops. sr_update_enabled ops sid False)
                      (s\<lparr>sd_schedules := AList.update sid c (sd_schedules s)\<rparr>)
           in (True, s1\<lparr>sd_tasks := AList.delete sid (sd_tasks s1)\<rparr>)))"

definition get_schedule :: "string \<Rightarrow> 'r scheduler \<Rightarrow> schedule_config option" where
  "get_schedule sid s = map_of (sd_schedules s) sid"

definition list_schedules :: "string option \<Rightarrow> 'r scheduler \<Rightarrow> schedule_config list" where
  "list_schedules wid s =
     (let cs = map snd (sd_schedules s) in
      case wid of
        None \<Rightarrow> cs
      | Some w \<Rightarrow> if w = [] then cs else filter (\<lambda>c. sc_workflow_id c = w) cs)"

definition active_count :: "'r scheduler \<Rightarrow> nat" where
  "active_count s = length (sd_tasks s)"

section \<open>The loops\<close>

text \<open>
  A loop is run on what it observes in each round: whether the scheduler runs at the head of the
  loop and after the sleep, and the clock readings around \<open>next_cron_time\<close>.  It emits its sleeps (in
  seconds or microseconds) and the executions it triggers; a cron expression that raises ends it.
\<close>

datatype loop_action = SleepSeconds int | SleepUntil int | Execute string string | LoopError cron_error

record loop_round =
  lr_running :: bool
  lr_now :: datetime
  lr_now2 :: datetime
  lr_running_after :: bool

definition trigger :: "schedule_config \<Rightarrow> bool \<Rightarrow> loop_action list" where
  "trigger c has_execute_fn = (if has_execute_fn then [Execute (sc_workflow_id c) ''schedule''] else [])"

fun interval_loop :: "schedule_config \<Rightarrow> bool \<Rightarrow> loop_round list \<Rightarrow> loop_action list" where
  "interval_loop c f [] = []"
| "interval_loop c f (r # rs) =
     (if \<not> lr_running r then []
      else SleepSeconds (if has_interval c then the (sc_interval_seconds c) else 60)
           # (if \<not> lr_running_after r then [] else trigger c f @ interval_loop c f rs))"

fun cron_loop :: "schedule_config \<Rightarrow> bool \<Rightarrow> loop_round list \<Rightarrow> loop_action list" where
  "cron_loop c f [] = []"
| "cron_loop c f (r # rs) =
     (if \<not> lr_running r then []
      else (case next_cron_time (lr_now r) (sc_cron_expression c) of
              Inl e \<Rightarrow> [LoopError e]
            | Inr next_run \<Rightarrow>
                SleepUntil (max 0 (next_run - lr_now2 r))
                # (if \<not> lr_running_after r then []
                   else trigger c f @ SleepSeconds 60 # cron_loop c f rs)))"

section \<open>Webhook tokens\<close>

record 'r token_repo =
  tr_list_all :: "'r \<Rightarrow> (string \<times> string) list option"
  tr_create :: "string \<Rightarrow> string \<Rightarrow> 'r \<Rightarrow> 'r option"
  tr_validate :: "string \<Rightarrow> string \<Rightarrow> 'r \<Rightarrow> bool option"
  tr_revoke :: "string \<Rightarrow> 'r \<Rightarrow> (bool \<times> 'r) option"
  tr_list :: "string \<Rightarrow> 'r \<Rightarrow> string list option"
  tr_get :: "string \<Rightarrow> 'r \<Rightarrow> string option option"

record 'r webhook_manager =
  wm_repo :: "('r token_repo \<times> 'r) option"
  wm_tokens :: "(string, string) dict"
  wm_workflow_tokens :: "(string, string set) dict"

definition wm_init :: "('r token_repo \<times> 'r) option \<Rightarrow> 'r webhook_manager" where
  "wm_init repo = \<lparr>wm_repo = repo, wm_tokens = [], wm_workflow_tokens = []\<rparr>"

definition wm_remember :: "string \<Rightarrow> string \<Rightarrow> 'r webhook_manager \<Rightarrow> 'r webhook_manager" where
  "wm_remember token w m =
     m\<lparr>wm_tokens := AList.update token w (wm_tokens m),
       wm_workflow_tokens := AList.update w
         (insert token (dict_get_or (wm_workflow_tokens m) w {})) (wm_workflow_tokens m)\<rparr>"

definition wm_load_from_db :: "'r webhook_manager \<Rightarrow> 'r webhook_manager" where
  "wm_load_from_db m =
     (case wm_repo m of
        None \<Rightarrow> m
      | Some (ops, r) \<Rightarrow>
          (case tr_list_all ops r of
             None \<Rightarrow> m
           | Some rows \<Rightarrow> fold (\<lambda>(token, w). wm_remember token w) rows m))"

definition wm_create_token :: "string \<Rightarrow> string \<Rightarrow> 'r webhook_manager \<Rightarrow> 'r webhook_manager" where
  "wm_create_token w token m =
     (let m1 = wm_remember token w m in
      case wm_repo m1 of
        None \<Rightarrow> m1
      | Some (ops, r) \<Rightarrow>
          (case tr_create ops token w r of
             None \<Rightarrow> m1
           | Some r' \<Rightarrow> m1\<lparr>wm_repo := Some (ops, r')\<rparr>))"

definition wm_validate_token :: "string \<Rightarrow> string \<Rightarrow> 'r webhook_manager \<Rightarrow> bool \<times> 'r webhook_manager" where
  "wm_validate_token w token m =
     (if map_of (wm_tokens m) token = Some w then (True, m)
      else (case wm_repo m of
              None \<Rightarrow> (False, m)
            | Some (ops, r) \<Rightarrow>
                (case tr_validate ops w token r of
                   None \<Rightarrow> (False, m)
                 | Some valid \<Rightarrow> (valid, if valid then wm_remember token w m else m))))"

definition wm_revoke_token :: "string \<Rightarrow> 'r webhook_manager \<Rightarrow> bool \<times> 'r webhook_manager" where
  "wm_revoke_token token m =
     (let found = map_of (wm_tokens m) token;
          m1 = m\<lparr>wm_tokens := AList.delete token (wm_tokens m)\<rparr>;
          m2 = (case found of
                  None \<Rightarrow> m1
                | Some w \<Rightarrow>
                    if w \<noteq> [] \<and> dict_has (wm_workflow_tokens m1) w
                    then m1\<lparr>wm_workflow_tokens := AList.update w
                           (dict_get_or (wm_workflow_tokens m1) w {} - {token}) (wm_workflow_tokens m1)\<rparr>
                    else m1)
      in case wm_repo m2 of
           None \<Rightarrow> (found \<noteq> None, m2)
         | Some (ops, r) \<Rightarrow>
             (case tr_revoke ops token r of
                None \<Rightarrow> (found \<noteq> None, m2)
              | Some (b, r') \<Rightarrow> (b, m2\<lparr>wm_repo := Some (ops, r')\<rparr>)))"

text \<open>The list of a Python set has no specified order: the result is the set.\<close>

definition wm_get_workflow_tokens :: "string \<Rightarrow> 'r webhook_manager \<Rightarrow> string set" where
  "wm_get_workflow_tokens w m =
     (let mem = dict_get_or (wm_workflow_tokens m) w {} in
      case wm_repo m of
        None \<Rightarrow> mem
      | Some (ops, r) \<Rightarrow> (case tr_list ops w r of None \<Rightarrow> mem | Some ts \<Rightarrow> set ts))"

definition wm_get_workflow_id :: "string \<Rightarrow> 'r webhook_manager \<Rightarrow> string option \<times> 'r webhook_manager" where
  "wm_get_workflow_id token m =
     (case map_of (wm_tokens m) token of
        Some w \<Rightarrow> (Some w, m)
      | None \<Rightarrow>
          (case wm_repo m of
             None \<Rightarrow> (None, m)
           | Some (ops, r) \<Rightarrow>
               (case tr_get ops token r of
                  None \<Rightarrow> (None, m)
                | Some None \<Rightarrow> (None, m)
                | Some (Some w) \<Rightarrow> (Some w, wm_remember token w m))))"

section \<open>Lemmas on time\<close>

lemma us_pos [simp]: "0 < minute_us" "0 < hour_us" "0 < day_us"
  by (simp_all add: minute_us_def hour_us_def day_us_def)

lemma us_nonzero [simp]: "minute_us \<noteq> 0" "hour_us \<noteq> 0" "day_us \<noteq> 0"
  by (simp_all add: minute_us_def hour_us_def day_us_def)

lemma le_div_iff_int: "0 < n \<Longrightarrow> a \<le> m div n \<longleftrightarrow> a * n \<le> (m::int)"
proof
  assume n: "0 < n"
  have m: "m div n * n \<le> m" using div_mult_mod_eq [of m n] pos_mod_sign [OF n, of m] by linarith
  show "a * n \<le> m" if "a \<le> m div n"
    using mult_right_mono [OF that, of n] n m by linarith
  show "a \<le> m div n" if "a * n \<le> m" using zdiv_mono1 [OF that n] n by simp
qed

lemma minutes_split: "(x::int) div 60 * 60 = x div 1440 * 1440 + x div 60 mod 24 * 60"
    "x = x div 1440 * 1440 + x div 60 mod 24 * 60 + x mod 60"
proof -
  have "x div 1440 = x div 60 div 24" using zdiv_zmult2_eq [of 24 x 60] by simp
  moreover have "x div 60 = x div 60 div 24 * 24 + x div 60 mod 24" by (rule div_mult_mod_eq [symmetric])
  ultimately have "x div 60 = x div 1440 * 24 + x div 60 mod 24" by simp
  then show a: "x div 60 * 60 = x div 1440 * 1440 + x div 60 mod 24 * 60" by linarith
  have "x = x div 60 * 60 + x mod 60" by (rule div_mult_mod_eq [symmetric])
  with a show "x = x div 1440 * 1440 + x div 60 mod 24 * 60 + x mod 60" by simp
qed

lemma base60: "0 \<le> m \<Longrightarrow> m < 60 \<Longrightarrow> ((y::int) * 60 + m) div 60 = y \<and> (y * 60 + m) mod 60 = m"
  by simp

lemma base24: "0 \<le> h \<Longrightarrow> h < 24 \<Longrightarrow> ((y::int) * 24 + h) mod 24 = h"
  by simp

lemma hour_us_alt: "hour_us = minute_us * 60" and day_us_alt: "day_us = minute_us * 1440"
  by (simp_all add: minute_us_def hour_us_def day_us_def)

lemma dt_minute_alt: "dt_minute t = t div minute_us mod 60"
  unfolding dt_minute_def hour_us_alt by (simp add: zmod_zmult2_eq)

lemma dt_day_alt: "t div day_us = t div minute_us div 1440"
  unfolding day_us_alt by (simp add: zdiv_zmult2_eq)

lemma dt_hour_alt: "dt_hour t = t div minute_us div 60 mod 24"
proof -
  have "t mod day_us = hour_us * (t div hour_us mod 24) + t mod hour_us"
    unfolding day_us_def mult.commute [of 24] by (rule zmod_zmult2_eq) simp
  then have "dt_hour t = t div hour_us mod 24" by (simp add: dt_hour_def)
  also have "t div hour_us = t div minute_us div 60" unfolding hour_us_alt by (simp add: zdiv_zmult2_eq)
  finally show ?thesis .
qed

lemma dt_replace_alt: "dt_replace t h m = (t div minute_us div 1440 * 1440 + h * 60 + m) * minute_us"
  unfolding dt_replace_def dt_day_alt by (simp add: day_us_alt hour_us_alt algebra_simps)

lemma dt_hour_range: "0 \<le> dt_hour t \<and> dt_hour t < 24" and dt_minute_range: "0 \<le> dt_minute t \<and> dt_minute t < 60"
  by (simp_all add: dt_hour_alt dt_minute_alt)

lemma dt_parts: "t div minute_us = t div minute_us div 1440 * 1440 + dt_hour t * 60 + dt_minute t"
  unfolding dt_hour_alt dt_minute_alt by (rule minutes_split(2))

lemma next_slot:
  assumes "0 < (n::int)" and "n dvd 60"
  shows "(\<mu> div n + 1) * n = \<mu> div 60 * 60 + (\<mu> mod 60 div n + 1) * n"
proof -
  from assms obtain q where q: "60 = n * q" by (elim dvdE)
  have "\<mu> div n = (\<mu> div 60 * q * n + \<mu> mod 60) div n"
    using div_mult_mod_eq [of \<mu> 60] q by (metis mult.assoc mult.commute)
  also have "\<dots> = \<mu> div 60 * q + \<mu> mod 60 div n" using assms(1) by simp
  finally show ?thesis using q by (simp add: algebra_simps)
qed

text \<open>The slot of \<open>n\<close> minutes that ends at midnight.\<close>

definition last_slot_of_day :: "int \<Rightarrow> datetime \<Rightarrow> bool" where
  "last_slot_of_day n t \<longleftrightarrow> dt_hour t = 23 \<and> 60 - n \<le> dt_minute t"

lemma slot_end_60:
  assumes "0 < (n::int)" and "n dvd 60" and "0 \<le> m" and "m < 60"
  shows "(m div n + 1) * n \<le> 60" and "60 \<le> (m div n + 1) * n \<longleftrightarrow> 60 - n \<le> m"
proof -
  from assms obtain q where q: "60 = n * q" by (elim dvdE)
  have "\<not> q \<le> m div n" using assms(1,4) q by (simp add: le_div_iff_int mult.commute)
  then have "m div n < q" by simp
  then have "(m div n + 1) * n \<le> q * n" using assms(1) by (intro mult_right_mono) auto
  then show a: "(m div n + 1) * n \<le> 60" using q by (simp add: mult.commute)
  have "60 - n \<le> m \<longleftrightarrow> q - 1 \<le> m div n"
    unfolding le_div_iff_int [OF assms(1)] using q by (simp add: algebra_simps)
  moreover have "60 \<le> (m div n + 1) * n \<longleftrightarrow> q * n \<le> (m div n + 1) * n"
    using q by (simp only: mult.commute [of q n])
  moreover have "q * n \<le> (m div n + 1) * n \<longleftrightarrow> q \<le> m div n + 1"
    by (rule mult_le_cancel_right_pos [OF assms(1)])
  ultimately show "60 \<le> (m div n + 1) * n \<longleftrightarrow> 60 - n \<le> m" by linarith
qed

lemma next_every_exact:
  assumes "0 < n" and "n dvd 60"
  shows "next_every now n = Inr (if last_slot_of_day n now then now div day_us * day_us
    else (now div (n * minute_us) + 1) * (n * minute_us))"
proof -
  let ?\<mu> = "now div minute_us" and ?m = "dt_minute now" and ?h = "dt_hour now"
  let ?nm = "(?m div n + 1) * n"
  note m = dt_minute_range [of now] and h = dt_hour_range [of now]
  note e = slot_end_60 [OF assms, of ?m]
  have slot: "(now div (n * minute_us) + 1) * (n * minute_us) = (?\<mu> div 60 * 60 + ?nm) * minute_us"
    using next_slot [OF assms, of ?\<mu>] assms(1)
    by (simp add: zdiv_zmult2_eq mult.commute [of n minute_us] dt_minute_alt mult.assoc [symmetric])
  have hr: "?\<mu> div 60 * 60 = ?\<mu> div 1440 * 1440 + ?h * 60"
    unfolding dt_hour_alt by (rule minutes_split(1))
  show ?thesis
  proof (cases "60 \<le> ?nm")
    case True
    with e(1) m have nm: "?nm = 60" by simp
    have ls: "last_slot_of_day n now \<longleftrightarrow> ?h = 23" using True e(2) m by (simp add: last_slot_of_day_def)
    have "next_every now n = Inr (dt_replace now ((?h + 1) mod 24) 0)"
      using assms(1) True nm by (simp add: next_every_def Let_def)
    also have "dt_replace now ((?h + 1) mod 24) 0 =
        (if ?h = 23 then now div day_us * day_us else (?\<mu> div 60 * 60 + ?nm) * minute_us)"
      using h unfolding dt_replace_alt hr nm dt_day_alt
      by (auto simp: day_us_alt algebra_simps)
    finally show ?thesis unfolding ls slot by simp
  next
    case False
    then have "\<not> last_slot_of_day n now" using e(2) m by (simp add: last_slot_of_day_def)
    with False assms(1) show ?thesis
      unfolding slot hr next_every_def Let_def dt_replace_alt by (simp add: algebra_simps)
  qed
qed

lemma next_daily_exact:
  assumes "0 \<le> h" "h < 24" "0 \<le> m" "m < 60"
  shows "\<exists>t. next_daily now h m = Inr t \<and> now < t \<and> t \<le> now + day_us \<and> dt_hour t = h \<and> dt_minute t = m"
proof -
  let ?t = "dt_replace now h m"
  have parts: "dt_hour (?t + k * day_us) = h \<and> dt_minute (?t + k * day_us) = m" for k
  proof -
    have "?t + k * day_us = ((now div minute_us div 1440 + k) * 1440 + h * 60 + m) * minute_us"
      unfolding dt_replace_alt day_us_alt by (simp add: algebra_simps)
    then have "(?t + k * day_us) div minute_us = (now div minute_us div 1440 + k) * 1440 + h * 60 + m"
      by (simp only: nonzero_mult_div_cancel_right [OF us_nonzero(1)])
    also have "\<dots> = ((now div minute_us div 1440 + k) * 24 + h) * 60 + m" by simp
    finally have \<mu>: "(?t + k * day_us) div minute_us = \<dots>" .
    show ?thesis unfolding dt_hour_alt dt_minute_alt \<mu>
      by (simp only: base60 [OF assms(3,4), THEN conjunct1] base60 [OF assms(3,4), THEN conjunct2]
          base24 [OF assms(1,2)])
  qed
  have day: "now div day_us * day_us \<le> now" "now < now div day_us * day_us + day_us"
    using div_mult_mod_eq [of now day_us] pos_mod_bound [of day_us now] pos_mod_sign [of day_us now] us_pos(3)
    by linarith+
  have off: "0 \<le> h * hour_us + m * minute_us" "h * hour_us + m * minute_us < day_us"
    using assms by (simp_all add: day_us_def hour_us_def minute_us_def)
  have "now < ?t + day_us" "?t \<le> now + day_us" using day off by (simp_all add: dt_replace_def)
  with parts [of 0] parts [of 1] assms show ?thesis by (auto simp: next_daily_def Let_def)
qed

section \<open>Scheduler runs\<close>

datatype sched_op =
    SAdd schedule_config
  | SRemove string
  | SEnable string
  | SDisable string
  | SStart
  | SStop

text \<open>A rejected configuration leaves the scheduler as it was.\<close>

fun sched_step :: "sched_op \<Rightarrow> 'r scheduler \<Rightarrow> 'r scheduler" where
  "sched_step (SAdd c) s = (case add_schedule c s of Inl e \<Rightarrow> s | Inr s' \<Rightarrow> s')"
| "sched_step (SRemove sid) s = snd (remove_schedule sid s)"
| "sched_step (SEnable sid) s = snd (enable_schedule sid s)"
| "sched_step (SDisable sid) s = snd (disable_schedule sid s)"
| "sched_step SStart s = sd_start s"
| "sched_step SStop s = sd_stop s"

definition task_for :: "schedule_config \<Rightarrow> sched_task" where
  "task_for c = \<lparr>tk_config = c, tk_kind = (if has_interval c then IntervalLoop else CronLoop), tk_cancelled = False\<rparr>"

definition runnable :: "schedule_config \<Rightarrow> bool" where
  "runnable c \<longleftrightarrow> has_interval c \<or> sc_cron_expression c \<noteq> []"

text \<open>The tasks are exactly those of the enabled schedules while running, and none otherwise.\<close>

definition sched_inv :: "'r scheduler \<Rightarrow> bool" where
  "sched_inv s \<longleftrightarrow> sd_repo s = None \<and> wf_dict (sd_schedules s)
     \<and> (\<forall>sid c. map_of (sd_schedules s) sid = Some c \<longrightarrow> sc_schedule_id c = sid \<and> runnable c)
     \<and> (\<forall>sid. map_of (sd_tasks s) sid =
          (case map_of (sd_schedules s) sid of
             Some c \<Rightarrow> if sd_running s \<and> sc_enabled c then Some (task_for c) else None
           | None \<Rightarrow> None))"

lemma start_task_runnable:
  "runnable c \<Longrightarrow> start_schedule_task c s =
     s\<lparr>sd_tasks := AList.update (sc_schedule_id c) (task_for c) (task_cancel (sc_schedule_id c) (sd_tasks s))\<rparr>"
  by (auto simp: start_schedule_task_def runnable_def task_for_def Let_def)

lemma map_of_task_cancel [simp]: "x \<noteq> k \<Longrightarrow> map_of (task_cancel k ts) x = map_of ts x"
  by (simp add: task_cancel_def map_of_update_dict split: option.splits)

lemma map_of_start_task:
  "map_of (AList.update k v (task_cancel k ts)) = (map_of ts)(k \<mapsto> v)"
  by (auto simp: map_of_update_dict task_cancel_def fun_eq_iff split: option.splits)

lemma repo_call_None [simp]: "sd_repo s = None \<Longrightarrow> repo_call f s = s"
  by (simp add: repo_call_def)

lemma fold_start:
  assumes "\<forall>(sid, c) \<in> set d. sc_schedule_id c = sid \<and> runnable c" and "wf_dict d"
  shows "map_of (sd_tasks (fold (\<lambda>(sid, c) s. if sc_enabled c then start_schedule_task c s else s) d s)) sid =
      (case map_of d sid of
         Some c \<Rightarrow> if sc_enabled c then Some (task_for c) else map_of (sd_tasks s) sid
       | None \<Rightarrow> map_of (sd_tasks s) sid)
    \<and> sd_schedules (fold (\<lambda>(sid, c) s. if sc_enabled c then start_schedule_task c s else s) d s) = sd_schedules s
    \<and> sd_running (fold (\<lambda>(sid, c) s. if sc_enabled c then start_schedule_task c s else s) d s) = sd_running s
    \<and> sd_repo (fold (\<lambda>(sid, c) s. if sc_enabled c then start_schedule_task c s else s) d s) = sd_repo s"
  using assms
proof (induction d arbitrary: s)
  case (Cons p d)
  obtain k c where p: "p = (k, c)" by fastforce
  from Cons.prems have k: "sc_schedule_id c = k" "runnable c" and w: "wf_dict d" "map_of d k = None"
    by (auto simp: p wf_dict_def map_of_eq_None_iff)
  let ?s = "if sc_enabled c then start_schedule_task c s else s"
  have "map_of (sd_tasks ?s) = (if sc_enabled c then (map_of (sd_tasks s))(k \<mapsto> task_for c) else map_of (sd_tasks s))"
    by (simp add: start_task_runnable [OF k(2)] k(1) map_of_start_task)
  moreover have "sd_schedules ?s = sd_schedules s" "sd_running ?s = sd_running s" "sd_repo ?s = sd_repo s"
    by (simp_all add: start_task_runnable [OF k(2)])
  moreover have "\<forall>(sid, c) \<in> set d. sc_schedule_id c = sid \<and> runnable c" using Cons.prems by simp
  ultimately show ?case using Cons.IH [OF _ w(1), of ?s] w(2) by (auto simp: p split: option.splits)
qed simp

lemma sched_inv_start: "sched_inv s \<Longrightarrow> sched_inv (sd_start s)"
proof -
  assume i: "sched_inv s"
  let ?s1 = "s\<lparr>sd_running := True\<rparr>"
  have l: "(load_from_db s)\<lparr>sd_running := True\<rparr> = ?s1" using i by (simp add: load_from_db_def sched_inv_def)
  have d: "\<forall>(sid, c) \<in> set (sd_schedules s). sc_schedule_id c = sid \<and> runnable c" "wf_dict (sd_schedules s)"
    using i by (auto simp: sched_inv_def map_of_wf_in_set)
  have tasks: "map_of (sd_tasks s) sid = (case map_of (sd_schedules s) sid of
      Some c \<Rightarrow> if sd_running s \<and> sc_enabled c then Some (task_for c) else None | None \<Rightarrow> None)" for sid
    using i by (simp add: sched_inv_def)
  have f: "sd_start s = fold (\<lambda>(sid, c) s. if sc_enabled c then start_schedule_task c s else s) (sd_schedules s) ?s1"
    by (simp add: sd_start_def l Let_def)
  show "sched_inv (sd_start s)"
    using i fold_start [OF d, of ?s1] unfolding f sched_inv_def
    by (auto simp: tasks split: option.splits)
qed

lemma sched_inv_put:
  assumes i: "sched_inv s" and c: "runnable c" "sc_schedule_id c = sid"
    and fresh: "sc_enabled c \<or> map_of (sd_tasks s) sid = None"
  shows "sched_inv (let s1 = s\<lparr>sd_schedules := AList.update sid c (sd_schedules s)\<rparr>
    in if sd_running s1 \<and> sc_enabled c then start_schedule_task c s1 else s1)"
proof -
  have tasks: "map_of (sd_tasks s) x = (case map_of (sd_schedules s) x of
      Some c \<Rightarrow> if sd_running s \<and> sc_enabled c then Some (task_for c) else None | None \<Rightarrow> None)" for x
    using i by (simp add: sched_inv_def)
  show ?thesis
    using assms tasks [of sid]
    by (auto simp: sched_inv_def Let_def start_task_runnable map_of_start_task map_of_update_dict
        split: option.splits if_splits)
qed

lemma sched_inv_add:
  assumes "sched_inv s" and "\<not> dict_has (sd_schedules s) (sc_schedule_id c)" and "add_schedule c s = Inr s'"
  shows "sched_inv s'"
proof -
  have r: "runnable c" using assms(3) by (auto simp: add_schedule_def runnable_def split: if_splits)
  have "map_of (sd_tasks s) (sc_schedule_id c) = None"
    using assms(1,2) by (auto simp: sched_inv_def dict_has_map_of)
  then have "sched_inv (let s1 = s\<lparr>sd_schedules := AList.update (sc_schedule_id c) c (sd_schedules s)\<rparr>
    in if sd_running s1 \<and> sc_enabled c then start_schedule_task c s1 else s1)"
    by (intro sched_inv_put [OF assms(1) r refl]) simp
  moreover have "sd_repo s = None" using assms(1) by (simp add: sched_inv_def)
  ultimately show ?thesis using assms(3) r by (auto simp: add_schedule_def runnable_def Let_def split: if_splits)
qed

lemma sched_inv_enable: "sched_inv s \<Longrightarrow> sched_inv (snd (enable_schedule sid s))"
proof (cases "map_of (sd_schedules s) sid")
  case (Some old)
  assume i: "sched_inv s"
  let ?c = "old\<lparr>sc_enabled := True\<rparr>"
  have "runnable ?c" "sc_schedule_id ?c = sid"
    using i Some by (auto simp: sched_inv_def runnable_def has_interval_def)
  from sched_inv_put [OF i this] i Some show ?thesis
    by (simp add: enable_schedule_def Let_def sched_inv_def)
qed (simp add: enable_schedule_def)

lemma sched_inv_disable: "sched_inv s \<Longrightarrow> sched_inv (snd (disable_schedule sid s))"
  by (auto simp: sched_inv_def disable_schedule_def Let_def map_of_update_dict map_of_delete_dict
      runnable_def has_interval_def split: option.splits if_splits)

lemma sched_inv_remove: "sched_inv s \<Longrightarrow> sched_inv (snd (remove_schedule sid s))"
  by (auto simp: sched_inv_def remove_schedule_def map_of_delete_dict dict_has_map_of split: option.splits)

lemma sched_inv_stop: "sched_inv s \<Longrightarrow> sched_inv (sd_stop s)"
  by (auto simp: sched_inv_def sd_stop_def split: option.splits)

text \<open>Schedule ids of the configurations added in a run.\<close>

fun added_ids :: "sched_op list \<Rightarrow> string list" where
  "added_ids [] = []"
| "added_ids (SAdd c # ops) = sc_schedule_id c # added_ids ops"
| "added_ids (_ # ops) = added_ids ops"

definition sched_keys :: "'r scheduler \<Rightarrow> string set" where
  "sched_keys s = {sid. dict_has (sd_schedules s) sid}"

lemma start_task_keys [simp]: "sd_schedules (start_schedule_task c s) = sd_schedules s"
  by (simp add: start_schedule_task_def Let_def)

lemma sched_step_keys:
  assumes "sched_inv s"
  shows "sched_keys (sched_step op s) \<subseteq> sched_keys s \<union> set (added_ids [op])"
proof -
  have repo: "sd_repo s = None" using assms by (simp add: sched_inv_def)
  show ?thesis
  proof (cases op)
  case SStart
  have d: "\<forall>(sid, c) \<in> set (sd_schedules s). sc_schedule_id c = sid \<and> runnable c" "wf_dict (sd_schedules s)"
    using assms by (auto simp: sched_inv_def map_of_wf_in_set)
  from repo show ?thesis using SStart fold_start [OF d, of "s\<lparr>sd_running := True\<rparr>"]
    by (simp add: sched_keys_def sd_start_def load_from_db_def Let_def)
  qed (use repo in \<open>auto simp: sched_keys_def add_schedule_def remove_schedule_def
      enable_schedule_def disable_schedule_def sd_stop_def Let_def dict_has_map_of map_of_update_dict
      map_of_delete_dict split: option.splits if_splits\<close>)
qed

lemma sched_step_inv:
  assumes "sched_inv s" and "set (added_ids [op]) \<inter> sched_keys s = {}"
  shows "sched_inv (sched_step op s)"
proof (cases op)
  case (SAdd c)
  then show ?thesis using assms sched_inv_add [OF assms(1), of c]
    by (auto simp: sched_keys_def split: sum.splits)
qed (use assms in \<open>auto intro: sched_inv_start sched_inv_enable sched_inv_disable sched_inv_remove sched_inv_stop\<close>)

lemma added_ids_Cons: "added_ids (op # ops) = added_ids [op] @ added_ids ops"
  by (cases op) auto

lemma sched_run_inv:
  "sched_inv s \<Longrightarrow> distinct (added_ids ops) \<Longrightarrow> set (added_ids ops) \<inter> sched_keys s = {}
    \<Longrightarrow> sched_inv (fold sched_step ops s)"
proof (induction ops arbitrary: s)
  case (Cons op ops)
  have d: "distinct (added_ids [op] @ added_ids ops)" and n: "set (added_ids [op] @ added_ids ops) \<inter> sched_keys s = {}"
    using Cons.prems(2,3) by (metis added_ids_Cons)+
  have "sched_inv (sched_step op s)" using Cons.prems(1) n by (intro sched_step_inv) auto
  moreover have "set (added_ids ops) \<inter> sched_keys (sched_step op s) = {}"
    using sched_step_keys [OF Cons.prems(1), of op] d n by auto
  ultimately show ?case using Cons.IH d by simp
qed simp

section \<open>Token runs\<close>

datatype token_op = WCreate string string | WRevoke string | WValidate string string | WLookup string

fun token_step :: "token_op \<Rightarrow> 'r webhook_manager \<Rightarrow> 'r webhook_manager" where
  "token_step (WCreate w t) m = wm_create_token w t m"
| "token_step (WRevoke t) m = snd (wm_revoke_token t m)"
| "token_step (WValidate w t) m = snd (wm_validate_token w t m)"
| "token_step (WLookup t) m = snd (wm_get_workflow_id t m)"

fun live_step :: "token_op \<Rightarrow> (string \<rightharpoonup> string) \<Rightarrow> (string \<rightharpoonup> string)" where
  "live_step (WCreate w t) l = l(t \<mapsto> w)"
| "live_step (WRevoke t) l = l(t := None)"
| "live_step _ l = l"

fun created_tokens :: "token_op list \<Rightarrow> string list" where
  "created_tokens [] = []"
| "created_tokens (WCreate w t # ops) = t # created_tokens ops"
| "created_tokens (_ # ops) = created_tokens ops"

definition created_for :: "token_op list \<Rightarrow> string set" where
  "created_for ops = {w. \<exists>t. WCreate w t \<in> set ops}"

definition wm_rel :: "(string \<rightharpoonup> string) \<Rightarrow> 'r webhook_manager \<Rightarrow> bool" where
  "wm_rel l m \<longleftrightarrow> wm_repo m = None \<and> map_of (wm_tokens m) = l \<and> [] \<notin> ran l
     \<and> (\<forall>w. dict_get_or (wm_workflow_tokens m) w {} = {t. l t = Some w})"

lemma wm_rel_create:
  assumes "wm_rel l m" and "l t = None" and "w \<noteq> []"
  shows "wm_rel (l(t \<mapsto> w)) (wm_create_token w t m)"
proof -
  have "dict_get_or (AList.update w (insert t (dict_get_or (wm_workflow_tokens m) w {})) (wm_workflow_tokens m)) x {}
      = {t'. (l(t \<mapsto> w)) t' = Some x}" for x
    using assms by (auto simp: wm_rel_def dict_get_or_def map_of_update_dict split: option.splits)
  then show ?thesis using assms
    by (auto simp: wm_rel_def wm_create_token_def wm_remember_def Let_def map_of_update_dict ran_def)
qed

lemma wm_rel_revoke:
  assumes "wm_rel l m"
  shows "wm_rel (l(t := None)) (snd (wm_revoke_token t m))"
proof (cases "l t")
  case None
  then have "l(t := None) = l" by auto
  with None assms show ?thesis
    by (auto simp: wm_rel_def wm_revoke_token_def Let_def map_of_delete_dict)
next
  case (Some w)
  have wt: "dict_get_or (wm_workflow_tokens m) x {} = {t. l t = Some x}" for x
    using assms by (simp add: wm_rel_def)
  from wt [of w] Some have h: "dict_has (wm_workflow_tokens m) w"
    by (force simp: dict_get_or_def dict_has_map_of split: option.splits)
  have w: "w \<noteq> []" using assms Some by (auto simp: wm_rel_def ran_def)
  let ?m = "m\<lparr>wm_tokens := AList.delete t (wm_tokens m), wm_workflow_tokens := AList.update w
      (dict_get_or (wm_workflow_tokens m) w {} - {t}) (wm_workflow_tokens m)\<rparr>"
  have "snd (wm_revoke_token t m) = ?m"
    using assms Some h w by (simp add: wm_rel_def wm_revoke_token_def Let_def)
  moreover have "dict_get_or (wm_workflow_tokens ?m) x {} = {t'. (l(t := None)) t' = Some x}" for x
    using wt [of x] wt [of w] Some by (auto simp: dict_get_or_def map_of_update_dict)
  moreover have "[] \<notin> ran (l(t := None))" using assms by (auto simp: wm_rel_def ran_def)
  ultimately show ?thesis using assms by (simp add: wm_rel_def map_of_delete_dict)
qed

lemma wm_rel_reads:
  assumes "wm_rel l m"
  shows "wm_validate_token w t m = (l t = Some w, m)" and "wm_get_workflow_id t m = (l t, m)"
    and "wm_get_workflow_tokens w m = {t. l t = Some w}"
  using assms
  by (auto simp: wm_rel_def wm_validate_token_def wm_get_workflow_id_def wm_get_workflow_tokens_def Let_def
      split: option.splits)

lemma created_tokens_Cons: "created_tokens (op # ops) = created_tokens [op] @ created_tokens ops"
  by (cases op) auto

lemma wm_rel_step:
  assumes "wm_rel l m" and "set (created_tokens [op]) \<inter> dom l = {}" and "[] \<notin> created_for [op]"
  shows "wm_rel (live_step op l) (token_step op m)"
  using assms wm_rel_reads [OF assms(1)] wm_rel_revoke [OF assms(1)]
  by (cases op) (auto simp: created_for_def dom_def intro!: wm_rel_create)

lemma wm_rel_run:
  "wm_rel l m \<Longrightarrow> distinct (created_tokens ops) \<Longrightarrow> set (created_tokens ops) \<inter> dom l = {}
    \<Longrightarrow> [] \<notin> created_for ops \<Longrightarrow> wm_rel (fold live_step ops l) (fold token_step ops m)"
proof (induction ops arbitrary: l m)
  case (Cons op ops)
  have d: "distinct (created_tokens [op] @ created_tokens ops)"
    and n: "set (created_tokens [op] @ created_tokens ops) \<inter> dom l = {}"
    using Cons.prems(2,3) by (metis created_tokens_Cons)+
  have "wm_rel (live_step op l) (token_step op m)"
    using Cons.prems(1,4) n by (intro wm_rel_step) (auto simp: created_for_def)
  moreover have "dom (live_step op l) \<subseteq> dom l \<union> set (created_tokens [op])" by (cases op) auto
  then have "set (created_tokens ops) \<inter> dom (live_step op l) = {}" using d n by auto
  moreover have "[] \<notin> created_for ops" using Cons.prems(4) by (auto simp: created_for_def)
  ultimately show ?case using Cons.IH d by simp
qed simp

section \<open>Properties\<close>

text \<open>\<open>"*/N * * * *"\<close> with \<open>N\<close> dividing 60: the next run is the first instant strictly after now whose
  minute is a multiple of \<open>N\<close>, except in the last slot of a day, where the date is not advanced and
  the result is the midnight that began the current day, nearly 24 hours in the past.\<close>

theorem cron_every_n_minutes:
  assumes "0 < n" and "n dvd 60"
  shows "next_every now n = Inr (if last_slot_of_day n now then now div day_us * day_us
    else (now div (n * minute_us) + 1) * (n * minute_us))"
  using assms by (rule next_every_exact)

theorem cron_every_n_minutes_witness:
  "next_every (7 * minute_us) 5 = Inr (10 * minute_us)
   \<and> next_every (23 * hour_us + 57 * minute_us) 5 = Inr 0"
  using cron_every_n_minutes [of 5 "7 * minute_us"] cron_every_n_minutes [of 5 "23 * hour_us + 57 * minute_us"]
  by (simp add: last_slot_of_day_def dt_hour_def dt_minute_def minute_us_def hour_us_def day_us_def)

text \<open>In the last slot of the day the cron loop does not wait at all: a schedule \<open>*/5\<close> observed at
  23:57 and again a minute later triggers the workflow both times.\<close>

theorem cron_fires_every_minute_before_midnight:
  "cron_loop \<lparr>sc_schedule_id = ''s'', sc_workflow_id = ''w'', sc_cron_expression = ''*/5 * * * *'',
       sc_interval_seconds = None, sc_enabled = True, sc_description = [], sc_created_at = 0\<rparr> True
     [\<lparr>lr_running = True, lr_now = 86220000000, lr_now2 = 86220000001, lr_running_after = True\<rparr>,
      \<lparr>lr_running = True, lr_now = 86280000002, lr_now2 = 86280000003, lr_running_after = True\<rparr>]
   = [SleepUntil 0, Execute ''w'' ''schedule'', SleepSeconds 60,
      SleepUntil 0, Execute ''w'' ''schedule'', SleepSeconds 60]"
  by code_simp

text \<open>A daily expression with valid hour and minute gives the first such time of day strictly after
  now, at most 24 hours ahead.\<close>

theorem cron_daily:
  assumes "0 \<le> h" and "h < 24" and "0 \<le> m" and "m < 60"
  shows "\<exists>t. next_daily now h m = Inr t \<and> now < t \<and> t \<le> now + day_us \<and> dt_hour t = h \<and> dt_minute t = m"
  using assms by (rule next_daily_exact)

theorem cron_daily_witness:
  "\<exists>t. next_daily 5 9 30 = Inr t \<and> 5 < t \<and> dt_hour t = 9 \<and> dt_minute t = 30"
  using cron_daily [of 9 30 5] by auto


definition sample_schedule :: "string \<Rightarrow> bool \<Rightarrow> schedule_config" where
  "sample_schedule sid on = \<lparr>sc_schedule_id = sid, sc_workflow_id = ''w'', sc_cron_expression = [],
     sc_interval_seconds = Some 30, sc_enabled = on, sc_description = [], sc_created_at = 0\<rparr>"

definition sample_sched_ops :: "sched_op list" where
  "sample_sched_ops = [SAdd (sample_schedule ''a'' True), SStart, SAdd (sample_schedule ''b'' True), SDisable ''a'']"


text \<open>Webhook tokens without a repository: after any run in which created tokens are distinct,
  a token validates for a workflow exactly when it was created for it and not revoked since, and
  the token list of a workflow holds exactly its valid tokens.\<close>

theorem webhook_tokens_exact:
  assumes "distinct (created_tokens ops)" and "[] \<notin> created_for ops"
    and "m = fold token_step ops (wm_init None)" and "live = fold live_step ops Map.empty"
  shows "(fst (wm_validate_token w t m) \<longleftrightarrow> live t = Some w)
    \<and> fst (wm_get_workflow_id t m) = live t
    \<and> wm_get_workflow_tokens w m = {t. live t = Some w}"
proof -
  have "wm_rel Map.empty (wm_init None)" by (simp add: wm_rel_def wm_init_def dict_get_or_def)
  then have "wm_rel live m" unfolding assms(3,4) using assms(1,2) by (intro wm_rel_run) auto
  from wm_rel_reads [OF this] show ?thesis by simp
qed

definition sample_token_ops :: "token_op list" where
  "sample_token_ops = [WCreate ''w1'' ''t1'', WCreate ''w1'' ''t2'', WRevoke ''t1'']"

theorem webhook_tokens_exact_witness:
  "wm_get_workflow_tokens ''w1'' (fold token_step sample_token_ops (wm_init None :: unit webhook_manager)) = {''t2''}
   \<and> \<not> fst (wm_validate_token ''w1'' ''t1'' (fold token_step sample_token_ops (wm_init None :: unit webhook_manager)))"
proof -
  have "distinct (created_tokens sample_token_ops)" "[] \<notin> created_for sample_token_ops"
    by (simp_all add: sample_token_ops_def created_for_def)
  from webhook_tokens_exact [OF this refl refl, of "''w1''" "''t1''"] show ?thesis
    by (auto simp: sample_token_ops_def split: if_splits)
qed

definition stuck_repo :: "(string \<times> string) list token_repo" where
  "stuck_repo = \<lparr>tr_list_all = Some, tr_create = (\<lambda>t w r. Some ((t, w) # r)),
     tr_validate = (\<lambda>w t r. Some ((t, w) \<in> set r)), tr_revoke = (\<lambda>t r. None),
     tr_list = (\<lambda>w r. Some (map fst (filter (\<lambda>(t, w'). w' = w) r))), tr_get = (\<lambda>t r. Some (map_of r t))\<rparr>"

text \<open>With a repository whose delete fails, revocation does not revoke: \<open>revoke_token\<close> reports success
  and the next validation reads the token back from the repository and accepts it.\<close>

theorem failed_revocation_is_undone:
  "let m = wm_create_token ''w'' ''t'' (wm_init (Some (stuck_repo, [])));
       (revoked, m1) = wm_revoke_token ''t'' m
   in revoked \<and> fst (wm_validate_token ''w'' ''t'' m1)"
  by (simp add: wm_create_token_def wm_init_def wm_remember_def wm_revoke_token_def wm_validate_token_def
      stuck_repo_def Let_def dict_get_or_def dict_has_def)

end
