(* ===== verification/RBAC.thy ===== *)
theory RBAC
  imports Prelude
begin

text \<open>
  \<^verbatim>\<open>core/kg/rbac\<close>: the models, the policy engine and the access-control part of the secure query
  builder.  The permission graph in Neo4j is an explicit record of nodes keyed by id and of the
  HAS_ROLE, CAN_ACCESS and GRANTS edges; each Cypher query of \<^verbatim>\<open>policy.py\<close> is a function on it that
  returns the columns its RETURN clause names.  Rows and collected lists come in graph order.
  Node properties other than the id may be absent.  The Korean texts of the decisions are
  constructors of \<open>access_reason\<close>.
\<close>

section \<open>Models\<close>

datatype permission_type = READ | WRITE | ADMIN

datatype user_status = ACTIVE | INACTIVE | SUSPENDED | USER_PENDING

definition permission_type_value :: "permission_type \<Rightarrow> string" where
  "permission_type_value p = (case p of READ \<Rightarrow> ''READ'' | WRITE \<Rightarrow> ''WRITE'' | ADMIN \<Rightarrow> ''ADMIN'')"

definition user_status_value :: "user_status \<Rightarrow> string" where
  "user_status_value s = (case s of ACTIVE \<Rightarrow> ''ACTIVE'' | INACTIVE \<Rightarrow> ''INACTIVE''
     | SUSPENDED \<Rightarrow> ''SUSPENDED'' | USER_PENDING \<Rightarrow> ''PENDING'')"

definition permission_type_of :: "string \<Rightarrow> permission_type option" where
  "permission_type_of s = map_of (map (\<lambda>p. (permission_type_value p, p)) [READ, WRITE, ADMIN]) s"

definition user_status_of :: "string \<Rightarrow> user_status option" where
  "user_status_of s =
     map_of (map (\<lambda>p. (user_status_value p, p)) [ACTIVE, INACTIVE, SUSPENDED, USER_PENDING]) s"

record data_classification =
  dc_class_id :: string
  dc_name :: string
  dc_description :: string
  dc_level :: int

record access_permission =
  ap_permission_id :: string
  ap_permission_type :: permission_type
  ap_resource :: string
  ap_description :: string

record rbac_role =
  rr_role_id :: string
  rr_name :: string
  rr_description :: string
  rr_level :: int
  rr_accessible_data_classes :: "data_classification list"
  rr_permissions :: "access_permission list"

text \<open>\<open>created_at\<close> is kept as an opaque instant.\<close>

record rbac_user =
  ru_user_id :: string
  ru_name :: string
  ru_email :: string
  ru_organization :: string
  ru_status :: user_status
  ru_created_at :: "int option"
  ru_roles :: "rbac_role list"

datatype access_reason =
    UserNotFound string
  | UserNotActive "string option"
  | DataClassNotFound string
  | GrantedThrough "(string \<times> string) list" "string option"
  | NoRoleGrants "string option" int

record access_decision =
  ad_allowed :: bool
  ad_reason :: access_reason
  ad_user_id :: string
  ad_data_class_id :: string
  ad_matched_role :: "string option"
  ad_required_level :: int
  ad_user_max_level :: int

definition decision_deny :: "access_reason \<Rightarrow> string \<Rightarrow> string \<Rightarrow> int \<Rightarrow> access_decision" where
  "decision_deny why uid cid lvl = \<lparr>ad_allowed = False, ad_reason = why, ad_user_id = uid,
     ad_data_class_id = cid, ad_matched_role = None, ad_required_level = lvl, ad_user_max_level = 0\<rparr>"

definition decision_allow :: "access_reason \<Rightarrow> string \<Rightarrow> string \<Rightarrow> string option \<Rightarrow> int \<Rightarrow> access_decision" where
  "decision_allow why uid cid role lvl = \<lparr>ad_allowed = True, ad_reason = why, ad_user_id = uid,
     ad_data_class_id = cid, ad_matched_role = role, ad_required_level = lvl, ad_user_max_level = 0\<rparr>"

definition can_access_level :: "rbac_role \<Rightarrow> int \<Rightarrow> bool" where
  "can_access_level r lvl = list_ex (\<lambda>dc. dc_level dc \<ge> lvl) (rr_accessible_data_classes r)"

definition max_access_level :: "rbac_user \<Rightarrow> int" where
  "max_access_level u =
     (if ru_roles u = [] then 0
      else fold (\<lambda>r mx. fold (\<lambda>dc mx. if dc_level dc > mx then dc_level dc else mx)
                   (rr_accessible_data_classes r) mx) (ru_roles u) 0)"

definition has_role :: "rbac_user \<Rightarrow> string \<Rightarrow> bool" where
  "has_role u rid = list_ex (\<lambda>r. rr_role_id r = rid) (ru_roles u)"

definition is_admin :: "rbac_user \<Rightarrow> bool" where
  "is_admin u = list_ex (\<lambda>r. rr_role_id r = ''ROLE-ADMIN'') (ru_roles u)"

section \<open>Neo4j property maps\<close>

record dc_props =
  pd_classId :: "string option"
  pd_name :: "string option"
  pd_description :: "string option"
  pd_level :: "int option"

record perm_props =
  pp_permissionId :: "string option"
  pp_type :: "string option"
  pp_resource :: "string option"
  pp_description :: "string option"

record role_props =
  pr_roleId :: "string option"
  pr_name :: "string option"
  pr_description :: "string option"
  pr_level :: "int option"

record user_props =
  pu_userId :: "string option"
  pu_name :: "string option"
  pu_email :: "string option"
  pu_organization :: "string option"
  pu_status :: "string option"
  pu_createdAt :: "int option"

datatype rbac_error = MissingKey string | BadEnumValue string

definition or_default :: "'a \<Rightarrow> 'a option \<Rightarrow> 'a" where
  "or_default d x = (case x of None \<Rightarrow> d | Some v \<Rightarrow> v)"

definition dc_to_neo4j :: "data_classification \<Rightarrow> dc_props" where
  "dc_to_neo4j d = \<lparr>pd_classId = Some (dc_class_id d), pd_name = Some (dc_name d),
     pd_description = Some (dc_description d), pd_level = Some (dc_level d)\<rparr>"

definition dc_from_neo4j :: "dc_props \<Rightarrow> (rbac_error, data_classification) res" where
  "dc_from_neo4j p =
     (case pd_classId p of
        None \<Rightarrow> Inl (MissingKey ''classId'')
      | Some cid \<Rightarrow>
          (case pd_name p of
             None \<Rightarrow> Inl (MissingKey ''name'')
           | Some n \<Rightarrow> Inr \<lparr>dc_class_id = cid, dc_name = n, dc_description = or_default [] (pd_description p),
                          dc_level = or_default 1 (pd_level p)\<rparr>))"

definition permission_to_neo4j :: "access_permission \<Rightarrow> perm_props" where
  "permission_to_neo4j a = \<lparr>pp_permissionId = Some (ap_permission_id a),
     pp_type = Some (permission_type_value (ap_permission_type a)), pp_resource = Some (ap_resource a),
     pp_description = Some (ap_description a)\<rparr>"

definition permission_from_neo4j :: "perm_props \<Rightarrow> (rbac_error, access_permission) res" where
  "permission_from_neo4j p =
     (case pp_permissionId p of
        None \<Rightarrow> Inl (MissingKey ''permissionId'')
      | Some pid \<Rightarrow>
          (case pp_type p of
             None \<Rightarrow> Inl (MissingKey ''type'')
           | Some t \<Rightarrow>
               (case permission_type_of t of
                  None \<Rightarrow> Inl (BadEnumValue t)
                | Some pt \<Rightarrow> Inr \<lparr>ap_permission_id = pid, ap_permission_type = pt,
                    ap_resource = or_default ''*'' (pp_resource p),
                    ap_description = or_default [] (pp_description p)\<rparr>)))"

definition role_to_neo4j :: "rbac_role \<Rightarrow> role_props" where
  "role_to_neo4j r = \<lparr>pr_roleId = Some (rr_role_id r), pr_name = Some (rr_name r),
     pr_description = Some (rr_description r), pr_level = Some (rr_level r)\<rparr>"

definition role_from_neo4j :: "role_props \<Rightarrow> (rbac_error, rbac_role) res" where
  "role_from_neo4j p =
     (case pr_roleId p of
        None \<Rightarrow> Inl (MissingKey ''roleId'')
      | Some rid \<Rightarrow>
          (case pr_name p of
             None \<Rightarrow> Inl (MissingKey ''name'')
           | Some n \<Rightarrow> Inr \<lparr>rr_role_id = rid, rr_name = n, rr_description = or_default [] (pr_description p),
                          rr_level = or_default 1 (pr_level p), rr_accessible_data_classes = [],
                          rr_permissions = []\<rparr>))"

definition user_to_neo4j :: "rbac_user \<Rightarrow> user_props" where
  "user_to_neo4j u = \<lparr>pu_userId = Some (ru_user_id u), pu_name = Some (ru_name u),
     pu_email = Some (ru_email u), pu_organization = Some (ru_organization u),
     pu_status = Some (user_status_value (ru_status u)), pu_createdAt = ru_created_at u\<rparr>"

definition user_from_neo4j :: "user_props \<Rightarrow> (rbac_error, rbac_user) res" where
  "user_from_neo4j p =
     (case pu_userId p of
        None \<Rightarrow> Inl (MissingKey ''userId'')
      | Some uid \<Rightarrow>
          (case pu_name p of
             None \<Rightarrow> Inl (MissingKey ''name'')
           | Some n \<Rightarrow>
               (let st = or_default ''ACTIVE'' (pu_status p) in
                case user_status_of st of
                  None \<Rightarrow> Inl (BadEnumValue st)
                | Some s \<Rightarrow> Inr \<lparr>ru_user_id = uid, ru_name = n, ru_email = or_default [] (pu_email p),
                    ru_organization = or_default [] (pu_organization p), ru_status = s,
                    ru_created_at = pu_createdAt p, ru_roles = []\<rparr>)))"

section \<open>The permission graph and its queries\<close>

record rbac_graph =
  rg_users :: "(string, user_props) dict"
  rg_roles :: "(string, role_props) dict"
  rg_classes :: "(string, dc_props) dict"
  rg_permissions :: "(string, perm_props) dict"
  rg_has_role :: "(string \<times> string) list"
  rg_can_access :: "(string \<times> string) list"
  rg_grants :: "(string \<times> string) list"

definition roles_of :: "rbac_graph \<Rightarrow> string \<Rightarrow> string list" where
  "roles_of g uid = filter (\<lambda>r. (uid, r) \<in> set (rg_has_role g)) (map fst (rg_roles g))"

definition classes_of :: "rbac_graph \<Rightarrow> string \<Rightarrow> string list" where
  "classes_of g rid = filter (\<lambda>c. (rid, c) \<in> set (rg_can_access g)) (map fst (rg_classes g))"

text \<open>The row of the \<open>check_access\<close> query; \<open>None\<close> when the user does not match.\<close>

record access_row =
  aw_userStatus :: "string option"
  aw_requiredLevel :: "int option"
  aw_targetName :: "string option"
  aw_matchedRoles :: "string list"
  aw_matchedRoleNames :: "string list"

definition access_query :: "rbac_graph \<Rightarrow> string \<Rightarrow> string \<Rightarrow> access_row option" where
  "access_query g uid cid =
     (case map_of (rg_users g) uid of
        None \<Rightarrow> None
      | Some u \<Rightarrow>
          (let rs = filter (\<lambda>r. cid \<in> set (classes_of g r)) (roles_of g uid);
               target = map_of (rg_classes g) cid
           in Some \<lparr>aw_userStatus = pu_status u, aw_requiredLevel = Option.bind target pd_level,
                    aw_targetName = Option.bind target pd_name, aw_matchedRoles = rs,
                    aw_matchedRoleNames =
                      remdups (List.map_filter (\<lambda>r. Option.bind (map_of (rg_roles g) r) pr_name) rs)\<rparr>))"

definition check_access :: "rbac_graph \<Rightarrow> string \<Rightarrow> string \<Rightarrow> access_decision" where
  "check_access g uid cid =
     (case access_query g uid cid of
        None \<Rightarrow> decision_deny (UserNotFound uid) uid cid 0
      | Some row \<Rightarrow>
          if aw_userStatus row \<noteq> Some ''ACTIVE''
          then decision_deny (UserNotActive (aw_userStatus row)) uid cid 0
          else (case aw_requiredLevel row of
                  None \<Rightarrow> decision_deny (DataClassNotFound cid) uid cid 0
                | Some lvl \<Rightarrow>
                    (case aw_matchedRoles row of
                       r # rs \<Rightarrow>
                         decision_allow (GrantedThrough (zip (r # rs) (aw_matchedRoleNames row))
                           (aw_targetName row)) uid cid (Some r) lvl
                     | [] \<Rightarrow> decision_deny (NoRoleGrants (aw_targetName row) lvl) uid cid lvl)))"

text \<open>\<open>get_accessible_data_classes\<close>: distinct property maps in ascending order of level, nulls last.\<close>

definition order_by_level :: "('p \<Rightarrow> int option) \<Rightarrow> 'p list \<Rightarrow> 'p list" where
  "order_by_level lvl ps = sort_key (\<lambda>p. or_default 0 (lvl p)) (filter (\<lambda>p. lvl p \<noteq> None) ps)
     @ filter (\<lambda>p. lvl p = None) ps"

definition accessible_class_props :: "rbac_graph \<Rightarrow> string \<Rightarrow> dc_props list" where
  "accessible_class_props g uid =
     order_by_level pd_level
       (remdups (List.map_filter (map_of (rg_classes g)) (concat (map (classes_of g) (roles_of g uid)))))"

definition get_accessible_data_classes :: "rbac_graph \<Rightarrow> string \<Rightarrow> (rbac_error, data_classification list) res" where
  "get_accessible_data_classes g uid =
     traverse dc_from_neo4j (filter (\<lambda>p. pd_classId p \<noteq> None) (accessible_class_props g uid))"

definition get_user_permissions :: "rbac_graph \<Rightarrow> string \<Rightarrow> (rbac_error, access_permission list) res" where
  "get_user_permissions g uid =
     (let pids = concat (map (\<lambda>r. filter (\<lambda>p. (r, p) \<in> set (rg_grants g)) (map fst (rg_permissions g))) (roles_of g uid));
          ps = remdups (List.map_filter (map_of (rg_permissions g)) pids)
      in traverse permission_from_neo4j (filter (\<lambda>p. pp_permissionId p \<noteq> None) ps))"

text \<open>The columns of the \<open>get_user\<close> query: \<open>roles\<close> and \<open>roleDataClasses\<close>.\<close>

definition role_class_rows :: "rbac_graph \<Rightarrow> string \<Rightarrow> (string option \<times> dc_props option) list" where
  "role_class_rows g uid =
     (case roles_of g uid of
        [] \<Rightarrow> [(None, None)]
      | rs \<Rightarrow> remdups (concat (map (\<lambda>r.
                (let rid = Option.bind (map_of (rg_roles g) r) pr_roleId in
                 case classes_of g r of
                   [] \<Rightarrow> [(rid, None)]
                 | cs \<Rightarrow> map (\<lambda>c. (rid, map_of (rg_classes g) c)) cs)) rs)))"

definition role_dc_map :: "(string option \<times> dc_props option) list
    \<Rightarrow> (rbac_error, (string, data_classification list) dict) res" where
  "role_dc_map rows =
     fold (\<lambda>(rid, dc) acc. res_bind acc (\<lambda>m.
             case (rid, dc) of
               (Some r, Some p) \<Rightarrow>
                 if pd_classId p = None then Inr m
                 else res_bind (dc_from_neo4j p) (\<lambda>d. Inr (AList.update r (dict_get_or m r [] @ [d]) m))
             | _ \<Rightarrow> Inr m)) rows (Inr [])"

definition get_user :: "rbac_graph \<Rightarrow> string \<Rightarrow> (rbac_error, rbac_user option) res" where
  "get_user g uid =
     (case map_of (rg_users g) uid of
        None \<Rightarrow> Inr None
      | Some up \<Rightarrow>
          res_bind (user_from_neo4j up) (\<lambda>u.
          res_bind (role_dc_map (role_class_rows g uid)) (\<lambda>m.
          res_bind (traverse (\<lambda>p. res_bind (role_from_neo4j p) (\<lambda>r.
                       Inr (r\<lparr>rr_accessible_data_classes := dict_get_or m (rr_role_id r) []\<rparr>)))
                     (filter (\<lambda>p. pr_roleId p \<noteq> None)
                       (remdups (List.map_filter (map_of (rg_roles g)) (roles_of g uid)))))
            (\<lambda>rs. Inr (Some (u\<lparr>ru_roles := ru_roles u @ rs\<rparr>))))))"

section \<open>Filtering and augmentation\<close>

text \<open>The classification of a result record: absent, a number, or something else.\<close>

datatype level_value = LInt int | LFloat real | LOther

definition level_le :: "level_value \<Rightarrow> int \<Rightarrow> bool" where
  "level_le v mx = (case v of LInt i \<Rightarrow> i \<le> mx | LFloat x \<Rightarrow> x \<le> of_int mx | LOther \<Rightarrow> False)"

definition filter_query_results :: "rbac_graph \<Rightarrow> string \<Rightarrow> ('a \<times> level_value option) list
    \<Rightarrow> (rbac_error, ('a \<times> level_value option) list) res" where
  "filter_query_results g uid results =
     (if results = [] then Inr results
      else res_bind (get_accessible_data_classes g uid) (\<lambda>acc.
        if acc = [] then Inr []
        else (let mx = Max (set (map dc_level acc)) in
              Inr (filter (\<lambda>(rec, lvl). case lvl of None \<Rightarrow> True | Some v \<Rightarrow> level_le v mx) results))))"

text \<open>What \<open>augment_cypher_with_access\<close> decides to inject, before the text is spliced into the query.\<close>

datatype access_clause = Impossible string | Unrestricted | LevelAtMost string int

definition augment_plan :: "rbac_graph \<Rightarrow> string \<Rightarrow> string \<Rightarrow> (rbac_error, access_clause) res" where
  "augment_plan g uid node_alias =
     res_bind (get_accessible_data_classes g uid) (\<lambda>acc.
       if acc = [] then Inr (Impossible uid)
       else (let mx = Max (set (map dc_level acc)) in
             if mx \<ge> 5 then Inr Unrestricted else Inr (LevelAtMost node_alias mx)))"

section \<open>Role management and listing\<close>

definition assign_role :: "string \<Rightarrow> string \<Rightarrow> rbac_graph \<Rightarrow> bool \<times> rbac_graph" where
  "assign_role uid rid g =
     (if dict_has (rg_users g) uid \<and> dict_has (rg_roles g) rid
      then (True, if (uid, rid) \<in> set (rg_has_role g) then g
                  else g\<lparr>rg_has_role := rg_has_role g @ [(uid, rid)]\<rparr>)
      else (False, g))"

definition revoke_role :: "string \<Rightarrow> string \<Rightarrow> rbac_graph \<Rightarrow> bool \<times> rbac_graph" where
  "revoke_role uid rid g =
     (if dict_has (rg_users g) uid \<and> dict_has (rg_roles g) rid \<and> (uid, rid) \<in> set (rg_has_role g)
      then (True, g\<lparr>rg_has_role := filter (\<lambda>e. e \<noteq> (uid, rid)) (rg_has_role g)\<rparr>)
      else (False, g))"

definition list_roles :: "rbac_graph \<Rightarrow> (rbac_error, rbac_role list) res" where
  "list_roles g =
     traverse (\<lambda>(rid, p). res_bind (role_from_neo4j p) (\<lambda>r.
         res_bind (traverse dc_from_neo4j (filter (\<lambda>p. pd_classId p \<noteq> None)
                     (List.map_filter (map_of (rg_classes g)) (classes_of g rid))))
           (\<lambda>ds. Inr (r\<lparr>rr_accessible_data_classes := rr_accessible_data_classes r @ ds\<rparr>))))
       (filter (\<lambda>(rid, p). pr_roleId p \<noteq> None) (order_by_level (\<lambda>x. pr_level (snd x)) (rg_roles g)))"

definition list_data_classes :: "rbac_graph \<Rightarrow> (rbac_error, data_classification list) res" where
  "list_data_classes g =
     traverse dc_from_neo4j (filter (\<lambda>p. pd_classId p \<noteq> None) (order_by_level pd_level (map snd (rg_classes g))))"

section \<open>Secure builder\<close>

record secure_builder =
  sb_user_id :: "string option"
  sb_access_level :: int
  sb_aliases :: "(string \<times> int) list"

definition with_access_control :: "string \<Rightarrow> int \<Rightarrow> secure_builder \<Rightarrow> secure_builder" where
  "with_access_control al lvl b = b\<lparr>sb_aliases := sb_aliases b @ [(al, lvl)]\<rparr>"

text \<open>
  The clauses \<open>build\<close> adds and the parameters it sets: each clause compares with the parameter of its
  alias, so a repeated alias is checked against the last level given for it.
\<close>

definition rbac_parameters :: "secure_builder \<Rightarrow> (string, int) dict" where
  "rbac_parameters b = fold (\<lambda>(al, lvl) d. AList.update al lvl d) (sb_aliases b) []"

definition build_clauses :: "secure_builder \<Rightarrow> (string \<times> int) list option" where
  "build_clauses b =
     (if sb_user_id b = None \<or> sb_access_level b \<ge> 5 \<or> sb_aliases b = [] then None
      else Some (map (\<lambda>(al, lvl). (al, the (map_of (rbac_parameters b) al))) (sb_aliases b)))"

text \<open>The meaning of one EXISTS clause for the user of the query.\<close>

definition clause_holds :: "rbac_graph \<Rightarrow> string \<Rightarrow> int \<Rightarrow> bool" where
  "clause_holds g uid lvl =
     (dict_has (rg_users g) uid \<and> list_ex (\<lambda>r. list_ex (\<lambda>c. case Option.bind (map_of (rg_classes g) c) pd_level of
                               None \<Rightarrow> False | Some l \<Rightarrow> l \<le> lvl) (classes_of g r)) (roles_of g uid))"

definition builder_admits :: "rbac_graph \<Rightarrow> secure_builder \<Rightarrow> bool" where
  "builder_admits g b =
     (case (sb_user_id b, build_clauses b) of
        (Some uid, Some cs) \<Rightarrow> list_all (\<lambda>(al, lvl). clause_holds g uid lvl) cs
      | _ \<Rightarrow> True)"

definition secure_query :: "string \<Rightarrow> (string, string) dict \<Rightarrow> string \<Rightarrow> int \<Rightarrow> string \<times> (string, string) dict" where
  "secure_query query params uid lvl =
     (if lvl \<ge> 5 then (query, params)
      else (''MATCH (u:User {userId: $__rbac_user_id})-[:HAS_ROLE]->(r:Role)-[:CAN_ACCESS]->(dc:DataClass)'' @ [CHR 0x0A]
            @ ''WITH u, max(dc.level) AS __rbac_max_level'' @ [CHR 0x0A] @ query,
            AList.update ''__rbac_user_id'' uid params))"

section \<open>Lemmas\<close>

lemma user_status_of_value [simp]: "user_status_of (user_status_value s) = Some s"
  by (cases s) (simp_all add: user_status_of_def user_status_value_def)

lemma permission_type_of_value [simp]: "permission_type_of (permission_type_value p) = Some p"
  by (cases p) (simp_all add: permission_type_of_def permission_type_value_def)

text \<open>A role of the user that reaches the class.\<close>

definition grants_path :: "rbac_graph \<Rightarrow> string \<Rightarrow> string \<Rightarrow> string \<Rightarrow> bool" where
  "grants_path g uid r cid \<longleftrightarrow> dict_has (rg_roles g) r \<and> (uid, r) \<in> set (rg_has_role g)
     \<and> dict_has (rg_classes g) cid \<and> (r, cid) \<in> set (rg_can_access g)"

lemma in_roles_of: "r \<in> set (roles_of g uid) \<longleftrightarrow> dict_has (rg_roles g) r \<and> (uid, r) \<in> set (rg_has_role g)"
  by (auto simp: roles_of_def dict_has_def)

lemma in_classes_of: "c \<in> set (classes_of g r) \<longleftrightarrow> dict_has (rg_classes g) c \<and> (r, c) \<in> set (rg_can_access g)"
  by (auto simp: classes_of_def dict_has_def)

lemma matched_roles: "access_query g uid cid = Some row \<Longrightarrow> r \<in> set (aw_matchedRoles row) \<longleftrightarrow> grants_path g uid r cid"
  by (auto simp: access_query_def Let_def grants_path_def in_roles_of in_classes_of split: option.splits)

lemma check_access_iff:
  "ad_allowed (check_access g uid cid) \<longleftrightarrow>
     (\<exists>u. map_of (rg_users g) uid = Some u \<and> pu_status u = Some ''ACTIVE'')
     \<and> (\<exists>c lvl. map_of (rg_classes g) cid = Some c \<and> pd_level c = Some lvl)
     \<and> (\<exists>r. grants_path g uid r cid)"
proof (cases "access_query g uid cid")
  case None
  then show ?thesis
    by (auto simp: check_access_def decision_deny_def access_query_def Let_def split: option.splits)
next
  case (Some row)
  then obtain u where u: "map_of (rg_users g) uid = Some u" "aw_userStatus row = pu_status u"
    "aw_requiredLevel row = Option.bind (map_of (rg_classes g) cid) pd_level"
    by (auto simp: access_query_def Let_def split: option.splits)
  have "aw_matchedRoles row \<noteq> [] \<longleftrightarrow> (\<exists>r. grants_path g uid r cid)"
    unfolding matched_roles [OF Some, symmetric] by (simp add: ex_in_conv)
  with Some u show ?thesis
    by (auto simp: check_access_def decision_deny_def decision_allow_def bind_eq_Some_conv
        split: option.splits list.splits)
qed

lemma check_access_matched:
  "ad_matched_role (check_access g uid cid) = Some r \<Longrightarrow> grants_path g uid r cid"
  by (auto simp: check_access_def decision_deny_def decision_allow_def matched_roles [symmetric]
      split: option.splits list.splits if_splits)

text \<open>The data classes a user reaches, and the largest level among them.\<close>

definition reaches_level :: "rbac_graph \<Rightarrow> string \<Rightarrow> int \<Rightarrow> bool" where
  "reaches_level g uid l \<longleftrightarrow>
     (\<exists>r c p. grants_path g uid r c \<and> map_of (rg_classes g) c = Some p \<and> pd_classId p \<noteq> None
        \<and> l = or_default 1 (pd_level p))"

lemma set_order_by_level [simp]: "set (order_by_level lvl ps) = set ps"
  by (auto simp: order_by_level_def)

lemma set_map_filter_map_of: "p \<in> set (List.map_filter m xs) \<longleftrightarrow> (\<exists>x \<in> set xs. m x = Some p)"
  by (force simp: List.map_filter_def image_iff)

lemma accessible_props: "p \<in> set (accessible_class_props g uid) \<longleftrightarrow>
    (\<exists>r c. grants_path g uid r c \<and> map_of (rg_classes g) c = Some p)"
proof -
  have "p \<in> set (accessible_class_props g uid) \<longleftrightarrow>
      (\<exists>r \<in> set (roles_of g uid). \<exists>c \<in> set (classes_of g r). map_of (rg_classes g) c = Some p)"
    by (auto simp: accessible_class_props_def set_map_filter_map_of)
  then show ?thesis unfolding Bex_def in_roles_of in_classes_of grants_path_def by blast
qed

lemma accessible_levels:
  assumes "get_accessible_data_classes g uid = Inr acc"
  shows "dc_level ` set acc = {l. reaches_level g uid l}"
proof -
  let ?ps = "filter (\<lambda>p. pd_classId p \<noteq> None) (accessible_class_props g uid)"
  have l2: "list_all2 (\<lambda>p d. dc_from_neo4j p = Inr d) ?ps acc"
    using assms by (simp add: get_accessible_data_classes_def traverse_Inr)
  have lv: "dc_from_neo4j p = Inr d \<Longrightarrow> dc_level d = or_default 1 (pd_level p)" for p d
    by (auto simp: dc_from_neo4j_def split: option.splits)
  have "dc_level ` set acc = (\<lambda>p. or_default 1 (pd_level p)) ` set ?ps"
    using l2 by (induction rule: list_all2_induct) (auto simp: lv)
  also have "\<dots> = {l. reaches_level g uid l}"
    by (auto simp: reaches_level_def accessible_props image_iff)
  finally show ?thesis .
qed

lemma filter_results_spec:
  assumes "filter_query_results g uid results = Inr out" and "results \<noteq> []"
  shows "out = filter (\<lambda>(rec, lvl). \<exists>l. reaches_level g uid l
      \<and> (case lvl of None \<Rightarrow> True | Some v \<Rightarrow> level_le v l)) results"
proof -
  obtain acc where acc: "get_accessible_data_classes g uid = Inr acc"
    using assms by (cases "get_accessible_data_classes g uid") (auto simp: filter_query_results_def)
  note L = accessible_levels [OF acc]
  show ?thesis
  proof (cases "acc = []")
    case True
    with L have "\<not> reaches_level g uid l" for l by auto
    with True assms acc show ?thesis by (simp add: filter_query_results_def)
  next
    case False
    let ?mx = "Max (set (map dc_level acc))"
    have "?mx \<in> dc_level ` set acc" using False Max_in [of "dc_level ` set acc"] by simp
    then have m1: "reaches_level g uid ?mx" unfolding L by simp
    have m2: "l \<le> ?mx" if "reaches_level g uid l" for l
    proof -
      from that L have "l \<in> dc_level ` set acc" by simp
      then show ?thesis by simp
    qed
    have le: "level_le v l \<Longrightarrow> l \<le> l' \<Longrightarrow> level_le v l'" for v l l'
      by (auto simp: level_le_def split: level_value.splits intro: order_trans)
    have "(\<exists>l. reaches_level g uid l \<and> (case lvl of None \<Rightarrow> True | Some v \<Rightarrow> level_le v l))
        \<longleftrightarrow> (case lvl of None \<Rightarrow> True | Some v \<Rightarrow> level_le v ?mx)" for lvl
      using m1 m2 le by (auto split: option.splits)
    then show ?thesis using False assms acc by (simp add: filter_query_results_def Let_def del: set_map)
  qed
qed

section \<open>Properties\<close>

text \<open>C7. Deny by default: \<open>check_access\<close> allows exactly when the user exists and is ACTIVE, the data class
  exists with a level, and some role of the user can access the class; the role it reports is such
  a role.\<close>

theorem check_access_exact:
  "(ad_allowed (check_access g uid cid) \<longleftrightarrow>
      (\<exists>u. map_of (rg_users g) uid = Some u \<and> pu_status u = Some ''ACTIVE'')
      \<and> (\<exists>c lvl. map_of (rg_classes g) cid = Some c \<and> pd_level c = Some lvl)
      \<and> (\<exists>r. grants_path g uid r cid))
   \<and> (ad_allowed (check_access g uid cid) \<longleftrightarrow> (\<exists>r. ad_matched_role (check_access g uid cid) = Some r))
   \<and> {r. ad_matched_role (check_access g uid cid) = Some r} \<subseteq> {r. grants_path g uid r cid}"
  using check_access_iff [of g uid cid] check_access_matched [of g uid cid]
  by (auto simp: check_access_def decision_deny_def decision_allow_def split: option.splits list.splits if_splits)

text \<open>Role changes take effect and nothing else changes: after a successful \<open>assign_role\<close> the user's
  roles are the old ones and the new one, after a successful \<open>revoke_role\<close> the old ones without it,
  other users keep theirs, and a revoked role grants nothing any more.\<close>

theorem role_changes_exact:
  assumes "dict_has (rg_users g) uid" and "dict_has (rg_roles g) rid"
  shows "fst (assign_role uid rid g)
    \<and> (\<forall>u r c. grants_path (snd (assign_role uid rid g)) u r c \<longleftrightarrow>
         grants_path g u r c \<or> (u = uid \<and> r = rid \<and> dict_has (rg_classes g) c \<and> (r, c) \<in> set (rg_can_access g)))
    \<and> (\<forall>u r c. grants_path (snd (revoke_role uid rid g)) u r c \<longleftrightarrow>
         grants_path g u r c \<and> \<not> (u = uid \<and> r = rid))
    \<and> (fst (revoke_role uid rid g) \<longleftrightarrow> (uid, rid) \<in> set (rg_has_role g))"
  using assms by (auto simp: assign_role_def revoke_role_def grants_path_def)

definition sample_graph :: "string \<Rightarrow> rbac_graph" where
  "sample_graph st = \<lparr>
     rg_users = [(''u1'', \<lparr>pu_userId = Some ''u1'', pu_name = Some ''Kim'', pu_email = None,
        pu_organization = None, pu_status = Some st, pu_createdAt = None\<rparr>)],
     rg_roles = [(''r1'', \<lparr>pr_roleId = Some ''r1'', pr_name = Some ''viewer'', pr_description = None, pr_level = Some 1\<rparr>)],
     rg_classes = [(''c1'', \<lparr>pd_classId = Some ''c1'', pd_name = Some ''public'', pd_description = None, pd_level = Some 1\<rparr>),
                   (''c4'', \<lparr>pd_classId = Some ''c4'', pd_name = Some ''secret'', pd_description = None, pd_level = Some 4\<rparr>)],
     rg_permissions = [], rg_has_role = [(''u1'', ''r1'')], rg_can_access = [(''r1'', ''c1'')], rg_grants = []\<rparr>"

theorem role_changes_exact_witness:
  "fst (assign_role ''u1'' ''r1'' (sample_graph ''ACTIVE''))
   \<and> \<not> grants_path (snd (revoke_role ''u1'' ''r1'' (sample_graph ''ACTIVE''))) ''u1'' ''r1'' ''c1''"
  using role_changes_exact [of "sample_graph ''ACTIVE''" "''u1''" "''r1''"]
  by (simp add: sample_graph_def dict_has_def)

text \<open>Filtering: \<open>filter_query_results\<close> returns, in order, exactly the records that carry no level or a
  numeric level at most that of a data class the user reaches; a user who reaches none gets nothing.\<close>

theorem filter_query_results_exact:
  assumes "filter_query_results g uid results = Inr out"
  shows "out = filter (\<lambda>(rec, lvl). \<exists>l. reaches_level g uid l
      \<and> (case lvl of None \<Rightarrow> True | Some v \<Rightarrow> level_le v l)) results"
  using filter_results_spec [OF assms] assms by (cases "results = []") (auto simp: filter_query_results_def)

theorem filter_query_results_exact_witness:
  "filter_query_results (sample_graph ''ACTIVE'') ''u1'' [(0::nat, None), (1, Some (LInt 1)), (2, Some (LInt 4))]
     = Inr [(0, None), (1, Some (LInt 1))]
   \<and> reaches_level (sample_graph ''ACTIVE'') ''u1'' 1"
proof -
  have f: "filter_query_results (sample_graph ''ACTIVE'') ''u1'' [(0::nat, None), (1, Some (LInt 1)), (2, Some (LInt 4))]
     = Inr [(0, None), (1, Some (LInt 1))]" by code_simp
  have "(0::nat, None) \<in> set [(0::nat, None), (1, Some (LInt 1))]" by simp
  then have "\<exists>l. reaches_level (sample_graph ''ACTIVE'') ''u1'' l \<and> level_le (LInt 1) l"
    using filter_query_results_exact [OF f] by (auto split: if_splits)
  then show ?thesis using f
    by (auto simp: reaches_level_def sample_graph_def grants_path_def level_le_def dict_has_def or_default_def
        split: if_splits)
qed

text \<open>A suspended user is denied by \<open>check_access\<close> but still receives classified records through
  \<open>filter_query_results\<close> and an ordinary level clause from the query augmentation.\<close>

theorem suspended_user_still_filtered_in:
  "\<not> ad_allowed (check_access (sample_graph ''SUSPENDED'') ''u1'' ''c1'')
   \<and> filter_query_results (sample_graph ''SUSPENDED'') ''u1'' [(7::nat, Some (LInt 1))] = Inr [(7, Some (LInt 1))]
   \<and> augment_plan (sample_graph ''SUSPENDED'') ''u1'' ''n'' = Inr (LevelAtMost ''n'' 1)"
  by (intro conjI; code_simp)

text \<open>The secure builder compares the wrong way round: a user whose only data class is public passes
  the check for a node marked level 4, and a user whose only class is level 4 fails the check for a
  public node.\<close>

theorem secure_builder_check_inverted:
  "builder_admits (sample_graph ''ACTIVE'')
       (with_access_control ''n'' 4 \<lparr>sb_user_id = Some ''u1'', sb_access_level = 1, sb_aliases = []\<rparr>)
   \<and> \<not> builder_admits ((sample_graph ''ACTIVE'')\<lparr>rg_can_access := [(''r1'', ''c4'')]\<rparr>)
       (with_access_control ''n'' 1 \<lparr>sb_user_id = Some ''u1'', sb_access_level = 4, sb_aliases = []\<rparr>)"
  by (intro conjI; code_simp)

text \<open>Round trip: what \<open>to_neo4j_properties\<close> writes, \<open>from_neo4j\<close> reads back, for data classes,
  permissions, users and roles; the nested lists of roles and users, which are not stored on the
  node, come back empty.\<close>

theorem neo4j_round_trips:
  "dc_from_neo4j (dc_to_neo4j d) = Inr d
   \<and> permission_from_neo4j (permission_to_neo4j p) = Inr p
   \<and> role_from_neo4j (role_to_neo4j r) = Inr (r\<lparr>rr_accessible_data_classes := [], rr_permissions := []\<rparr>)
   \<and> user_from_neo4j (user_to_neo4j u) = Inr (u\<lparr>ru_roles := []\<rparr>)"
  by (simp add: dc_from_neo4j_def dc_to_neo4j_def permission_from_neo4j_def permission_to_neo4j_def
      role_from_neo4j_def role_to_neo4j_def user_from_neo4j_def user_to_neo4j_def or_default_def Let_def)

end
