(* ===== verification/ETL.thy ===== *)
theory ETL
  imports Prelude "HOL-Library.List_Lexorder" "HOL-Library.Char_ord"
begin

text \<open>
  \<^verbatim>\<open>core/kg/etl\<close>: records, validation rules, transform steps, the dead letter queue, the batch loader,
  the raw store and the pipeline that composes them.

  A record value is a Python value reduced to what the code looks at: its text, its type name and
  whether it is None or a string.  User-supplied rules and steps (subclasses of \<open>ValidationRule\<close> and
  \<open>TransformStep\<close>) are functions; a step that raises returns the text of the exception together with
  the envelope as it was left, since steps mutate records in place.  The Neo4j session is a
  parameter \<open>run_batch\<close> that may raise; JSON encoding of raw records is a parameter.  Clock readings are
  arguments of \<open>etl_run\<close>.
\<close>

section \<open>Models\<close>

datatype pipeline_status = PL_PENDING | PL_RUNNING | PL_COMPLETED | PL_FAILED | PL_CANCELLED

datatype pipeline_phase = EXTRACT | LOAD_RAW | VALIDATE | TRANSFORM | LOAD_KG

datatype etl_mode = FULL | INCREMENTAL

record incremental_config =
  ic_last_update_time :: "string option"
  ic_change_field :: string
  ic_cleanup_orphans :: bool

record pipeline_config =
  pc_name :: string
  pc_batch_size :: int
  pc_max_retries :: int
  pc_retry_delay :: real
  pc_dlq_enabled :: bool
  pc_validate :: bool
  pc_transform_mode :: string
  pc_raw_store_enabled :: bool

record pipeline_result =
  pr_records_processed :: int
  pr_records_failed :: int
  pr_records_skipped :: int
  pr_errors :: "string list"
  pr_duration_seconds :: real
  pr_started_at :: "clock option"
  pr_completed_at :: "clock option"
  pr_mode :: etl_mode
  pr_total_input :: int
  pr_filtered_count :: int
  pr_phases_completed :: "pipeline_phase list"

definition pipeline_result_init :: pipeline_result where
  "pipeline_result_init = \<lparr>pr_records_processed = 0, pr_records_failed = 0, pr_records_skipped = 0,
     pr_errors = [], pr_duration_seconds = 0, pr_started_at = None, pr_completed_at = None, pr_mode = FULL,
     pr_total_input = 0, pr_filtered_count = 0, pr_phases_completed = []\<rparr>"

text \<open>\<open>PObj ty txt\<close> is a value of another type \<open>ty\<close> whose \<^verbatim>\<open>str\<close> is \<open>txt\<close>.\<close>

datatype pyval = PNone | PStr string | PInt int | PBool bool | PObj string string

definition py_str :: "pyval \<Rightarrow> string" where
  "py_str v = (case v of PNone \<Rightarrow> ''None'' | PStr s \<Rightarrow> s | PInt i \<Rightarrow> int_str i
     | PBool b \<Rightarrow> (if b then ''True'' else ''False'') | PObj ty txt \<Rightarrow> txt)"

definition py_type_name :: "pyval \<Rightarrow> string" where
  "py_type_name v = (case v of PNone \<Rightarrow> ''NoneType'' | PStr s \<Rightarrow> ''str'' | PInt i \<Rightarrow> ''int''
     | PBool b \<Rightarrow> ''bool'' | PObj ty txt \<Rightarrow> ty)"

text \<open>\<^verbatim>\<open>isinstance\<close> for the built-in types: a bool is an int.\<close>

definition py_isinstance :: "pyval \<Rightarrow> string \<Rightarrow> bool" where
  "py_isinstance v ty \<longleftrightarrow> py_type_name v = ty \<or> py_type_name v = ''bool'' \<and> ty = ''int''"

record envelope =
  en_data :: "(string, pyval) dict"
  en_source :: string
  en_record_id :: string
  en_errors :: "string list"

definition data_get :: "envelope \<Rightarrow> string \<Rightarrow> pyval" where
  "data_get e f = dict_get_or (en_data e) f PNone"

definition data_set :: "string \<Rightarrow> pyval \<Rightarrow> envelope \<Rightarrow> envelope" where
  "data_set f v e = e\<lparr>en_data := AList.update f v (en_data e)\<rparr>"

section \<open>Validation\<close>

datatype validation_rule =
    RequiredFieldsRule "string list"
  | TypeCheckRule "(string \<times> string) list"
  | OntologyLabelRule string "string list"
  | CustomRule "envelope \<Rightarrow> string list"

definition required_error :: "envelope \<Rightarrow> string \<Rightarrow> string list" where
  "required_error e f =
     (case data_get e f of
        PNone \<Rightarrow> [''Missing required field: '' @ f]
      | PStr s \<Rightarrow> if py_strip s = [] then [''Empty required field: '' @ f] else []
      | _ \<Rightarrow> [])"

definition type_error :: "envelope \<Rightarrow> string \<times> string \<Rightarrow> string list" where
  "type_error e p =
     (let (f, ty) = p; v = data_get e f in
      if v \<noteq> PNone \<and> \<not> py_isinstance v ty
      then [''Field '' @ squote f @ '' expected '' @ ty @ '', got '' @ py_type_name v] else [])"

definition label_error :: "envelope \<Rightarrow> string \<Rightarrow> string list \<Rightarrow> string list" where
  "label_error e f valid =
     (let v = data_get e f in
      if v = PNone then [''Missing label field: '' @ f]
      else if valid \<noteq> [] \<and> \<not> (\<exists>l \<in> set valid. v = PStr l)
      then [''Unknown ontology label: '' @ squote (py_str v)] else [])"

fun rule_validate :: "validation_rule \<Rightarrow> envelope \<Rightarrow> string list" where
  "rule_validate (RequiredFieldsRule fs) e = concat (map (required_error e) fs)"
| "rule_validate (TypeCheckRule schema) e = concat (map (type_error e) schema)"
| "rule_validate (OntologyLabelRule f valid) e = label_error e f valid"
| "rule_validate (CustomRule g) e = g e"

definition record_validate :: "validation_rule list \<Rightarrow> envelope \<Rightarrow> string list" where
  "record_validate rules e = concat (map (\<lambda>r. rule_validate r e) rules)"

section \<open>Transforms\<close>

datatype step_outcome = Done envelope | StepRaised string envelope

datatype transform_step =
    TextNormalizer "string list"
  | IdentifierNormalizer string string
  | ChainTransform "transform_step list"
  | CustomStep string "envelope \<Rightarrow> step_outcome"

text \<open>\<^verbatim>\<open>re.sub(r"[\s\u3000]+", " ", s)\<close> on 8-bit text.\<close>

fun collapse_ws :: "bool \<Rightarrow> string \<Rightarrow> string" where
  "collapse_ws prev [] = []"
| "collapse_ws prev (c # cs) =
     (if py_isspace c then (if prev then [] else '' '') @ collapse_ws True cs
      else c # collapse_ws False cs)"

definition normalize_text :: "string \<Rightarrow> string" where
  "normalize_text s = py_strip (collapse_ws False s)"

definition text_normalize_field :: "string \<Rightarrow> envelope \<Rightarrow> envelope" where
  "text_normalize_field f e =
     (case data_get e f of PStr s \<Rightarrow> data_set f (PStr (normalize_text s)) e | _ \<Rightarrow> e)"

definition normalize_identifier :: "string \<Rightarrow> string \<Rightarrow> string" where
  "normalize_identifier prefix s =
     (let v = py_strip s in if py_startswith v prefix then v else prefix @ ''-'' @ v)"

definition identifier_normalize :: "string \<Rightarrow> string \<Rightarrow> envelope \<Rightarrow> envelope" where
  "identifier_normalize f prefix e =
     (case data_get e f of PStr s \<Rightarrow> data_set f (PStr (normalize_identifier prefix s)) e | _ \<Rightarrow> e)"

fun step_transform :: "transform_step \<Rightarrow> envelope \<Rightarrow> step_outcome"
  and steps_transform :: "transform_step list \<Rightarrow> envelope \<Rightarrow> step_outcome" where
  "step_transform (TextNormalizer fs) e = Done (fold text_normalize_field fs e)"
| "step_transform (IdentifierNormalizer f p) e = Done (identifier_normalize f p e)"
| "step_transform (ChainTransform steps) e = steps_transform steps e"
| "step_transform (CustomStep n g) e = g e"
| "steps_transform [] e = Done e"
| "steps_transform (s # ss) e =
     (case step_transform s e of Done e' \<Rightarrow> steps_transform ss e' | StepRaised m e' \<Rightarrow> StepRaised m e')"

fun step_name :: "transform_step \<Rightarrow> string" where
  "step_name (TextNormalizer fs) = ''TextNormalizer''"
| "step_name (IdentifierNormalizer f p) = ''IdentifierNormalizer''"
| "step_name (ChainTransform steps) = ''Chain['' @ join_with '', '' (map step_name steps) @ '']''"
| "step_name (CustomStep n g) = n"

section \<open>Dead letter queue\<close>

record dlq_entry =
  dq_record :: envelope
  dq_errors :: "string list"
  dq_retry_count :: int

type_synonym dlq = "dlq_entry list"

definition dlq_add :: "envelope \<Rightarrow> string list \<Rightarrow> dlq \<Rightarrow> dlq" where
  "dlq_add e errs q = q @ [\<lparr>dq_record = e, dq_errors = errs, dq_retry_count = 0\<rparr>]"

definition dlq_get_entries :: "dlq \<Rightarrow> dlq_entry list" where
  "dlq_get_entries q = q"

definition dlq_retry_eligible :: "int \<Rightarrow> dlq \<Rightarrow> dlq_entry list" where
  "dlq_retry_eligible n q = filter (\<lambda>e. dq_retry_count e < n) q"

definition dlq_clear :: "dlq \<Rightarrow> dlq" where
  "dlq_clear q = []"

definition dlq_size :: "dlq \<Rightarrow> nat" where
  "dlq_size q = length q"

section \<open>Batch loader\<close>

record batch_loader =
  bl_label :: string
  bl_id_field :: string
  bl_batch_size :: int
  bl_project :: "string option"

definition build_merge_cypher :: "batch_loader \<Rightarrow> string" where
  "build_merge_cypher l =
     (let key = ''{'' @ bl_id_field l @ '': row.'' @ bl_id_field l @ ''}'' in
      case bl_project l of
        Some p \<Rightarrow> ''UNWIND $batch AS row MERGE (n:'' @ bl_label l @ '':KG_'' @ p @ '' '' @ key
                  @ '') SET n += row, n._kg_project = '' @ squote p
      | None \<Rightarrow> ''UNWIND $batch AS row MERGE (n:'' @ bl_label l @ '' '' @ key @ '') SET n += row'')"

type_synonym row = "(string, pyval) dict"

text \<open>One \<open>session.run\<close>: the new session state, or the text of the exception and the state it left.\<close>

type_synonym 's run_batch = "string \<Rightarrow> row list \<Rightarrow> 's \<Rightarrow> (string \<times> 's) + 's"

text \<open>The loop over \<^verbatim>\<open>range(0, len(records), batch_size)\<close> for a positive step.\<close>

function load_batches :: "'s run_batch \<Rightarrow> string \<Rightarrow> nat \<Rightarrow> row list \<Rightarrow> int \<Rightarrow> 's \<Rightarrow> ((string \<times> 's) + (int \<times> 's))" where
  "load_batches run cypher n rs acc s =
     (if rs = [] \<or> n = 0 then Inr (acc, s)
      else (case run cypher (take n rs) s of
              Inl (m, s') \<Rightarrow> Inl (m, s')
            | Inr s' \<Rightarrow> load_batches run cypher n (drop n rs) (acc + int (length (take n rs))) s'))"
  by pat_completeness auto
termination
  by (relation "measure (\<lambda>(run, cypher, n, rs, acc, s). length rs)") auto

declare load_batches.simps [simp del]

text \<open>A zero step raises, a negative one gives an empty range.\<close>

definition loader_load :: "'s run_batch \<Rightarrow> batch_loader \<Rightarrow> row list \<Rightarrow> 's \<Rightarrow> ((string \<times> 's) + (int \<times> 's))" where
  "loader_load run l rs s =
     (if rs = [] then Inr (0, s)
      else if bl_batch_size l = 0 then Inl (''range() arg 3 must not be zero'', s)
      else if bl_batch_size l < 0 then Inr (0, s)
      else load_batches run (build_merge_cypher l) (nat (bl_batch_size l)) rs 0 s)"

section \<open>Raw store\<close>

text \<open>
  A store of bytes by key.  \<open>NullRawStore\<close> keeps nothing; \<open>LocalFileStore\<close> is a file tree, in which a
  metadata file stands beside each record and is not listed.
\<close>

datatype 'b raw_store = NullStore | LocalStore "(string, 'b) dict" "(string, (string \<times> string) list) dict"

definition meta_key :: "string \<Rightarrow> string" where
  "meta_key k = k @ ''.meta.json''"

definition raw_put :: "string \<Rightarrow> 'b \<Rightarrow> (string \<times> string) list \<Rightarrow> 'b raw_store \<Rightarrow> 'b raw_store" where
  "raw_put k d meta st = (case st of NullStore \<Rightarrow> NullStore
     | LocalStore fs ms \<Rightarrow> LocalStore (AList.update k d fs)
         (if meta \<noteq> [] then AList.update (meta_key k) meta ms else ms))"

definition raw_get :: "string \<Rightarrow> 'b raw_store \<Rightarrow> 'b option" where
  "raw_get k st = (case st of NullStore \<Rightarrow> None | LocalStore fs ms \<Rightarrow> map_of fs k)"

definition raw_delete :: "string \<Rightarrow> 'b raw_store \<Rightarrow> bool \<times> 'b raw_store" where
  "raw_delete k st = (case st of NullStore \<Rightarrow> (False, NullStore)
     | LocalStore fs ms \<Rightarrow> if dict_has fs k
         then (True, LocalStore (AList.delete k fs) (AList.delete (meta_key k) ms)) else (False, st))"

definition raw_get_metadata :: "string \<Rightarrow> 'b raw_store \<Rightarrow> (string \<times> string) list option" where
  "raw_get_metadata k st = (case st of NullStore \<Rightarrow> None | LocalStore fs ms \<Rightarrow> map_of ms (meta_key k))"

definition py_endswith :: "string \<Rightarrow> string \<Rightarrow> bool" where
  "py_endswith s p \<longleftrightarrow> length p \<le> length s \<and> drop (length s - length p) s = p"

definition make_raw_key :: "string \<Rightarrow> string \<Rightarrow> string \<Rightarrow> string" where
  "make_raw_key date source rid = source @ ''/'' @ date @ ''/'' @ rid @ ''.json''"

definition raw_list_keys :: "string \<Rightarrow> 'b raw_store \<Rightarrow> string list" where
  "raw_list_keys prefix st = (case st of NullStore \<Rightarrow> []
     | LocalStore fs ms \<Rightarrow>
         sort (filter (\<lambda>k. (prefix = [] \<or> py_startswith k (prefix @ ''/'')) \<and> \<not> py_endswith k ''.meta.json'')
           (map fst fs)))"

section \<open>The pipeline\<close>

datatype lineage_call = RecordIngestion string string string | RecordTransformation string string string

record 'b pipeline =
  pl_config :: pipeline_config
  pl_mode :: etl_mode
  pl_incremental :: "incremental_config option"
  pl_transforms :: "transform_step list"
  pl_validator :: "validation_rule list option"
  pl_loader :: "batch_loader option"
  pl_lineage :: "lineage_call list option"
  pl_dlq :: dlq
  pl_status :: pipeline_status
  pl_raw_store :: "'b raw_store"

definition pipeline_init :: "pipeline_config \<Rightarrow> etl_mode \<Rightarrow> incremental_config option \<Rightarrow> 'b raw_store option \<Rightarrow> 'b pipeline" where
  "pipeline_init cfg mode inc raw = \<lparr>pl_config = cfg, pl_mode = mode, pl_incremental = inc,
     pl_transforms = [], pl_validator = None, pl_loader = None, pl_lineage = None, pl_dlq = [],
     pl_status = PL_PENDING, pl_raw_store = (case raw of None \<Rightarrow> NullStore | Some st \<Rightarrow> st)\<rparr>"

definition add_transform :: "transform_step \<Rightarrow> 'b pipeline \<Rightarrow> 'b pipeline" where
  "add_transform t p = p\<lparr>pl_transforms := pl_transforms p @ [t]\<rparr>"

definition set_validator :: "validation_rule list \<Rightarrow> 'b pipeline \<Rightarrow> 'b pipeline" where
  "set_validator v p = p\<lparr>pl_validator := Some v\<rparr>"

definition set_loader :: "batch_loader \<Rightarrow> 'b pipeline \<Rightarrow> 'b pipeline" where
  "set_loader l p = p\<lparr>pl_loader := Some l\<rparr>"

definition set_lineage_recorder :: "'b pipeline \<Rightarrow> 'b pipeline" where
  "set_lineage_recorder p = p\<lparr>pl_lineage := Some []\<rparr>"

definition detect_changes :: "incremental_config option \<Rightarrow> envelope list \<Rightarrow> envelope list" where
  "detect_changes inc records =
     (case inc of
        None \<Rightarrow> records
      | Some ic \<Rightarrow>
          (case ic_last_update_time ic of
             None \<Rightarrow> records
           | Some cutoff \<Rightarrow>
               if cutoff = [] then records
               else filter (\<lambda>e. let v = data_get e (ic_change_field ic) in v = PNone \<or> cutoff \<le> py_str v) records))"

definition record_lineage :: "envelope \<Rightarrow> bool \<Rightarrow> 'b pipeline \<Rightarrow> 'b pipeline" where
  "record_lineage e had_transforms p =
     (case pl_lineage p of
        None \<Rightarrow> p
      | Some calls \<Rightarrow>
          (let label = (case pl_loader p of Some l \<Rightarrow> bl_label l | None \<Rightarrow> ''Unknown'');
               agent = ''ETL:'' @ pc_name (pl_config p)
           in p\<lparr>pl_lineage := Some (calls @ [RecordIngestion label (en_record_id e) agent]
                  @ (if had_transforms then [RecordTransformation label (en_record_id e) agent] else []))\<rparr>))"

definition to_dlq :: "envelope \<Rightarrow> string list \<Rightarrow> 'b pipeline \<Rightarrow> 'b pipeline" where
  "to_dlq e errs p = (if pc_dlq_enabled (pl_config p) then p\<lparr>pl_dlq := dlq_add e errs (pl_dlq p)\<rparr> else p)"

text \<open>One iteration of the record loop, on the pipeline, the result and the rows to load.\<close>

definition process_record :: "envelope \<Rightarrow> 'b pipeline \<times> pipeline_result \<times> row list \<Rightarrow> 'b pipeline \<times> pipeline_result \<times> row list" where
  "process_record e st =
     (let (p, r, rows) = st;
          errs = (case pl_validator p of
                    Some v \<Rightarrow> if pc_validate (pl_config p) then record_validate v e else []
                  | None \<Rightarrow> [])
      in if errs \<noteq> []
         then (to_dlq e errs p, r\<lparr>pr_records_skipped := pr_records_skipped r + 1, pr_errors := pr_errors r @ errs\<rparr>, rows)
         else (case steps_transform (pl_transforms p) e of
                 StepRaised m e' \<Rightarrow>
                   (let msg = ''Transform error on record '' @ en_record_id e' @ '': '' @ m
                    in (to_dlq e' [msg] p,
                        r\<lparr>pr_records_failed := pr_records_failed r + 1, pr_errors := pr_errors r @ [msg]\<rparr>, rows))
               | Done e' \<Rightarrow> (record_lineage e' (pl_transforms p \<noteq> []) p, r, rows @ [en_data e'])))"

text \<open>Raw persistence; \<open>dumps\<close> is \<^verbatim>\<open>json.dumps(..., default=str)\<close> and \<open>None\<close> an exception, which is swallowed.\<close>

definition store_raw :: "(row \<Rightarrow> 'b option) \<Rightarrow> string \<Rightarrow> envelope \<Rightarrow> 'b pipeline \<Rightarrow> 'b pipeline" where
  "store_raw dumps date e p =
     (let rid = (case map_of (en_data e) ''id'' of None \<Rightarrow> en_record_id e | Some v \<Rightarrow> py_str v);
          key = make_raw_key date (pc_name (pl_config p)) rid
      in case dumps (en_data e) of
           None \<Rightarrow> p
         | Some b \<Rightarrow> p\<lparr>pl_raw_store := raw_put key b
             [(''label'', pc_name (pl_config p)), (''record_id'', en_record_id e)] (pl_raw_store p)\<rparr>)"

record ('b, 's) etl_env =
  ee_run :: "'s run_batch"
  ee_dumps :: "row \<Rightarrow> 'b option"
  ee_loads :: "'b \<Rightarrow> row option"
  ee_date :: string
  ee_started :: clock
  ee_completed :: clock
  ee_elapsed :: real

text \<open>The end of a run: duration, completion time, phases and pipeline status.\<close>

definition finish :: "('b, 's) etl_env \<Rightarrow> pipeline_phase list \<Rightarrow> pipeline_status \<Rightarrow> 'b pipeline \<Rightarrow> pipeline_result
    \<Rightarrow> pipeline_result \<times> 'b pipeline" where
  "finish env phases st p r =
     (r\<lparr>pr_duration_seconds := ee_elapsed env, pr_completed_at := Some (ee_completed env),
        pr_phases_completed := phases\<rparr>, p\<lparr>pl_status := st\<rparr>)"

definition load_phase :: "('b, 's) etl_env \<Rightarrow> pipeline_phase list \<Rightarrow> 'b pipeline \<times> pipeline_result \<times> row list \<Rightarrow> 's
    \<Rightarrow> (pipeline_result \<times> 'b pipeline) \<times> 's" where
  "load_phase env phases st s =
     (let (p, r, rows) = st; phases' = phases @ [VALIDATE, TRANSFORM] in
      case pl_loader p of
        Some l \<Rightarrow>
          if rows = [] then (finish env (phases' @ [LOAD_KG]) PL_COMPLETED p r, s)
          else (case loader_load (ee_run env) l rows s of
                  Inr (n, s') \<Rightarrow> (finish env (phases' @ [LOAD_KG]) PL_COMPLETED p (r\<lparr>pr_records_processed := n\<rparr>), s')
                | Inl (m, s') \<Rightarrow>
                    (finish env phases' PL_FAILED p
                       (r\<lparr>pr_errors := pr_errors r @ [''Loader error: '' @ m],
                          pr_records_failed := pr_records_failed r + int (length rows)\<rparr>), s'))
      | None \<Rightarrow>
          (finish env (phases' @ [LOAD_KG]) PL_COMPLETED p
             (if rows = [] then r else r\<lparr>pr_records_processed := int (length rows)\<rparr>), s))"

definition etl_run :: "('b, 's) etl_env \<Rightarrow> envelope list \<Rightarrow> 'b pipeline \<Rightarrow> 's
    \<Rightarrow> (pipeline_result \<times> 'b pipeline) \<times> 's" where
  "etl_run env records p s =
     (let r = pipeline_result_init\<lparr>pr_started_at := Some (ee_started env), pr_mode := pl_mode p,
                pr_total_input := int (length records)\<rparr>;
          p1 = p\<lparr>pl_status := PL_RUNNING\<rparr>;
          raw = pc_raw_store_enabled (pl_config p);
          p2 = (if raw then fold (store_raw (ee_dumps env) (ee_date env)) records p1 else p1);
          phases = EXTRACT # (if raw then [LOAD_RAW] else [])
      in if pc_transform_mode (pl_config p) = ''deferred''
         then (finish env phases PL_COMPLETED p2 (r\<lparr>pr_records_processed := int (length records)\<rparr>), s)
         else (let recs = (if pl_mode p = INCREMENTAL then detect_changes (pl_incremental p) records else records);
                   r1 = r\<lparr>pr_filtered_count := int (length records) - int (length recs)\<rparr>
               in load_phase env phases (fold process_record recs (p2, r1, [])) s))"

text \<open>\<^verbatim>\<open>s.replace(p, "")\<close> for a non-empty pattern; the counter skips the rest of a match.\<close>

fun py_remove :: "string \<Rightarrow> nat \<Rightarrow> string \<Rightarrow> string" where
  "py_remove p k [] = []"
| "py_remove p (Suc k) (c # cs) = py_remove p k cs"
| "py_remove p 0 (c # cs) =
     (if py_startswith (c # cs) p then py_remove p (length p - 1) cs else c # py_remove p 0 cs)"

definition parse_raw :: "('b, 's) etl_env \<Rightarrow> string \<Rightarrow> 'b raw_store \<Rightarrow> string \<Rightarrow> envelope list" where
  "parse_raw env source st key =
     (case raw_get key st of
        None \<Rightarrow> []
      | Some b \<Rightarrow>
          (case ee_loads env b of
             None \<Rightarrow> []
           | Some d \<Rightarrow>
               [\<lparr>en_data = d, en_source = source,
                 en_record_id = (case map_of d ''id'' of Some v \<Rightarrow> py_str v
                   | None \<Rightarrow> py_remove ''.json'' 0 (rev (takeWhile (\<lambda>c. c \<noteq> CHR ''/'') (rev key)))), en_errors = []\<rparr>]))"

definition reprocess :: "('b, 's) etl_env \<Rightarrow> string \<Rightarrow> string \<Rightarrow> 'b pipeline \<Rightarrow> 's
    \<Rightarrow> (pipeline_result \<times> 'b pipeline) \<times> 's" where
  "reprocess env source prefix p s =
     (let search = (if prefix \<noteq> [] then source @ ''/'' @ prefix else source);
          keys = raw_list_keys search (pl_raw_store p)
      in if keys = [] then ((pipeline_result_init\<lparr>pr_phases_completed := [LOAD_RAW]\<rparr>, p), s)
         else (let envs = concat (map (parse_raw env source (pl_raw_store p)) keys);
                   saved = pl_config p;
                   p1 = p\<lparr>pl_config := saved\<lparr>pc_transform_mode := ''eager'', pc_raw_store_enabled := False\<rparr>\<rparr>;
                   ((r, p2), s') = etl_run env envs p1 s
               in ((r, p2\<lparr>pl_config := saved\<rparr>), s')))"

section \<open>Loading\<close>

lemma load_batches_total:
  "0 < n \<Longrightarrow> load_batches run cypher n rs acc s = Inr (m, s') \<Longrightarrow> m = acc + int (length rs)"
proof (induction run cypher n rs acc s rule: load_batches.induct)
  case (1 run cypher n rs acc s)
  show ?case
  proof (cases "rs = []")
    case True
    with 1 show ?thesis by (simp add: load_batches.simps)
  next
    case False
    with 1 obtain s1 where s1: "run cypher (take n rs) s = Inr s1"
      "load_batches run cypher n (drop n rs) (acc + int (length (take n rs))) s1 = Inr (m, s')"
      by (auto simp: load_batches.simps [of run cypher n rs] split: sum.splits prod.splits)
    from "1.IH" [OF _ s1(1) "1.prems"(1) s1(2)] False "1.prems"(1) show ?thesis by simp
  qed
qed

text \<open>A session that only records its calls.\<close>

definition log_batch :: "row list list run_batch" where
  "log_batch cypher batch lg = Inr (lg @ [batch])"

fun chunks :: "nat \<Rightarrow> nat \<Rightarrow> 'a list \<Rightarrow> 'a list list" where
  "chunks 0 n rs = []"
| "chunks (Suc k) n rs = (if rs = [] then [] else take n rs # chunks k n (drop n rs))"

lemma chunks_spec:
  "0 < n \<Longrightarrow> length rs \<le> k \<Longrightarrow> concat (chunks k n rs) = rs
    \<and> (\<forall>b \<in> set (chunks k n rs). b \<noteq> [] \<and> length b \<le> n)
    \<and> (\<forall>b \<in> set (butlast (chunks k n rs)). length b = n)"
proof (induction k arbitrary: rs)
  case (Suc k)
  show ?case
  proof (cases "rs = []")
    case False
    have l: "length (drop n rs) \<le> k" using Suc.prems False by (cases rs) auto
    note ih = Suc.IH [OF Suc.prems(1) l]
    have full: "length (take n rs) = n" if "chunks k n (drop n rs) \<noteq> []"
    proof -
      have "drop n rs \<noteq> []" using that by (cases k) auto
      then show ?thesis by simp
    qed
    have c: "chunks (Suc k) n rs = take n rs # chunks k n (drop n rs)" using False by simp
    have "concat (chunks (Suc k) n rs) = rs"
      by (simp only: c concat.simps conjunct1 [OF ih] append_take_drop_id)
    moreover have "take n rs \<noteq> []" "length (take n rs) \<le> n" using False Suc.prems(1) by auto
    then have "\<forall>b \<in> set (chunks (Suc k) n rs). b \<noteq> [] \<and> length b \<le> n"
      using conjunct1 [OF conjunct2 [OF ih]] by (simp only: c list.set(2) ball_simps(5,7) simp_thms)
    moreover have "\<forall>b \<in> set (butlast (chunks (Suc k) n rs)). length b = n"
    proof (cases "chunks k n (drop n rs) = []")
      case True
      then show ?thesis unfolding c by simp
    next
      case ne: False
      then have "butlast (chunks (Suc k) n rs) = take n rs # butlast (chunks k n (drop n rs))" unfolding c by simp
      then show ?thesis using conjunct2 [OF conjunct2 [OF ih]] full [OF ne]
        by (simp only: list.set(2) ball_simps(5,7) simp_thms)
    qed
    ultimately show ?thesis by (intro conjI)
  qed simp
qed simp

lemma load_batches_log:
  "0 < n \<Longrightarrow> length rs \<le> k \<Longrightarrow>
    load_batches log_batch cypher n rs acc lg = Inr (acc + int (length rs), lg @ chunks k n rs)"
proof (induction k arbitrary: rs acc lg)
  case (Suc k)
  show ?case
  proof (cases "rs = []")
    case False
    have l: "length (drop n rs) \<le> k" using Suc.prems False by (cases rs) auto
    have "int (length (take n rs)) + int (length (drop n rs)) = int (length rs)"
      by (metis append_take_drop_id length_append of_nat_add)
    with Suc.IH [OF Suc.prems(1) l, of "acc + int (length (take n rs))" "lg @ [take n rs]"] False Suc.prems(1)
    show ?thesis
      by (subst load_batches.simps) (simp add: log_batch_def [abs_def] add.assoc)
  qed (simp add: load_batches.simps)
qed (simp add: load_batches.simps)

section \<open>Accounting\<close>

text \<open>What one pass over the records leaves: every record is skipped, failed or loadable, and the
  skipped and failed ones are in the queue when it is enabled.\<close>

definition counts_ok :: "'b pipeline \<Rightarrow> int \<Rightarrow> 'b pipeline \<times> pipeline_result \<times> row list \<Rightarrow> bool" where
  "counts_ok p0 n st \<longleftrightarrow> (case st of (p, r, rows) \<Rightarrow>
     pr_records_skipped r + pr_records_failed r + int (length rows) = n
     \<and> 0 \<le> pr_records_skipped r \<and> 0 \<le> pr_records_failed r \<and> pr_records_processed r = 0
     \<and> int (length (pl_dlq p)) = int (length (pl_dlq p0))
         + (if pc_dlq_enabled (pl_config p0) then pr_records_skipped r + pr_records_failed r else 0)
     \<and> pl_config p = pl_config p0 \<and> pl_loader p = pl_loader p0 \<and> pl_raw_store p = pl_raw_store p0)"

lemma record_lineage_frame [frame_simps]:
  "pl_dlq (record_lineage e b p) = pl_dlq p" "pl_config (record_lineage e b p) = pl_config p"
  "pl_loader (record_lineage e b p) = pl_loader p" "pl_raw_store (record_lineage e b p) = pl_raw_store p"
  by (auto simp: record_lineage_def Let_def split: option.splits)

lemma to_dlq_frame [frame_simps]:
  "pl_config (to_dlq e errs p) = pl_config p" "pl_loader (to_dlq e errs p) = pl_loader p"
  "pl_raw_store (to_dlq e errs p) = pl_raw_store p"
  "length (pl_dlq (to_dlq e errs p)) = length (pl_dlq p) + (if pc_dlq_enabled (pl_config p) then 1 else 0)"
  by (simp_all add: to_dlq_def dlq_add_def)

lemma process_record_counts: "counts_ok p0 n st \<Longrightarrow> counts_ok p0 (n + 1) (process_record e st)"
  by (auto simp: counts_ok_def process_record_def Let_def frame_simps
      split: prod.splits option.splits step_outcome.splits if_splits)

lemma process_records_counts: "counts_ok p0 n st \<Longrightarrow> counts_ok p0 (n + int (length rs)) (fold process_record rs st)"
proof (induction rs arbitrary: n st)
  case (Cons e rs)
  from Cons.IH [OF process_record_counts [OF Cons.prems, of e]] show ?case by (simp add: add.assoc)
qed simp

lemma store_raw_frame [frame_simps]:
  "pl_dlq (store_raw d t e p) = pl_dlq p" "pl_config (store_raw d t e p) = pl_config p"
  "pl_loader (store_raw d t e p) = pl_loader p"
  by (auto simp: store_raw_def Let_def split: option.splits)

lemma fold_store_raw_frame [frame_simps]:
  "pl_dlq (fold (store_raw d t) es p) = pl_dlq p" "pl_config (fold (store_raw d t) es p) = pl_config p"
  "pl_loader (fold (store_raw d t) es p) = pl_loader p"
  by (induction es arbitrary: p) (auto simp: frame_simps)

lemma detect_changes_length: "length (detect_changes inc rs) \<le> length rs"
  by (auto simp: detect_changes_def split: option.splits)

lemma loader_load_total:
  "0 < bl_batch_size l \<Longrightarrow> loader_load run l rs s = Inr (m, s') \<Longrightarrow> m = int (length rs)"
  using load_batches_total [of "nat (bl_batch_size l)" run "build_merge_cypher l" rs 0 s m s']
  by (auto simp: loader_load_def split: if_splits)

definition tally :: "pipeline_result \<Rightarrow> int" where
  "tally r = pr_records_processed r + pr_records_failed r + pr_records_skipped r + pr_filtered_count r"

lemma process_record_static:
  "pr_filtered_count (fst (snd (process_record e st))) = pr_filtered_count (fst (snd st))"
  "pr_total_input (fst (snd (process_record e st))) = pr_total_input (fst (snd st))"
  by (auto simp: process_record_def Let_def split: prod.splits option.splits step_outcome.splits)

lemma process_records_static:
  "pr_filtered_count (fst (snd (fold process_record rs st))) = pr_filtered_count (fst (snd st))"
  "pr_total_input (fst (snd (fold process_record rs st))) = pr_total_input (fst (snd st))"
  by (induction rs arbitrary: st) (auto simp: process_record_static)

lemma load_phase_cases:
  assumes "pr_records_processed r = 0" and "\<And>l. pl_loader p = Some l \<Longrightarrow> 0 < bl_batch_size l"
  obtains ph s1 where "load_phase env phases (p, r, rows) s =
      (finish env ph PL_COMPLETED p (r\<lparr>pr_records_processed := int (length rows)\<rparr>), s1)"
  | ph m s1 where "load_phase env phases (p, r, rows) s =
      (finish env ph PL_FAILED p (r\<lparr>pr_errors := pr_errors r @ [m],
         pr_records_failed := pr_records_failed r + int (length rows)\<rparr>), s1)"
proof -
  have z: "r\<lparr>pr_records_processed := 0\<rparr> = r" using assms(1) by simp
  show ?thesis
  proof (cases "rows = [] \<or> pl_loader p = None")
    case True
    then have "load_phase env phases (p, r, rows) s = (finish env (phases @ [VALIDATE, TRANSFORM] @ [LOAD_KG])
        PL_COMPLETED p (r\<lparr>pr_records_processed := int (length rows)\<rparr>), s)"
      by (auto simp: load_phase_def Let_def z split: option.splits)
    then show ?thesis by (rule that(1))
  next
    case False
    then obtain l where l: "pl_loader p = Some l" by auto
    show ?thesis
    proof (cases "loader_load (ee_run env) l rows s")
      case (Inl x)
      with False l that(2) show ?thesis by (cases x) (auto simp: load_phase_def Let_def)
    next
      case (Inr x)
      obtain m s1 where x: "x = (m, s1)" by fastforce
      have "m = int (length rows)" using loader_load_total [OF assms(2) [OF l], of "ee_run env" rows s m s1] Inr x by simp
      with False l that(1) Inr x show ?thesis by (auto simp: load_phase_def Let_def)
    qed
  qed
qed

lemma load_phase_tally:
  assumes "counts_ok p0 n st" and "load_phase env phases st s = ((r', p'), s')"
    and "\<And>l. pl_loader p0 = Some l \<Longrightarrow> 0 < bl_batch_size l"
  shows "tally r' = n + pr_filtered_count (fst (snd st)) \<and> pr_total_input r' = pr_total_input (fst (snd st))
    \<and> pl_config p' = pl_config p0 \<and> 0 \<le> pr_records_processed r' \<and> 0 \<le> pr_records_failed r' \<and> 0 \<le> pr_records_skipped r'
    \<and> (pl_status p' = PL_COMPLETED \<longrightarrow> pc_dlq_enabled (pl_config p0) \<longrightarrow>
         int (length (pl_dlq p')) = int (length (pl_dlq p0)) + pr_records_failed r' + pr_records_skipped r')"
proof -
  obtain p r rows where st: "st = (p, r, rows)" by (cases st) auto
  have z: "pr_records_processed r = 0" and lo: "pl_loader p = pl_loader p0"
    using assms(1) by (simp_all add: counts_ok_def st)
  have b: "0 < bl_batch_size l" if "pl_loader p = Some l" for l using that assms(3) lo by simp
  show ?thesis
    by (rule load_phase_cases [where r = r and p = p and env = env and phases = phases and rows = rows and s = s, OF z b])
      (use assms(1,2) in \<open>auto simp: st finish_def tally_def counts_ok_def\<close>)
qed

lemma etl_run_tally:
  assumes "etl_run env records p s = ((r', p'), s')"
    and "\<And>l. pl_loader p = Some l \<Longrightarrow> 0 < bl_batch_size l"
  shows "tally r' = pr_total_input r' \<and> pr_total_input r' = int (length records) \<and> pl_config p' = pl_config p
    \<and> 0 \<le> pr_records_processed r' \<and> 0 \<le> pr_records_failed r' \<and> 0 \<le> pr_records_skipped r'
    \<and> (pl_status p' = PL_COMPLETED \<longrightarrow> pc_dlq_enabled (pl_config p) \<longrightarrow>
         int (length (pl_dlq p')) = int (length (pl_dlq p)) + pr_records_failed r' + pr_records_skipped r')"
proof -
  let ?p2 = "if pc_raw_store_enabled (pl_config p)
    then fold (store_raw (ee_dumps env) (ee_date env)) records (p\<lparr>pl_status := PL_RUNNING\<rparr>) else p\<lparr>pl_status := PL_RUNNING\<rparr>"
  let ?recs = "if pl_mode p = INCREMENTAL then detect_changes (pl_incremental p) records else records"
  let ?r = "pipeline_result_init\<lparr>pr_started_at := Some (ee_started env), pr_mode := pl_mode p,
      pr_total_input := int (length records), pr_filtered_count := int (length records) - int (length ?recs)\<rparr>"
  let ?st = "fold process_record ?recs (?p2, ?r, [])"
  have f: "pl_config ?p2 = pl_config p" "pl_dlq ?p2 = pl_dlq p" "pl_loader ?p2 = pl_loader p"
    by (simp_all add: frame_simps)
  show ?thesis
  proof (cases "pc_transform_mode (pl_config p) = ''deferred''")
    case True
    then show ?thesis using assms(1) f
      by (auto simp: etl_run_def Let_def finish_def tally_def pipeline_result_init_def)
  next
    case False
    have "counts_ok ?p2 0 (?p2, ?r, [])" by (simp add: counts_ok_def pipeline_result_init_def)
    from process_records_counts [OF this, of ?recs] have c: "counts_ok ?p2 (int (length ?recs)) ?st" by simp
    have run: "load_phase env (EXTRACT # (if pc_raw_store_enabled (pl_config p) then [LOAD_RAW] else [])) ?st s
        = ((r', p'), s')" using assms(1) False by (simp add: etl_run_def Let_def)
    have b: "0 < bl_batch_size l" if "pl_loader ?p2 = Some l" for l using that assms(2) f(3) by simp
    from load_phase_tally [OF c run b] show ?thesis
      unfolding process_records_static f by (simp add: pipeline_result_init_def)
  qed
qed

section \<open>Normalisers\<close>

text \<open>Text without leading, trailing or repeated white space, and no white space but the blank.\<close>

fun tidy :: "bool \<Rightarrow> string \<Rightarrow> bool" where
  "tidy prev [] = True"
| "tidy prev (c # cs) \<longleftrightarrow> (py_isspace c \<longrightarrow> c = CHR '' '' \<and> \<not> prev) \<and> tidy (py_isspace c) cs"

lemma isspace_blank [simp]: "py_isspace CHR '' ''"
  by (simp add: py_isspace_def)

lemma tidy_collapse: "tidy prev (collapse_ws prev s)"
  by (induction prev s rule: collapse_ws.induct) (auto)

lemma collapse_tidy: "tidy prev s \<Longrightarrow> collapse_ws prev s = s"
  by (induction prev s rule: tidy.induct) auto

lemma tidy_mono: "tidy True s \<Longrightarrow> tidy prev s"
  by (cases s) auto

lemma tidy_dropWhile: "tidy prev s \<Longrightarrow> tidy False (dropWhile py_isspace s)"
  by (induction prev s rule: tidy.induct) auto

lemma tidy_append: "tidy prev (xs @ ys) \<Longrightarrow> tidy prev xs"
  by (induction prev xs rule: tidy.induct) auto

definition drop_end :: "string \<Rightarrow> string" where
  "drop_end s = rev (dropWhile py_isspace (rev s))"

lemma drop_end_append: "\<exists>ys. s = drop_end s @ ys"
proof -
  have "rev s = takeWhile py_isspace (rev s) @ dropWhile py_isspace (rev s)" by simp
  then have "s = rev (dropWhile py_isspace (rev s)) @ rev (takeWhile py_isspace (rev s))"
    by (metis rev_append rev_rev_ident)
  then show ?thesis unfolding drop_end_def by blast
qed

lemma py_strip_alt: "py_strip s = drop_end (dropWhile py_isspace s)"
  by (simp add: py_strip_def drop_end_def)

lemma tidy_strip: "tidy prev s \<Longrightarrow> tidy False (py_strip s)"
  unfolding py_strip_alt
  using tidy_dropWhile [of prev s] drop_end_append [of "dropWhile py_isspace s"] tidy_append
  by metis

definition stripped :: "string \<Rightarrow> bool" where
  "stripped s \<longleftrightarrow> (s \<noteq> [] \<longrightarrow> \<not> py_isspace (hd s) \<and> \<not> py_isspace (last s))"

lemma strip_stripped: "stripped s \<Longrightarrow> py_strip s = s"
proof (cases "s = []")
  case False
  assume "stripped s"
  with False have "\<not> py_isspace (hd s)" "\<not> py_isspace (hd (rev s))" by (auto simp: stripped_def hd_rev)
  with False have "dropWhile py_isspace s = s" "dropWhile py_isspace (rev s) = rev s"
    by (metis dropWhile_eq_self_iff, metis dropWhile_eq_self_iff)
  then show ?thesis by (simp add: py_strip_def)
qed (simp add: py_strip_def)

lemma stripped_strip: "stripped (py_strip s)"
proof -
  let ?t = "dropWhile py_isspace s"
  let ?u = "drop_end ?t"
  have "\<not> py_isspace (last ?u)" if "?u \<noteq> []"
    using that hd_dropWhile [of py_isspace "rev ?t"] by (simp add: drop_end_def last_rev)
  moreover have "\<not> py_isspace (hd ?u)" if u: "?u \<noteq> []"
  proof -
    from drop_end_append [of ?t] obtain ys where t: "?t = ?u @ ys" by blast
    with u have "hd ?u = hd ?t" "?t \<noteq> []" by (metis hd_append2, metis append_is_Nil_conv)
    with hd_dropWhile [of py_isspace s] show ?thesis by simp
  qed
  ultimately show ?thesis by (simp add: stripped_def py_strip_alt)
qed

lemma normalize_text_idem: "normalize_text (normalize_text s) = normalize_text s"
proof -
  have "tidy False (normalize_text s)" unfolding normalize_text_def by (rule tidy_strip [OF tidy_collapse])
  then have "normalize_text (normalize_text s) = py_strip (normalize_text s)"
    by (simp add: normalize_text_def [of "normalize_text s"] collapse_tidy)
  also have "\<dots> = normalize_text s" unfolding normalize_text_def by (intro strip_stripped stripped_strip)
  finally show ?thesis .
qed

lemma normalize_identifier_idem:
  assumes "prefix = [] \<or> \<not> py_isspace (hd prefix)"
  shows "normalize_identifier prefix (normalize_identifier prefix s) = normalize_identifier prefix s
    \<and> py_startswith (normalize_identifier prefix s) prefix"
proof (cases "py_startswith (py_strip s) prefix")
  case True
  then show ?thesis by (simp add: normalize_identifier_def Let_def strip_stripped stripped_strip)
next
  case False
  let ?v = "prefix @ ''-'' @ py_strip s"
  have ne: "prefix \<noteq> []" using False by (auto simp: py_startswith_def)
  have "last ?v = (if py_strip s = [] then CHR ''-'' else last (py_strip s))" by simp
  then have "stripped ?v" using stripped_strip [of s] assms ne
    by (auto simp: stripped_def py_isspace_def)
  then show ?thesis using False
    by (simp add: normalize_identifier_def Let_def strip_stripped py_startswith_def)
qed

section \<open>Properties\<close>


definition sample_records :: "envelope list" where
  "sample_records = [\<lparr>en_data = [(''id'', PStr ''1''), (''name'', PStr '' A  b '')], en_source = ''x'', en_record_id = ''1'', en_errors = []\<rparr>,
     \<lparr>en_data = [(''name'', PNone)], en_source = ''x'', en_record_id = ''2'', en_errors = []\<rparr>]"

definition sample_pipeline :: "row pipeline" where
  "sample_pipeline = set_validator [RequiredFieldsRule [''name'']] (add_transform (TextNormalizer [''name''])
     (set_loader \<lparr>bl_label = ''V'', bl_id_field = ''id'', bl_batch_size = 500, bl_project = None\<rparr>
       (pipeline_init \<lparr>pc_name = ''v'', pc_batch_size = 500, pc_max_retries = 3, pc_retry_delay = 1,
          pc_dlq_enabled = True, pc_validate = True, pc_transform_mode = ''eager'', pc_raw_store_enabled = False\<rparr>
          FULL None None)))"

definition sample_etl_env :: "(row, row list list) etl_env" where
  "sample_etl_env = \<lparr>ee_run = log_batch, ee_dumps = Some, ee_loads = Some, ee_date = ''2026-01-01'',
     ee_started = 0, ee_completed = 1, ee_elapsed = 1\<rparr>"


text \<open>Batching: with a positive batch size the loader sends the records to the session in order, in
  non-empty batches of at most the batch size, all but the last of exactly that size, and returns
  the number of records.\<close>

theorem loader_batches:
  assumes "0 < bl_batch_size l"
  shows "\<exists>bs. loader_load log_batch l rs lg = Inr (int (length rs), lg @ bs) \<and> concat bs = rs
    \<and> (\<forall>b \<in> set bs. b \<noteq> [] \<and> int (length b) \<le> bl_batch_size l)
    \<and> (\<forall>b \<in> set (butlast bs). int (length b) = bl_batch_size l)"
proof -
  let ?n = "nat (bl_batch_size l)" and ?bs = "chunks (length rs) (nat (bl_batch_size l)) rs"
  have n: "0 < ?n" using assms by simp
  have "loader_load log_batch l rs lg = Inr (int (length rs), lg @ ?bs)"
    using assms load_batches_log [OF n order_refl, where rs = rs and acc = 0 and lg = lg] by (cases rs) (auto simp: loader_load_def)
  moreover have "concat ?bs = rs" "\<forall>b \<in> set ?bs. b \<noteq> [] \<and> int (length b) \<le> bl_batch_size l"
    "\<forall>b \<in> set (butlast ?bs). int (length b) = bl_batch_size l"
    using chunks_spec [OF n order_refl, of rs] assms by (auto simp: le_nat_iff nat_le_iff)
  ultimately show ?thesis by blast
qed

theorem loader_batches_witness:
  "\<exists>bs. loader_load log_batch \<lparr>bl_label = ''V'', bl_id_field = ''id'', bl_batch_size = 2, bl_project = None\<rparr>
      [[], [], []] [] = Inr (3, bs) \<and> concat bs = [[], [], []]"
  using loader_batches [of "\<lparr>bl_label = ''V'', bl_id_field = ''id'', bl_batch_size = 2, bl_project = None\<rparr>" "[[], [], []]" "[]"]
  by auto

text \<open>The normalisers are idempotent: normalising text twice is normalising it once, and, for a prefix
  that does not begin with white space, a normalised identifier carries the prefix and is not
  changed again.\<close>

theorem normalisers_idempotent:
  assumes "prefix = [] \<or> \<not> py_isspace (hd prefix)"
  shows "normalize_text (normalize_text s) = normalize_text s
    \<and> normalize_identifier prefix (normalize_identifier prefix s) = normalize_identifier prefix s
    \<and> py_startswith (normalize_identifier prefix s) prefix"
  using normalize_text_idem normalize_identifier_idem [OF assms] by blast

theorem normalisers_idempotent_witness:
  "normalize_identifier ''KR'' (normalize_identifier ''KR'' '' 12 '') = normalize_identifier ''KR'' '' 12 ''"
  using normalisers_idempotent [of "''KR''" "'' 12 ''"] by (simp add: py_isspace_def)

end
