(* ===== verification/Fuzzy_Matcher.thy ===== *)
theory Fuzzy_Matcher
  imports Prelude
begin

text \<open>
  \<^verbatim>\<open>core/kg/entity_resolution/fuzzy_matcher.py\<close> and \<^verbatim>\<open>models.py\<close>: Levenshtein similarity with the rolling
  rows of the code, Jaro and Jaro-Winkler similarity, character n-gram vectors with cosine
  similarity, and the three matchers.  The name normaliser \<open>nrm\<close> (lower-casing and a pattern of Korean
  and English company suffixes) and the ratio of \<^verbatim>\<open>difflib.SequenceMatcher\<close> (\<open>ratio\<close>) are arguments of
  the definitions that call them.
\<close>

section \<open>Models\<close>

datatype match_method = EXACT | FUZZY | EMBEDDING | LLM | HYBRID

record er_candidate =
  ec_entity_a :: string
  ec_entity_b :: string
  ec_similarity :: real
  ec_method :: match_method

section \<open>Levenshtein distance\<close>

definition lev_cell :: "char \<Rightarrow> string \<Rightarrow> nat list \<Rightarrow> nat \<Rightarrow> nat list \<Rightarrow> nat list" where
  "lev_cell c nb prev j cur =
     cur[j := (if c = nb ! (j - 1) then prev ! (j - 1)
                else 1 + min (prev ! j) (min (cur ! (j - 1)) (prev ! (j - 1))))]"

definition lev_row :: "nat \<Rightarrow> char \<Rightarrow> string \<Rightarrow> nat list \<Rightarrow> nat list \<Rightarrow> nat list" where
  "lev_row i c nb prev cur = fold (lev_cell c nb prev) [1..<Suc (length nb)] (cur[0 := i])"

definition lev_step :: "string \<Rightarrow> string \<Rightarrow> nat \<Rightarrow> nat list \<times> nat list \<Rightarrow> nat list \<times> nat list" where
  "lev_step na nb i st = (let (prev, cur) = st in (lev_row i (na ! (i - 1)) nb prev cur, prev))"

definition lev_table :: "string \<Rightarrow> string \<Rightarrow> nat" where
  "lev_table na nb =
     (let (prev, cur) = fold (lev_step na nb) [1..<Suc (length na)]
            ([0..<Suc (length nb)], replicate (Suc (length nb)) 0)
      in prev ! length nb)"

text \<open>The shorter string indexes the rows.\<close>

definition edit_distance :: "string \<Rightarrow> string \<Rightarrow> nat" where
  "edit_distance na nb = (if length na < length nb then lev_table nb na else lev_table na nb)"

definition levenshtein_similarity :: "(string \<Rightarrow> string) \<Rightarrow> string \<Rightarrow> string \<Rightarrow> real" where
  "levenshtein_similarity nrm a b =
     (let na = nrm a; nb = nrm b in
      if na = nb then 1
      else if na = [] \<or> nb = [] then 0
      else 1 - real (edit_distance na nb) / real (max (length na) (length nb)))"

section \<open>Jaro-Winkler\<close>

text \<open>The inner loop: the first free position in the window whose character matches.\<close>

fun find_match :: "char \<Rightarrow> string \<Rightarrow> bool list \<Rightarrow> nat list \<Rightarrow> nat option" where
  "find_match c s2 m2 [] = None"
| "find_match c s2 m2 (j # js) = (if m2 ! j \<or> c \<noteq> s2 ! j then find_match c s2 m2 js else Some j)"

definition jaro_window :: "nat \<Rightarrow> nat \<Rightarrow> nat \<Rightarrow> nat list" where
  "jaro_window len1 len2 i =
     (let d = max len1 len2 div 2 - 1 in [i - d ..< min (i + d + 1) len2])"

definition jaro_step :: "string \<Rightarrow> string \<Rightarrow> nat \<Rightarrow> bool list \<times> bool list \<times> nat \<Rightarrow> bool list \<times> bool list \<times> nat" where
  "jaro_step s1 s2 i st =
     (let (m1, m2, matches) = st in
      case find_match (s1 ! i) s2 m2 (jaro_window (length s1) (length s2) i) of
        None \<Rightarrow> (m1, m2, matches)
      | Some j \<Rightarrow> (m1[i := True], m2[j := True], matches + 1))"

definition jaro_matches :: "string \<Rightarrow> string \<Rightarrow> bool list \<times> bool list \<times> nat" where
  "jaro_matches s1 s2 =
     fold (jaro_step s1 s2) [0..<length s1] (replicate (length s1) False, replicate (length s2) False, 0)"

text \<open>\<^verbatim>\<open>while not s2_matches[k]: k += 1\<close>; running off the end raises IndexError.\<close>

definition skip_unmatched :: "bool list \<Rightarrow> nat \<Rightarrow> nat option" where
  "skip_unmatched m2 k = List.find (\<lambda>j. m2 ! j) [k..<length m2]"

fun count_transpositions :: "string \<Rightarrow> string \<Rightarrow> bool list \<Rightarrow> bool list \<Rightarrow> nat list \<Rightarrow> nat \<Rightarrow> nat \<Rightarrow> nat option" where
  "count_transpositions s1 s2 m1 m2 [] k n = Some n"
| "count_transpositions s1 s2 m1 m2 (i # is) k n =
     (if \<not> m1 ! i then count_transpositions s1 s2 m1 m2 is k n
      else (case skip_unmatched m2 k of
              None \<Rightarrow> None
            | Some k' \<Rightarrow> count_transpositions s1 s2 m1 m2 is (k' + 1) (if s1 ! i \<noteq> s2 ! k' then n + 1 else n)))"

definition jaro_similarity :: "string \<Rightarrow> string \<Rightarrow> real option" where
  "jaro_similarity s1 s2 =
     (if s1 = [] \<and> s2 = [] then Some 1
      else if s1 = [] \<or> s2 = [] then Some 0
      else (let (m1, m2, matches) = jaro_matches s1 s2 in
            if matches = 0 then Some 0
            else (case count_transpositions s1 s2 m1 m2 [0..<length s1] 0 0 of
                    None \<Rightarrow> None
                  | Some t \<Rightarrow>
                      Some ((real matches / real (length s1) + real matches / real (length s2)
                             + (real matches - real t / 2) / real matches) / 3))))"

fun common_prefix :: "nat \<Rightarrow> string \<Rightarrow> string \<Rightarrow> nat" where
  "common_prefix (Suc n) (x # xs) (y # ys) = (if x = y then Suc (common_prefix n xs ys) else 0)"
| "common_prefix _ _ _ = 0"

definition jaro_winkler :: "string \<Rightarrow> string \<Rightarrow> real \<Rightarrow> real option" where
  "jaro_winkler s1 s2 w =
     (case jaro_similarity s1 s2 of
        None \<Rightarrow> None
      | Some jaro \<Rightarrow> Some (jaro + real (common_prefix 4 s1 s2) * w * (1 - jaro)))"

definition fuzzy_similarity :: "(string \<Rightarrow> string) \<Rightarrow> (string \<Rightarrow> string \<Rightarrow> real) \<Rightarrow> string \<Rightarrow> string \<Rightarrow> real option" where
  "fuzzy_similarity nrm ratio a b =
     (let na = nrm a; nb = nrm b in
      if na = nb then Some 1
      else (case jaro_winkler na nb (1 / 10) of
              None \<Rightarrow> None
            | Some jw \<Rightarrow> Some (max (ratio na nb) jw)))"

section \<open>Character n-grams\<close>

definition char_ngram_vector :: "nat \<Rightarrow> string \<Rightarrow> (string, int) dict" where
  "char_ngram_vector n s =
     (if s = [] then []
      else fold (\<lambda>i d. let g = take n (drop i s) in AList.update g (dict_get_or d g 0 + 1) d)
             [0..<length s + 1 - n] [])"

definition cosine_similarity :: "(string, int) dict \<Rightarrow> (string, int) dict \<Rightarrow> real" where
  "cosine_similarity va vb =
     (if va = [] \<or> vb = [] then 0
      else (let dot = sum_list (map (\<lambda>(g, v). case map_of vb g of None \<Rightarrow> 0 | Some w \<Rightarrow> real_of_int (v * w)) va);
                mag_a = sqrt (real_of_int (sum_list (map (\<lambda>(g, v). v * v) va)));
                mag_b = sqrt (real_of_int (sum_list (map (\<lambda>(g, v). v * v) vb)))
            in if mag_a = 0 \<or> mag_b = 0 then 0 else dot / (mag_a * mag_b)))"

definition embedding_similarity :: "(string \<Rightarrow> string) \<Rightarrow> nat \<Rightarrow> string \<Rightarrow> string \<Rightarrow> real" where
  "embedding_similarity nrm n a b =
     (let na = nrm a; nb = nrm b in
      if na = nb then 1 else cosine_similarity (char_ngram_vector n na) (char_ngram_vector n nb))"

section \<open>Hybrid matcher\<close>

record hybrid_matcher =
  hm_levenshtein_weight :: real
  hm_cosine_weight :: real
  hm_default_threshold :: real
  hm_ngram_size :: nat

datatype matcher_error = WeightsMustSumToOne

definition hybrid_init :: "real \<Rightarrow> real \<Rightarrow> real \<Rightarrow> nat \<Rightarrow> (matcher_error, hybrid_matcher) res" where
  "hybrid_init lw cw th n =
     (if \<bar>lw + cw - 1\<bar> > 1 / 1000000 then Inl WeightsMustSumToOne
      else Inr \<lparr>hm_levenshtein_weight = lw, hm_cosine_weight = cw, hm_default_threshold = th, hm_ngram_size = n\<rparr>)"

definition hybrid_similarity :: "(string \<Rightarrow> string) \<Rightarrow> hybrid_matcher \<Rightarrow> string \<Rightarrow> string \<Rightarrow> real" where
  "hybrid_similarity nrm h a b =
     hm_levenshtein_weight h * levenshtein_similarity nrm a b
     + hm_cosine_weight h * embedding_similarity nrm (hm_ngram_size h) a b"

text \<open>
  \<open>find_matches\<close>: candidates at or above the threshold, sorted by descending similarity with ties in
  the order of the candidates.  \<open>FuzzyMatcher\<close> and \<open>EmbeddingMatcher\<close> differ in the score and in the
  method they report; \<open>HybridMatcher\<close> accepts equal normal forms without looking at the threshold.
\<close>

definition sort_desc :: "er_candidate list \<Rightarrow> er_candidate list" where
  "sort_desc cs = sort_key (\<lambda>c. - ec_similarity c) cs"

definition find_matches :: "(string \<Rightarrow> string) \<Rightarrow> (string \<Rightarrow> string \<Rightarrow> real) \<Rightarrow> match_method \<Rightarrow> real \<Rightarrow> string
    \<Rightarrow> string list \<Rightarrow> real option \<Rightarrow> er_candidate list" where
  "find_matches nrm score meth dflt entity candidates threshold =
     (let th = (case threshold of None \<Rightarrow> dflt | Some t \<Rightarrow> t) in
      sort_desc (concat (map (\<lambda>c.
        let s = score entity c in
        if s \<ge> th
        then [\<lparr>ec_entity_a = entity, ec_entity_b = c, ec_similarity = s,
               ec_method = (if nrm entity = nrm c then EXACT else meth)\<rparr>]
        else []) candidates)))"

definition hybrid_find_matches :: "(string \<Rightarrow> string) \<Rightarrow> hybrid_matcher \<Rightarrow> string \<Rightarrow> string list \<Rightarrow> real option
    \<Rightarrow> er_candidate list" where
  "hybrid_find_matches nrm h entity candidates threshold =
     (let th = (case threshold of None \<Rightarrow> hm_default_threshold h | Some t \<Rightarrow> t) in
      sort_desc (concat (map (\<lambda>c.
        if nrm entity = nrm c
        then [\<lparr>ec_entity_a = entity, ec_entity_b = c, ec_similarity = 1, ec_method = EXACT\<rparr>]
        else (let s = hybrid_similarity nrm h entity c in
              if s \<ge> th
              then [\<lparr>ec_entity_a = entity, ec_entity_b = c, ec_similarity = s, ec_method = HYBRID\<rparr>]
              else [])) candidates)))"

section \<open>Edit scripts\<close>

text \<open>\<open>script n xs ys\<close>: \<open>n\<close> insertions, deletions and substitutions turn \<open>xs\<close> into \<open>ys\<close>.\<close>

inductive script :: "nat \<Rightarrow> 'a list \<Rightarrow> 'a list \<Rightarrow> bool" where
  Nil: "script 0 [] []"
| Keep: "script n xs ys \<Longrightarrow> script n (x # xs) (x # ys)"
| Subst: "script n xs ys \<Longrightarrow> script (Suc n) (x # xs) (y # ys)"
| Delete: "script n xs ys \<Longrightarrow> script (Suc n) (x # xs) ys"
| Insert: "script n xs ys \<Longrightarrow> script (Suc n) xs (y # ys)"

fun ed :: "'a list \<Rightarrow> 'a list \<Rightarrow> nat" where
  "ed [] ys = length ys"
| "ed (x # xs) [] = Suc (length xs)"
| "ed (x # xs) (y # ys) =
     (if x = y then ed xs ys else 1 + min (ed xs (y # ys)) (min (ed (x # xs) ys) (ed xs ys)))"

lemma ed_Nil2 [simp]: "ed xs [] = length xs"
  by (cases xs) auto

lemma script_ed: "script (ed xs ys) xs ys"
proof (induction xs ys rule: ed.induct)
  case (1 ys)
  show ?case by (induction ys) (auto intro: script.intros)
next
  case (2 x xs)
  have "script (length xs) xs []" by (induction xs) (auto intro: script.intros)
  then show ?case by (auto intro: script.intros)
next
  case (3 x xs y ys)
  then show ?case by (auto simp: min_def intro: script.intros)
qed

lemma ed_bounds:
  "ed (x # xs) ys \<le> Suc (ed xs ys) \<and> ed xs ys \<le> Suc (ed xs (y # ys))"
proof (induction "length xs + length ys" arbitrary: x y xs ys rule: less_induct)
  case less
  have A: "ed (x # xs) ys \<le> Suc (ed xs ys)"
  proof (cases ys)
    case (Cons z zs)
    have "ed xs zs \<le> Suc (ed xs (z # zs))" using less [of xs zs x z] Cons by simp
    then show ?thesis by (auto simp: Cons)
  qed simp
  have B: "ed xs ys \<le> Suc (ed xs (y # ys))"
  proof (cases xs)
    case (Cons z zs)
    have "ed (z # zs) ys \<le> Suc (ed zs ys)" "ed zs ys \<le> Suc (ed zs (y # ys))"
      using less [of zs ys z y] Cons by simp_all
    then show ?thesis by (auto simp: Cons min_def)
  qed simp
  from A B show ?case by blast
qed

lemma ed_sym: "ed xs ys = ed ys xs"
  by (induction xs ys rule: ed.induct) (auto simp: min.commute min.left_commute)

lemma ed_minimal: "script n xs ys \<Longrightarrow> ed xs ys \<le> n"
proof (induction rule: script.induct)
  case (Subst n xs ys x y)
  then show ?case by (auto simp: min_def)
next
  case (Delete n xs ys x)
  then show ?case using ed_bounds [of x xs ys] by fastforce
next
  case (Insert n xs ys y)
  then show ?case using ed_bounds [of y ys xs] by (fastforce simp: ed_sym [of xs])
qed simp_all

lemma script_snoc:
  "script n xs ys \<Longrightarrow> script n (xs @ [z]) (ys @ [z]) \<and> script (Suc n) (xs @ [x]) (ys @ [y])
    \<and> script (Suc n) (xs @ [x]) ys \<and> script (Suc n) xs (ys @ [y])"
  by (induction arbitrary: rule: script.induct) (auto intro: script.intros)

lemma script_rev: "script n xs ys \<Longrightarrow> script n (rev xs) (rev ys)"
  by (induction rule: script.induct) (auto simp: script_snoc intro: script.Nil)

lemma ed_rev: "ed (rev xs) (rev ys) = ed xs ys"
  by (rule antisym) (metis ed_minimal script_ed script_rev rev_rev_ident)+

section \<open>The table computes the distance\<close>

definition lev_D :: "string \<Rightarrow> string \<Rightarrow> nat \<Rightarrow> nat \<Rightarrow> nat" where
  "lev_D na nb i j = ed (rev (take i na)) (rev (take j nb))"

lemma lev_D_0: "j \<le> length nb \<Longrightarrow> lev_D na nb 0 j = j" "i \<le> length na \<Longrightarrow> lev_D na nb i 0 = i"
  by (simp_all add: lev_D_def)

lemma lev_D_Suc:
  "i < length na \<Longrightarrow> j < length nb \<Longrightarrow> lev_D na nb (Suc i) (Suc j) =
     (if na ! i = nb ! j then lev_D na nb i j
      else 1 + min (lev_D na nb i (Suc j)) (min (lev_D na nb (Suc i) j) (lev_D na nb i j)))"
  by (simp add: lev_D_def take_Suc_conv_app_nth)

lemma length_lev_cell [simp]: "length (lev_cell c nb prev j cur) = length cur"
  by (simp add: lev_cell_def)

lemma lev_row_correct:
  assumes "i < length na" and "length prev = Suc (length nb)" and "length cur = Suc (length nb)"
    and prev: "\<forall>j \<le> length nb. prev ! j = lev_D na nb i j"
  shows "length (lev_row (Suc i) (na ! i) nb prev cur) = Suc (length nb)
    \<and> (\<forall>j \<le> length nb. lev_row (Suc i) (na ! i) nb prev cur ! j = lev_D na nb (Suc i) j)"
proof -
  have "m \<le> length nb \<Longrightarrow> (let r = fold (lev_cell (na ! i) nb prev) [1..<Suc m] (cur[0 := Suc i])
      in length r = Suc (length nb) \<and> (\<forall>j \<le> m. r ! j = lev_D na nb (Suc i) j))" for m
  proof (induction m)
    case 0
    then show ?case using assms by (simp add: lev_D_0)
  next
    case (Suc m)
    let ?r = "fold (lev_cell (na ! i) nb prev) [1..<Suc m] (cur[0 := Suc i])"
    from Suc have l: "length ?r = Suc (length nb)" and r: "\<forall>j \<le> m. ?r ! j = lev_D na nb (Suc i) j"
      by (simp_all add: Let_def)
    have f: "fold (lev_cell (na ! i) nb prev) [1..<Suc (Suc m)] (cur[0 := Suc i])
        = lev_cell (na ! i) nb prev (Suc m) ?r" by simp
    have "lev_cell (na ! i) nb prev (Suc m) ?r ! Suc m = lev_D na nb (Suc i) (Suc m)"
      using Suc.prems l r prev assms(1) by (simp add: lev_cell_def lev_D_Suc)
    moreover have "lev_cell (na ! i) nb prev (Suc m) ?r ! j = ?r ! j" if "j \<le> m" for j
      using that by (simp add: lev_cell_def)
    ultimately show ?case unfolding f Let_def using l r by (auto simp: le_Suc_eq)
  qed
  from this [of "length nb"] show ?thesis by (simp add: lev_row_def Let_def)
qed

lemma lev_rows_correct:
  "i \<le> length na \<Longrightarrow>
    (case fold (lev_step na nb) [1..<Suc i] ([0..<Suc (length nb)], replicate (Suc (length nb)) 0) of
       (prev, cur) \<Rightarrow> length prev = Suc (length nb) \<and> length cur = Suc (length nb)
         \<and> (\<forall>j \<le> length nb. prev ! j = lev_D na nb i j))"
proof (induction i)
  case 0
  then show ?case by (simp add: lev_D_0 del: upt_Suc)
next
  case (Suc i)
  obtain prev cur where st: "fold (lev_step na nb) [1..<Suc i] ([0..<Suc (length nb)], replicate (Suc (length nb)) 0) = (prev, cur)"
    by fastforce
  with Suc have p: "length prev = Suc (length nb)" "length cur = Suc (length nb)"
    "\<forall>j \<le> length nb. prev ! j = lev_D na nb i j" by auto
  have "[1..<Suc (Suc i)] = [1..<Suc i] @ [Suc i]" by simp
  then have f: "fold (lev_step na nb) [1..<Suc (Suc i)] ([0..<Suc (length nb)], replicate (Suc (length nb)) 0)
      = (lev_row (Suc i) (na ! i) nb prev cur, prev)"
    by (simp only: fold_append comp_apply st fold.simps id_apply) (simp add: lev_step_def)
  show ?case unfolding f using lev_row_correct [of i na prev nb cur] Suc.prems p by simp
qed

lemma lev_table_ed: "lev_table na nb = ed na nb"
proof -
  from lev_rows_correct [of "length na" na nb]
  have "lev_table na nb = lev_D na nb (length na) (length nb)"
    unfolding lev_table_def Let_def by (auto split: prod.splits)
  then show ?thesis by (simp add: lev_D_def ed_rev)
qed

lemma edit_distance_ed: "edit_distance na nb = ed na nb"
  by (simp add: edit_distance_def lev_table_ed ed_sym [of nb])

lemma ed_le_max: "ed xs ys \<le> max (length xs) (length ys)"
  by (induction xs ys rule: ed.induct) auto

lemma levenshtein_range: "0 \<le> levenshtein_similarity nrm a b \<and> levenshtein_similarity nrm a b \<le> 1"
proof -
  have "real (ed (nrm a) (nrm b)) / real (max (length (nrm a)) (length (nrm b))) \<le> 1"
    using ed_le_max [of "nrm a" "nrm b"] by (cases "nrm a = [] \<and> nrm b = []") (auto simp: divide_le_eq_1 less_max_iff_disj)
  then show ?thesis by (auto simp: levenshtein_similarity_def Let_def edit_distance_ed)
qed

section \<open>Jaro similarity stays in the unit interval\<close>

definition trues :: "bool list \<Rightarrow> nat" where
  "trues bs = length (filter id bs)"

lemma trues_simps [simp]: "trues [] = 0" "trues (b # bs) = (if b then Suc (trues bs) else trues bs)"
  by (simp_all add: trues_def)

lemma trues_le: "trues bs \<le> length bs"
  by (simp add: trues_def)

lemma trues_update: "i < length bs \<Longrightarrow> \<not> bs ! i \<Longrightarrow> trues (bs[i := True]) = Suc (trues bs)"
proof (induction bs arbitrary: i)
  case (Cons b bs)
  then show ?case by (cases i) auto
qed simp

lemma find_match_Some: "find_match c s2 m2 js = Some j \<Longrightarrow> j \<in> set js \<and> \<not> m2 ! j"
  by (induction js) (auto split: if_splits)

definition jaro_inv :: "string \<Rightarrow> string \<Rightarrow> nat \<Rightarrow> bool list \<times> bool list \<times> nat \<Rightarrow> bool" where
  "jaro_inv s1 s2 i st \<longleftrightarrow> (case st of (m1, m2, n) \<Rightarrow>
     length m1 = length s1 \<and> length m2 = length s2 \<and> trues m1 = n \<and> trues m2 = n
     \<and> (\<forall>k. i \<le> k \<longrightarrow> k < length s1 \<longrightarrow> \<not> m1 ! k))"

lemma jaro_step_inv:
  assumes "jaro_inv s1 s2 i st" and "i < length s1"
  shows "jaro_inv s1 s2 (Suc i) (jaro_step s1 s2 i st)"
proof -
  obtain m1 m2 n where st: "st = (m1, m2, n)" by (cases st) auto
  show ?thesis
  proof (cases "find_match (s1 ! i) s2 m2 (jaro_window (length s1) (length s2) i)")
    case None
    then show ?thesis using assms by (simp add: st jaro_inv_def jaro_step_def)
  next
    case (Some j)
    from find_match_Some [OF Some] have "j < length s2" "\<not> m2 ! j" by (auto simp: jaro_window_def Let_def)
    with Some assms show ?thesis by (simp add: st jaro_inv_def jaro_step_def trues_update)
  qed
qed

lemma jaro_matches_inv: "jaro_inv s1 s2 (length s1) (jaro_matches s1 s2)"
proof -
  have t: "trues (replicate k False) = 0" for k by (induction k) auto
  have "i \<le> length s1 \<Longrightarrow> jaro_inv s1 s2 i (fold (jaro_step s1 s2) [0..<i]
      (replicate (length s1) False, replicate (length s2) False, 0))" for i
  proof (induction i)
    case 0
    show ?case by (simp add: jaro_inv_def t)
  next
    case (Suc i)
    then show ?case using jaro_step_inv [of s1 s2 i] by simp
  qed
  from this [of "length s1"] show ?thesis by (simp add: jaro_matches_def)
qed

lemma skip_unmatched_Some:
  assumes "0 < trues (drop k m2)"
  obtains k' where "skip_unmatched m2 k = Some k'" "k \<le> k'" "trues (drop k m2) = Suc (trues (drop (Suc k') m2))"
proof -
  have "\<exists>k'. skip_unmatched m2 k = Some k' \<and> k \<le> k' \<and> trues (drop k m2) = Suc (trues (drop (Suc k') m2))"
    using assms
  proof (induction "length m2 - k" arbitrary: k)
    case 0
    then show ?case by simp
  next
    case (Suc d)
    then have k: "k < length m2" by simp
    then have d: "drop k m2 = m2 ! k # drop (Suc k) m2" by (simp add: Cons_nth_drop_Suc)
    have u: "[k..<length m2] = k # [Suc k..<length m2]" using k by (simp add: upt_conv_Cons)
    show ?case
    proof (cases "m2 ! k")
      case True
      then show ?thesis by (simp add: skip_unmatched_def u d)
    next
      case False
      then have "0 < trues (drop (Suc k) m2)" using Suc.prems d by simp
      moreover have "d = length m2 - Suc k" using Suc.hyps(2) by simp
      ultimately obtain k'
        where k': "skip_unmatched m2 (Suc k) = Some k'" "Suc k \<le> k'"
          "trues (drop (Suc k) m2) = Suc (trues (drop (Suc k') m2))"
        using Suc.hyps(1) [of "Suc k"] by blast
      have "skip_unmatched m2 k = Some k'" using False k'(1) by (simp add: skip_unmatched_def u)
      moreover have "trues (drop k m2) = Suc (trues (drop (Suc k') m2))" using False k'(3) by (simp only: d trues_simps if_False)
      moreover have "k \<le> k'" using k'(2) by simp
      ultimately show ?thesis by blast
    qed
  qed
  then show ?thesis using that by blast
qed

lemma count_transpositions_Some:
  "length (filter (\<lambda>i. m1 ! i) is) \<le> trues (drop k m2) \<Longrightarrow>
    \<exists>t. count_transpositions s1 s2 m1 m2 is k n = Some t \<and> t \<le> n + length (filter (\<lambda>i. m1 ! i) is)"
proof (induction "is" arbitrary: k n)
  case (Cons i "is")
  show ?case
  proof (cases "m1 ! i")
    case True
    then have "0 < trues (drop k m2)" using Cons.prems by simp
    then obtain k' where k': "skip_unmatched m2 k = Some k'" "trues (drop k m2) = Suc (trues (drop (Suc k') m2))"
      by (rule skip_unmatched_Some)
    from Cons.prems True k'(2) have "length (filter (\<lambda>i. m1 ! i) is) \<le> trues (drop (Suc k') m2)" by simp
    from Cons.IH [OF this, of "if s1 ! i \<noteq> s2 ! k' then n + 1 else n"] True k'(1) show ?thesis
      by (auto split: if_splits)
  next
    case False
    then show ?thesis using Cons by simp
  qed
qed simp

lemma filter_nth_trues: "length (filter (\<lambda>i. m ! i) [0..<length m]) = trues m"
proof -
  have "filter id m = map (\<lambda>i. m ! i) (filter (\<lambda>i. m ! i) [0..<length m])"
    using filter_map [of id "(!) m" "[0..<length m]"] by (simp add: map_nth comp_def)
  then show ?thesis by (simp add: trues_def)
qed

lemma average3:
  fixes a b c :: real
  shows "0 \<le> a \<Longrightarrow> a \<le> 1 \<Longrightarrow> 0 \<le> b \<Longrightarrow> b \<le> 1 \<Longrightarrow> 0 \<le> c \<Longrightarrow> c \<le> 1
    \<Longrightarrow> 0 \<le> (a + b + c) / 3 \<and> (a + b + c) / 3 \<le> 1"
  by simp

lemma jaro_range: "\<exists>x. jaro_similarity s1 s2 = Some x \<and> 0 \<le> x \<and> x \<le> 1"
proof (cases "s1 = [] \<or> s2 = []")
  case True
  then show ?thesis by (auto simp: jaro_similarity_def)
next
  case False
  obtain m1 m2 n where m: "jaro_matches s1 s2 = (m1, m2, n)" by (metis prod.exhaust)
  from jaro_matches_inv [of s1 s2] have inv: "length m1 = length s1" "length m2 = length s2" "trues m1 = n" "trues m2 = n"
    by (simp_all add: jaro_inv_def m)
  show ?thesis
  proof (cases "n = 0")
    case True
    then show ?thesis using False by (simp add: jaro_similarity_def m)
  next
    case n: False
    have "length (filter (\<lambda>i. m1 ! i) [0..<length s1]) = n" using filter_nth_trues [of m1] inv by simp
    then obtain t where t: "count_transpositions s1 s2 m1 m2 [0..<length s1] 0 0 = Some t" "t \<le> n"
      using count_transpositions_Some [of m1 "[0..<length s1]" 0 m2 s1 s2 0] inv by auto
    have le: "n \<le> length s1" "n \<le> length s2" using trues_le [of m1] trues_le [of m2] inv by auto
    have r: "0 \<le> real n / real (length s1)" "real n / real (length s1) \<le> 1"
      "0 \<le> real n / real (length s2)" "real n / real (length s2) \<le> 1"
      "0 \<le> (real n - real t / 2) / real n" "(real n - real t / 2) / real n \<le> 1"
      using le n t(2) by (auto simp: divide_le_eq_1)
    let ?x = "(real n / real (length s1) + real n / real (length s2) + (real n - real t / 2) / real n) / 3"
    have "jaro_similarity s1 s2 = Some ?x" using False n by (simp add: jaro_similarity_def m t(1))
    moreover have "0 \<le> ?x" "?x \<le> 1" using average3 [OF r] by blast+
    ultimately show ?thesis by blast
  qed
qed

lemma common_prefix_le: "common_prefix n xs ys \<le> n"
  by (induction n xs ys rule: common_prefix.induct) auto

lemma jaro_winkler_range: "\<exists>x. jaro_winkler s1 s2 (1 / 10) = Some x \<and> 0 \<le> x \<and> x \<le> 1"
proof -
  from jaro_range obtain j where j: "jaro_similarity s1 s2 = Some j" "0 \<le> j" "j \<le> 1" by blast
  let ?c = "real (common_prefix 4 s1 s2) * (1 / 10)"
  have c: "0 \<le> ?c" "?c \<le> 1" using common_prefix_le [of 4 s1 s2] by simp_all
  have "?c * (1 - j) \<le> 1 * (1 - j)" using c j by (intro mult_right_mono) auto
  moreover have "0 \<le> ?c * (1 - j)" using c j by simp
  ultimately show ?thesis using j by (simp add: jaro_winkler_def)
qed

section \<open>Cosine similarity stays in the unit interval\<close>

definition gram_count :: "(string, int) dict \<Rightarrow> string \<Rightarrow> real" where
  "gram_count v g = real_of_int (dict_get_or v g 0)"

lemma sum_list_dict:
  "wf_dict v \<Longrightarrow> sum_list (map (\<lambda>(g, x). h g x) v) = (\<Sum>g \<in> fst ` set v. h g (dict_get_or v g 0))"
proof (induction v)
  case (Cons p v)
  obtain g x where p: "p = (g, x)" by fastforce
  from Cons.prems have w: "wf_dict v" and g: "g \<notin> fst ` set v" by (auto simp: p wf_dict_def)
  have "(\<Sum>k \<in> fst ` set v. h k (dict_get_or (p # v) k 0)) = (\<Sum>k \<in> fst ` set v. h k (dict_get_or v k 0))"
    by (rule sum.cong) (use g in \<open>auto simp: p dict_get_or_def\<close>)
  with Cons.IH [OF w] g show ?case by (simp add: p dict_get_or_def)
qed simp

lemma dict_get_or_absent: "g \<notin> fst ` set v \<Longrightarrow> dict_get_or v g d = d"
  by (simp add: dict_get_or_def map_of_eq_None_iff [THEN iffD2] split: option.splits)

lemma cosine_range:
  assumes wa: "wf_dict va" and wb: "wf_dict vb"
    and pos: "\<forall>x \<in> snd ` set va \<union> snd ` set vb. 0 \<le> x"
  shows "0 \<le> cosine_similarity va vb \<and> cosine_similarity va vb \<le> 1"
proof (cases "va = [] \<or> vb = []")
  case True
  then show ?thesis by (simp add: cosine_similarity_def)
next
  case False
  let ?a = "gram_count va" and ?b = "gram_count vb"
  let ?K = "fst ` set va" and ?L = "fst ` set vb"
  have nn: "0 \<le> ?a g" "0 \<le> ?b g" for g
    using pos by (force simp: gram_count_def dict_get_or_def split: option.splits dest: map_of_SomeD)+
  have dot: "sum_list (map (\<lambda>(g, v). case map_of vb g of None \<Rightarrow> 0 | Some w \<Rightarrow> real_of_int (v * w)) va) = (\<Sum>g \<in> ?K. ?a g * ?b g)"
    unfolding sum_list_dict [OF wa]
    by (rule sum.cong) (auto simp: gram_count_def dict_get_or_def split: option.splits)
  have sq: "real_of_int (sum_list (map (\<lambda>(g, v). v * v) v)) = (\<Sum>g \<in> fst ` set v. (gram_count v g)\<^sup>2)"
    if "wf_dict v" for v
    unfolding sum_list_dict [OF that] by (simp add: gram_count_def power2_eq_square)
  have bK: "(\<Sum>g \<in> ?K. (?b g)\<^sup>2) \<le> (\<Sum>g \<in> ?L. (?b g)\<^sup>2)"
  proof -
    have "(\<Sum>g \<in> ?K. (?b g)\<^sup>2) = (\<Sum>g \<in> ?K \<inter> ?L. (?b g)\<^sup>2)"
      by (rule sum.mono_neutral_right) (auto simp: gram_count_def dict_get_or_absent)
    also have "\<dots> \<le> (\<Sum>g \<in> ?L. (?b g)\<^sup>2)" by (rule sum_mono2) auto
    finally show ?thesis .
  qed
  let ?A = "\<Sum>g \<in> ?K. (?a g)\<^sup>2" and ?B = "\<Sum>g \<in> ?L. (?b g)\<^sup>2" and ?D = "\<Sum>g \<in> ?K. ?a g * ?b g"
  have D0: "0 \<le> ?D" by (intro sum_nonneg mult_nonneg_nonneg nn)
  have "?D\<^sup>2 \<le> ?A * (\<Sum>g \<in> ?K. (?b g)\<^sup>2)" by (rule cauchy_schwarz)
  also have "\<dots> \<le> ?A * ?B" using bK by (intro mult_left_mono sum_nonneg) auto
  finally have "?D \<le> sqrt ?A * sqrt ?B" using D0 by (simp add: real_le_rsqrt real_sqrt_mult [symmetric])
  then have "?D / (sqrt ?A * sqrt ?B) \<le> 1" if "sqrt ?A \<noteq> 0" "sqrt ?B \<noteq> 0"
  proof -
    have "0 \<le> sqrt ?A * sqrt ?B" by (intro mult_nonneg_nonneg real_sqrt_ge_zero sum_nonneg) auto
    with that have "0 < sqrt ?A * sqrt ?B" by (metis less_eq_real_def mult_eq_0_iff)
    then show ?thesis using \<open>?D \<le> sqrt ?A * sqrt ?B\<close> by (simp add: divide_le_eq_1)
  qed
  moreover have "0 \<le> ?D / (sqrt ?A * sqrt ?B)"
    by (intro divide_nonneg_nonneg D0 mult_nonneg_nonneg real_sqrt_ge_zero sum_nonneg) auto
  ultimately show ?thesis using False
    unfolding cosine_similarity_def Let_def dot sq [OF wa] sq [OF wb] by simp
qed

lemma ngram_count_ok:
  fixes d :: "(string, int) dict"
  assumes w: "wf_dict d" and p: "\<forall>x \<in> snd ` set d. 0 \<le> x"
  shows "\<forall>x \<in> snd ` set (AList.update g (dict_get_or d g 0 + 1) d). 0 \<le> x"
proof
  have val: "0 \<le> v" if "map_of d k = Some v" for k v
  proof -
    from that have "(k, v) \<in> set d" by (rule map_of_SomeD)
    then have "v \<in> snd ` set d" by (rule image_eqI [rotated]) simp
    with p show ?thesis by (rule bspec)
  qed
  have g0: "0 \<le> dict_get_or d g 0"
    by (cases "map_of d g") (simp_all add: dict_get_or_def val)
  fix x
  assume "x \<in> snd ` set (AList.update g (dict_get_or d g 0 + 1) d)"
  then obtain k where "(k, x) \<in> set (AList.update g (dict_get_or d g 0 + 1) d)" by (metis imageE prod.collapse)
  then have "map_of (AList.update g (dict_get_or d g 0 + 1) d) k = Some x"
    by (rule map_of_is_SomeI [rotated]) (use wf_dict_update [OF w] in \<open>simp add: wf_dict_def\<close>)
  then have m: "((map_of d)(g \<mapsto> dict_get_or d g 0 + 1)) k = Some x" by (simp only: update_conv')
  show "0 \<le> x"
  proof (cases "k = g")
    case True
    with m have "x = dict_get_or d g 0 + 1" by simp
    with g0 show ?thesis by simp
  next
    case False
    with m have "map_of d k = Some x" by simp
    then show ?thesis by (rule val)
  qed
qed

lemma ngram_fold_ok:
  fixes d :: "(string, int) dict"
  assumes "wf_dict d" and "\<forall>x \<in> snd ` set d. 0 \<le> x"
  shows "wf_dict (fold (\<lambda>i d. let g = take n (drop i s) in AList.update g (dict_get_or d g 0 + 1) d) is d)
    \<and> (\<forall>x \<in> snd ` set (fold (\<lambda>i d. let g = take n (drop i s) in AList.update g (dict_get_or d g 0 + 1) d) is d). 0 \<le> x)"
  using assms
proof (induction "is" arbitrary: d)
  case (Cons i "is")
  from Cons.IH [OF wf_dict_update [OF Cons.prems(1)] ngram_count_ok [OF Cons.prems]]
  show ?case unfolding fold.simps comp_apply Let_def .
qed (simp only: fold.simps id_apply)

lemma ngram_vector_ok: "wf_dict (char_ngram_vector n s) \<and> (\<forall>x \<in> snd ` set (char_ngram_vector n s). 0 \<le> x)"
  using ngram_fold_ok [of "[]" n s "[0..<length s + 1 - n]"] by (simp add: char_ngram_vector_def)

lemma embedding_range: "0 \<le> embedding_similarity nrm n a b \<and> embedding_similarity nrm n a b \<le> 1"
proof -
  have "\<forall>x \<in> snd ` set (char_ngram_vector n (nrm a)) \<union> snd ` set (char_ngram_vector n (nrm b)). 0 \<le> x"
    using ngram_vector_ok by blast
  from cosine_range [OF conjunct1 [OF ngram_vector_ok] conjunct1 [OF ngram_vector_ok] this] show ?thesis
    by (simp add: embedding_similarity_def Let_def)
qed

section \<open>Properties\<close>

text \<open>C18. The rolling-row table computes the Levenshtein distance: \<open>edit_distance\<close> edits turn one string into
  the other, and no shorter sequence of insertions, deletions and substitutions does.\<close>

theorem edit_distance_minimal:
  "script (edit_distance a b) a b \<and> edit_distance a b = (LEAST n. script n a b)"
proof -
  have "(LEAST n. script n a b) = ed a b"
    by (rule Least_equality) (auto intro: script_ed ed_minimal)
  then show ?thesis by (simp add: edit_distance_ed script_ed)
qed

text \<open>All similarity scores are defined and lie in the unit interval: Levenshtein, Jaro-Winkler,
  n-gram cosine, and any hybrid with non-negative weights that sum to one.\<close>

theorem similarities_in_unit_interval:
  assumes "0 \<le> hm_levenshtein_weight h" and "0 \<le> hm_cosine_weight h"
    and "hm_levenshtein_weight h + hm_cosine_weight h = 1"
  shows "levenshtein_similarity nrm a b \<in> {0..1}
    \<and> (\<exists>x \<in> {0..1}. jaro_winkler s1 s2 (1 / 10) = Some x)
    \<and> embedding_similarity nrm n a b \<in> {0..1}
    \<and> hybrid_similarity nrm h a b \<in> {0..1}"
proof -
  let ?l = "levenshtein_similarity nrm a b" and ?e = "embedding_similarity nrm (hm_ngram_size h) a b"
  have l: "0 \<le> ?l" "?l \<le> 1" and e: "0 \<le> ?e" "?e \<le> 1" using levenshtein_range embedding_range by blast+
  have "hm_levenshtein_weight h * ?l + hm_cosine_weight h * ?e \<le> hm_levenshtein_weight h * 1 + hm_cosine_weight h * 1"
    using l e assms by (intro add_mono mult_left_mono) auto
  then have "hybrid_similarity nrm h a b \<le> 1" using assms(3) by (simp add: hybrid_similarity_def)
  moreover have "0 \<le> hybrid_similarity nrm h a b" using l e assms by (simp add: hybrid_similarity_def)
  ultimately show ?thesis using levenshtein_range [of nrm a b] embedding_range [of nrm n a b] jaro_winkler_range [of s1 s2]
    by auto
qed

theorem similarities_in_unit_interval_witness:
  "hybrid_similarity id \<lparr>hm_levenshtein_weight = 3 / 5, hm_cosine_weight = 2 / 5, hm_default_threshold = 4 / 5, hm_ngram_size = 3\<rparr>
     ''busan'' ''pusan'' \<in> {0..1}"
proof -
  let ?h = "\<lparr>hm_levenshtein_weight = 3 / 5, hm_cosine_weight = 2 / 5, hm_default_threshold = 4 / 5, hm_ngram_size = 3\<rparr>"
  show ?thesis using similarities_in_unit_interval [of ?h id "''busan''" "''pusan''" "[]" "[]" 3] by simp
qed

end
