(* ===== verification/Entity_Resolver.thy ===== *)
theory Entity_Resolver
  imports Fuzzy_Matcher
begin

text \<open>
  \<^verbatim>\<open>core/kg/entity_resolution/resolver.py\<close>: the tiers of \<open>resolve_pair\<close> and the grouping of
  \<open>resolve\<close>, with the parent array of its union-find structure and the path compression of its
  \<open>find\<close> written out.  \<open>None\<close> stands for an exception or for a \<open>find\<close> that does not return; the main
  theorem shows that neither happens.  The \<open>context\<close> of a candidate (scores for display) is left out, as
  in the matchers.
\<close>

section \<open>Resolver and pairs\<close>

record entity_resolver =
  er_fuzzy_threshold :: real
  er_embedding_threshold :: real
  er_use_embedding :: bool
  er_use_hybrid :: bool
  er_embedding_matcher :: "nat option"
  er_hybrid_matcher :: "hybrid_matcher option"

record er_result =
  rs_canonical :: string
  rs_aliases :: "string list"
  rs_candidates :: "er_candidate list"
  rs_merged :: bool

text \<open>The embedding matcher is its n-gram size, 3 by default.\<close>

definition er_init :: "real \<Rightarrow> real \<Rightarrow> bool \<Rightarrow> bool \<Rightarrow> real \<Rightarrow> real \<Rightarrow> (matcher_error, entity_resolver) res" where
  "er_init ft et use_emb use_hyb lw cw =
     res_bind (if use_hyb then res_bind (hybrid_init lw cw ft 3) (\<lambda>h. Inr (Some h)) else Inr None)
       (\<lambda>h. Inr \<lparr>er_fuzzy_threshold = ft, er_embedding_threshold = et, er_use_embedding = use_emb,
                 er_use_hybrid = use_hyb, er_embedding_matcher = (if use_emb then Some 3 else None),
                 er_hybrid_matcher = h\<rparr>)"

definition hybrid_tier :: "(string \<Rightarrow> string) \<Rightarrow> entity_resolver \<Rightarrow> string \<Rightarrow> string \<Rightarrow> er_candidate option" where
  "hybrid_tier nrm c a b =
     (case er_hybrid_matcher c of
        None \<Rightarrow> None
      | Some h \<Rightarrow>
          (let s = hybrid_similarity nrm h a b in
           if er_use_hybrid c \<and> s \<ge> er_fuzzy_threshold c
           then Some \<lparr>ec_entity_a = a, ec_entity_b = b, ec_similarity = s, ec_method = HYBRID\<rparr>
           else None))"

definition embedding_tier :: "(string \<Rightarrow> string) \<Rightarrow> entity_resolver \<Rightarrow> real \<Rightarrow> string \<Rightarrow> string \<Rightarrow> er_candidate option" where
  "embedding_tier nrm c fuzzy a b =
     (case er_embedding_matcher c of
        None \<Rightarrow> None
      | Some n \<Rightarrow>
          (let s = embedding_similarity nrm n a b in
           if er_use_embedding c \<and> s > fuzzy
           then Some \<lparr>ec_entity_a = a, ec_entity_b = b, ec_similarity = s, ec_method = EMBEDDING\<rparr>
           else None))"

definition resolve_pair :: "(string \<Rightarrow> string) \<Rightarrow> (string \<Rightarrow> string \<Rightarrow> real) \<Rightarrow> entity_resolver \<Rightarrow> string \<Rightarrow> string
    \<Rightarrow> er_candidate option" where
  "resolve_pair nrm ratio c a b =
     (if nrm a = nrm b
      then Some \<lparr>ec_entity_a = a, ec_entity_b = b, ec_similarity = 1, ec_method = EXACT\<rparr>
      else (case hybrid_tier nrm c a b of
              Some cand \<Rightarrow> Some cand
            | None \<Rightarrow>
                (case fuzzy_similarity nrm ratio a b of
                   None \<Rightarrow> None
                 | Some fuzzy \<Rightarrow>
                     (case embedding_tier nrm c fuzzy a b of
                        Some cand \<Rightarrow> Some cand
                      | None \<Rightarrow> Some \<lparr>ec_entity_a = a, ec_entity_b = b, ec_similarity = fuzzy, ec_method = FUZZY\<rparr>))))"

section \<open>Union-find on the parent array\<close>

partial_function (option) uf_find :: "nat list \<Rightarrow> nat \<Rightarrow> (nat list \<times> nat) option" where
  "uf_find parent x =
     (if parent ! x = x then Some (parent, x)
      else uf_find (parent[x := parent ! (parent ! x)]) (parent ! (parent ! x)))"

definition uf_union :: "nat list \<Rightarrow> nat \<Rightarrow> nat \<Rightarrow> nat list option" where
  "uf_union parent x y =
     (case uf_find parent x of
        None \<Rightarrow> None
      | Some (p1, px) \<Rightarrow>
          (case uf_find p1 y of
             None \<Rightarrow> None
           | Some (p2, py) \<Rightarrow> Some (if px \<noteq> py then p2[px := py] else p2)))"

section \<open>Grouping\<close>

definition merge_threshold :: "entity_resolver \<Rightarrow> er_candidate \<Rightarrow> real" where
  "merge_threshold c cand = (if ec_method cand = EMBEDDING then er_embedding_threshold c else er_fuzzy_threshold c)"

definition index_pairs :: "nat \<Rightarrow> (nat \<times> nat) list" where
  "index_pairs n = concat (map (\<lambda>i. map (Pair i) [i + 1..<n]) [0..<n])"

text \<open>The loop over all pairs, with the \<open>union\<close> it calls as an argument.\<close>

fun compare_pairs :: "('s \<Rightarrow> nat \<Rightarrow> nat \<Rightarrow> 's option) \<Rightarrow> (nat \<Rightarrow> nat \<Rightarrow> er_candidate option) \<Rightarrow> (er_candidate \<Rightarrow> real)
    \<Rightarrow> (nat \<times> nat) list \<Rightarrow> 's \<Rightarrow> (nat \<times> nat, er_candidate) dict \<Rightarrow> ('s \<times> (nat \<times> nat, er_candidate) dict) option" where
  "compare_pairs uni pr th [] s cs = Some (s, cs)"
| "compare_pairs uni pr th ((i, j) # ps) s cs =
     (case pr i j of
        None \<Rightarrow> None
      | Some cand \<Rightarrow>
          (let cs' = AList.update (i, j) cand cs in
           if ec_similarity cand \<ge> th cand
           then (case uni s i j of None \<Rightarrow> None | Some s' \<Rightarrow> compare_pairs uni pr th ps s' cs')
           else compare_pairs uni pr th ps s cs'))"

text \<open>\<^verbatim>\<open>groups.setdefault(find(i), []).append(i)\<close>.\<close>

fun group_roots :: "('s \<Rightarrow> nat \<Rightarrow> ('s \<times> nat) option) \<Rightarrow> nat list \<Rightarrow> 's \<Rightarrow> (nat, nat list) dict
    \<Rightarrow> (nat, nat list) dict option" where
  "group_roots fnd [] s gs = Some gs"
| "group_roots fnd (i # is) s gs =
     (case fnd s i of
        None \<Rightarrow> None
      | Some (s', rt) \<Rightarrow> group_roots fnd is s' (AList.update rt (dict_get_or gs rt [] @ [i]) gs))"

text \<open>\<^verbatim>\<open>max(xs, key=len)\<close>: the first of the longest; it raises on an empty list.\<close>

definition first_longest :: "string list \<Rightarrow> string option" where
  "first_longest xs =
     (case xs of
        [] \<Rightarrow> None
      | x # ys \<Rightarrow> Some (fold (\<lambda>s best. if length best < length s then s else best) ys x))"

definition group_result :: "string list \<Rightarrow> (nat \<times> nat, er_candidate) dict \<Rightarrow> nat list \<Rightarrow> er_result option" where
  "group_result entities cs indices =
     (let surface_forms = map ((!) entities) indices in
      case first_longest surface_forms of
        None \<Rightarrow> None
      | Some canonical \<Rightarrow>
          Some \<lparr>rs_canonical = canonical,
                rs_aliases = filter (\<lambda>s. s \<noteq> canonical) surface_forms,
                rs_candidates = map snd (filter (\<lambda>((i, j), cand). i \<in> set indices \<and> j \<in> set indices) cs),
                rs_merged = (length surface_forms > 1)\<rparr>)"

definition er_resolve :: "(string \<Rightarrow> string) \<Rightarrow> (string \<Rightarrow> string \<Rightarrow> real) \<Rightarrow> entity_resolver \<Rightarrow> string list
    \<Rightarrow> er_result list option" where
  "er_resolve nrm ratio c entities =
     (if entities = [] then Some []
      else (let n = length entities in
            case compare_pairs uf_union (\<lambda>i j. resolve_pair nrm ratio c (entities ! i) (entities ! j))
                   (merge_threshold c) (index_pairs n) [0..<n] [] of
              None \<Rightarrow> None
            | Some (parent, cs) \<Rightarrow>
                (case group_roots uf_find [0..<n] parent [] of
                   None \<Rightarrow> None
                 | Some groups \<Rightarrow> those (map (group_result entities cs) (map snd groups)))))"

section \<open>The contract of a union-find structure\<close>

text \<open>
  A client of union-find sees a representative of every index below \<open>n\<close>: \<open>find\<close> returns it and keeps all
  representatives, \<open>union\<close> merges two classes and keeps the others.
\<close>

locale union_find =
  fixes fnd :: "'s \<Rightarrow> nat \<Rightarrow> ('s \<times> nat) option"
    and uni :: "'s \<Rightarrow> nat \<Rightarrow> nat \<Rightarrow> 's option"
    and ok :: "nat \<Rightarrow> 's \<Rightarrow> bool"
    and rep :: "'s \<Rightarrow> nat \<Rightarrow> nat"
  assumes find_rep: "ok n s \<Longrightarrow> x < n \<Longrightarrow>
      \<exists>s'. fnd s x = Some (s', rep s x) \<and> ok n s' \<and> (\<forall>y < n. rep s' y = rep s y)"
    and union_rep: "ok n s \<Longrightarrow> x < n \<Longrightarrow> y < n \<Longrightarrow>
      \<exists>s'. uni s x y = Some s' \<and> ok n s'
        \<and> (\<forall>z < n. rep s' z = (if rep s z = rep s x then rep s y else rep s z))"

text \<open>Adding one undirected edge to a symmetric graph joins the components of its ends.\<close>

lemma rtrancl_add_edge:
  assumes "sym R"
  shows "(x, y) \<in> (insert (a, b) (insert (b, a) R))\<^sup>* \<longleftrightarrow>
    (x, y) \<in> R\<^sup>* \<or> (x, a) \<in> R\<^sup>* \<and> (b, y) \<in> R\<^sup>* \<or> (x, b) \<in> R\<^sup>* \<and> (a, y) \<in> R\<^sup>*"
proof -
  have s: "(u, v) \<in> R\<^sup>* \<longleftrightarrow> (v, u) \<in> R\<^sup>*" for u v
    using sym_rtrancl [OF assms] by (auto dest: symD)
  have t: "(u, v) \<in> R\<^sup>* \<Longrightarrow> (v, w) \<in> R\<^sup>* \<Longrightarrow> (u, w) \<in> R\<^sup>*" for u v w by (rule rtrancl_trans)
  show ?thesis unfolding rtrancl_insert using s t by blast
qed

lemma sym_add_edge: "sym R \<Longrightarrow> sym (insert (a, b) (insert (b, a) R))"
  by (auto simp: sym_def)

definition class_of :: "('s \<Rightarrow> nat \<Rightarrow> nat) \<Rightarrow> 's \<Rightarrow> nat \<Rightarrow> nat list \<Rightarrow> nat list" where
  "class_of rp s r xs = filter (\<lambda>i. rp s i = r) xs"

text \<open>The edges that a list of pairs with candidates \<open>pc\<close> and threshold \<open>th\<close> adds.\<close>

definition match_edges :: "(nat \<Rightarrow> nat \<Rightarrow> er_candidate) \<Rightarrow> (er_candidate \<Rightarrow> real) \<Rightarrow> (nat \<times> nat) list \<Rightarrow> (nat \<times> nat) set" where
  "match_edges pc th ps =
     (let M = {(i, j). (i, j) \<in> set ps \<and> th (pc i j) \<le> ec_similarity (pc i j)} in M \<union> M\<inverse>)"

lemma match_edges_Cons:
  "match_edges pc th ((i, j) # ps) =
     (if th (pc i j) \<le> ec_similarity (pc i j) then insert (i, j) (insert (j, i) (match_edges pc th ps))
      else match_edges pc th ps)"
  by (auto simp: match_edges_def Let_def)

lemma match_edges_Nil [simp]: "match_edges pc th [] = {}"
  by (simp add: match_edges_def)

context union_find
begin

text \<open>Comparing all pairs makes the classes the components of the match graph.\<close>

lemma compare_pairs_components:
  assumes "ok n s" and "sym R" and "\<forall>x < n. \<forall>y < n. rep s x = rep s y \<longleftrightarrow> (x, y) \<in> R\<^sup>*"
    and "\<forall>(i, j) \<in> set ps. i < n \<and> j < n \<and> pr i j = Some (pc i j)"
    and "distinct ps" and "fst ` set cs \<inter> set ps = {}"
  shows "\<exists>s'. compare_pairs uni pr th ps s cs = Some (s', cs @ map (\<lambda>(i, j). ((i, j), pc i j)) ps) \<and> ok n s'
    \<and> (\<forall>x < n. \<forall>y < n. rep s' x = rep s' y \<longleftrightarrow> (x, y) \<in> (R \<union> match_edges pc th ps)\<^sup>*)"
  using assms
proof (induction ps arbitrary: s R cs)
  case (Cons p ps)
  obtain i j where p: "p = (i, j)" by fastforce
  from Cons.prems(4) have ij: "i < n" "j < n" "pr i j = Some (pc i j)" by (auto simp: p)
  let ?cs = "cs @ [((i, j), pc i j)]"
  have up: "AList.update (i, j) (pc i j) cs = ?cs"
    using Cons.prems(6) by (intro update_absent) (auto simp: p dict_has_def)
  have rest: "\<forall>(i, j) \<in> set ps. i < n \<and> j < n \<and> pr i j = Some (pc i j)" "distinct ps" "fst ` set ?cs \<inter> set ps = {}"
    using Cons.prems(4,5,6) by (auto simp: p)
  show ?case
  proof (cases "th (pc i j) \<le> ec_similarity (pc i j)")
    case False
    then show ?thesis using Cons.IH [OF Cons.prems(1-3) rest] ij
      by (auto simp: p up match_edges_Cons)
  next
    case True
    let ?R = "insert (i, j) (insert (j, i) R)"
    from union_rep [OF Cons.prems(1) ij(1,2)] obtain s' where s': "uni s i j = Some s'" "ok n s'"
      and r: "\<And>z. z < n \<Longrightarrow> rep s' z = (if rep s z = rep s i then rep s j else rep s z)" by blast
    have "rep s' x = rep s' y \<longleftrightarrow> (x, y) \<in> ?R\<^sup>*" if "x < n" "y < n" for x y
      unfolding rtrancl_add_edge [OF Cons.prems(2)] using that ij r Cons.prems(3) by metis
    then have "\<forall>x < n. \<forall>y < n. rep s' x = rep s' y \<longleftrightarrow> (x, y) \<in> ?R\<^sup>*" by blast
    from Cons.IH [OF s'(2) sym_add_edge [OF Cons.prems(2)] this rest] True ij s'(1) show ?thesis
      by (auto simp: p up match_edges_Cons)
  qed
qed auto

text \<open>Grouping by \<open>find\<close> lists every class once, with its members in order.\<close>

definition grouped :: "'s \<Rightarrow> nat list \<Rightarrow> (nat, nat list) dict \<Rightarrow> bool" where
  "grouped s xs gs \<longleftrightarrow> wf_dict gs \<and>
     (\<forall>r. map_of gs r = (if class_of rep s r xs = [] then None else Some (class_of rep s r xs)))"

lemma grouped_snoc:
  assumes "grouped s xs gs"
  shows "grouped s (xs @ [i]) (AList.update (rep s i) (dict_get_or gs (rep s i) [] @ [i]) gs)"
  using assms by (auto simp: grouped_def class_of_def map_of_update_dict dict_get_or_def)

lemma grouped_cong:
  assumes "\<forall>i \<in> set xs. rep s' i = rep s i"
  shows "grouped s' xs gs \<longleftrightarrow> grouped s xs gs"
proof -
  have "class_of rep s' r xs = class_of rep s r xs" for r
    using assms by (auto simp: class_of_def intro: filter_cong)
  then show ?thesis by (simp add: grouped_def)
qed

lemma group_roots_grouped:
  assumes "ok n s" and "grouped s xs gs" and "set xs \<subseteq> {..<n}" and "set is \<subseteq> {..<n}"
  shows "\<exists>gs'. group_roots fnd is s gs = Some gs' \<and> grouped s (xs @ is) gs'"
  using assms
proof (induction "is" arbitrary: s xs gs)
  case (Cons i "is")
  from Cons.prems(4) have i: "i < n" "set is \<subseteq> {..<n}" by auto
  from find_rep [OF Cons.prems(1) i(1)] obtain s' where s': "fnd s i = Some (s', rep s i)" "ok n s'"
    and r: "\<And>y. y < n \<Longrightarrow> rep s' y = rep s y" by blast
  let ?gs = "AList.update (rep s i) (dict_get_or gs (rep s i) [] @ [i]) gs"
  have g: "grouped s' (xs @ [i]) ?gs"
    using grouped_snoc [OF Cons.prems(2)] r i Cons.prems(3) by (subst grouped_cong) auto
  obtain gs' where gs': "group_roots fnd is s' ?gs = Some gs'" "grouped s' ((xs @ [i]) @ is) gs'"
    using Cons.IH [OF s'(2) g _ i(2)] Cons.prems(3) i(1) by auto
  have "grouped s (xs @ i # is) gs'"
    using gs'(2) r i Cons.prems(3) by (subst grouped_cong [where s' = s and s = s', of "xs @ i # is"]) auto
  with gs'(1) s'(1) show ?case by simp
qed simp

lemma grouped_member:
  assumes "grouped s xs gs" and "g \<in> set (map snd gs)"
  shows "\<exists>r. (r, g) \<in> set gs \<and> g = class_of rep s r xs \<and> g \<noteq> []"
proof -
  from assms(2) obtain r where "(r, g) \<in> set gs" by auto
  with assms(1) show ?thesis
    by (intro exI [of _ r]) (auto simp: grouped_def map_of_wf_in_set split: if_splits)
qed

lemma grouped_disjoint:
  assumes "grouped s xs gs" and "distinct xs"
  shows "distinct (concat (map snd gs))"
proof (rule distinct_concat)
  have key: "rep s i = r" if "(r, g) \<in> set gs" "i \<in> set g" for r g i
    using assms(1) that by (auto simp: grouped_def map_of_wf_in_set class_of_def split: if_splits)
  have ne: "g \<noteq> []" if "(r, g) \<in> set gs" for r g
    using assms(1) that by (auto simp: grouped_def map_of_wf_in_set split: if_splits)
  have "inj_on snd (set gs)"
    using key ne by (intro inj_onI) (metis list.set_intros(1) neq_Nil_conv prod.collapse)
  moreover have "distinct gs" using assms(1) by (auto simp: grouped_def wf_dict_def distinct_map)
  ultimately show "distinct (map snd gs)" by (simp add: distinct_map)
  show "distinct g" if "g \<in> set (map snd gs)" for g
    using grouped_member [OF assms(1) that] assms(2) by (auto simp: class_of_def)
  show "set g \<inter> set h = {}" if "g \<in> set (map snd gs)" "h \<in> set (map snd gs)" "g \<noteq> h" for g h
    using grouped_member [OF assms(1) that(1)] grouped_member [OF assms(1) that(2)] that(3)
    by (auto simp: class_of_def)
qed

lemma grouped_covers:
  assumes "grouped s xs gs"
  shows "set (concat (map snd gs)) = set xs"
proof
  show "set (concat (map snd gs)) \<subseteq> set xs"
    using grouped_member [OF assms] by (fastforce simp: class_of_def)
  show "set xs \<subseteq> set (concat (map snd gs))"
  proof
    fix i
    assume i: "i \<in> set xs"
    then have c: "i \<in> set (class_of rep s (rep s i) xs)" by (simp add: class_of_def)
    then have "class_of rep s (rep s i) xs \<noteq> []" by auto
    with assms have "(rep s i, class_of rep s (rep s i) xs) \<in> set gs"
      by (auto simp: grouped_def map_of_wf_in_set)
    with c show "i \<in> set (concat (map snd gs))" by force
  qed
qed

end

section \<open>The parent array implements the contract\<close>

text \<open>
  \<open>uf_edges p\<close> are the parent links that are not loops.  A parent array is well-formed when its links stay in
  range and are acyclic; the representative of \<open>x\<close> is the root that its links lead to.
\<close>

definition uf_edges :: "nat list \<Rightarrow> (nat \<times> nat) set" where
  "uf_edges p = {(x, y). x < length p \<and> y = p ! x \<and> y \<noteq> x}"

definition uf_ok :: "nat \<Rightarrow> nat list \<Rightarrow> bool" where
  "uf_ok n p \<longleftrightarrow> length p = n \<and> (\<forall>x < n. p ! x < n) \<and> acyclic (uf_edges p)"

definition leads_to :: "nat list \<Rightarrow> nat \<Rightarrow> nat \<Rightarrow> bool" where
  "leads_to p x r \<longleftrightarrow> (x, r) \<in> (uf_edges p)\<^sup>* \<and> p ! r = r"

definition uf_rep :: "nat list \<Rightarrow> nat \<Rightarrow> nat" where
  "uf_rep p x = (THE r. leads_to p x r)"

lemma finite_uf_edges: "finite (uf_edges p)"
  by (rule finite_subset [of _ "(\<lambda>x. (x, p ! x)) ` {..<length p}"]) (auto simp: uf_edges_def)

lemma uf_edges_range:
  assumes "uf_ok n p" and "(x, y) \<in> (uf_edges p)\<^sup>*" and "x < n"
  shows "y < n"
  using assms(2,3,1) by (induction rule: rtrancl_induct) (auto simp: uf_edges_def uf_ok_def)

lemma root_stays: "(r, y) \<in> (uf_edges p)\<^sup>* \<Longrightarrow> p ! r = r \<Longrightarrow> y = r"
  by (erule converse_rtranclE) (auto simp: uf_edges_def)

lemma leads_to_unique:
  assumes "leads_to p x r" and "leads_to p x r'"
  shows "r' = r"
proof -
  have "single_valued (uf_edges p)" by (auto simp: single_valued_def uf_edges_def)
  from single_valued_confluent [OF this, of x r r'] assms show ?thesis
    by (auto simp: leads_to_def dest: root_stays)
qed

lemma leads_to_exists:
  assumes "uf_ok n p" and "x < n"
  shows "\<exists>r < n. leads_to p x r"
proof -
  have "wf ((uf_edges p)\<inverse>)"
    using assms(1) finite_uf_edges by (intro finite_acyclic_wf_converse) (auto simp: uf_ok_def)
  then show ?thesis using assms(2)
  proof (induction x rule: wf_induct_rule)
    case (less x)
    show ?case
    proof (cases "p ! x = x")
      case True
      then show ?thesis using less.prems by (auto simp: leads_to_def)
    next
      case False
      with less.prems assms(1) have e: "(x, p ! x) \<in> uf_edges p" "p ! x < n" by (auto simp: uf_edges_def uf_ok_def)
      from less.IH [of "p ! x"] e obtain r where "r < n" "leads_to p (p ! x) r" by auto
      with e(1) show ?thesis by (auto simp: leads_to_def intro: converse_rtrancl_into_rtrancl)
    qed
  qed
qed

lemma uf_rep_eq: "leads_to p x r \<Longrightarrow> uf_rep p x = r"
  unfolding uf_rep_def by (rule the_equality) (auto dest: leads_to_unique)

lemma uf_rep_leads: "uf_ok n p \<Longrightarrow> x < n \<Longrightarrow> leads_to p x (uf_rep p x)"
  using leads_to_exists [of n p x] by (auto dest: uf_rep_eq)

text \<open>Path compression: a link may be redirected to its grandparent.\<close>

lemma uf_halve:
  assumes ok: "uf_ok n p" and x: "x < n"
  defines "q \<equiv> p[x := p ! (p ! x)]"
  shows "uf_edges q \<subseteq> (uf_edges p)\<^sup>+" and "uf_ok n q" and "\<And>y. y < n \<Longrightarrow> uf_rep q y = uf_rep p y"
proof -
  from ok have len: "length p = n" and rng: "\<And>y. y < n \<Longrightarrow> p ! y < n" and ac: "acyclic (uf_edges p)"
    by (auto simp: uf_ok_def)
  have edge: "(y, p ! y) \<in> uf_edges p" if "y < n" "p ! y \<noteq> y" for y using that len by (auto simp: uf_edges_def)
  have grand: "(x, p ! (p ! x)) \<in> (uf_edges p)\<^sup>+" if "p ! x \<noteq> x"
    using edge [OF x that] edge [OF rng [OF x]] by (cases "p ! (p ! x) = p ! x") (auto intro: trancl.intros)
  show sub: "uf_edges q \<subseteq> (uf_edges p)\<^sup>+"
  proof
    fix e
    assume "e \<in> uf_edges q"
    then obtain y where e: "e = (y, q ! y)" "y < n" "q ! y \<noteq> y" by (auto simp: uf_edges_def q_def len)
    show "e \<in> (uf_edges p)\<^sup>+"
    proof (cases "y = x")
      case True
      with e x len have "e = (x, p ! (p ! x))" "p ! x \<noteq> x" by (auto simp: q_def)
      with grand show ?thesis by simp
    next
      case False
      with e have "e = (y, p ! y)" "p ! y \<noteq> y" by (auto simp: q_def)
      with edge e(2) show ?thesis by (auto intro: r_into_trancl)
    qed
  qed
  have "(z, z) \<notin> (uf_edges q)\<^sup>+" for z
    using trancl_mono [OF _ sub, of "(z, z)"] ac by (auto simp: acyclic_def trancl_id [OF trans_trancl])
  then have "acyclic (uf_edges q)" by (simp add: acyclic_def)
  then show okq: "uf_ok n q" using len rng x by (auto simp: uf_ok_def q_def nth_list_update)
  have loop: "q ! r = r \<Longrightarrow> p ! r = r" if "r < n" for r
    using grand ac that x len by (auto simp: q_def nth_list_update acyclic_def split: if_splits)
  fix y
  assume y: "y < n"
  from uf_rep_leads [OF okq y] have "(y, uf_rep q y) \<in> (uf_edges q)\<^sup>*" "q ! uf_rep q y = uf_rep q y"
    by (auto simp: leads_to_def)
  moreover from this(1) have "(y, uf_rep q y) \<in> (uf_edges p)\<^sup>*"
    using rtrancl_mono [OF sub] by auto
  ultimately have "leads_to p y (uf_rep q y)"
    using uf_edges_range [OF okq _ y] loop by (auto simp: leads_to_def)
  then show "uf_rep q y = uf_rep p y" by (simp add: uf_rep_eq)
qed

text \<open>\<open>find\<close> returns the representative: every step climbs a link of the array it started from.\<close>

lemma uf_find_rep:
  assumes "uf_ok n p" and "x < n"
  shows "\<exists>q. uf_find p x = Some (q, uf_rep p x) \<and> uf_ok n q \<and> (\<forall>y < n. uf_rep q y = uf_rep p y)"
proof -
  have "wf ((uf_edges p)\<inverse>)"
    using assms(1) finite_uf_edges by (intro finite_acyclic_wf_converse) (auto simp: uf_ok_def)
  then have "wf (((uf_edges p)\<^sup>+)\<inverse>)" by (simp add: wf_trancl flip: trancl_converse)
  then have "\<And>q. uf_ok n q \<Longrightarrow> uf_edges q \<subseteq> (uf_edges p)\<^sup>+ \<Longrightarrow> x < n \<Longrightarrow>
    \<exists>q'. uf_find q x = Some (q', uf_rep q x) \<and> uf_ok n q' \<and> (\<forall>y < n. uf_rep q' y = uf_rep q y)"
  proof (induction x rule: wf_induct_rule)
    case (less x)
    show ?case
    proof (cases "q ! x = x")
      case True
      then have "uf_rep q x = x" by (intro uf_rep_eq) (simp add: leads_to_def)
      moreover have "uf_find q x = Some (q, x)" using True by (subst uf_find.simps) simp
      ultimately show ?thesis using less.prems(1) by auto
    next
      case False
      let ?q = "q[x := q ! (q ! x)]" and ?z = "q ! (q ! x)"
      note h = uf_halve [OF less.prems(1,3)]
      have z: "?z < n" using less.prems(1,3) by (auto simp: uf_ok_def)
      have len: "length q = n" using less.prems(1) by (simp add: uf_ok_def)
      have "(x, q ! x) \<in> (uf_edges q)" using False less.prems(3) len by (simp add: uf_edges_def)
      moreover have "(q ! x, ?z) \<in> (uf_edges q)\<^sup>*"
        using less.prems(1,3) by (cases "?z = q ! x") (auto simp: uf_edges_def uf_ok_def)
      ultimately have climb: "(x, ?z) \<in> (uf_edges q)\<^sup>+" by (rule rtrancl_into_trancl2)
      have lift: "(uf_edges q)\<^sup>+ \<subseteq> (uf_edges p)\<^sup>+"
        using less.prems(2) trancl_mono by (metis subrelI trancl_id trans_trancl)
      have "leads_to q x (uf_rep q ?z)"
        using climb uf_rep_leads [OF less.prems(1) z] by (auto simp: leads_to_def intro: rtrancl_trans)
      then have rep: "uf_rep q ?z = uf_rep q x" by (simp add: uf_rep_eq)
      have "(?z, x) \<in> ((uf_edges p)\<^sup>+)\<inverse>" using climb lift by auto
      from less.IH [OF this h(2) _ z] h(1) lift obtain q' where
        "uf_find ?q ?z = Some (q', uf_rep ?q ?z)" "uf_ok n q'" "\<forall>y < n. uf_rep q' y = uf_rep ?q y" by auto
      moreover have "uf_find q x = uf_find ?q ?z" using False by (subst uf_find.simps) simp
      ultimately show ?thesis using h(3) z rep by auto
    qed
  qed
  from this [OF assms(1) _ assms(2)] show ?thesis by (auto intro: r_into_trancl')
qed

lemma uf_link:
  assumes ok: "uf_ok n p" and a: "a < n" "p ! a = a" and b: "b < n" "p ! b = b" and "a \<noteq> b"
  defines "q \<equiv> p[a := b]"
  shows "uf_ok n q" and "\<And>z. z < n \<Longrightarrow> uf_rep q z = (if uf_rep p z = a then b else uf_rep p z)"
proof -
  from ok have len: "length p = n" by (simp add: uf_ok_def)
  have E: "uf_edges q = insert (a, b) (uf_edges p)"
    using a b \<open>a \<noteq> b\<close> len by (auto simp: uf_edges_def q_def nth_list_update)
  have "(b, a) \<notin> (uf_edges p)\<^sup>*" using root_stays [of b a p] b(2) \<open>a \<noteq> b\<close> by auto
  then have "acyclic (uf_edges q)" using ok by (simp add: E acyclic_insert uf_ok_def)
  moreover have "q ! x < n" if "x < n" for x
    using ok b(1) len that by (cases "x = a") (auto simp: uf_ok_def q_def)
  ultimately show okq: "uf_ok n q" by (simp add: uf_ok_def len q_def)
  fix z
  assume z: "z < n"
  from uf_rep_leads [OF ok z] have l: "(z, uf_rep p z) \<in> (uf_edges p)\<^sup>*" "p ! uf_rep p z = uf_rep p z"
    by (auto simp: leads_to_def)
  have m: "(uf_edges p)\<^sup>* \<subseteq> (uf_edges q)\<^sup>*" unfolding E by (rule rtrancl_mono) auto
  have qb: "q ! b = b" using b \<open>a \<noteq> b\<close> by (simp add: q_def)
  have "leads_to q z (if uf_rep p z = a then b else uf_rep p z)"
  proof (cases "uf_rep p z = a")
    case True
    then have "(z, a) \<in> (uf_edges q)\<^sup>*" using l(1) m by auto
    moreover have "(a, b) \<in> uf_edges q" by (simp add: E)
    ultimately show ?thesis using True qb by (auto simp: leads_to_def intro: rtrancl_into_rtrancl)
  next
    case False
    then show ?thesis using l m by (auto simp: leads_to_def q_def)
  qed
  then show "uf_rep q z = (if uf_rep p z = a then b else uf_rep p z)" by (rule uf_rep_eq)
qed

lemma uf_rep_root: "uf_ok n p \<Longrightarrow> x < n \<Longrightarrow> uf_rep p x < n \<and> p ! uf_rep p x = uf_rep p x"
  using uf_rep_leads [of n p x] uf_edges_range [of n p x "uf_rep p x"] by (auto simp: leads_to_def)

lemma uf_union_rep:
  assumes "uf_ok n p" and "x < n" and "y < n"
  shows "\<exists>q. uf_union p x y = Some q \<and> uf_ok n q
    \<and> (\<forall>z < n. uf_rep q z = (if uf_rep p z = uf_rep p x then uf_rep p y else uf_rep p z))"
proof -
  from uf_find_rep [OF assms(1,2)] obtain p1 where p1: "uf_find p x = Some (p1, uf_rep p x)" "uf_ok n p1"
    and r1: "\<forall>z < n. uf_rep p1 z = uf_rep p z" by blast
  from uf_find_rep [OF p1(2) assms(3)] obtain p2 where p2: "uf_find p1 y = Some (p2, uf_rep p1 y)" "uf_ok n p2"
    and r2: "\<forall>z < n. uf_rep p2 z = uf_rep p1 z" by blast
  have r: "uf_rep p2 z = uf_rep p z" if "z < n" for z using that r1 r2 by simp
  show ?thesis
  proof (cases "uf_rep p x = uf_rep p y")
    case True
    then show ?thesis using p1 p2 r r1 assms(3) by (auto simp: uf_union_def)
  next
    case False
    have "uf_rep p x < n \<and> p2 ! uf_rep p x = uf_rep p x" "uf_rep p y < n \<and> p2 ! uf_rep p y = uf_rep p y"
      using uf_rep_root [OF p2(2)] r assms(2,3) by metis+
    with uf_link [OF p2(2) _ _ _ _ False] False p1 p2 r r1 assms(3) show ?thesis
      by (auto simp: uf_union_def)
  qed
qed

lemma uf_ok_init: "uf_ok n [0..<n]"
proof -
  have "uf_edges [0..<n] = {}" by (auto simp: uf_edges_def)
  then show ?thesis by (simp add: uf_ok_def acyclic_def)
qed

lemma uf_rep_init: "x < n \<Longrightarrow> uf_rep [0..<n] x = x"
  by (rule uf_rep_eq) (simp add: leads_to_def)

interpretation ufa: union_find uf_find uf_union uf_ok uf_rep
  by unfold_locales (rule uf_find_rep uf_union_rep; assumption)+

section \<open>Pairs and canonical names\<close>

lemma fuzzy_similarity_total: "\<exists>x. fuzzy_similarity nrm ratio a b = Some x"
  using jaro_winkler_range [of "nrm a" "nrm b"] by (auto simp: fuzzy_similarity_def Let_def)

lemma resolve_pair_total: "\<exists>cand. resolve_pair nrm ratio c a b = Some cand"
  using fuzzy_similarity_total [of nrm ratio a b] by (auto simp: resolve_pair_def split: option.splits)

lemma set_index_pairs: "set (index_pairs n) = {(i, j). i < j \<and> j < n}"
proof -
  have "(i, j) \<in> set (index_pairs n) \<longleftrightarrow> i < j \<and> j < n" for i j
    by (auto simp: index_pairs_def intro!: bexI [of _ i])
  then show ?thesis by auto
qed

lemma distinct_concat_Pair:
  "distinct is \<Longrightarrow> (\<And>i. distinct (f i)) \<Longrightarrow> distinct (concat (map (\<lambda>i. map (Pair i) (f i)) is))"
  by (induction "is") (auto simp: distinct_map inj_on_def)

lemma distinct_index_pairs: "distinct (index_pairs n)"
  unfolding index_pairs_def by (rule distinct_concat_Pair) auto

lemma first_longest_spec:
  assumes "xs \<noteq> []"
  shows "\<exists>k < length xs. first_longest xs = Some (xs ! k) \<and> (\<forall>j < k. length (xs ! j) < length (xs ! k))
    \<and> (\<forall>j < length xs. length (xs ! j) \<le> length (xs ! k))"
  using assms
proof (induction xs rule: rev_nonempty_induct)
  case (single x)
  then show ?case by (simp add: first_longest_def)
next
  case (snoc x xs)
  then obtain k where k: "k < length xs" "first_longest xs = Some (xs ! k)"
    "\<forall>j < k. length (xs ! j) < length (xs ! k)" "\<forall>j < length xs. length (xs ! j) \<le> length (xs ! k)" by blast
  have fl: "first_longest (xs @ [x]) = Some (if length (xs ! k) < length x then x else xs ! k)"
    using k(2) snoc.hyps by (auto simp: first_longest_def split: list.splits)
  show ?case
  proof (cases "length (xs ! k) < length x")
    case True
    with fl k show ?thesis by (intro exI [of _ "length xs"]) (auto simp: nth_append intro: le_less_trans)
  next
    case False
    with fl k show ?thesis by (intro exI [of _ k]) (auto simp: nth_append)
  qed
qed

section \<open>Resolution\<close>

text \<open>Two indices match when the candidate of the pair, earlier index first, reaches its threshold.\<close>

definition match_graph :: "(string \<Rightarrow> string) \<Rightarrow> (string \<Rightarrow> string \<Rightarrow> real) \<Rightarrow> entity_resolver \<Rightarrow> string list \<Rightarrow> (nat \<times> nat) set" where
  "match_graph nrm ratio c es =
     {(i, j). i \<noteq> j \<and> max i j < length es \<and>
        (\<exists>cand. resolve_pair nrm ratio c (es ! min i j) (es ! max i j) = Some cand
           \<and> merge_threshold c cand \<le> ec_similarity cand)}"

text \<open>What the result of a group of indices must say.\<close>

definition describes :: "(string \<Rightarrow> string) \<Rightarrow> (string \<Rightarrow> string \<Rightarrow> real) \<Rightarrow> entity_resolver \<Rightarrow> string list
    \<Rightarrow> nat list \<Rightarrow> er_result \<Rightarrow> bool" where
  "describes nrm ratio c es g r \<longleftrightarrow>
     (\<exists>k \<in> set g. rs_canonical r = es ! k \<and> (\<forall>i \<in> set g. length (es ! i) \<le> length (es ! k))
        \<and> (\<forall>i \<in> set g. i < k \<longrightarrow> length (es ! i) < length (es ! k)))
     \<and> rs_aliases r = filter (\<lambda>s. s \<noteq> rs_canonical r) (map ((!) es) g)
     \<and> (rs_merged r \<longleftrightarrow> 1 < length g)
     \<and> map Some (rs_candidates r) =
         map (\<lambda>(i, j). resolve_pair nrm ratio c (es ! i) (es ! j))
           (filter (\<lambda>(i, j). i \<in> set g \<and> j \<in> set g) (index_pairs (length es)))"

lemma match_edges_graph:
  assumes "\<And>i j. resolve_pair nrm ratio c (es ! i) (es ! j) = Some (pc i j)"
  shows "match_edges pc (merge_threshold c) (index_pairs (length es)) = match_graph nrm ratio c es"
proof -
  let ?M = "{(i, j). (i, j) \<in> set (index_pairs (length es)) \<and> merge_threshold c (pc i j) \<le> ec_similarity (pc i j)}"
  have "(i, j) \<in> ?M \<union> ?M\<inverse> \<longleftrightarrow> (i, j) \<in> match_graph nrm ratio c es" for i j
    by (cases i j rule: linorder_cases) (auto simp: set_index_pairs match_graph_def assms)
  then show ?thesis unfolding match_edges_def Let_def by auto
qed

lemma group_result_describes:
  assumes pc: "\<And>i j. resolve_pair nrm ratio c (es ! i) (es ! j) = Some (pc i j)"
    and g: "g \<noteq> []" "sorted_wrt (<) g"
  shows "\<exists>r. group_result es (map (\<lambda>(i, j). ((i, j), pc i j)) (index_pairs (length es))) g = Some r
    \<and> describes nrm ratio c es g r"
proof -
  let ?xs = "map ((!) es) g"
  from first_longest_spec [of ?xs] g(1) obtain k where k: "k < length g" "first_longest ?xs = Some (es ! (g ! k))"
    and lt: "\<forall>j < k. length (es ! (g ! j)) < length (es ! (g ! k))"
    and le: "\<forall>j < length g. length (es ! (g ! j)) \<le> length (es ! (g ! k))" by auto
  have "\<forall>i \<in> set g. i < g ! k \<longrightarrow> length (es ! i) < length (es ! (g ! k))"
  proof (intro ballI impI)
    fix i
    assume "i \<in> set g" "i < g ! k"
    then obtain j where j: "j < length g" "i = g ! j" by (auto simp: in_set_conv_nth)
    have "\<not> k \<le> j"
      using \<open>i < g ! k\<close> j k(1) sorted_wrt_nth_less [OF g(2), of k j] by (cases "k = j") auto
    with lt j(2) show "length (es ! i) < length (es ! (g ! k))" by auto
  qed
  moreover have "\<forall>i \<in> set g. length (es ! i) \<le> length (es ! (g ! k))" using le by (auto simp: in_set_conv_nth)
  moreover have "g ! k \<in> set g" using k(1) by simp
  ultimately show ?thesis using k
    by (auto simp: group_result_def describes_def filter_map comp_def split_def pc)
qed

lemma those_map_list_all2:
  "(\<And>x. x \<in> set xs \<Longrightarrow> \<exists>y. f x = Some y \<and> P x y) \<Longrightarrow> \<exists>ys. those (map f xs) = Some ys \<and> list_all2 P xs ys"
proof (induction xs)
  case (Cons x xs)
  obtain y where "f x = Some y" "P x y" using Cons.prems [of x] by auto
  moreover obtain ys where "those (map f xs) = Some ys" "list_all2 P xs ys" using Cons by auto
  ultimately show ?case by (intro exI [of _ "y # ys"]) simp
qed simp

lemma class_is_component:
  assumes "\<forall>x < n. \<forall>y < n. uf_rep p x = uf_rep p y \<longleftrightarrow> (x, y) \<in> R\<^sup>*"
    and "\<exists>r. g = class_of uf_rep p r [0..<n] \<and> g \<noteq> []"
  shows "g \<noteq> [] \<and> sorted g \<and> (\<forall>i \<in> set g. \<forall>j < n. j \<in> set g \<longleftrightarrow> (i, j) \<in> R\<^sup>*)"
proof -
  from assms(2) obtain r where g: "g = class_of uf_rep p r [0..<n]" "g \<noteq> []" by blast
  then have in_g: "i \<in> set g \<longleftrightarrow> i < n \<and> uf_rep p i = r" for i by (auto simp: class_of_def)
  have "sorted g" by (simp add: g(1) class_of_def sorted_wrt_filter)
  moreover have "j \<in> set g \<longleftrightarrow> (i, j) \<in> R\<^sup>*" if "i \<in> set g" "j < n" for i j
    using that assms(1) [rule_format, of i j] by (auto simp: in_g)
  ultimately show ?thesis using g(2) by blast
qed

section \<open>Property\<close>

text \<open>C4. \<open>resolve\<close> always returns, and its results are exactly the connected components of the match
  graph: the groups partition the mentions, two mentions share a group when a chain of matches links
  them, and every result names the first of the longest forms, its other forms, and the evidence of its pairs.\<close>

theorem resolve_components:
  "\<exists>rs gs. er_resolve nrm ratio c es = Some rs
    \<and> distinct (concat gs) \<and> set (concat gs) = {..<length es}
    \<and> (\<forall>g \<in> set gs. g \<noteq> [] \<and> sorted g
         \<and> (\<forall>i \<in> set g. \<forall>j < length es. j \<in> set g \<longleftrightarrow> (i, j) \<in> (match_graph nrm ratio c es)\<^sup>*))
    \<and> list_all2 (describes nrm ratio c es) gs rs"
proof (cases "es = []")
  case True
  then show ?thesis by (intro exI [of _ "[]"]) (simp add: er_resolve_def)
next
  case False
  let ?n = "length es" and ?R = "match_graph nrm ratio c es"
  define pc where "pc i j = the (resolve_pair nrm ratio c (es ! i) (es ! j))" for i j
  have pc: "resolve_pair nrm ratio c (es ! i) (es ! j) = Some (pc i j)" for i j
    using resolve_pair_total [of nrm ratio c "es ! i" "es ! j"] by (auto simp: pc_def)
  let ?cs = "map (\<lambda>(i, j). ((i, j), pc i j)) (index_pairs ?n)"
  have "\<forall>x < ?n. \<forall>y < ?n. uf_rep [0..<?n] x = uf_rep [0..<?n] y \<longleftrightarrow> (x, y) \<in> {}\<^sup>*" by (simp add: uf_rep_init)
  from ufa.compare_pairs_components [where pr = "\<lambda>i j. resolve_pair nrm ratio c (es ! i) (es ! j)"
      and pc = pc and cs = "[]" and th = "merge_threshold c", OF uf_ok_init _ this _ distinct_index_pairs [of ?n]]
  obtain p where p: "compare_pairs uf_union (\<lambda>i j. resolve_pair nrm ratio c (es ! i) (es ! j)) (merge_threshold c)
      (index_pairs ?n) [0..<?n] [] = Some (p, ?cs)" "uf_ok ?n p"
    and comp: "\<forall>x < ?n. \<forall>y < ?n. uf_rep p x = uf_rep p y \<longleftrightarrow> (x, y) \<in> ?R\<^sup>*"
    by (auto simp: set_index_pairs sym_def pc match_edges_graph [OF pc])
  have "ufa.grouped p [] []" by (simp add: ufa.grouped_def class_of_def)
  from ufa.group_roots_grouped [OF p(2) this, of "[0..<?n]"] obtain gs where
    gs: "group_roots uf_find [0..<?n] p [] = Some gs" "ufa.grouped p [0..<?n] gs" by (auto simp: atLeast0LessThan)
  have mem: "\<exists>r. g = class_of uf_rep p r [0..<?n] \<and> g \<noteq> []" if "g \<in> set (map snd gs)" for g
    using ufa.grouped_member [OF gs(2) that] by blast
  have "\<exists>rs. those (map (group_result es ?cs) (map snd gs)) = Some rs \<and> list_all2 (describes nrm ratio c es) (map snd gs) rs"
    by (rule those_map_list_all2, rule group_result_describes [OF pc])
      (use mem in \<open>force simp: class_of_def intro: sorted_wrt_filter\<close>)+
  then obtain rs where "those (map (group_result es ?cs) (map snd gs)) = Some rs"
    and d: "list_all2 (describes nrm ratio c es) (map snd gs) rs" by blast
  then have "er_resolve nrm ratio c es = Some rs" using False p(1) gs(1) by (simp add: er_resolve_def Let_def)
  moreover have "\<forall>g \<in> set (map snd gs). g \<noteq> [] \<and> sorted g
      \<and> (\<forall>i \<in> set g. \<forall>j < ?n. j \<in> set g \<longleftrightarrow> (i, j) \<in> ?R\<^sup>*)"
    using mem class_is_component [OF comp] by blast
  moreover have "distinct (concat (map snd gs))" "set (concat (map snd gs)) = {..<?n}"
    using ufa.grouped_disjoint [OF gs(2)] ufa.grouped_covers [OF gs(2)] by (simp_all add: atLeast0LessThan)
  ultimately show ?thesis using d by blast
qed

theorem resolve_components_witness:
  "\<exists>rs gs. er_resolve id (\<lambda>_ _. 0)
      \<lparr>er_fuzzy_threshold = 4 / 5, er_embedding_threshold = 17 / 20, er_use_embedding = False, er_use_hybrid = False,
       er_embedding_matcher = None, er_hybrid_matcher = None\<rparr> [''HMM'', ''Pan Ocean'', ''HMM''] = Some rs
    \<and> length gs = length rs \<and> (\<exists>g \<in> set gs. (0 :: nat) \<in> set g \<and> 2 \<in> set g)"
proof -
  let ?c = "\<lparr>er_fuzzy_threshold = 4 / 5, er_embedding_threshold = 17 / 20, er_use_embedding = False,
    er_use_hybrid = False, er_embedding_matcher = None, er_hybrid_matcher = None\<rparr>"
  let ?es = "[''HMM'', ''Pan Ocean'', ''HMM'']" and ?q = "\<lambda>(_ :: string) (_ :: string). 0 :: real"
  have "(0, 2) \<in> match_graph id ?q ?c ?es" by (simp add: match_graph_def resolve_pair_def merge_threshold_def)
  then have e: "(0, 2) \<in> (match_graph id ?q ?c ?es)\<^sup>*" by (rule r_into_rtrancl)
  obtain rs gs where r: "er_resolve id ?q ?c ?es = Some rs" "set (concat gs) = {..<length ?es}"
    and g: "\<forall>g \<in> set gs. g \<noteq> [] \<and> sorted g
      \<and> (\<forall>i \<in> set g. \<forall>j < length ?es. j \<in> set g \<longleftrightarrow> (i, j) \<in> (match_graph id ?q ?c ?es)\<^sup>*)"
    and l: "list_all2 (describes id ?q ?c ?es) gs rs"
    using resolve_components [of id ?q ?c ?es] by blast
  have "0 \<in> set (concat gs)" unfolding r(2) by simp
  then obtain k where k: "k \<in> set gs" "0 \<in> set k" by auto
  then have "2 \<in> set k" using g e by simp
  with k r(1) list_all2_lengthD [OF l] show ?thesis by blast
qed

end
