(* ===== verification/Lineage.thy ===== *)
theory Lineage
  imports ETL
begin

text \<open>
  \<^verbatim>\<open>core/kg/lineage\<close>: the event types, the recording policy, the in-memory lineage graph with its
  breadth-first traversals, and the recorder that the ETL pipeline calls.

  Identifiers made by \<^verbatim>\<open>uuid4\<close> and clock readings are arguments of the operations that draw them.  A
  Python \<open>set\<close> of visited nodes is a list without duplicates; the order in which \<^verbatim>\<open>list(visited)\<close> comes
  out is unspecified in Python, and the theorems speak of its elements only.  Metadata are dictionaries of
  texts, and the rendering of metadata and instants as text is a parameter of \<open>flush\<close>.
\<close>

section \<open>Models\<close>

datatype lineage_event_type =
  EV_CREATION | EV_TRANSFORMATION | EV_DERIVATION | EV_INGESTION | EV_EXPORT | EV_DELETION | EV_MERGE | EV_SPLIT

datatype recording_level = RL_NONE | RL_MINIMAL | RL_STANDARD | RL_DETAILED | RL_FULL

type_synonym metadata = "(string, string) dict"

record lineage_node =
  ln_node_id :: string
  ln_entity_type :: string
  ln_entity_id :: string
  ln_created_at :: clock
  ln_metadata :: metadata

record lineage_edge =
  le_edge_id :: string
  le_source_id :: string
  le_target_id :: string
  le_event_type :: lineage_event_type
  le_timestamp :: clock
  le_agent :: string
  le_activity :: string
  le_metadata :: metadata

record lineage_graph =
  lg_nodes :: "(string, lineage_node) dict"
  lg_edges :: "lineage_edge list"

record data_snapshot =
  sn_snapshot_id :: string
  sn_entity_type :: string
  sn_entity_id :: string
  sn_properties :: metadata
  sn_captured_at :: clock
  sn_captured_by :: string

definition lineage_graph_init :: lineage_graph where
  "lineage_graph_init = \<lparr>lg_nodes = [], lg_edges = []\<rparr>"

definition lg_add_node :: "lineage_node \<Rightarrow> lineage_graph \<Rightarrow> lineage_graph" where
  "lg_add_node n g = g\<lparr>lg_nodes := AList.update (ln_node_id n) n (lg_nodes g)\<rparr>"

definition lg_add_edge :: "lineage_edge \<Rightarrow> lineage_graph \<Rightarrow> lineage_graph" where
  "lg_add_edge e g = g\<lparr>lg_edges := lg_edges g @ [e]\<rparr>"

section \<open>Breadth-first traversal\<close>

text \<open>\<^verbatim>\<open>adj.setdefault(key(e), []).append(val(e))\<close> over the edges.\<close>

definition group_edges :: "(lineage_edge \<Rightarrow> string) \<Rightarrow> (lineage_edge \<Rightarrow> string) \<Rightarrow> lineage_edge list \<Rightarrow> (string, string list) dict" where
  "group_edges key val es = fold (\<lambda>e d. AList.update (key e) (dict_get_or d (key e) [] @ [val e]) d) es []"

text \<open>The inner loop: unvisited neighbours are marked and queued.\<close>

fun bfs_visit :: "'a list \<Rightarrow> 'a list \<times> 'a list \<Rightarrow> 'a list \<times> 'a list" where
  "bfs_visit [] st = st"
| "bfs_visit (x # xs) (visited, queue) =
     bfs_visit xs (if x \<in> set visited then (visited, queue) else (visited @ [x], queue @ [x]))"

definition neighbours :: "('a, 'a list) dict \<Rightarrow> 'a \<Rightarrow> 'a list" where
  "neighbours adj x = dict_get_or adj x []"

definition adj_range :: "('a, 'a list) dict \<Rightarrow> 'a set" where
  "adj_range adj = (\<Union>x \<in> fst ` set adj. set (neighbours adj x))"

lemma finite_adj_range [simp, intro]: "finite (adj_range adj)"
  by (simp add: adj_range_def)

lemma neighbours_in_range: "set (neighbours adj x) \<subseteq> adj_range adj"
proof (cases "x \<in> fst ` set adj")
  case False
  then have "map_of adj x = None" by (simp add: map_of_eq_None_iff)
  then show ?thesis by (simp add: neighbours_def dict_get_or_def)
qed (auto simp: adj_range_def)

text \<open>What one round of marking does to the visited nodes and the queue.\<close>

lemma bfs_visit_spec:
  "\<exists>new. bfs_visit xs (v, q) = (v @ new, q @ new) \<and> distinct new \<and> set new = set xs - set v"
proof (induction xs arbitrary: v q)
  case (Cons x xs)
  show ?case
  proof (cases "x \<in> set v")
    case True
    then show ?thesis using Cons.IH [of v q] by auto
  next
    case False
    obtain new where "bfs_visit xs (v @ [x], q @ [x]) = ((v @ [x]) @ new, (q @ [x]) @ new)" "distinct new"
      "set new = set xs - set (v @ [x])" using Cons.IH [of "v @ [x]" "q @ [x]"] by blast
    with False show ?thesis by (intro exI [of _ "x # new"]) auto
  qed
qed simp

lemma bfs_visit_measure:
  assumes "bfs_visit (neighbours adj c) (v, q) = (v', q')"
  shows "card (adj_range adj - set v') + length q' = card (adj_range adj - set v) + length q"
proof -
  obtain new where n: "v' = v @ new" "q' = q @ new" "distinct new" "set new = set (neighbours adj c) - set v"
    using bfs_visit_spec [of "neighbours adj c" v q] assms by auto
  then have sub: "set new \<subseteq> adj_range adj - set v" using neighbours_in_range [of adj c] by blast
  have "card (adj_range adj - set v') = card ((adj_range adj - set v) - set new)"
    unfolding n(1) by (rule arg_cong [of _ _ card]) auto
  also have "\<dots> = card (adj_range adj - set v) - length new"
    using sub n(3) by (simp add: card_Diff_subset distinct_card)
  finally show ?thesis
    using card_mono [OF _ sub] n(2,3) by (simp add: distinct_card)
qed

function bfs_loop :: "('a, 'a list) dict \<Rightarrow> 'a list \<Rightarrow> 'a list \<Rightarrow> 'a list" where
  "bfs_loop adj visited [] = visited"
| "bfs_loop adj visited (c # queue) =
     (case bfs_visit (neighbours adj c) (visited, queue) of (v, q) \<Rightarrow> bfs_loop adj v q)"
  by pat_completeness auto
termination
proof (relation "measure (\<lambda>(adj, v, q). card (adj_range adj - set v) + length q)")
  fix adj :: "('a, 'a list) dict" and visited c queue v q
  assume "(v, q) = bfs_visit (neighbours adj c) (visited, queue)"
  then have "bfs_visit (neighbours adj c) (visited, queue) = (v, q)" by simp
  from bfs_visit_measure [OF this]
  show "((adj, v, q), (adj, visited, c # queue)) \<in> measure (\<lambda>(adj, v, q). card (adj_range adj - set v) + length q)"
    by simp
qed simp

definition bfs_from :: "('a, 'a list) dict \<Rightarrow> 'a \<Rightarrow> 'a list" where
  "bfs_from adj x = (case bfs_visit (neighbours adj x) ([], []) of (v, q) \<Rightarrow> bfs_loop adj v q)"

definition get_ancestors :: "lineage_graph \<Rightarrow> string \<Rightarrow> string list" where
  "get_ancestors g nid = bfs_from (group_edges le_target_id le_source_id (lg_edges g)) nid"

definition get_descendants :: "lineage_graph \<Rightarrow> string \<Rightarrow> string list" where
  "get_descendants g nid = bfs_from (group_edges le_source_id le_target_id (lg_edges g)) nid"

section \<open>Policy\<close>

definition minimal_events :: "lineage_event_type list" where
  "minimal_events = [EV_CREATION, EV_DELETION]"

definition standard_events :: "lineage_event_type list" where
  "standard_events = [EV_CREATION, EV_TRANSFORMATION, EV_DELETION, EV_MERGE]"

definition detailed_events :: "lineage_event_type list" where
  "detailed_events = [EV_CREATION, EV_TRANSFORMATION, EV_DERIVATION, EV_INGESTION, EV_DELETION, EV_MERGE, EV_SPLIT]"

definition full_events :: "lineage_event_type list" where
  "full_events = [EV_CREATION, EV_TRANSFORMATION, EV_DERIVATION, EV_INGESTION, EV_EXPORT, EV_DELETION, EV_MERGE, EV_SPLIT]"

fun level_events :: "recording_level \<Rightarrow> lineage_event_type list" where
  "level_events RL_NONE = []"
| "level_events RL_MINIMAL = minimal_events"
| "level_events RL_STANDARD = standard_events"
| "level_events RL_DETAILED = detailed_events"
| "level_events RL_FULL = full_events"

definition snapshot_levels :: "recording_level list" where
  "snapshot_levels = [RL_DETAILED, RL_FULL]"

definition classification_map :: "(int, recording_level) dict" where
  "classification_map = [(1, RL_MINIMAL), (2, RL_STANDARD), (3, RL_STANDARD), (4, RL_DETAILED), (5, RL_FULL)]"

record lineage_policy =
  lp_default_level :: recording_level
  lp_rules :: "(string, recording_level) dict"

definition lineage_policy_init :: "recording_level \<Rightarrow> lineage_policy" where
  "lineage_policy_init lvl = \<lparr>lp_default_level = lvl, lp_rules = []\<rparr>"

definition lp_set_level :: "string \<Rightarrow> recording_level \<Rightarrow> lineage_policy \<Rightarrow> lineage_policy" where
  "lp_set_level ty lvl p = p\<lparr>lp_rules := AList.update ty lvl (lp_rules p)\<rparr>"

definition lp_get_level :: "lineage_policy \<Rightarrow> string \<Rightarrow> recording_level" where
  "lp_get_level p ty = dict_get_or (lp_rules p) ty (lp_default_level p)"

definition should_record :: "lineage_policy \<Rightarrow> string \<Rightarrow> lineage_event_type \<Rightarrow> bool" where
  "should_record p ty ev \<longleftrightarrow> ev \<in> set (level_events (lp_get_level p ty))"

definition should_snapshot :: "lineage_policy \<Rightarrow> string \<Rightarrow> bool" where
  "should_snapshot p ty \<longleftrightarrow> lp_get_level p ty \<in> set snapshot_levels"

datatype lineage_error = InvalidClassificationLevel int

definition from_data_classification :: "int \<Rightarrow> (lineage_error, recording_level) res" where
  "from_data_classification lvl =
     (case map_of classification_map lvl of None \<Rightarrow> Inl (InvalidClassificationLevel lvl) | Some r \<Rightarrow> Inr r)"

section \<open>Recorder\<close>

record lineage_recorder =
  lr_policy :: lineage_policy
  lr_graph :: lineage_graph
  lr_snapshots :: "data_snapshot list"
  lr_entity_node_map :: "(string, string) dict"

definition lineage_recorder_init :: "lineage_policy option \<Rightarrow> lineage_recorder" where
  "lineage_recorder_init p =
     \<lparr>lr_policy = (case p of None \<Rightarrow> lineage_policy_init RL_STANDARD | Some q \<Rightarrow> q),
      lr_graph = lineage_graph_init, lr_snapshots = [], lr_entity_node_map = []\<rparr>"

definition lookup_key :: "string \<Rightarrow> string \<Rightarrow> string" where
  "lookup_key ty eid = ty @ '':'' @ eid"

text \<open>\<open>nid\<close> and \<open>now\<close> are the fresh identifier and the instant that are used if a node is created.\<close>

definition get_or_create_node :: "string \<Rightarrow> clock \<Rightarrow> string \<Rightarrow> string \<Rightarrow> metadata option \<Rightarrow> lineage_recorder
    \<Rightarrow> lineage_node \<times> lineage_recorder" where
  "get_or_create_node nid now ty eid md r =
     (let key = lookup_key ty eid;
          new = \<lparr>ln_node_id = nid, ln_entity_type = ty, ln_entity_id = eid, ln_created_at = now,
                 ln_metadata = (case md of None \<Rightarrow> [] | Some m \<Rightarrow> m)\<rparr>;
          created = (new, r\<lparr>lr_graph := lg_add_node new (lr_graph r),
                            lr_entity_node_map := AList.update key nid (lr_entity_node_map r)\<rparr>)
      in case map_of (lr_entity_node_map r) key of
           None \<Rightarrow> created
         | Some ex \<Rightarrow>
             (case map_of (lg_nodes (lr_graph r)) ex of
                None \<Rightarrow> created
              | Some n \<Rightarrow> if ex = [] then created else (n, r)))"

definition record_event :: "string \<Rightarrow> string \<Rightarrow> clock \<Rightarrow> clock \<Rightarrow> string \<Rightarrow> string \<Rightarrow> lineage_event_type \<Rightarrow> string \<Rightarrow> string
    \<Rightarrow> metadata option \<Rightarrow> lineage_recorder \<Rightarrow> lineage_edge option \<times> lineage_recorder" where
  "record_event nid xid t1 t2 ty eid ev agent activity md r =
     (if \<not> should_record (lr_policy r) ty ev then (None, r)
      else (let (n, r1) = get_or_create_node nid t1 ty eid md r;
                e = \<lparr>le_edge_id = xid, le_source_id = ln_node_id n, le_target_id = ln_node_id n, le_event_type = ev,
                     le_timestamp = t2, le_agent = agent, le_activity = activity,
                     le_metadata = (case md of None \<Rightarrow> [] | Some m \<Rightarrow> m)\<rparr>
            in (Some e, r1\<lparr>lr_graph := lg_add_edge e (lr_graph r1)\<rparr>)))"

definition record_derivation :: "string \<Rightarrow> string \<Rightarrow> string \<Rightarrow> clock \<Rightarrow> clock \<Rightarrow> clock \<Rightarrow> string \<Rightarrow> string \<Rightarrow> string \<Rightarrow> string
    \<Rightarrow> string \<Rightarrow> string \<Rightarrow> lineage_recorder \<Rightarrow> lineage_edge option \<times> lineage_recorder" where
  "record_derivation nid1 nid2 xid t1 t2 t3 sty sid tty tid agent activity r =
     (if \<not> should_record (lr_policy r) tty EV_DERIVATION then (None, r)
      else (let (s, r1) = get_or_create_node nid1 t1 sty sid None r;
                (t, r2) = get_or_create_node nid2 t2 tty tid None r1;
                e = \<lparr>le_edge_id = xid, le_source_id = ln_node_id s, le_target_id = ln_node_id t,
                     le_event_type = EV_DERIVATION, le_timestamp = t3, le_agent = agent,
                     le_activity = activity, le_metadata = []\<rparr>
            in (Some e, r2\<lparr>lr_graph := lg_add_edge e (lr_graph r2)\<rparr>)))"

definition take_snapshot :: "string \<Rightarrow> clock \<Rightarrow> string \<Rightarrow> string \<Rightarrow> metadata \<Rightarrow> string \<Rightarrow> lineage_recorder
    \<Rightarrow> data_snapshot option \<times> lineage_recorder" where
  "take_snapshot sid now ty eid props captured_by r =
     (if \<not> should_snapshot (lr_policy r) ty then (None, r)
      else (let s = \<lparr>sn_snapshot_id = sid, sn_entity_type = ty, sn_entity_id = eid, sn_properties = props,
                     sn_captured_at = now, sn_captured_by = captured_by\<rparr>
            in (Some s, r\<lparr>lr_snapshots := lr_snapshots r @ [s]\<rparr>)))"

definition get_lineage_for :: "lineage_recorder \<Rightarrow> string \<Rightarrow> lineage_graph" where
  "get_lineage_for r eid =
     (let g = lr_graph r in
      case List.find (\<lambda>n. ln_entity_id n = eid) (map snd (lg_nodes g)) of
        None \<Rightarrow> lineage_graph_init
      | Some n \<Rightarrow>
          (let nid = ln_node_id n;
               related = remdups (get_ancestors g nid @ get_descendants g nid @ [nid]);
               g1 = fold (\<lambda>i h. case map_of (lg_nodes g) i of None \<Rightarrow> h | Some m \<Rightarrow> lg_add_node m h)
                      related lineage_graph_init
           in fold (\<lambda>e h. if le_source_id e \<in> set related \<and> le_target_id e \<in> set related then lg_add_edge e h else h)
                (lg_edges g) g1))"

definition lr_clear :: "lineage_recorder \<Rightarrow> lineage_recorder" where
  "lr_clear r = r\<lparr>lr_graph := lineage_graph_init, lr_snapshots := [], lr_entity_node_map := []\<rparr>"

section \<open>Persistence\<close>

text \<open>
  \<open>flush\<close> sends one statement per node and then one per edge.  The session is the parameter \<open>run\<close>; it returns
  false when the statement raises.  An exception ends the loop and the count so far is returned.
\<close>

datatype lineage_stmt = MergeLineageNode | MergeLineageEdge

type_synonym stmt_params = "(string \<times> string) list"
type_synonym 's run_stmt = "lineage_stmt \<Rightarrow> stmt_params \<Rightarrow> 's \<Rightarrow> bool \<times> 's"

fun event_value :: "lineage_event_type \<Rightarrow> string" where
  "event_value EV_CREATION = ''CREATION''"
| "event_value EV_TRANSFORMATION = ''TRANSFORMATION''"
| "event_value EV_DERIVATION = ''DERIVATION''"
| "event_value EV_INGESTION = ''INGESTION''"
| "event_value EV_EXPORT = ''EXPORT''"
| "event_value EV_DELETION = ''DELETION''"
| "event_value EV_MERGE = ''MERGE''"
| "event_value EV_SPLIT = ''SPLIT''"

definition node_params :: "(clock \<Rightarrow> string) \<Rightarrow> (metadata \<Rightarrow> string) \<Rightarrow> lineage_node \<Rightarrow> stmt_params" where
  "node_params isof render n =
     [(''nodeId'', ln_node_id n), (''entityType'', ln_entity_type n), (''entityId'', ln_entity_id n),
      (''createdAt'', isof (ln_created_at n)),
      (''metadata'', if ln_metadata n = [] then [] else render (ln_metadata n))]"

definition edge_params :: "(clock \<Rightarrow> string) \<Rightarrow> (metadata \<Rightarrow> string) \<Rightarrow> lineage_edge \<Rightarrow> stmt_params" where
  "edge_params isof render e =
     [(''sourceId'', le_source_id e), (''targetId'', le_target_id e), (''edgeId'', le_edge_id e),
      (''eventType'', event_value (le_event_type e)), (''timestamp'', isof (le_timestamp e)),
      (''agent'', if le_agent e = [] then ''system'' else le_agent e), (''activity'', le_activity e),
      (''metadata'', if le_metadata e = [] then [] else render (le_metadata e))]"

fun send_all :: "'s run_stmt \<Rightarrow> (lineage_stmt \<times> stmt_params) list \<Rightarrow> 's \<Rightarrow> nat \<times> 's" where
  "send_all run [] s = (0, s)"
| "send_all run ((q, ps) # xs) s =
     (case run q ps s of
        (False, s1) \<Rightarrow> (0, s1)
      | (True, s1) \<Rightarrow> (case send_all run xs s1 of (n, s2) \<Rightarrow> (Suc n, s2)))"

definition flush :: "(clock \<Rightarrow> string) \<Rightarrow> (metadata \<Rightarrow> string) \<Rightarrow> 's run_stmt \<Rightarrow> lineage_recorder \<Rightarrow> 's \<Rightarrow> nat \<times> 's" where
  "flush isof render run r s =
     (let g = lr_graph r in
      if lg_nodes g = [] \<and> lg_edges g = [] then (0, s)
      else send_all run
             (map (\<lambda>n. (MergeLineageNode, node_params isof render n)) (map snd (lg_nodes g))
              @ map (\<lambda>e. (MergeLineageEdge, edge_params isof render e)) (lg_edges g)) s)"

section \<open>Traversal reaches exactly the transitive closure\<close>

definition adj_rel :: "('a, 'a list) dict \<Rightarrow> ('a \<times> 'a) set" where
  "adj_rel adj = {(x, y). y \<in> set (neighbours adj x)}"

lemma bfs_loop_distinct: "distinct v \<Longrightarrow> distinct (bfs_loop adj v q)"
proof (induction adj v q rule: bfs_loop.induct)
  case (2 adj v c q)
  obtain new where n: "bfs_visit (neighbours adj c) (v, q) = (v @ new, q @ new)" "distinct new"
    "set new = set (neighbours adj c) - set v" using bfs_visit_spec [of "neighbours adj c" v q] by blast
  then have "distinct (v @ new)" using "2.prems" by auto
  from "2.IH" [OF n(1) [symmetric] this] show ?case by (simp add: n(1))
qed simp

lemma bfs_loop_closed:
  assumes "set q \<subseteq> set v" and "adj_rel adj `` (set v - set q) \<subseteq> set v"
  shows "set v \<subseteq> set (bfs_loop adj v q) \<and> adj_rel adj `` set (bfs_loop adj v q) \<subseteq> set (bfs_loop adj v q)"
  using assms
proof (induction adj v q rule: bfs_loop.induct)
  case (2 adj v c q)
  obtain new where n: "bfs_visit (neighbours adj c) (v, q) = (v @ new, q @ new)"
    "set new = set (neighbours adj c) - set v" using bfs_visit_spec [of "neighbours adj c" v q] by blast
  have "set (q @ new) \<subseteq> set (v @ new)" using "2.prems"(1) by auto
  moreover have "adj_rel adj `` (set (v @ new) - set (q @ new)) \<subseteq> set (v @ new)"
  proof -
    have "set (v @ new) - set (q @ new) \<subseteq> insert c (set v - set (c # q))" by auto
    moreover have "adj_rel adj `` {c} \<subseteq> set (v @ new)" using n(2) by (auto simp: adj_rel_def)
    ultimately show ?thesis using "2.prems"(2) by auto
  qed
  ultimately have "set (v @ new) \<subseteq> set (bfs_loop adj (v @ new) (q @ new))
      \<and> adj_rel adj `` set (bfs_loop adj (v @ new) (q @ new)) \<subseteq> set (bfs_loop adj (v @ new) (q @ new))"
    by (rule "2.IH" [OF n(1) [symmetric]])
  then show ?case by (simp add: n(1))
qed auto

lemma bfs_loop_sound:
  assumes "set q \<subseteq> set v"
  shows "set (bfs_loop adj v q) \<subseteq> (adj_rel adj)\<^sup>* `` set v"
  using assms
proof (induction adj v q rule: bfs_loop.induct)
  case (2 adj v c q)
  obtain new where n: "bfs_visit (neighbours adj c) (v, q) = (v @ new, q @ new)"
    "set new = set (neighbours adj c) - set v" using bfs_visit_spec [of "neighbours adj c" v q] by blast
  have "set (q @ new) \<subseteq> set (v @ new)" using "2.prems" by auto
  from "2.IH" [OF n(1) [symmetric] this]
  have "set (bfs_loop adj v (c # q)) \<subseteq> (adj_rel adj)\<^sup>* `` set (v @ new)" by (simp add: n(1))
  also have "\<dots> \<subseteq> (adj_rel adj)\<^sup>* `` set v"
  proof
    fix y
    assume "y \<in> (adj_rel adj)\<^sup>* `` set (v @ new)"
    then obtain x where x: "x \<in> set v \<or> x \<in> set new" "(x, y) \<in> (adj_rel adj)\<^sup>*" by auto
    have "(c, x) \<in> adj_rel adj" if "x \<in> set new" using that n(2) by (auto simp: adj_rel_def)
    with x "2.prems" show "y \<in> (adj_rel adj)\<^sup>* `` set v" by (auto intro: converse_rtrancl_into_rtrancl)
  qed
  finally show ?case .
qed auto

lemma Image_rtrancl_closed: "set v \<subseteq> W \<Longrightarrow> R `` W \<subseteq> W \<Longrightarrow> R\<^sup>* `` set v \<subseteq> W"
  using Image_closed_trancl [of R W] by blast

lemma bfs_from_reachable: "set (bfs_from adj x) = (adj_rel adj)\<^sup>+ `` {x} \<and> distinct (bfs_from adj x)"
proof -
  obtain v where v: "bfs_visit (neighbours adj x) ([], []) = (v, v)" "distinct v" "set v = set (neighbours adj x)"
    using bfs_visit_spec [of "neighbours adj x" "[]" "[]"] by auto
  then have eq: "bfs_from adj x = bfs_loop adj v v" by (simp add: bfs_from_def)
  have "set (bfs_from adj x) = (adj_rel adj)\<^sup>* `` set v"
    unfolding eq using bfs_loop_sound [of v v adj] bfs_loop_closed [of v v adj]
    by (intro equalityI Image_rtrancl_closed) auto
  also have "\<dots> = (adj_rel adj)\<^sup>+ `` {x}"
    unfolding v(3) by (auto simp: adj_rel_def trancl_unfold_left dest: tranclD intro: rtrancl_into_trancl2)
  finally show ?thesis using v(2) by (simp add: eq bfs_loop_distinct)
qed

lemma group_edges_neighbours: "neighbours (group_edges key val es) x = map val (filter (\<lambda>e. key e = x) es)"
  unfolding group_edges_def
  by (induction es rule: rev_induct) (auto simp: neighbours_def dict_get_or_def map_of_update_dict)

definition lineage_rel :: "lineage_graph \<Rightarrow> (string \<times> string) set" where
  "lineage_rel g = {(le_source_id e, le_target_id e) | e. e \<in> set (lg_edges g)}"

lemma adj_rel_forward: "adj_rel (group_edges le_source_id le_target_id (lg_edges g)) = lineage_rel g"
  by (auto simp: adj_rel_def group_edges_neighbours lineage_rel_def)

lemma adj_rel_reverse: "adj_rel (group_edges le_target_id le_source_id (lg_edges g)) = (lineage_rel g)\<inverse>"
  by (auto simp: adj_rel_def group_edges_neighbours lineage_rel_def)

lemma ancestors_descendants:
  "set (get_ancestors g n) = {m. (m, n) \<in> (lineage_rel g)\<^sup>+}"
  "set (get_descendants g n) = {m. (n, m) \<in> (lineage_rel g)\<^sup>+}"
  by (simp_all add: get_ancestors_def get_descendants_def conjunct1 [OF bfs_from_reachable]
      adj_rel_forward adj_rel_reverse trancl_converse Image_def)

section \<open>Levels are ordered by what they record\<close>

fun level_rank :: "recording_level \<Rightarrow> nat" where
  "level_rank RL_NONE = 0"
| "level_rank RL_MINIMAL = 1"
| "level_rank RL_STANDARD = 2"
| "level_rank RL_DETAILED = 3"
| "level_rank RL_FULL = 4"

lemma level_rank_inject: "level_rank a = level_rank b \<longleftrightarrow> a = b"
  by (cases a; cases b) auto

instantiation recording_level :: linorder
begin

definition less_eq_recording_level :: "recording_level \<Rightarrow> recording_level \<Rightarrow> bool" where
  "a \<le> b \<longleftrightarrow> level_rank a \<le> level_rank b"

definition less_recording_level :: "recording_level \<Rightarrow> recording_level \<Rightarrow> bool" where
  "a < b \<longleftrightarrow> level_rank a < level_rank b"

instance
  by standard (auto simp: less_eq_recording_level_def less_recording_level_def level_rank_inject)

end

lemmas event_list_defs = minimal_events_def standard_events_def detailed_events_def full_events_def

lemma level_events_mono: "a \<le> b \<longleftrightarrow> set (level_events a) \<subseteq> set (level_events b)"
  by (cases a; cases b) (auto simp: less_eq_recording_level_def event_list_defs)

lemma snapshot_levels_upward: "a \<in> set snapshot_levels \<Longrightarrow> a \<le> b \<Longrightarrow> b \<in> set snapshot_levels"
  by (cases a; cases b) (auto simp: less_eq_recording_level_def snapshot_levels_def)

lemma classification_cases:
  "from_data_classification c = Inr a \<longleftrightarrow>
    (c = 1 \<and> a = RL_MINIMAL) \<or> (c \<in> {2, 3} \<and> a = RL_STANDARD) \<or> (c = 4 \<and> a = RL_DETAILED) \<or> (c = 5 \<and> a = RL_FULL)"
  by (auto simp: from_data_classification_def classification_map_def)

lemma classification_error: "(\<exists>e. from_data_classification c = Inl e) \<longleftrightarrow> c < 1 \<or> 5 < c"
  by (auto simp: from_data_classification_def classification_map_def)

section \<open>Runs of the recorder\<close>

datatype lineage_op =
    OpEvent string string clock clock string string lineage_event_type string string "metadata option"
  | OpDerive string string string clock clock clock string string string string string string
  | OpSnapshot string clock string string metadata string
  | OpClear

fun lr_step :: "lineage_op \<Rightarrow> lineage_recorder \<Rightarrow> lineage_recorder" where
  "lr_step (OpEvent nid xid t1 t2 ty eid ev ag act md) r = snd (record_event nid xid t1 t2 ty eid ev ag act md r)"
| "lr_step (OpDerive n1 n2 xid t1 t2 t3 sty sid tty tid ag act) r =
     snd (record_derivation n1 n2 xid t1 t2 t3 sty sid tty tid ag act r)"
| "lr_step (OpSnapshot sid t ty eid ps by_whom) r = snd (take_snapshot sid t ty eid ps by_whom r)"
| "lr_step OpClear r = lr_clear r"

text \<open>The node identifiers an operation may draw and the entity types it names.\<close>

fun op_ids :: "lineage_op \<Rightarrow> string list" where
  "op_ids (OpEvent nid _ _ _ _ _ _ _ _ _) = [nid]"
| "op_ids (OpDerive n1 n2 _ _ _ _ _ _ _ _ _ _) = [n1, n2]"
| "op_ids _ = []"

fun op_types :: "lineage_op \<Rightarrow> string list" where
  "op_types (OpEvent _ _ _ _ ty _ _ _ _ _) = [ty]"
| "op_types (OpDerive _ _ _ _ _ _ sty _ tty _ _ _) = [sty, tty]"
| "op_types _ = []"

definition plain_type :: "string \<Rightarrow> bool" where
  "plain_type ty \<longleftrightarrow> CHR '':'' \<notin> set ty"

lemma lookup_key_inject:
  "plain_type a \<Longrightarrow> plain_type b \<Longrightarrow> lookup_key a x = lookup_key b y \<longleftrightarrow> a = b \<and> x = y"
  by (auto simp: lookup_key_def plain_type_def append_eq_append_conv2 Cons_eq_append_conv append_eq_Cons_conv)

definition node_inv :: "string set \<Rightarrow> lineage_recorder \<Rightarrow> bool" where
  "node_inv used r \<longleftrightarrow>
     (\<forall>i n. map_of (lg_nodes (lr_graph r)) i = Some n \<longrightarrow> ln_node_id n = i \<and> i \<in> used \<and> plain_type (ln_entity_type n)
        \<and> map_of (lr_entity_node_map r) (lookup_key (ln_entity_type n) (ln_entity_id n)) = Some i)
   \<and> (\<forall>k i. map_of (lr_entity_node_map r) k = Some i \<longrightarrow>
        (\<exists>n. map_of (lg_nodes (lr_graph r)) i = Some n \<and> k = lookup_key (ln_entity_type n) (ln_entity_id n)))"

definition edge_inv :: "lineage_recorder \<Rightarrow> bool" where
  "edge_inv r \<longleftrightarrow>
     (\<forall>e \<in> set (lg_edges (lr_graph r)). \<exists>s t. map_of (lg_nodes (lr_graph r)) (le_source_id e) = Some s
        \<and> map_of (lg_nodes (lr_graph r)) (le_target_id e) = Some t
        \<and> should_record (lr_policy r) (ln_entity_type t) (le_event_type e))
   \<and> (\<forall>s \<in> set (lr_snapshots r). should_snapshot (lr_policy r) (sn_entity_type s))"

lemmas recorder_defs = record_event_def record_derivation_def take_snapshot_def lr_clear_def lg_add_node_def
  lg_add_edge_def lineage_graph_init_def Let_def split_beta

text \<open>A look-up with a fresh identifier: the node it returns and what it leaves alone.\<close>

definition looked_up :: "string set \<Rightarrow> string \<Rightarrow> string \<Rightarrow> lineage_recorder \<Rightarrow> lineage_node \<Rightarrow> lineage_recorder \<Rightarrow> bool" where
  "looked_up used ty eid r n r' \<longleftrightarrow>
     node_inv used r' \<and> map_of (lg_nodes (lr_graph r')) (ln_node_id n) = Some n
   \<and> ln_entity_type n = ty \<and> ln_entity_id n = eid
   \<and> map_of (lg_nodes (lr_graph r)) \<subseteq>\<^sub>m map_of (lg_nodes (lr_graph r'))
   \<and> lg_edges (lr_graph r') = lg_edges (lr_graph r) \<and> lr_policy r' = lr_policy r \<and> lr_snapshots r' = lr_snapshots r"

lemma get_or_create_ok:
  assumes g: "get_or_create_node nid now ty eid md r = (n, r')" and inv: "node_inv used r"
    and fresh: "nid \<notin> used" "[] \<notin> used" "nid \<noteq> []" and pl: "plain_type ty"
  shows "looked_up (insert nid used) ty eid r n r'"
proof (cases "map_of (lr_entity_node_map r) (lookup_key ty eid)")
  case None
  let ?new = "\<lparr>ln_node_id = nid, ln_entity_type = ty, ln_entity_id = eid, ln_created_at = now,
    ln_metadata = (case md of None \<Rightarrow> [] | Some m \<Rightarrow> m)\<rparr>"
  have absent: "map_of (lg_nodes (lr_graph r)) nid = None"
    using inv fresh(1) by (cases "map_of (lg_nodes (lr_graph r)) nid") (auto simp: node_inv_def)
  have "n = ?new \<and> r' = r\<lparr>lr_graph := lg_add_node ?new (lr_graph r),
      lr_entity_node_map := AList.update (lookup_key ty eid) nid (lr_entity_node_map r)\<rparr>"
    using g None by (auto simp: get_or_create_node_def Let_def)
  moreover have "lookup_key (ln_entity_type m) (ln_entity_id m) \<noteq> lookup_key ty eid"
    if "map_of (lg_nodes (lr_graph r)) i = Some m" for i m
  proof -
    from inv that have "map_of (lr_entity_node_map r) (lookup_key (ln_entity_type m) (ln_entity_id m)) = Some i"
      unfolding node_inv_def by blast
    with None show ?thesis by auto
  qed
  moreover have "map_of (lr_entity_node_map r) k \<noteq> Some nid" for k
    using inv absent unfolding node_inv_def by fastforce
  ultimately show ?thesis
    using inv absent pl fresh None
    by (auto simp: looked_up_def node_inv_def lg_add_node_def map_of_update_dict map_le_def dom_def split: if_splits)
next
  case (Some ex)
  with inv obtain m where m: "map_of (lg_nodes (lr_graph r)) ex = Some m"
    "lookup_key ty eid = lookup_key (ln_entity_type m) (ln_entity_id m)" unfolding node_inv_def by blast
  with inv have p: "plain_type (ln_entity_type m)" "ln_node_id m = ex" "ex \<in> used" by (auto simp: node_inv_def)
  with fresh have "ex \<noteq> []" by auto
  then have "n = m" "r' = r" using g m(1) Some by (auto simp: get_or_create_node_def)
  moreover have "ln_entity_type m = ty \<and> ln_entity_id m = eid" using m(2) p(1) pl by (simp add: lookup_key_inject)
  moreover have "node_inv (insert nid used) r" using inv by (auto simp: node_inv_def)
  ultimately show ?thesis using m(1) p(2) by (simp add: looked_up_def)
qed

lemma edge_inv_looked_up: "looked_up used ty eid r n r' \<Longrightarrow> edge_inv r \<Longrightarrow> edge_inv r'"
proof -
  assume l: "looked_up used ty eid r n r'" and inv: "edge_inv r"
  have up: "map_of (lg_nodes (lr_graph r')) i = Some m" if "map_of (lg_nodes (lr_graph r)) i = Some m" for i m
    using l that by (metis looked_up_def map_le_def domI)
  from l have "lg_edges (lr_graph r') = lg_edges (lr_graph r)" "lr_policy r' = lr_policy r" "lr_snapshots r' = lr_snapshots r"
    by (simp_all add: looked_up_def)
  with inv show "edge_inv r'" unfolding edge_inv_def by (auto dest!: bspec dest: up)
qed

text \<open>Adding an edge between two known nodes.\<close>

lemma add_edge_inv:
  assumes "node_inv used r" and "edge_inv r" and "map_of (lg_nodes (lr_graph r)) (le_source_id e) = Some s"
    and "map_of (lg_nodes (lr_graph r)) (le_target_id e) = Some t"
    and "should_record (lr_policy r) (ln_entity_type t) (le_event_type e)"
  shows "node_inv used (r\<lparr>lr_graph := lg_add_edge e (lr_graph r)\<rparr>)"
    and "edge_inv (r\<lparr>lr_graph := lg_add_edge e (lr_graph r)\<rparr>)"
  using assms by (auto simp: node_inv_def edge_inv_def lg_add_edge_def)

definition rec_inv :: "lineage_policy \<Rightarrow> string set \<Rightarrow> lineage_recorder \<Rightarrow> bool" where
  "rec_inv p used r \<longleftrightarrow> node_inv used r \<and> edge_inv r \<and> lr_policy r = p"

lemma rec_inv_mono: "rec_inv p used r \<Longrightarrow> used \<subseteq> used' \<Longrightarrow> rec_inv p used' r"
  by (auto simp: rec_inv_def node_inv_def)

lemma rec_inv_look_up:
  assumes "get_or_create_node nid now ty eid md r = (n, r')" and "rec_inv p used r"
    and "nid \<notin> used" and "[] \<notin> used" and "nid \<noteq> []" and "plain_type ty"
  shows "rec_inv p (insert nid used) r'" and "looked_up (insert nid used) ty eid r n r'"
proof -
  show l: "looked_up (insert nid used) ty eid r n r'"
    using assms(2-) by (intro get_or_create_ok [OF assms(1)]) (auto simp: rec_inv_def)
  from edge_inv_looked_up [OF this] assms(2) l show "rec_inv p (insert nid used) r'"
    by (simp add: rec_inv_def looked_up_def)
qed

lemma record_event_inv:
  assumes "rec_inv p used r" and "nid \<notin> used" and "[] \<notin> used" and "nid \<noteq> []" and "plain_type ty"
  shows "rec_inv p (insert nid used) (snd (record_event nid xid t1 t2 ty eid ev ag act md r))"
proof (cases "should_record (lr_policy r) ty ev")
  case False
  then show ?thesis using rec_inv_mono [OF assms(1)] by (simp add: record_event_def subset_insertI)
next
  case True
  obtain n r1 where g: "get_or_create_node nid t1 ty eid md r = (n, r1)" by fastforce
  note l = rec_inv_look_up [OF g assms]
  let ?e = "\<lparr>le_edge_id = xid, le_source_id = ln_node_id n, le_target_id = ln_node_id n, le_event_type = ev,
    le_timestamp = t2, le_agent = ag, le_activity = act, le_metadata = (case md of None \<Rightarrow> [] | Some m \<Rightarrow> m)\<rparr>"
  have n: "map_of (lg_nodes (lr_graph r1)) (ln_node_id n) = Some n" "should_record (lr_policy r1) (ln_entity_type n) ev"
    using l(2) True by (auto simp: looked_up_def)
  have "snd (record_event nid xid t1 t2 ty eid ev ag act md r) = r1\<lparr>lr_graph := lg_add_edge ?e (lr_graph r1)\<rparr>"
    using True by (simp add: record_event_def g Let_def)
  with add_edge_inv [of "insert nid used" r1 ?e n n] n l(1) show ?thesis by (simp add: rec_inv_def)
qed

lemma record_derivation_inv:
  assumes "rec_inv p used r" and "n1 \<notin> used" and "n2 \<notin> insert n1 used" and "[] \<notin> used" and "n1 \<noteq> []" and "n2 \<noteq> []"
    and "plain_type sty" and "plain_type tty"
  shows "rec_inv p (insert n2 (insert n1 used)) (snd (record_derivation n1 n2 xid t1 t2 t3 sty sid tty tid ag act r))"
proof (cases "should_record (lr_policy r) tty EV_DERIVATION")
  case False
  have "used \<subseteq> insert n2 (insert n1 used)" by auto
  with False show ?thesis using rec_inv_mono [OF assms(1)] by (simp add: record_derivation_def)
next
  case True
  obtain s r1 where g1: "get_or_create_node n1 t1 sty sid None r = (s, r1)" by fastforce
  obtain t r2 where g2: "get_or_create_node n2 t2 tty tid None r1 = (t, r2)" by fastforce
  note l1 = rec_inv_look_up [OF g1 assms(1,2,4,5,7)]
  have "[] \<notin> insert n1 used" using assms(4,5) by auto
  note l2 = rec_inv_look_up [OF g2 l1(1) assms(3) this assms(6,8)]
  let ?e = "\<lparr>le_edge_id = xid, le_source_id = ln_node_id s, le_target_id = ln_node_id t, le_event_type = EV_DERIVATION,
    le_timestamp = t3, le_agent = ag, le_activity = act, le_metadata = []\<rparr>"
  have "map_of (lg_nodes (lr_graph r1)) (ln_node_id s) = Some s" using l1(2) by (simp add: looked_up_def)
  moreover have "map_of (lg_nodes (lr_graph r1)) \<subseteq>\<^sub>m map_of (lg_nodes (lr_graph r2))" using l2(2) by (simp add: looked_up_def)
  ultimately have "map_of (lg_nodes (lr_graph r2)) (ln_node_id s) = Some s" by (metis map_le_def domI)
  moreover have "map_of (lg_nodes (lr_graph r2)) (ln_node_id t) = Some t"
    "should_record (lr_policy r2) (ln_entity_type t) EV_DERIVATION"
    using l1(2) l2(2) True by (auto simp: looked_up_def)
  moreover have "snd (record_derivation n1 n2 xid t1 t2 t3 sty sid tty tid ag act r) = r2\<lparr>lr_graph := lg_add_edge ?e (lr_graph r2)\<rparr>"
    using True by (simp add: record_derivation_def g1 g2 Let_def)
  ultimately show ?thesis using add_edge_inv [of "insert n2 (insert n1 used)" r2 ?e s t] l2(1) by (simp add: rec_inv_def)
qed

lemma lr_step_inv:
  assumes "rec_inv p used r" and "distinct (op_ids opn)" and "set (op_ids opn) \<inter> used = {}"
    and "[] \<notin> used" and "[] \<notin> set (op_ids opn)" and "\<forall>ty \<in> set (op_types opn). plain_type ty"
  shows "rec_inv p (used \<union> set (op_ids opn)) (lr_step opn r)"
proof (cases opn)
  case (OpEvent nid xid t1 t2 ty eid ev ag act md)
  with assms record_event_inv [of p used r nid ty xid t1 t2 eid ev ag act md] show ?thesis by auto
next
  case (OpDerive n1 n2 xid t1 t2 t3 sty sid tty tid ag act)
  with assms record_derivation_inv [of p used r n1 n2 sty tty xid t1 t2 t3 sid tid ag act] show ?thesis
    by (auto simp: insert_commute)
next
  case (OpSnapshot sid t ty eid ps w)
  with assms(1) show ?thesis by (auto simp: rec_inv_def node_inv_def edge_inv_def take_snapshot_def Let_def)
next
  case OpClear
  with assms(1) show ?thesis by (auto simp: rec_inv_def node_inv_def edge_inv_def lr_clear_def lineage_graph_init_def)
qed

lemma lr_run_inv:
  assumes "rec_inv p used r" and "distinct (concat (map op_ids ops))" and "set (concat (map op_ids ops)) \<inter> used = {}"
    and "[] \<notin> used" and "[] \<notin> set (concat (map op_ids ops))" and "\<forall>opn \<in> set ops. \<forall>ty \<in> set (op_types opn). plain_type ty"
  shows "rec_inv p (used \<union> set (concat (map op_ids ops))) (fold lr_step ops r)"
  using assms
proof (induction ops arbitrary: r used)
  case (Cons opn ops)
  have "rec_inv p (used \<union> set (op_ids opn)) (lr_step opn r)" using Cons.prems by (intro lr_step_inv) auto
  moreover have "set (concat (map op_ids ops)) \<inter> (used \<union> set (op_ids opn)) = {}" using Cons.prems(2,3) by auto
  ultimately have "rec_inv p ((used \<union> set (op_ids opn)) \<union> set (concat (map op_ids ops))) (fold lr_step ops (lr_step opn r))"
    using Cons.prems by (intro Cons.IH) auto
  then show ?case by (simp add: Un_assoc)
qed simp

section \<open>What the ETL pipeline gets recorded\<close>

text \<open>The pipeline's calls as operations of the recorder, with the identifiers it draws.\<close>

fun call_op :: "(nat \<Rightarrow> string) \<Rightarrow> clock \<Rightarrow> nat \<Rightarrow> lineage_call \<Rightarrow> lineage_op" where
  "call_op ids t k (RecordIngestion ty eid ag) =
     OpEvent (ids (2 * k)) (ids (2 * k + 1)) t t ty eid EV_INGESTION ag ''Loaded via pipeline'' None"
| "call_op ids t k (RecordTransformation ty eid ag) =
     OpEvent (ids (2 * k)) (ids (2 * k + 1)) t t ty eid EV_TRANSFORMATION ag ''Transformed via pipeline'' None"

definition replay :: "(nat \<Rightarrow> string) \<Rightarrow> clock \<Rightarrow> lineage_call list \<Rightarrow> lineage_recorder \<Rightarrow> lineage_recorder" where
  "replay ids t calls r = fold lr_step (map (\<lambda>(k, c). call_op ids t k c) (enumerate 0 calls)) r"

lemma record_event_edges:
  "lg_edges (lr_graph (snd (record_event nid xid t1 t2 ty eid ev ag act md r))) = lg_edges (lr_graph r)
   \<or> (should_record (lr_policy r) ty ev
      \<and> (\<exists>e. le_event_type e = ev
          \<and> lg_edges (lr_graph (snd (record_event nid xid t1 t2 ty eid ev ag act md r))) = lg_edges (lr_graph r) @ [e]))"
  "lr_policy (snd (record_event nid xid t1 t2 ty eid ev ag act md r)) = lr_policy r"
  by (auto simp: record_event_def get_or_create_node_def lg_add_edge_def lg_add_node_def Let_def
      split: option.splits if_splits prod.splits)

lemma lr_step_call:
  assumes "lr_policy r = p"
  shows "lr_policy (lr_step (call_op ids t k c) r) = p
    \<and> (lg_edges (lr_graph (lr_step (call_op ids t k c) r)) = lg_edges (lr_graph r)
       \<or> (\<exists>e ty. lg_edges (lr_graph (lr_step (call_op ids t k c) r)) = lg_edges (lr_graph r) @ [e]
            \<and> should_record p ty (le_event_type e) \<and> le_event_type e \<in> {EV_INGESTION, EV_TRANSFORMATION}))"
proof (cases c)
  case (RecordIngestion ty eid ag)
  then show ?thesis using record_event_edges [of "ids (2 * k)" "ids (2 * k + 1)" t t ty eid EV_INGESTION ag
      "''Loaded via pipeline''" None r] assms by auto
next
  case (RecordTransformation ty eid ag)
  then show ?thesis using record_event_edges [of "ids (2 * k)" "ids (2 * k + 1)" t t ty eid EV_TRANSFORMATION ag
      "''Transformed via pipeline''" None r] assms by auto
qed

lemma replay_snoc: "replay ids t (cs @ [c]) r = lr_step (call_op ids t (length cs) c) (replay ids t cs r)"
  by (simp add: replay_def enumerate_append_eq)

lemma replay_default:
  assumes "\<And>ty. lp_get_level p ty = RL_STANDARD" and "lr_policy r = p" and "lg_edges (lr_graph r) = []"
  shows "lr_policy (replay ids t cs r) = p
    \<and> (\<forall>e \<in> set (lg_edges (lr_graph (replay ids t cs r))). le_event_type e = EV_TRANSFORMATION)"
proof (induction cs rule: rev_induct)
  case Nil
  then show ?case using assms by (simp add: replay_def)
next
  case (snoc c cs)
  have "\<not> should_record p ty EV_INGESTION" for ty
    by (simp add: should_record_def assms(1) standard_events_def)
  with snoc lr_step_call [of "replay ids t cs r" p ids t "length cs" c] show ?case unfolding replay_snoc by auto
qed

lemma replay_detailed:
  assumes "\<And>ty. RL_DETAILED \<le> lp_get_level p ty" and "lr_policy r = p"
  shows "lr_policy (replay ids t cs r) = p
    \<and> length (lg_edges (lr_graph (replay ids t cs r))) = length (lg_edges (lr_graph r)) + length cs"
proof (induction cs rule: rev_induct)
  case Nil
  then show ?case using assms by (simp add: replay_def)
next
  case (snoc c cs)
  let ?r = "replay ids t cs r"
  have rec: "should_record (lr_policy ?r) ty EV_INGESTION" "should_record (lr_policy ?r) ty EV_TRANSFORMATION" for ty
    using assms(1) [of ty] snoc by (auto simp: should_record_def level_events_mono detailed_events_def)
  then have "length (lg_edges (lr_graph (lr_step (call_op ids t (length cs) c) ?r))) = Suc (length (lg_edges (lr_graph ?r)))"
    by (cases c) (auto simp: record_event_def get_or_create_node_def lg_add_edge_def lg_add_node_def Let_def
        split: option.splits if_splits prod.splits)
  with snoc lr_step_call [of ?r p ids t "length cs" c] show ?case unfolding replay_snoc by auto
qed

section \<open>The stored lineage\<close>

text \<open>
  What the two statements of \<^verbatim>\<open>queries.py\<close> do to a database of node and edge identifiers: a node is merged by
  its identifier, an edge is created, and only when both of its ends are stored.
\<close>

type_synonym lineage_db = "string list \<times> string list"

definition param :: "string \<Rightarrow> stmt_params \<Rightarrow> string" where
  "param k ps = dict_get_or ps k []"

fun db_run :: "lineage_stmt \<Rightarrow> stmt_params \<Rightarrow> lineage_db \<Rightarrow> bool \<times> lineage_db" where
  "db_run MergeLineageNode ps (ns, es) = (True, (List.insert (param ''nodeId'' ps) ns, es))"
| "db_run MergeLineageEdge ps (ns, es) =
     (True, (ns, if param ''sourceId'' ps \<in> set ns \<and> param ''targetId'' ps \<in> set ns then es @ [param ''edgeId'' ps] else es))"

lemma send_nodes:
  "\<exists>ns'. send_all db_run (map (\<lambda>n. (MergeLineageNode, node_params isof render n)) xs @ rest) (ns, es)
      = (case send_all db_run rest (ns', es) of (k, s) \<Rightarrow> (length xs + k, s))
    \<and> set ns' = set ns \<union> ln_node_id ` set xs"
proof (induction xs arbitrary: ns)
  case (Cons x xs)
  obtain ns' where "send_all db_run (map (\<lambda>n. (MergeLineageNode, node_params isof render n)) xs @ rest)
      (List.insert (ln_node_id x) ns, es) = (case send_all db_run rest (ns', es) of (k, s) \<Rightarrow> (length xs + k, s))"
    "set ns' = set (List.insert (ln_node_id x) ns) \<union> ln_node_id ` set xs" using Cons.IH by blast
  then show ?case
    by (intro exI [of _ ns']) (auto simp: param_def dict_get_or_def node_params_def split: prod.splits)
qed (auto split: prod.splits)

lemma send_edges:
  "\<forall>e \<in> set xs. le_source_id e \<in> set ns \<and> le_target_id e \<in> set ns \<Longrightarrow>
    send_all db_run (map (\<lambda>e. (MergeLineageEdge, edge_params isof render e)) xs) (ns, es)
      = (length xs, (ns, es @ map le_edge_id xs))"
  by (induction xs arbitrary: es) (auto simp: param_def dict_get_or_def edge_params_def)

lemma flush_stores:
  assumes "rec_inv p used r" and "wf_dict (lg_nodes (lr_graph r))"
  shows "\<exists>ns'. flush isof render db_run r (ns, es)
      = (length (lg_nodes (lr_graph r)) + length (lg_edges (lr_graph r)),
         (ns', es @ map le_edge_id (lg_edges (lr_graph r))))
    \<and> set ns' = set ns \<union> fst ` set (lg_nodes (lr_graph r))"
proof -
  let ?g = "lr_graph r"
  have ids: "ln_node_id ` set (map snd (lg_nodes ?g)) = fst ` set (lg_nodes ?g)"
    using assms by (force simp: rec_inv_def node_inv_def map_of_wf_in_set image_image intro!: image_cong)
  from send_nodes [of isof render "map snd (lg_nodes ?g)" "map (\<lambda>e. (MergeLineageEdge, edge_params isof render e)) (lg_edges ?g)" ns es]
  obtain ns' where n: "send_all db_run (map (\<lambda>n. (MergeLineageNode, node_params isof render n)) (map snd (lg_nodes ?g))
        @ map (\<lambda>e. (MergeLineageEdge, edge_params isof render e)) (lg_edges ?g)) (ns, es)
      = (case send_all db_run (map (\<lambda>e. (MergeLineageEdge, edge_params isof render e)) (lg_edges ?g)) (ns', es)
         of (k, s) \<Rightarrow> (length (lg_nodes ?g) + k, s))"
    "set ns' = set ns \<union> fst ` set (lg_nodes ?g)" unfolding ids by auto
  have "\<forall>e \<in> set (lg_edges ?g). le_source_id e \<in> set ns' \<and> le_target_id e \<in> set ns'"
    using assms(1) unfolding n(2) rec_inv_def edge_inv_def by (force dest!: bspec dest: map_of_SomeD)
  from n send_edges [OF this] show ?thesis
    by (intro exI [of _ ns']) (auto simp: flush_def Let_def)
qed

text \<open>The edges are created, not merged: a second flush of the same recorder stores every edge again.\<close>

lemma flush_twice_duplicates:
  assumes "rec_inv p used r" and "wf_dict (lg_nodes (lr_graph r))"
  shows "snd (snd (flush isof render db_run r (snd (flush isof render db_run r (ns, es)))))
    = es @ map le_edge_id (lg_edges (lr_graph r)) @ map le_edge_id (lg_edges (lr_graph r))"
proof -
  from flush_stores [OF assms] obtain ns' where "flush isof render db_run r (ns, es)
      = (length (lg_nodes (lr_graph r)) + length (lg_edges (lr_graph r)), (ns', es @ map le_edge_id (lg_edges (lr_graph r))))"
    by blast
  moreover from flush_stores [OF assms] obtain ns''
    where "flush isof render db_run r (ns', es @ map le_edge_id (lg_edges (lr_graph r)))
      = (length (lg_nodes (lr_graph r)) + length (lg_edges (lr_graph r)),
         (ns'', (es @ map le_edge_id (lg_edges (lr_graph r))) @ map le_edge_id (lg_edges (lr_graph r))))" by blast
  ultimately show ?thesis by simp
qed

text \<open>A recorded event is a loop, so its node is among its own ancestors and descendants.\<close>

lemma event_is_own_ancestor:
  assumes "record_event nid xid t1 t2 ty eid ev ag act md r = (Some e, r')"
  shows "le_source_id e \<in> set (get_ancestors (lr_graph r') (le_source_id e))
    \<and> le_source_id e \<in> set (get_descendants (lr_graph r') (le_source_id e))"
proof -
  have "e \<in> set (lg_edges (lr_graph r'))" "le_target_id e = le_source_id e"
    using assms by (auto simp: record_event_def lg_add_edge_def Let_def split: if_splits prod.splits)
  then have "(le_source_id e, le_source_id e) \<in> lineage_rel (lr_graph r')" by (force simp: lineage_rel_def)
  then show ?thesis by (auto simp: ancestors_descendants)
qed

text \<open>Types with a colon: two entities share a look-up key and hence a node.\<close>

lemma lookup_key_collision:
  "fst (record_event ''n2'' ''e2'' 0 0 ''A'' ''B:C'' EV_CREATION [] [] None
      (snd (record_event ''n1'' ''e1'' 0 0 ''A:B'' ''C'' EV_CREATION [] [] None (lineage_recorder_init None))))
    = Some \<lparr>le_edge_id = ''e2'', le_source_id = ''n1'', le_target_id = ''n1'', le_event_type = EV_CREATION,
        le_timestamp = 0, le_agent = [], le_activity = [], le_metadata = []\<rparr>"
  by (simp add: record_event_def get_or_create_node_def lineage_recorder_init_def lineage_policy_init_def should_record_def
      lp_get_level_def dict_get_or_def standard_events_def lookup_key_def lg_add_node_def lg_add_edge_def lineage_graph_init_def Let_def)

text \<open>The lineage of an entity is the subgraph induced by its node, its ancestors and its descendants.\<close>

lemma subgraph_nodes:
  assumes "\<forall>j m. map_of ns j = Some m \<longrightarrow> ln_node_id m = j"
  shows "map_of (lg_nodes (fold (\<lambda>i h. case map_of ns i of None \<Rightarrow> h | Some m \<Rightarrow> lg_add_node m h) is g)) k
    = (if k \<in> set is \<and> map_of ns k \<noteq> None then map_of ns k else map_of (lg_nodes g) k)"
    and "lg_edges (fold (\<lambda>i h. case map_of ns i of None \<Rightarrow> h | Some m \<Rightarrow> lg_add_node m h) is g) = lg_edges g"
  using assms
  by (induction "is" arbitrary: g) (auto simp: lg_add_node_def map_of_update_dict split: option.splits)

lemma subgraph_edges:
  "lg_edges (fold (\<lambda>e h. if P e then lg_add_edge e h else h) es g) = lg_edges g @ filter P es"
  "lg_nodes (fold (\<lambda>e h. if P e then lg_add_edge e h else h) es g) = lg_nodes g"
  by (induction es arbitrary: g) (auto simp: lg_add_edge_def)

lemma lineage_for_induced:
  assumes "rec_inv p used r" and f: "List.find (\<lambda>n. ln_entity_id n = eid) (map snd (lg_nodes (lr_graph r))) = Some n"
  defines "R \<equiv> {m. (m, ln_node_id n) \<in> (lineage_rel (lr_graph r))\<^sup>* \<or> (ln_node_id n, m) \<in> (lineage_rel (lr_graph r))\<^sup>*}"
  shows "map_of (lg_nodes (get_lineage_for r eid)) k = (if k \<in> R then map_of (lg_nodes (lr_graph r)) k else None)"
    and "lg_edges (get_lineage_for r eid) = filter (\<lambda>e. le_source_id e \<in> R \<and> le_target_id e \<in> R) (lg_edges (lr_graph r))"
proof -
  let ?g = "lr_graph r" and ?i = "ln_node_id n"
  let ?rel = "remdups (get_ancestors ?g ?i @ get_descendants ?g ?i @ [?i])"
  have rel: "set ?rel = R" unfolding R_def by (auto simp: ancestors_descendants rtrancl_eq_or_trancl)
  have keyed: "\<forall>j m. map_of (lg_nodes ?g) j = Some m \<longrightarrow> ln_node_id m = j"
    using assms(1) by (simp add: rec_inv_def node_inv_def)
  note n = subgraph_nodes [OF keyed, of ?rel lineage_graph_init]
  show "map_of (lg_nodes (get_lineage_for r eid)) k = (if k \<in> R then map_of (lg_nodes ?g) k else None)"
    unfolding get_lineage_for_def Let_def f option.case subgraph_edges n(1) rel by (auto simp: lineage_graph_init_def)
  show "lg_edges (get_lineage_for r eid) = filter (\<lambda>e. le_source_id e \<in> R \<and> le_target_id e \<in> R) (lg_edges ?g)"
    unfolding get_lineage_for_def Let_def f option.case subgraph_edges n(2) rel by (simp add: lineage_graph_init_def)
qed

section \<open>Properties\<close>


text \<open>C40. Recording: when identifiers are fresh and entity types contain no colon, every edge of a recorded
  graph joins stored nodes and has an event type that the policy records for the type of its target, an
  entity has one node, and snapshots were taken only where the policy asks for them.\<close>

theorem recorder_sound:
  assumes "distinct (concat (map op_ids ops))" and "[] \<notin> set (concat (map op_ids ops))"
    and "\<forall>opn \<in> set ops. \<forall>ty \<in> set (op_types opn). plain_type ty"
    and "r = fold lr_step ops (lineage_recorder_init (Some p))"
  shows "(\<forall>e \<in> set (lg_edges (lr_graph r)). \<exists>s t. map_of (lg_nodes (lr_graph r)) (le_source_id e) = Some s
        \<and> map_of (lg_nodes (lr_graph r)) (le_target_id e) = Some t
        \<and> should_record p (ln_entity_type t) (le_event_type e))
    \<and> (\<forall>i j m n. map_of (lg_nodes (lr_graph r)) i = Some m \<longrightarrow> map_of (lg_nodes (lr_graph r)) j = Some n
        \<longrightarrow> ln_entity_type m = ln_entity_type n \<longrightarrow> ln_entity_id m = ln_entity_id n \<longrightarrow> i = j)
    \<and> (\<forall>s \<in> set (lr_snapshots r). should_snapshot p (sn_entity_type s))"
proof -
  have "rec_inv p {} (lineage_recorder_init (Some p))"
    by (simp add: rec_inv_def node_inv_def edge_inv_def lineage_recorder_init_def lineage_graph_init_def)
  from lr_run_inv [OF this assms(1) _ _ assms(2,3)] have inv: "rec_inv p (set (concat (map op_ids ops))) r"
    by (simp add: assms(4))
  then have "i = j" if "map_of (lg_nodes (lr_graph r)) i = Some m" "map_of (lg_nodes (lr_graph r)) j = Some n"
    "ln_entity_type m = ln_entity_type n" "ln_entity_id m = ln_entity_id n" for i j m n
    using that unfolding rec_inv_def node_inv_def by (metis option.inject)
  with inv show ?thesis unfolding rec_inv_def edge_inv_def by blast
qed

definition sample_lineage_ops :: "lineage_op list" where
  "sample_lineage_ops = [OpEvent ''n1'' ''e1'' 0 0 ''Vessel'' ''V1'' EV_CREATION ''etl'' [] None,
     OpDerive ''n2'' ''n3'' ''e2'' 1 1 1 ''Vessel'' ''V1'' ''Report'' ''R1'' ''etl'' []]"

lemma sample_lineage_edges:
  "map le_edge_id (lg_edges (lr_graph (fold lr_step sample_lineage_ops (lineage_recorder_init (Some (lineage_policy_init RL_FULL)))))) = [''e1'', ''e2'']"
  by code_simp

theorem recorder_sound_witness:
  "lg_edges (lr_graph (fold lr_step sample_lineage_ops (lineage_recorder_init (Some (lineage_policy_init RL_FULL))))) \<noteq> []
   \<and> list_all (\<lambda>e. \<exists>t. map_of (lg_nodes (lr_graph (fold lr_step sample_lineage_ops (lineage_recorder_init (Some (lineage_policy_init RL_FULL))))))
           (le_target_id e) = Some t \<and> should_record (lineage_policy_init RL_FULL) (ln_entity_type t) (le_event_type e))
       (lg_edges (lr_graph (fold lr_step sample_lineage_ops (lineage_recorder_init (Some (lineage_policy_init RL_FULL))))))"
proof -
  have "distinct (concat (map op_ids sample_lineage_ops))" "[] \<notin> set (concat (map op_ids sample_lineage_ops))"
    "\<forall>opn \<in> set sample_lineage_ops. \<forall>ty \<in> set (op_types opn). plain_type ty"
    by (simp_all add: sample_lineage_ops_def plain_type_def)
  from recorder_sound [OF this refl, of "lineage_policy_init RL_FULL"] sample_lineage_edges show ?thesis
    unfolding list_all_iff by (metis list.simps(3) map_is_Nil_conv)
qed

text \<open>Policy: a level records at least the events of every lower level, allows snapshots if a lower one does, and
  a higher data classification never gets a lower level; classifications outside 1 to 5 are an error.\<close>

theorem lineage_policy_monotone:
  "(a \<le> b \<longleftrightarrow> set (level_events a) \<subseteq> set (level_events b))
   \<and> (a \<le> b \<longrightarrow> a \<in> set snapshot_levels \<longrightarrow> b \<in> set snapshot_levels)
   \<and> (c \<le> d \<longrightarrow> from_data_classification c = Inr a \<longrightarrow> from_data_classification d = Inr b \<longrightarrow> a \<le> b)
   \<and> ((\<exists>e. from_data_classification c = Inl e) \<longleftrightarrow> c < 1 \<or> 5 < c)"
proof -
  have "a \<le> b" if "c \<le> d" "from_data_classification c = Inr a" "from_data_classification d = Inr b"
    using that by (auto simp: classification_cases less_eq_recording_level_def)
  moreover have "b \<in> set snapshot_levels" if "a \<le> b" "a \<in> set snapshot_levels"
    using that(2,1) by (rule snapshot_levels_upward)
  ultimately show ?thesis using level_events_mono [of a b] classification_error [of c] by simp
qed

theorem lineage_policy_monotone_witness:
  "set (level_events RL_MINIMAL) \<subseteq> set (level_events RL_FULL)"
  using lineage_policy_monotone [of RL_MINIMAL RL_FULL 1 5] by (simp add: less_eq_recording_level_def)

text \<open>Composition with the ETL pipeline: under the recorder's default policy no ingestion event of the
  pipeline is ever recorded, while a policy that is DETAILED or FULL for every type records each call once.\<close>

theorem default_policy_drops_ingestion:
  "(\<forall>e \<in> set (lg_edges (lr_graph (replay ids t calls (lineage_recorder_init None)))). le_event_type e \<noteq> EV_INGESTION)
   \<and> ((\<forall>ty. RL_DETAILED \<le> lp_get_level p ty) \<longrightarrow>
      length (lg_edges (lr_graph (replay ids t calls (lineage_recorder_init (Some p))))) = length calls)"
  using replay_default [of "lineage_policy_init RL_STANDARD" "lineage_recorder_init None" ids t calls]
    replay_detailed [of p "lineage_recorder_init (Some p)" ids t calls]
  by (auto simp: lineage_recorder_init_def lineage_policy_init_def lp_get_level_def dict_get_or_def lineage_graph_init_def)

theorem default_policy_drops_ingestion_witness:
  "length (lg_edges (lr_graph (replay (\<lambda>k. ''x'') 0 [RecordIngestion ''Vessel'' ''V1'' ''ETL:a'']
     (lineage_recorder_init (Some (lineage_policy_init RL_FULL)))))) = 1"
  using default_policy_drops_ingestion [of "\<lambda>k. ''x''" 0 "[RecordIngestion ''Vessel'' ''V1'' ''ETL:a'']" "lineage_policy_init RL_FULL"]
  by (simp add: lineage_policy_init_def lp_get_level_def dict_get_or_def less_eq_recording_level_def)

end
