(* ===== verification/Streaming.thy ===== *)
theory Streaming
  imports ETL
begin

text \<open>
  \<^verbatim>\<open>core/kg/streaming\<close>: messages, the in-memory consumer, the stream processor with its dead letter queue, and the dead letter
  queue that mirrors its entries in a file.

  A handler is a function of a batch and of the state \<open>'w\<close> of the outside world; one that raises returns the text of the
  exception.  The processor works on any consumer, given by its \<open>consume\<close>.  JSON and ISO dates of the file are the record
  \<open>file_io\<close>.  Metadata of envelopes, which only the file keeps, appears in its rows.
\<close>

section \<open>Models\<close>

datatype processing_mode = REALTIME | MICRO_BATCH | BATCH

record stream_config =
  sc_name :: string
  sc_mode :: processing_mode
  sc_batch_size :: int
  sc_batch_timeout_seconds :: real
  sc_max_retries :: int
  sc_dlq_enabled :: bool

definition stream_config_init :: "string \<Rightarrow> stream_config" where
  "stream_config_init name = \<lparr>sc_name = name, sc_mode = MICRO_BATCH, sc_batch_size = 100, sc_batch_timeout_seconds = 5,
     sc_max_retries = 3, sc_dlq_enabled = True\<rparr>"

record stream_message =
  sm_id :: string
  sm_topic :: string
  sm_payload :: "(string, pyval) dict"
  sm_timestamp :: string
  sm_headers :: "(string \<times> string) list"
  sm_partition :: int
  sm_offset :: int

definition sm_post_init :: "string \<Rightarrow> stream_message \<Rightarrow> stream_message" where
  "sm_post_init now_iso m = (if sm_timestamp m = [] then m\<lparr>sm_timestamp := now_iso\<rparr> else m)"

definition to_record_envelope :: "stream_message \<Rightarrow> envelope" where
  "to_record_envelope m = \<lparr>en_data = sm_payload m, en_source = sm_topic m, en_record_id = sm_id m, en_errors = []\<rparr>"

section \<open>In-memory consumer\<close>

record mem_consumer =
  co_name :: string
  co_queues :: "(string, stream_message list) dict"
  co_committed :: "string set"

definition co_init :: "string \<Rightarrow> mem_consumer" where
  "co_init name = \<lparr>co_name = name, co_queues = [], co_committed = {}\<rparr>"

definition co_subscribe :: "string list \<Rightarrow> mem_consumer \<Rightarrow> mem_consumer" where
  "co_subscribe topics c = c\<lparr>co_queues := fold (\<lambda>t q. if dict_has q t then q else AList.update t [] q) topics (co_queues c)\<rparr>"

definition co_consume :: "mem_consumer \<Rightarrow> string \<Rightarrow> int \<Rightarrow> stream_message list \<times> mem_consumer" where
  "co_consume c topic n =
     (let queue = dict_get_or (co_queues c) topic []
      in (slice_to n queue, c\<lparr>co_queues := AList.update topic (slice_from n queue) (co_queues c)\<rparr>))"

definition co_commit :: "stream_message \<Rightarrow> mem_consumer \<Rightarrow> mem_consumer" where
  "co_commit m c = c\<lparr>co_committed := insert (sm_id m) (co_committed c)\<rparr>"

definition co_close :: "mem_consumer \<Rightarrow> mem_consumer" where
  "co_close c = c\<lparr>co_queues := [], co_committed := {}\<rparr>"

definition co_publish :: "string \<Rightarrow> stream_message \<Rightarrow> mem_consumer \<Rightarrow> mem_consumer" where
  "co_publish topic m c =
     (let qs = (if dict_has (co_queues c) topic then co_queues c else AList.update topic [] (co_queues c))
      in c\<lparr>co_queues := AList.update topic (dict_get_or qs topic [] @ [m]) qs\<rparr>)"

section \<open>Processor\<close>

record process_result =
  sr_processed :: nat
  sr_failed :: nat
  sr_dlq_count :: nat
  sr_errors :: "string list"

definition process_result_init :: process_result where
  "process_result_init = \<lparr>sr_processed = 0, sr_failed = 0, sr_dlq_count = 0, sr_errors = []\<rparr>"

type_synonym 'w msg_handler = "stream_message list \<Rightarrow> 'w \<Rightarrow> (string + envelope list) \<times> 'w"

record ('c, 'w) stream_processor =
  sp_config :: stream_config
  sp_consumer :: 'c
  sp_handler :: "'w msg_handler option"
  sp_buffer :: "stream_message list"
  sp_dlq :: dlq

datatype stream_error = NoHandler

definition sp_init :: "stream_config \<Rightarrow> 'c \<Rightarrow> 'w msg_handler option \<Rightarrow> ('c, 'w) stream_processor" where
  "sp_init cfg c h = \<lparr>sp_config = cfg, sp_consumer = c, sp_handler = h, sp_buffer = [], sp_dlq = []\<rparr>"

definition add_handler :: "'w msg_handler \<Rightarrow> ('c, 'w) stream_processor \<Rightarrow> ('c, 'w) stream_processor" where
  "add_handler h p = p\<lparr>sp_handler := Some h\<rparr>"

definition process_batch :: "stream_message list \<Rightarrow> ('c, 'w) stream_processor \<Rightarrow> 'w
    \<Rightarrow> (stream_error, process_result) res \<times> ('c, 'w) stream_processor \<times> 'w" where
  "process_batch messages p w =
     (if messages = [] then (Inr process_result_init, p, w)
      else (case sp_handler p of
              None \<Rightarrow> (Inl NoHandler, p, w)
            | Some h \<Rightarrow>
                (case h messages w of
                   (Inr envelopes, w') \<Rightarrow> (Inr (process_result_init\<lparr>sr_processed := length envelopes\<rparr>), p, w')
                 | (Inl exc, w') \<Rightarrow>
                     (let error_msg = ''Handler error: '' @ exc;
                          (q, n) = (if sc_dlq_enabled (sp_config p)
                                    then fold (\<lambda>m (q, n). (dlq_add (to_record_envelope m) [error_msg] q, n + 1)) messages (sp_dlq p, 0)
                                    else (sp_dlq p, 0))
                      in (Inr \<lparr>sr_processed = 0, sr_failed = length messages, sr_dlq_count = n, sr_errors = [error_msg]\<rparr>,
                          p\<lparr>sp_dlq := q\<rparr>, w')))))"

definition sp_flush :: "('c, 'w) stream_processor \<Rightarrow> 'w \<Rightarrow> (stream_error, process_result) res \<times> ('c, 'w) stream_processor \<times> 'w" where
  "sp_flush p w = process_batch (sp_buffer p) (p\<lparr>sp_buffer := []\<rparr>) w"

definition receive_and_buffer :: "('c \<Rightarrow> string \<Rightarrow> int \<Rightarrow> stream_message list \<times> 'c) \<Rightarrow> string \<Rightarrow> int \<Rightarrow> ('c, 'w) stream_processor
    \<Rightarrow> nat \<times> ('c, 'w) stream_processor" where
  "receive_and_buffer consume topic n p =
     (case consume (sp_consumer p) topic n of
        (ms, c) \<Rightarrow> (length ms, p\<lparr>sp_consumer := c, sp_buffer := sp_buffer p @ ms\<rparr>))"

definition sp_buffer_size :: "('c, 'w) stream_processor \<Rightarrow> nat" where
  "sp_buffer_size p = length (sp_buffer p)"

section \<open>Dead letter queue in a file\<close>

text \<open>\<^verbatim>\<open>json.dumps\<close>, \<^verbatim>\<open>json.loads\<close>, \<^verbatim>\<open>isoformat\<close> and \<^verbatim>\<open>datetime.fromisoformat\<close>; \<open>None\<close> is ValueError.\<close>

record 't file_io =
  io_dumps :: "json \<Rightarrow> string"
  io_loads :: "string \<Rightarrow> json option"
  io_isoformat :: "'t \<Rightarrow> string"
  io_fromiso :: "string \<Rightarrow> 't option"

record 't stored_record =
  st_data :: json
  st_source :: json
  st_record_id :: json
  st_timestamp :: 't
  st_metadata :: json
  st_errors :: json

record 't stored_entry =
  se_record :: "'t stored_record"
  se_errors :: json
  se_failed_at :: 't
  se_retry_count :: json

text \<open>The file is \<open>None\<close> until it is written.\<close>

record 't persistent_dlq =
  pq_file :: "string option"
  pq_entries :: "'t stored_entry list"

definition pq_init :: "string option \<Rightarrow> 't persistent_dlq" where
  "pq_init file = \<lparr>pq_file = file, pq_entries = []\<rparr>"

definition entry_row :: "'t file_io \<Rightarrow> 't stored_entry \<Rightarrow> json" where
  "entry_row io e =
     (let r = se_record e in
      JObj [(''record'', JObj [(''data'', st_data r), (''source'', st_source r), (''record_id'', st_record_id r),
                               (''timestamp'', JStr (io_isoformat io (st_timestamp r))), (''metadata'', st_metadata r),
                               (''errors'', st_errors r)]),
            (''errors'', se_errors e), (''failed_at'', JStr (io_isoformat io (se_failed_at e))), (''retry_count'', se_retry_count e)])"

definition persist_entry :: "'t file_io \<Rightarrow> 't stored_entry \<Rightarrow> 't persistent_dlq \<Rightarrow> 't persistent_dlq" where
  "persist_entry io e q = q\<lparr>pq_file := Some (case_option [] (\<lambda>s. s) (pq_file q) @ io_dumps io (entry_row io e) @ [CHR 0x0A])\<rparr>"

definition pq_add :: "'t file_io \<Rightarrow> 't \<Rightarrow> 't stored_record \<Rightarrow> string list \<Rightarrow> 't persistent_dlq \<Rightarrow> 't persistent_dlq" where
  "pq_add io now r errs q =
     (let e = \<lparr>se_record = r, se_errors = JList (map JStr errs), se_failed_at = now, se_retry_count = JNum 0\<rparr>
      in persist_entry io e (q\<lparr>pq_entries := pq_entries q @ [e]\<rparr>))"

definition pq_clear :: "'t persistent_dlq \<Rightarrow> 't persistent_dlq" where
  "pq_clear q = q\<lparr>pq_file := Some [], pq_entries := []\<rparr>"

definition pq_size :: "'t persistent_dlq \<Rightarrow> nat" where
  "pq_size q = length (pq_entries q)"

text \<open>What reading a row may do: KeyError and ValueError are skipped by \<open>load\<close>, every other exception leaves it.\<close>

datatype row_failure = SkippedLine | UncaughtError

fun json_subscript :: "json \<Rightarrow> string \<Rightarrow> (row_failure, json) res" where
  "json_subscript (JObj d) k = (case map_of d k of None \<Rightarrow> Inl SkippedLine | Some v \<Rightarrow> Inr v)"
| "json_subscript _ k = Inl UncaughtError"

fun json_get :: "json \<Rightarrow> string \<Rightarrow> json \<Rightarrow> (row_failure, json) res" where
  "json_get (JObj d) k v = Inr (dict_get_or d k v)"
| "json_get _ k v = Inl UncaughtError"

fun parse_iso :: "'t file_io \<Rightarrow> json \<Rightarrow> (row_failure, 't) res" where
  "parse_iso io (JStr s) = (case io_fromiso io s of None \<Rightarrow> Inl SkippedLine | Some t \<Rightarrow> Inr t)"
| "parse_iso io _ = Inl UncaughtError"

definition parse_row :: "'t file_io \<Rightarrow> json \<Rightarrow> (row_failure, 't stored_entry) res" where
  "parse_row io row =
     res_bind (json_subscript row ''record'') (\<lambda>r.
     res_bind (json_subscript r ''data'') (\<lambda>d.
     res_bind (json_subscript r ''source'') (\<lambda>s.
     res_bind (json_subscript r ''record_id'') (\<lambda>i.
     res_bind (json_subscript r ''timestamp'') (\<lambda>ts.
     res_bind (parse_iso io ts) (\<lambda>t.
     res_bind (json_get r ''metadata'' (JObj [])) (\<lambda>m.
     res_bind (json_get r ''errors'' (JList [])) (\<lambda>re.
     res_bind (json_get row ''errors'' (JList [])) (\<lambda>es.
     res_bind (json_subscript row ''failed_at'') (\<lambda>fs.
     res_bind (parse_iso io fs) (\<lambda>f.
     res_bind (json_get row ''retry_count'' (JNum 0)) (\<lambda>n.
       Inr \<lparr>se_record = \<lparr>st_data = d, st_source = s, st_record_id = i, st_timestamp = t, st_metadata = m, st_errors = re\<rparr>,
            se_errors = es, se_failed_at = f, se_retry_count = n\<rparr>))))))))))))"

text \<open>
  The lines of a text file, without their ends.  Every line break counts as one end; the empty line this gives inside a
  two-character break is skipped like any blank line.
\<close>

fun file_lines :: "string \<Rightarrow> string \<Rightarrow> string list" where
  "file_lines acc [] = (if acc = [] then [] else [rev acc])"
| "file_lines acc (c # cs) = (if c = CHR 0x0A \<or> c = CHR 0x0D then rev acc # file_lines [] cs else file_lines (c # acc) cs)"

text \<open>The loop of \<open>load\<close>: whether an exception left it, and the entries read until then.\<close>

fun load_lines :: "'t file_io \<Rightarrow> string list \<Rightarrow> bool \<times> 't stored_entry list" where
  "load_lines io [] = (False, [])"
| "load_lines io (raw # ls) =
     (let line = py_strip raw in
      if line = [] then load_lines io ls
      else (case io_loads io line of
              None \<Rightarrow> load_lines io ls
            | Some row \<Rightarrow>
                (case parse_row io row of
                   Inl SkippedLine \<Rightarrow> load_lines io ls
                 | Inl UncaughtError \<Rightarrow> (True, [])
                 | Inr e \<Rightarrow> (case load_lines io ls of (raised, es) \<Rightarrow> (raised, e # es)))))"

definition pq_load :: "'t file_io \<Rightarrow> 't persistent_dlq \<Rightarrow> bool \<times> 't persistent_dlq" where
  "pq_load io q =
     (case pq_file q of
        None \<Rightarrow> (False, q\<lparr>pq_entries := []\<rparr>)
      | Some s \<Rightarrow> (case load_lines io (file_lines [] s) of (raised, es) \<Rightarrow> (raised, q\<lparr>pq_entries := es\<rparr>)))"

section \<open>Consumers and the processor\<close>

text \<open>A failed batch in the dead letter queue.\<close>

definition dead_letters :: "stream_config \<Rightarrow> stream_message list \<Rightarrow> process_result \<Rightarrow> dlq" where
  "dead_letters cfg ms r = (if sc_dlq_enabled cfg \<and> sr_errors r \<noteq> []
     then map (\<lambda>m. \<lparr>dq_record = to_record_envelope m, dq_errors = sr_errors r, dq_retry_count = 0\<rparr>) ms else [])"

text \<open>The counts of one batch: handled as a whole, or failed as a whole.\<close>

definition accounted :: "stream_config \<Rightarrow> stream_message list \<Rightarrow> process_result \<Rightarrow> bool" where
  "accounted cfg ms r \<longleftrightarrow>
     sr_failed r = 0 \<and> sr_dlq_count r = 0 \<and> sr_errors r = []
   \<or> sr_processed r = 0 \<and> sr_failed r = length ms \<and> sr_dlq_count r = length (dead_letters cfg ms r) \<and> length (sr_errors r) = 1"

lemma fold_dlq_add:
  "fold (\<lambda>m (q, n). (dlq_add (to_record_envelope m) es q, Suc n)) ms (q, n) =
     (q @ map (\<lambda>m. \<lparr>dq_record = to_record_envelope m, dq_errors = es, dq_retry_count = 0\<rparr>) ms, n + length ms)"
  by (induction ms arbitrary: q n) (simp_all add: dlq_add_def)

lemma process_batch_total:
  assumes "sp_handler p = Some h"
  shows "\<exists>r w'. process_batch ms p w = (Inr r, p\<lparr>sp_dlq := sp_dlq p @ dead_letters (sp_config p) ms r\<rparr>, w') \<and> accounted (sp_config p) ms r"
proof (cases "ms = []")
  case True
  then show ?thesis by (simp add: process_batch_def process_result_init_def dead_letters_def accounted_def)
next
  case False
  obtain res w' where h: "h ms w = (res, w')" by fastforce
  show ?thesis
  proof (cases res)
    case (Inr es)
    with False h assms show ?thesis
      by (simp add: process_batch_def process_result_init_def dead_letters_def accounted_def)
  next
    case (Inl e)
    let ?r = "\<lparr>sr_processed = 0, sr_failed = length ms, sr_dlq_count = (if sc_dlq_enabled (sp_config p) then length ms else 0),
      sr_errors = [''Handler error: '' @ e]\<rparr>"
    from False h assms Inl have "process_batch ms p w = (Inr ?r, p\<lparr>sp_dlq := sp_dlq p @ dead_letters (sp_config p) ms ?r\<rparr>, w')"
      by (simp add: process_batch_def dead_letters_def fold_dlq_add Let_def)
    moreover have "accounted (sp_config p) ms ?r" by (simp add: accounted_def dead_letters_def)
    ultimately show ?thesis by blast
  qed
qed

text \<open>
  What the processor relies on: \<open>consume\<close> takes a prefix of what is pending for its topic and leaves the other topics
  alone, and every pending message belongs to its topic.
\<close>

locale stream_source =
  fixes consume :: "'c \<Rightarrow> string \<Rightarrow> int \<Rightarrow> stream_message list \<times> 'c"
    and pending :: "'c \<Rightarrow> string \<Rightarrow> stream_message list"
  assumes consume_split: "consume c t n = (ms, c') \<Longrightarrow> pending c t = ms @ pending c' t"
    and consume_other: "consume c t n = (ms, c') \<Longrightarrow> u \<noteq> t \<Longrightarrow> pending c' u = pending c u"
begin

text \<open>The messages of a topic on their way: handed to the handler, buffered, pending.\<close>

definition in_flight :: "stream_message list \<Rightarrow> ('c, 'w) stream_processor \<Rightarrow> string \<Rightarrow> stream_message list" where
  "in_flight handed p t = filter (\<lambda>m. sm_topic m = t) (handed @ sp_buffer p) @ pending (sp_consumer p) t"

definition well_routed :: "'c \<Rightarrow> bool" where
  "well_routed c \<longleftrightarrow> (\<forall>t. \<forall>m \<in> set (pending c t). sm_topic m = t)"

lemma receive_in_flight:
  assumes "receive_and_buffer consume t n p = (k, p')" "well_routed (sp_consumer p)"
  shows "in_flight handed p' = in_flight handed p \<and> well_routed (sp_consumer p')
    \<and> sp_dlq p' = sp_dlq p \<and> sp_config p' = sp_config p \<and> sp_handler p' = sp_handler p"
proof -
  obtain ms c' where c: "consume (sp_consumer p) t n = (ms, c')" by fastforce
  with assms(1) have p': "p' = p\<lparr>sp_consumer := c', sp_buffer := sp_buffer p @ ms\<rparr>" by (simp add: receive_and_buffer_def)
  note split = consume_split [OF c] and other = consume_other [OF c]
  have topic: "\<forall>m \<in> set ms. sm_topic m = t" using assms(2) unfolding well_routed_def by (metis UnCI set_append split)
  then have "filter (\<lambda>m. sm_topic m = u) ms = (if u = t then ms else [])" for u by (auto simp: filter_empty_conv)
  then have "in_flight handed p' u = in_flight handed p u" for u by (simp add: in_flight_def p' split other)
  moreover have "well_routed c'" using assms(2) unfolding well_routed_def by (metis UnCI other set_append split)
  ultimately show ?thesis by (auto simp: p')
qed

lemma flush_in_flight:
  assumes "sp_handler p = Some h"
  shows "\<exists>r p' w'. sp_flush p w = (Inr r, p', w') \<and> in_flight (handed @ sp_buffer p) p' = in_flight handed p
    \<and> accounted (sp_config p) (sp_buffer p) r \<and> sp_dlq p' = sp_dlq p @ dead_letters (sp_config p) (sp_buffer p) r
    \<and> sp_consumer p' = sp_consumer p \<and> sp_config p' = sp_config p \<and> sp_handler p' = sp_handler p"
proof -
  from process_batch_total [of "p\<lparr>sp_buffer := []\<rparr>" h "sp_buffer p" w] assms obtain r w'
    where "sp_flush p w = (Inr r, p\<lparr>sp_buffer := [], sp_dlq := sp_dlq p @ dead_letters (sp_config p) (sp_buffer p) r\<rparr>, w')"
      and "accounted (sp_config p) (sp_buffer p) r" unfolding sp_flush_def by auto
  then show ?thesis by (auto simp: in_flight_def)
qed

end

definition co_pending :: "mem_consumer \<Rightarrow> string \<Rightarrow> stream_message list" where
  "co_pending c t = dict_get_or (co_queues c) t []"

interpretation mem: stream_source co_consume co_pending
  by unfold_locales (auto simp: co_consume_def co_pending_def dict_get_or_def Let_def dict_simps slices split: option.splits)

lemma pending_publish: "co_pending (co_publish t m c) u = co_pending c u @ (if u = t then [m] else [])"
  by (auto simp: co_pending_def co_publish_def dict_get_or_def Let_def dict_simps dict_has_map_of split: option.splits)

lemma pending_subscribe: "co_pending (co_subscribe ts c) = co_pending c"
proof -
  have "dict_get_or (fold (\<lambda>t q. if dict_has q t then q else AList.update t [] q) ts q) u [] = dict_get_or q u []"
    for u and q :: "(string, stream_message list) dict"
    by (induction ts arbitrary: q) (auto simp: dict_get_or_def dict_simps dict_has_map_of split: option.splits)
  then show ?thesis by (simp add: fun_eq_iff co_pending_def co_subscribe_def)
qed

section \<open>Runs of a stream\<close>

text \<open>One use of a processor and its in-memory consumer; a run logs the batches it handled with their results.\<close>

datatype stream_op = Publish stream_message | Subscribe "string list" | Receive string int | Commit stream_message | Flush

type_synonym 'w stream_state = "(mem_consumer, 'w) stream_processor \<times> 'w \<times> (stream_message list \<times> process_result) list"

fun sp_step :: "stream_op \<Rightarrow> 'w stream_state \<Rightarrow> 'w stream_state" where
  "sp_step (Publish m) (p, w, l) = (p\<lparr>sp_consumer := co_publish (sm_topic m) m (sp_consumer p)\<rparr>, w, l)"
| "sp_step (Subscribe ts) (p, w, l) = (p\<lparr>sp_consumer := co_subscribe ts (sp_consumer p)\<rparr>, w, l)"
| "sp_step (Receive t n) (p, w, l) = (snd (receive_and_buffer co_consume t n p), w, l)"
| "sp_step (Commit m) (p, w, l) = (p\<lparr>sp_consumer := co_commit m (sp_consumer p)\<rparr>, w, l)"
| "sp_step Flush (p, w, l) =
     (case sp_flush p w of
        (Inl e, p', w') \<Rightarrow> (p', w', l)
      | (Inr r, p', w') \<Rightarrow> (p', w', l @ [(sp_buffer p, r)]))"

definition published :: "string \<Rightarrow> stream_op list \<Rightarrow> stream_message list" where
  "published t ops = List.map_filter (\<lambda>op. case op of Publish m \<Rightarrow> if sm_topic m = t then Some m else None | _ \<Rightarrow> None) ops"

lemma published_snoc: "published t (ops @ [op]) = published t ops @ (case op of Publish m \<Rightarrow> if sm_topic m = t then [m] else [] | _ \<Rightarrow> [])"
  by (cases op) (simp_all add: published_def map_filter_def)

definition stream_inv :: "stream_config \<Rightarrow> 'w msg_handler \<Rightarrow> stream_op list \<Rightarrow> 'w stream_state \<Rightarrow> bool" where
  "stream_inv cfg h ops s = (case s of (p, w, l) \<Rightarrow>
     sp_config p = cfg \<and> sp_handler p = Some h \<and> mem.well_routed (sp_consumer p)
   \<and> (\<forall>t. mem.in_flight (concat (map fst l)) p t = published t ops)
   \<and> sp_dlq p = concat (map (\<lambda>(ms, r). dead_letters cfg ms r) l) \<and> (\<forall>(ms, r) \<in> set l. accounted cfg ms r))"

lemma stream_inv_init: "stream_inv cfg h [] (sp_init cfg (co_init name) (Some h), w, [])"
  by (simp add: stream_inv_def sp_init_def co_init_def mem.well_routed_def mem.in_flight_def co_pending_def dict_get_or_def
      published_def map_filter_def)

lemma stream_inv_step:
  assumes "stream_inv cfg h ops (p, w, l)"
  shows "stream_inv cfg h (ops @ [op]) (sp_step op (p, w, l))"
proof (cases op)
  case (Publish m)
  with assms show ?thesis
    by (auto simp: stream_inv_def published_snoc mem.well_routed_def mem.in_flight_def pending_publish split: if_splits)
next
  case (Subscribe ts)
  with assms show ?thesis
    by (simp add: stream_inv_def published_snoc mem.well_routed_def mem.in_flight_def pending_subscribe)
next
  case (Commit m)
  have "co_pending (co_commit m c) = co_pending c" for c by (simp add: fun_eq_iff co_pending_def co_commit_def)
  with Commit assms show ?thesis by (simp add: stream_inv_def published_snoc mem.well_routed_def mem.in_flight_def)
next
  case (Receive t n)
  obtain k p' where r: "receive_and_buffer co_consume t n p = (k, p')" by fastforce
  from assms have "mem.well_routed (sp_consumer p)" by (simp add: stream_inv_def)
  from mem.receive_in_flight [OF r this, of "concat (map fst l)"] assms r Receive show ?thesis
    by (simp add: stream_inv_def published_snoc)
next
  case Flush
  from assms have "sp_handler p = Some h" by (simp add: stream_inv_def)
  from mem.flush_in_flight [OF this, of w "concat (map fst l)"] obtain r p' w' where
    "sp_flush p w = (Inr r, p', w')" "mem.in_flight (concat (map fst l) @ sp_buffer p) p' = mem.in_flight (concat (map fst l)) p"
    "accounted (sp_config p) (sp_buffer p) r" "sp_dlq p' = sp_dlq p @ dead_letters (sp_config p) (sp_buffer p) r"
    "sp_consumer p' = sp_consumer p" "sp_config p' = sp_config p" "sp_handler p' = sp_handler p" by blast
  with Flush assms show ?thesis by (simp add: stream_inv_def published_snoc)
qed

lemma stream_inv_run:
  assumes "stream_inv cfg h ops0 s"
  shows "stream_inv cfg h (ops0 @ ops) (fold sp_step ops s)"
  using assms
proof (induction ops arbitrary: ops0 s)
  case (Cons op ops)
  obtain p w l where "s = (p, w, l)" by (cases s) auto
  with Cons.IH [of "ops0 @ [op]" "sp_step op s"] stream_inv_step Cons.prems show ?case by fastforce
qed simp


text \<open>Without a handler a flush raises after it has emptied the buffer.\<close>

lemma flush_without_handler:
  "sp_handler p = None \<Longrightarrow> sp_buffer p \<noteq> [] \<Longrightarrow> sp_flush p w = (Inl NoHandler, p\<lparr>sp_buffer := []\<rparr>, w)"
  by (simp add: sp_flush_def process_batch_def)

definition sample_message :: "nat \<Rightarrow> stream_message" where
  "sample_message k = \<lparr>sm_id = nat_str k, sm_topic = ''ais'', sm_payload = [], sm_timestamp = [], sm_headers = [],
     sm_partition = 0, sm_offset = int k\<rparr>"


text \<open>In that run the whole batch of two messages becomes dead letters and one message stays queued.\<close>

lemma sample_stream_fails:
  "(case fold sp_step [Publish (sample_message 1), Publish (sample_message 2), Publish (sample_message 3), Receive ''ais'' (- 1), Flush]
       (sp_init (stream_config_init ''s'') (co_init ''c'') (Some (\<lambda>ms w. (Inl ''down'', w))), (), []) of
      (p, w', handled) \<Rightarrow> (map (\<lambda>e. en_record_id (dq_record e)) (sp_dlq p), map (\<lambda>(ms, r). sr_failed r) handled,
        length (co_pending (sp_consumer p) ''ais''))) = ([''1'', ''2''], [2], 1)"
  by code_simp

section \<open>The file behind the dead letter queue\<close>

text \<open>What the queue relies on for a row: its text is one line without surrounding blanks and reads back.\<close>

definition no_break :: "string \<Rightarrow> bool" where
  "no_break s \<longleftrightarrow> CHR 0x0A \<notin> set s \<and> CHR 0x0D \<notin> set s"

definition row_ok :: "'t file_io \<Rightarrow> json \<Rightarrow> bool" where
  "row_ok io j \<longleftrightarrow> io_loads io (io_dumps io j) = Some j \<and> no_break (io_dumps io j) \<and> io_dumps io j \<noteq> []
     \<and> py_strip (io_dumps io j) = io_dumps io j"

lemma file_lines_text: "no_break s \<Longrightarrow> file_lines acc (s @ rest) = file_lines (rev s @ acc) rest"
  by (induction s arbitrary: acc) (auto simp: no_break_def)

lemma file_lines_line: "no_break s \<Longrightarrow> file_lines [] (s @ CHR 0x0A # rest) = s # file_lines [] rest"
  by (simp add: file_lines_text)

lemma parse_row_entry:
  assumes "\<And>t. io_fromiso io (io_isoformat io t) = Some t"
  shows "parse_row io (entry_row io e) = Inr e"
  by (simp add: parse_row_def entry_row_def Let_def assms dict_get_or_def)

definition file_of :: "'t file_io \<Rightarrow> 't stored_entry list \<Rightarrow> string" where
  "file_of io es = concat (map (\<lambda>e. io_dumps io (entry_row io e) @ [CHR 0x0A]) es)"

lemma load_file_of:
  assumes "\<And>t. io_fromiso io (io_isoformat io t) = Some t" and "\<forall>e \<in> set es. row_ok io (entry_row io e)"
  shows "load_lines io (file_lines [] (file_of io es)) = (False, es)"
  using assms(2)
proof (induction es)
  case (Cons e es)
  then have e: "row_ok io (entry_row io e)" by simp
  have "file_lines [] (file_of io (e # es)) = io_dumps io (entry_row io e) # file_lines [] (file_of io es)"
    using e file_lines_line by (simp add: file_of_def row_ok_def)
  with e Cons show ?case by (simp add: row_ok_def Let_def parse_row_entry [OF assms(1)])
qed (simp add: file_of_def)

text \<open>Operations on the queue; a restart makes a new manager on the same file and loads it.\<close>

datatype 't pq_op = PQ_Add 't "'t stored_record" "string list" | PQ_Clear | PQ_Restart

fun pq_step :: "'t file_io \<Rightarrow> 't pq_op \<Rightarrow> 't persistent_dlq \<Rightarrow> 't persistent_dlq" where
  "pq_step io (PQ_Add now r errs) q = pq_add io now r errs q"
| "pq_step io PQ_Clear q = pq_clear q"
| "pq_step io PQ_Restart q = snd (pq_load io (pq_init (pq_file q)))"

definition pq_entry :: "'t \<Rightarrow> 't stored_record \<Rightarrow> string list \<Rightarrow> 't stored_entry" where
  "pq_entry now r errs = \<lparr>se_record = r, se_errors = JList (map JStr errs), se_failed_at = now, se_retry_count = JNum 0\<rparr>"

text \<open>The entries the queue should hold: those added since it was last cleared.\<close>

fun spec_step :: "'t pq_op \<Rightarrow> 't stored_entry list \<Rightarrow> 't stored_entry list" where
  "spec_step (PQ_Add now r errs) es = es @ [pq_entry now r errs]"
| "spec_step PQ_Clear es = []"
| "spec_step PQ_Restart es = es"

definition op_ok :: "'t file_io \<Rightarrow> 't pq_op \<Rightarrow> bool" where
  "op_ok io op = (case op of PQ_Add now r errs \<Rightarrow> row_ok io (entry_row io (pq_entry now r errs)) | _ \<Rightarrow> True)"

definition mirrored :: "'t file_io \<Rightarrow> 't stored_entry list \<Rightarrow> 't persistent_dlq \<Rightarrow> bool" where
  "mirrored io es q \<longleftrightarrow> pq_entries q = es \<and> case_option [] (\<lambda>s. s) (pq_file q) = file_of io es
     \<and> (\<forall>e \<in> set es. row_ok io (entry_row io e))"

lemma mirrored_load:
  assumes "\<And>t. io_fromiso io (io_isoformat io t) = Some t" and "mirrored io es q"
  shows "pq_load io (pq_init (pq_file q)) = (False, q)"
  using load_file_of [OF assms(1), where es = es] assms(2)
  by (cases "pq_file q") (auto simp: mirrored_def pq_load_def pq_init_def)

lemma mirrored_step:
  assumes "\<And>t. io_fromiso io (io_isoformat io t) = Some t" and "mirrored io es q" and "op_ok io op"
  shows "mirrored io (spec_step op es) (pq_step io op q)"
proof (cases op)
  case (PQ_Add now r errs)
  with assms(2,3) show ?thesis
    by (simp add: mirrored_def op_ok_def pq_add_def persist_entry_def pq_entry_def file_of_def Let_def)
next
  case PQ_Clear
  then show ?thesis by (simp add: mirrored_def pq_clear_def file_of_def)
next
  case PQ_Restart
  with mirrored_load [OF assms(1,2)] assms(2) show ?thesis by simp
qed

lemma mirrored_run:
  assumes "\<And>t. io_fromiso io (io_isoformat io t) = Some t" and "mirrored io es q" and "\<forall>op \<in> set ops. op_ok io op"
  shows "mirrored io (fold spec_step ops es) (fold (pq_step io) ops q)"
  using assms(2,3)
proof (induction ops arbitrary: es q)
  case (Cons op ops)
  with mirrored_step [OF assms(1), of es q op] show ?case by simp
qed simp

text \<open>C32. The file-backed dead letter queue survives restarts: whatever sequence of additions, clearings and restarts has been made
  from an empty start, it holds the entries added since the last clearing in order, and loading the
  file into a new manager gives the same entries and raises nothing.  Assumed is that dates read back from their ISO
  form and rows from their JSON line.\<close>

theorem dead_letters_survive_restart:
  assumes "\<forall>t. io_fromiso io (io_isoformat io t) = Some t" and "\<forall>op \<in> set ops. op_ok io op"
  shows "pq_entries (fold (pq_step io) ops (pq_init None)) = fold spec_step ops []
    \<and> pq_load io (pq_init (pq_file (fold (pq_step io) ops (pq_init None)))) = (False, fold (pq_step io) ops (pq_init None))"
proof -
  have "mirrored io [] (pq_init None)" by (simp add: mirrored_def pq_init_def file_of_def)
  with assms have m: "mirrored io (fold spec_step ops []) (fold (pq_step io) ops (pq_init None))" by (intro mirrored_run) auto
  moreover have "pq_load io (pq_init (pq_file (fold (pq_step io) ops (pq_init None)))) = (False, fold (pq_step io) ops (pq_init None))"
    using assms(1) m by (intro mirrored_load) auto
  ultimately show ?thesis by (simp add: mirrored_def)
qed

definition sample_record :: "unit stored_record" where
  "sample_record = \<lparr>st_data = JObj [], st_source = JStr ''ais'', st_record_id = JStr ''7'', st_timestamp = (), st_metadata = JObj [], st_errors = JList []\<rparr>"

text \<open>A JSON library that knows one row.\<close>

definition sample_io :: "unit file_io" where
  "sample_io =
     (let row = JObj [(''record'', JObj [(''data'', JObj []), (''source'', JStr ''ais''), (''record_id'', JStr ''7''),
                        (''timestamp'', JStr ''T''), (''metadata'', JObj []), (''errors'', JList [])]),
                      (''errors'', JList [JStr ''down'']), (''failed_at'', JStr ''T''), (''retry_count'', JNum 0)]
      in \<lparr>io_dumps = (\<lambda>j. ''{7}''), io_loads = (\<lambda>s. if s = ''{7}'' then Some row else if s = ''5'' then Some (JNum 5) else None),
          io_isoformat = (\<lambda>_. ''T''), io_fromiso = (\<lambda>s. if s = ''T'' then Some () else None)\<rparr>)"

lemma sample_strip: "py_strip ''{7}'' = ''{7}''" "py_strip ''5'' = ''5''" "py_strip ''{{7}'' = ''{{7}''"
  by code_simp+

lemma sample_op_ok: "op_ok sample_io (PQ_Add () sample_record [''down''])"
  by (simp add: op_ok_def row_ok_def no_break_def sample_io_def pq_entry_def entry_row_def sample_record_def Let_def sample_strip)

theorem dead_letters_survive_restart_witness:
  "pq_entries (fold (pq_step sample_io) [PQ_Add () sample_record [''down''], PQ_Restart, PQ_Add () sample_record [''down'']] (pq_init None))
     = [pq_entry () sample_record [''down''], pq_entry () sample_record [''down'']]"
  using dead_letters_survive_restart [of sample_io "[PQ_Add () sample_record [''down''], PQ_Restart, PQ_Add () sample_record [''down'']]"]
    sample_op_ok by (simp add: op_ok_def sample_io_def Let_def)

text \<open>
  After a write that was cut off, the next entry is appended to the broken line: if the two together are not JSON, the
  entry is in memory but lost on the next load.
\<close>

lemma entry_after_broken_line_lost:
  assumes "no_break broken" "no_break (io_dumps io (entry_row io (pq_entry now r errs)))"
    and "io_loads io (py_strip (broken @ io_dumps io (entry_row io (pq_entry now r errs)))) = None"
  shows "pq_entries (pq_add io now r errs (pq_init (Some broken))) = [pq_entry now r errs]
    \<and> pq_entries (snd (pq_load io (pq_add io now r errs (pq_init (Some broken))))) = []"
proof -
  have "file_lines [] ((broken @ io_dumps io (entry_row io (pq_entry now r errs))) @ [CHR 0x0A]) =
      [broken @ io_dumps io (entry_row io (pq_entry now r errs))]"
    using assms(1,2) file_lines_line [of "broken @ io_dumps io (entry_row io (pq_entry now r errs))" "[]"] by (simp add: no_break_def)
  with assms(3) show ?thesis
    by (simp add: pq_add_def persist_entry_def pq_init_def pq_load_def pq_entry_def Let_def)
qed

text \<open>A line that is JSON but not an object is not skipped: it ends \<open>load\<close> with an exception, and the entries after it are not read.\<close>

lemma scalar_line_raises:
  assumes "no_break line" "py_strip line = line" "line \<noteq> []" "io_loads io line = Some j" "\<forall>d. j \<noteq> JObj d"
  shows "pq_load io (pq_init (Some (line @ CHR 0x0A # rest))) = (True, pq_init (Some (line @ CHR 0x0A # rest)))"
proof -
  have "parse_row io j = Inl UncaughtError" using assms(5) by (cases j) (simp_all add: parse_row_def)
  with assms show ?thesis by (simp add: pq_load_def pq_init_def file_lines_line Let_def)
qed

end
