(* ===== verification/Cypher_Builder.thy ===== *)
theory Cypher_Builder
  imports Prelude
begin

text \<open>
  \<^verbatim>\<open>core/kg/cypher_builder.py\<close> and \<^verbatim>\<open>core/kg/project.py\<close>: the fluent builder of Cypher queries, its construction from
  structured options, the query templates, and the injection of project labels.

  Values are JSON values, and a filter that is not set is \<open>None\<close>.  The regular expressions of the label injection are written out
  as scanners: none of them can match in more than one way, because each repeated class is followed by characters
  outside it.  Texts are ASCII.
\<close>

section \<open>Projects\<close>

record project_context =
  kp_name :: string

datatype project_error = InvalidProjectName string

definition valid_project_name :: "string \<Rightarrow> bool" where
  "valid_project_name s \<longleftrightarrow> s \<noteq> [] \<and> is_letter (hd s) \<and> list_all is_word (tl s) \<and> length s \<le> 64"

definition project_label :: "string \<Rightarrow> string" where
  "project_label name = ''KG_'' @ name"

definition kp_label :: "project_context \<Rightarrow> string" where
  "kp_label p = ''KG_'' @ kp_name p"

definition from_header :: "string option \<Rightarrow> (project_error, project_context) res" where
  "from_header h =
     (let raw0 = py_strip (case h of None \<Rightarrow> [] | Some s \<Rightarrow> s);
          raw = (if raw0 = [] then ''default'' else raw0)
      in if valid_project_name raw then Inr \<lparr>kp_name = raw\<rparr> else Inl (InvalidProjectName raw))"

section \<open>Builder\<close>

record query_filter =
  qf_equals :: "json option"
  qf_not_equals :: "json option"
  qf_contains :: "string option"
  qf_starts_with :: "string option"
  qf_ends_with :: "string option"
  qf_gt :: "json option"
  qf_gte :: "json option"
  qf_lt :: "json option"
  qf_lte :: "json option"
  qf_in :: "json list option"
  qf_not_in :: "json list option"
  qf_is_null :: "bool option"
  qf_is_not_null :: "bool option"
  qf_matches_regex :: "string option"

record cypher_builder =
  cy_match :: "string list"
  cy_optional_match :: "string list"
  cy_where :: "string list"
  cy_return :: string
  cy_order_by :: string
  cy_limit :: string
  cy_skip :: string
  cy_with :: "string list"
  cy_call :: "string list"
  cy_parameters :: "(string, json) dict"
  cy_param_counter :: nat
  cy_project_label :: "string option"

definition cy_init :: cypher_builder where
  "cy_init = \<lparr>cy_match = [], cy_optional_match = [], cy_where = [], cy_return = [], cy_order_by = [], cy_limit = [], cy_skip = [],
     cy_with = [], cy_call = [], cy_parameters = [], cy_param_counter = 0, cy_project_label = None\<rparr>"

definition param_name :: "nat \<Rightarrow> string" where
  "param_name k = ''p'' @ nat_str k"

definition next_param :: "cypher_builder \<Rightarrow> string \<times> cypher_builder" where
  "next_param b = (param_name (cy_param_counter b + 1), b\<lparr>cy_param_counter := cy_param_counter b + 1\<rparr>)"

definition match_pattern :: "string \<Rightarrow> cypher_builder \<Rightarrow> cypher_builder" where
  "match_pattern p b = b\<lparr>cy_match := cy_match b @ [''MATCH '' @ p]\<rparr>"

definition optional_match :: "string \<Rightarrow> cypher_builder \<Rightarrow> cypher_builder" where
  "optional_match p b = b\<lparr>cy_optional_match := cy_optional_match b @ [''OPTIONAL MATCH '' @ p]\<rparr>"

definition where_condition :: "string \<Rightarrow> (string, json) dict \<Rightarrow> cypher_builder \<Rightarrow> cypher_builder" where
  "where_condition cond params b = b\<lparr>cy_where := cy_where b @ [cond],
     cy_parameters := fold (\<lambda>(k, v). AList.update k v) params (cy_parameters b)\<rparr>"

text \<open>One parameterised condition of \<open>where_property\<close>: \<open>lhs\<close> is what stands before the parameter.\<close>

definition where_param :: "string \<Rightarrow> json option \<Rightarrow> cypher_builder \<Rightarrow> cypher_builder" where
  "where_param lhs v b =
     (case v of
        None \<Rightarrow> b
      | Some x \<Rightarrow>
          (case next_param b of
             (p, b1) \<Rightarrow> b1\<lparr>cy_where := cy_where b1 @ [lhs @ '' $'' @ p], cy_parameters := AList.update p x (cy_parameters b1)\<rparr>))"

definition where_flag :: "string \<Rightarrow> bool option \<Rightarrow> cypher_builder \<Rightarrow> cypher_builder" where
  "where_flag cond v b = (if v = Some True then b\<lparr>cy_where := cy_where b @ [cond]\<rparr> else b)"

definition where_property :: "string \<Rightarrow> string \<Rightarrow> query_filter \<Rightarrow> cypher_builder \<Rightarrow> cypher_builder" where
  "where_property alias prop f b =
     (let field = alias @ ''.'' @ prop;
          b = where_param (field @ '' ='') (qf_equals f) b;
          b = where_param (field @ '' <>'') (qf_not_equals f) b;
          b = where_param (field @ '' CONTAINS'') (map_option JStr (qf_contains f)) b;
          b = where_param (field @ '' STARTS WITH'') (map_option JStr (qf_starts_with f)) b;
          b = where_param (field @ '' ENDS WITH'') (map_option JStr (qf_ends_with f)) b;
          b = where_param (field @ '' >'') (qf_gt f) b;
          b = where_param (field @ '' >='') (qf_gte f) b;
          b = where_param (field @ '' <'') (qf_lt f) b;
          b = where_param (field @ '' <='') (qf_lte f) b;
          b = where_param (field @ '' IN'') (map_option JList (qf_in f)) b;
          b = where_param (''NOT '' @ field @ '' IN'') (map_option JList (qf_not_in f)) b;
          b = where_flag (field @ '' IS NULL'') (qf_is_null f) b;
          b = where_flag (field @ '' IS NOT NULL'') (qf_is_not_null f) b
      in where_param (field @ '' =~'') (map_option JStr (qf_matches_regex f)) b)"

definition with_clause :: "string \<Rightarrow> cypher_builder \<Rightarrow> cypher_builder" where
  "with_clause c b = b\<lparr>cy_with := cy_with b @ [''WITH '' @ c]\<rparr>"

definition call_procedure :: "string \<Rightarrow> cypher_builder \<Rightarrow> cypher_builder" where
  "call_procedure p b = b\<lparr>cy_call := cy_call b @ [''CALL '' @ p]\<rparr>"

text \<open>A project is given by its name or by its context.\<close>

definition for_project :: "string + project_context \<Rightarrow> cypher_builder \<Rightarrow> cypher_builder" where
  "for_project p b = b\<lparr>cy_project_label := Some (case p of Inl name \<Rightarrow> project_label name | Inr ctx \<Rightarrow> kp_label ctx)\<rparr>"

definition return_clause :: "string \<Rightarrow> cypher_builder \<Rightarrow> cypher_builder" where
  "return_clause c b = b\<lparr>cy_return := ''RETURN '' @ c\<rparr>"

definition order_by :: "string \<Rightarrow> string \<Rightarrow> string \<Rightarrow> cypher_builder \<Rightarrow> cypher_builder" where
  "order_by prop direction alias b =
     (let sort_expr = alias @ ''.'' @ prop @ '' '' @ py_upper direction
      in b\<lparr>cy_order_by := (if cy_order_by b \<noteq> [] then cy_order_by b @ '', '' @ sort_expr else ''ORDER BY '' @ sort_expr)\<rparr>)"

definition limit_to :: "int \<Rightarrow> cypher_builder \<Rightarrow> cypher_builder" where
  "limit_to n b = b\<lparr>cy_limit := ''LIMIT '' @ int_str n\<rparr>"

definition skip_by :: "int \<Rightarrow> cypher_builder \<Rightarrow> cypher_builder" where
  "skip_by n b = b\<lparr>cy_skip := ''SKIP '' @ int_str n\<rparr>"

definition where_within_distance :: "string \<Rightarrow> string \<Rightarrow> real \<Rightarrow> real \<Rightarrow> real \<Rightarrow> cypher_builder \<Rightarrow> cypher_builder" where
  "where_within_distance alias loc lat lon radius b =
     (let (p1, b) = next_param b; (p2, b) = next_param b; (p3, b) = next_param b;
          ps = AList.update p3 (JNum radius) (AList.update p2 (JNum lon) (AList.update p1 (JNum lat) (cy_parameters b)))
      in b\<lparr>cy_parameters := ps,
           cy_where := cy_where b @ [''point.distance('' @ alias @ ''.'' @ loc @ '', point({latitude: $'' @ p1 @ '', longitude: $'' @ p2 @ ''})) < $'' @ p3]\<rparr>)"

definition where_within_bounds :: "string \<Rightarrow> string \<Rightarrow> real \<Rightarrow> real \<Rightarrow> real \<Rightarrow> real \<Rightarrow> cypher_builder \<Rightarrow> cypher_builder" where
  "where_within_bounds alias loc min_lat min_lon max_lat max_lon b =
     (let field = alias @ ''.'' @ loc;
          (p1, b) = next_param b; (p2, b) = next_param b; (p3, b) = next_param b; (p4, b) = next_param b;
          ps = AList.update p4 (JNum max_lon) (AList.update p3 (JNum min_lon) (AList.update p2 (JNum max_lat) (AList.update p1 (JNum min_lat) (cy_parameters b))))
      in b\<lparr>cy_parameters := ps,
           cy_where := cy_where b @ [field @ ''.latitude >= $'' @ p1, field @ ''.latitude <= $'' @ p2,
                                     field @ ''.longitude >= $'' @ p3, field @ ''.longitude <= $'' @ p4]\<rparr>)"

section \<open>Project labels in patterns\<close>

text \<open>A keyword at the start of a text, in any case, and the end of a word.\<close>

definition keyword_at :: "string \<Rightarrow> string \<Rightarrow> bool" where
  "keyword_at k t \<longleftrightarrow> py_upper (take (length k) t) = k"

definition word_ends :: "string \<Rightarrow> bool" where
  "word_ends t \<longleftrightarrow> t = [] \<or> \<not> is_word (hd t)"

text \<open>\<^verbatim>\<open>(?:OPTIONAL\s+)?MATCH\b\<close> at the start of a text: the length of the match.\<close>

definition match_keyword :: "string \<Rightarrow> nat option" where
  "match_keyword t =
     (let sp = length (takeWhile py_isspace (drop 8 t)) in
      if keyword_at ''OPTIONAL'' t \<and> 0 < sp \<and> keyword_at ''MATCH'' (drop (8 + sp) t) \<and> word_ends (drop (13 + sp) t) then Some (13 + sp)
      else if keyword_at ''MATCH'' t \<and> word_ends (drop 5 t) then Some 5
      else None)"

definition clause_keywords :: "string list" where
  "clause_keywords = [''CREATE'', ''MERGE'', ''SET'', ''DELETE'', ''DETACH'', ''REMOVE'', ''RETURN'', ''WITH'', ''WHERE'', ''ORDER'', ''SKIP'',
     ''LIMIT'', ''UNWIND'', ''FOREACH'', ''CALL'', ''UNION'']"

definition clause_at :: "string \<Rightarrow> nat \<Rightarrow> bool" where
  "clause_at t i \<longleftrightarrow> (i = 0 \<or> \<not> is_word (t ! (i - 1)))
     \<and> list_ex (\<lambda>k. keyword_at k (drop i t) \<and> word_ends (drop (i + length k) t)) clause_keywords"

text \<open>\<^verbatim>\<open>search(text, pos)\<close> for both expressions.\<close>

definition search_match :: "string \<Rightarrow> nat \<Rightarrow> nat option" where
  "search_match t pos = List.find (\<lambda>i. match_keyword (drop i t) \<noteq> None) [pos..<length t]"

definition search_clause :: "string \<Rightarrow> nat \<Rightarrow> nat option" where
  "search_clause t pos = List.find (clause_at t) [pos..<length t]"

text \<open>The labels \<^verbatim>\<open>(?::\w+)*\<close> at the start of a text.\<close>

fun label_run :: "string \<Rightarrow> nat" where
  "label_run [] = 0"
| "label_run (c # cs) =
     (let w = length (takeWhile is_word cs)
      in if c = CHR '':'' \<and> 0 < w then Suc w + label_run (drop w cs) else 0)"

text \<open>
  \<^verbatim>\<open>\((\w+)((?::\w+)*)(\s*[\{\)])\<close> at the start of a text: the length up to the labels and of the whole match.
\<close>

definition node_pattern :: "string \<Rightarrow> (nat \<times> nat) option" where
  "node_pattern t =
     (case t of
        [] \<Rightarrow> None
      | c # cs \<Rightarrow>
          (let w = length (takeWhile is_word cs);
               l = label_run (drop w cs);
               sp = length (takeWhile py_isspace (drop (w + l) cs));
               r = drop (w + l + sp) cs
           in if c = CHR ''('' \<and> 0 < w \<and> r \<noteq> [] \<and> (hd r = CHR ''{'' \<or> hd r = CHR '')'')
              then Some (1 + w + l, 2 + w + l + sp) else None))"

text \<open>\<^verbatim>\<open>node_pat.sub(_add_label, segment)\<close>.\<close>

function inject_nodes :: "string \<Rightarrow> string \<Rightarrow> string" where
  "inject_nodes label [] = []"
| "inject_nodes label (c # cs) =
     (case node_pattern (c # cs) of
        None \<Rightarrow> c # inject_nodes label cs
      | Some (n, m) \<Rightarrow> take n (c # cs) @ '':'' @ label @ take (m - n) (drop n (c # cs)) @ inject_nodes label (drop m (c # cs)))"
  by pat_completeness auto

lemma node_pattern_bounds: "node_pattern t = Some (n, m) \<Longrightarrow> 0 < n \<and> n < m \<and> m \<le> length t"
proof -
  assume a: "node_pattern t = Some (n, m)"
  then obtain c cs where t: "t = c # cs" by (cases t) (auto simp: node_pattern_def)
  let ?w = "length (takeWhile is_word cs)"
  let ?l = "label_run (drop ?w cs)"
  let ?sp = "length (takeWhile py_isspace (drop (?w + ?l) cs))"
  from a have "n = 1 + ?w + ?l" "m = 2 + ?w + ?l + ?sp" "drop (?w + ?l + ?sp) cs \<noteq> []"
    by (simp_all add: node_pattern_def t Let_def split: if_splits)
  then show ?thesis by (simp add: t)
qed

termination inject_nodes
  by (relation "measure (\<lambda>(l, t). length t)") (auto dest: node_pattern_bounds)

lemma search_match_bounds: "search_match t pos = Some i \<Longrightarrow> pos \<le> i \<and> i < length t \<and> match_keyword (drop i t) \<noteq> None"
  unfolding search_match_def find_Some_iff by (auto simp: nth_append)

lemma search_clause_bounds: "search_clause t pos = Some i \<Longrightarrow> pos \<le> i \<and> i < length t"
  unfolding search_clause_def find_Some_iff by auto

lemma match_keyword_pos: "match_keyword t = Some n \<Longrightarrow> 0 < n"
  by (auto simp: match_keyword_def Let_def split: if_splits)

text \<open>The loop of \<open>inject_project_label\<close> from a position on.\<close>

function inject_from :: "string \<Rightarrow> string \<Rightarrow> nat \<Rightarrow> string" where
  "inject_from label t pos =
     (if pos < length t
      then (case search_match t pos of
              None \<Rightarrow> drop pos t
            | Some i \<Rightarrow>
                (case search_clause t (i + the (match_keyword (drop i t))) of
                   None \<Rightarrow> take (i - pos) (drop pos t) @ inject_nodes label (drop i t)
                 | Some j \<Rightarrow> take (i - pos) (drop pos t) @ inject_nodes label (take (j - i) (drop i t)) @ inject_from label t j))
      else [])"
  by pat_completeness auto

termination inject_from
proof (relation "measure (\<lambda>(l, t, pos). length t - pos)", goal_cases)
  case (2 label t pos i j)
  from search_match_bounds [OF 2(2)] obtain n where "pos \<le> i" "match_keyword (drop i t) = Some n" by auto
  with search_clause_bounds [OF 2(3)] match_keyword_pos show ?case using 2(1) by fastforce
qed simp

declare inject_from.simps [simp del]

definition inject_project_label :: "string \<Rightarrow> string \<Rightarrow> string" where
  "inject_project_label clause label = inject_from label clause 0"

section \<open>Building\<close>

definition scoped :: "cypher_builder \<Rightarrow> string list \<Rightarrow> string list" where
  "scoped b cs =
     (case cy_project_label b of
        None \<Rightarrow> cs
      | Some l \<Rightarrow> if l = [] then cs else map (\<lambda>c. inject_project_label c l) cs)"

definition clause_if :: "string \<Rightarrow> string list" where
  "clause_if c = (if c \<noteq> [] then [c] else [])"

definition build :: "cypher_builder \<Rightarrow> string \<times> (string, json) dict" where
  "build b = (join_with [CHR 0x0A]
     (cy_call b @ scoped b (cy_match b) @ scoped b (cy_optional_match b)
      @ (if cy_where b \<noteq> [] then [''WHERE '' @ join_with '' AND '' (cy_where b)] else [])
      @ cy_with b @ clause_if (cy_return b) @ clause_if (cy_order_by b) @ clause_if (cy_skip b) @ clause_if (cy_limit b)),
     cy_parameters b)"

section \<open>Structured options\<close>

text \<open>Absent filters, orders and properties are empty lists.\<close>

record query_options =
  qo_type :: string
  qo_filter :: "(string \<times> query_filter) list"
  qo_order_by :: "(string \<times> string) list"
  qo_limit :: "int option"
  qo_offset :: "int option"
  qo_properties :: "string list"

datatype options_error = EmptyType

definition from_query_options :: "query_options \<Rightarrow> (string + project_context) option \<Rightarrow> (options_error, cypher_builder) res" where
  "from_query_options opts project =
     (let b = (case project of None \<Rightarrow> cy_init | Some p \<Rightarrow> for_project p cy_init) in
      if qo_type opts = [] then Inl EmptyType
      else (let alias = [hd (py_lower (qo_type opts))];
                b = match_pattern (''('' @ alias @ '':'' @ qo_type opts @ '')'') b;
                b = fold (\<lambda>(prop, f). where_property alias prop f) (qo_filter opts) b;
                b = fold (\<lambda>(prop, dir). order_by prop dir alias) (qo_order_by opts) b;
                b = (case qo_offset opts of None \<Rightarrow> b | Some n \<Rightarrow> skip_by n b);
                b = (case qo_limit opts of None \<Rightarrow> b | Some n \<Rightarrow> limit_to n b)
            in Inr (if qo_properties opts \<noteq> []
                    then return_clause (join_with '', '' (map (\<lambda>p. alias @ ''.'' @ p @ '' AS '' @ p) (qo_properties opts))) b
                    else return_clause alias b)))"

section \<open>Query templates\<close>

definition label_suffix :: "string option \<Rightarrow> string" where
  "label_suffix l = (case l of None \<Rightarrow> [] | Some s \<Rightarrow> if s = [] then [] else '':'' @ s)"

datatype rel_direction = Outgoing | Incoming | Both

definition find_related_objects :: "string \<Rightarrow> string \<Rightarrow> rel_direction \<Rightarrow> string option \<Rightarrow> string \<times> (string, json) dict" where
  "find_related_objects object_id rel dir pl =
     (let lbl = label_suffix pl;
          source = ''(n'' @ lbl @ '' {id: $objectId})'';
          target = ''(related'' @ lbl @ '')'';
          pattern = (case dir of
             Outgoing \<Rightarrow> source @ ''-[:'' @ rel @ '']->'' @ target
           | Incoming \<Rightarrow> source @ ''<-[:'' @ rel @ '']-'' @ target
           | Both \<Rightarrow> source @ ''-[:'' @ rel @ '']-'' @ target)
      in (''MATCH '' @ pattern @ [CHR 0x0A] @ ''RETURN related'', [(''objectId'', JStr object_id)]))"

text \<open>A triple-quoted text whose first and last lines are blank, stripped.\<close>

definition template :: "string list \<Rightarrow> string" where
  "template ls = py_strip ([CHR 0x0A] @ join_with [CHR 0x0A] ls @ [CHR 0x0A] @ replicate 8 (CHR '' ''))"

definition find_shortest_path :: "string \<Rightarrow> string \<Rightarrow> int \<Rightarrow> string option \<Rightarrow> string \<times> (string, json) dict" where
  "find_shortest_path from_id to_id max_depth pl =
     (template [''MATCH p = shortestPath((from'' @ label_suffix pl @ '' {id: $fromId})-[*..'' @ int_str max_depth @ '']-(to'' @ label_suffix pl @ '' {id: $toId}))'',
                ''RETURN p''],
      [(''fromId'', JStr from_id), (''toId'', JStr to_id)])"

definition get_subgraph :: "string \<Rightarrow> int \<Rightarrow> string list \<Rightarrow> string option \<Rightarrow> string \<times> (string, json) dict" where
  "get_subgraph root_id depth rels pl =
     (template [''MATCH (root'' @ label_suffix pl @ '' {id: $rootId})'', ''CALL apoc.path.subgraphAll(root, {'', ''  maxLevel: '' @ int_str depth @ '','',
                ''  relationshipFilter: '' @ dquote (join_with ''|'' rels), ''})'', ''YIELD nodes, relationships'', ''RETURN nodes, relationships''],
      [(''rootId'', JStr root_id)])"

definition fulltext_search :: "string \<Rightarrow> string \<Rightarrow> int \<Rightarrow> string option \<Rightarrow> string \<times> (string, json) dict" where
  "fulltext_search index_name search_term limit pl =
     (template ([''CALL db.index.fulltext.queryNodes($indexName, $searchTerm)'', ''YIELD node, score'']
                @ (if label_suffix pl = [] then [] else [''WHERE node'' @ label_suffix pl])
                @ [''RETURN node, score'', ''ORDER BY score DESC'', ''LIMIT '' @ int_str limit]),
      [(''indexName'', JStr index_name), (''searchTerm'', JStr search_term)])"

definition nearby_entities :: "string \<Rightarrow> real \<Rightarrow> real \<Rightarrow> real \<Rightarrow> string \<Rightarrow> int \<Rightarrow> string option
    \<Rightarrow> (options_error, string \<times> (string, json) dict) res" where
  "nearby_entities ty lat lon radius_km loc limit pl =
     (if ty = [] then Inl EmptyType
      else (let a = [hd (py_lower ty)];
                dist = ''point.distance('' @ a @ ''.'' @ loc @ '', point({latitude: $lat, longitude: $lon}))''
            in Inr (template [''MATCH ('' @ a @ '':'' @ ty @ label_suffix pl @ '')'', ''WHERE '' @ dist @ '' < $radius'',
                              ''WITH '' @ a @ '', '' @ dist @ '' AS distance'', ''RETURN '' @ a @ '', round(distance / 1000.0, 2) AS distance_km'',
                              ''ORDER BY distance'', ''LIMIT '' @ int_str limit],
                    [(''lat'', JNum lat), (''lon'', JNum lon), (''radius'', JNum (radius_km * 1000))])))"

section \<open>Values stay out of the text\<close>

text \<open>Filters that set the same operators, with any values.\<close>

definition same_shape :: "query_filter \<Rightarrow> query_filter \<Rightarrow> bool" where
  "same_shape f g \<longleftrightarrow>
     ((qf_equals f = None) = (qf_equals g = None)) \<and> ((qf_not_equals f = None) = (qf_not_equals g = None))
   \<and> ((qf_contains f = None) = (qf_contains g = None)) \<and> ((qf_starts_with f = None) = (qf_starts_with g = None))
   \<and> ((qf_ends_with f = None) = (qf_ends_with g = None)) \<and> ((qf_gt f = None) = (qf_gt g = None))
   \<and> ((qf_gte f = None) = (qf_gte g = None)) \<and> ((qf_lt f = None) = (qf_lt g = None)) \<and> ((qf_lte f = None) = (qf_lte g = None))
   \<and> ((qf_in f = None) = (qf_in g = None)) \<and> ((qf_not_in f = None) = (qf_not_in g = None))
   \<and> qf_is_null f = qf_is_null g \<and> qf_is_not_null f = qf_is_not_null g
   \<and> ((qf_matches_regex f = None) = (qf_matches_regex g = None))"

definition same_text :: "cypher_builder \<Rightarrow> cypher_builder \<Rightarrow> bool" where
  "same_text a b \<longleftrightarrow> a\<lparr>cy_parameters := []\<rparr> = b\<lparr>cy_parameters := []\<rparr> \<and> map fst (cy_parameters a) = map fst (cy_parameters b)"

named_theorems text_intros \<open>builder operations that do not let values into the text\<close>

lemma same_text_fields:
  assumes "same_text a b"
  shows "b = a\<lparr>cy_parameters := cy_parameters b\<rparr>"
  using assms by (cases a; cases b) (simp add: same_text_def)

lemma same_text_refl: "same_text b b"
  by (simp add: same_text_def)

lemma same_text_where_param [text_intros]:
  assumes "same_text a b" "(v = None) = (w = None)"
  shows "same_text (where_param lhs v a) (where_param lhs w b)"
proof -
  obtain ps where b: "b = a\<lparr>cy_parameters := ps\<rparr>" using same_text_fields [OF assms(1)] by blast
  with assms show ?thesis
    by (cases v; cases w) (auto simp: same_text_def where_param_def next_param_def update_keys)
qed

lemma same_text_where_flag [text_intros]: "same_text a b \<Longrightarrow> v = w \<Longrightarrow> same_text (where_flag c v a) (where_flag c w b)"
  by (cases a; cases b) (auto simp: same_text_def where_flag_def)

lemma same_text_where_property [text_intros]:
  assumes "same_text a b" "same_shape f g"
  shows "same_text (where_property alias prop f a) (where_property alias prop g b)"
  unfolding where_property_def Let_def
  by (intro text_intros assms(1)) (use assms(2) in \<open>simp_all add: same_shape_def\<close>)

lemma same_text_order_by [text_intros]: "same_text a b \<Longrightarrow> same_text (order_by p d al a) (order_by p d al b)"
  by (cases a; cases b) (auto simp: same_text_def order_by_def Let_def)

lemma same_text_rest [text_intros]:
  assumes "same_text a b"
  shows "same_text (skip_by n a) (skip_by n b)" "same_text (limit_to n a) (limit_to n b)" "same_text (return_clause c a) (return_clause c b)"
  using assms by (cases a; cases b; auto simp: same_text_def skip_by_def limit_to_def return_clause_def)+

lemma same_text_build:
  assumes "same_text a b"
  shows "fst (build a) = fst (build b) \<and> map fst (snd (build a)) = map fst (snd (build b))"
proof -
  obtain ps where "b = a\<lparr>cy_parameters := ps\<rparr>" using same_text_fields [OF assms] by blast
  with assms show ?thesis by (simp add: build_def scoped_def same_text_def)
qed

lemma same_text_filters:
  assumes "list_all2 (\<lambda>(p, f) (q, g). p = q \<and> same_shape f g) fs gs" "same_text a b"
  shows "same_text (fold (\<lambda>(prop, f). where_property alias prop f) fs a) (fold (\<lambda>(prop, f). where_property alias prop f) gs b)"
  using assms
proof (induction arbitrary: a b rule: list_all2_induct)
  case (Cons x xs y ys)
  then show ?case by (auto intro: text_intros split: prod.splits)
qed simp

lemma same_text_orders: "same_text a b \<Longrightarrow> same_text (fold (\<lambda>(p, d). order_by p d al) os a) (fold (\<lambda>(p, d). order_by p d al) os b)"
  by (induction os arbitrary: a b) (auto intro: text_intros)

section \<open>The query of structured options\<close>

text \<open>
  The conditions of a filter as terms: a left-hand side with a value, or a complete condition.  \<open>numbered\<close> gives the values
  the parameters \<open>pk\<close>, \<open>pk+1\<close>, ...
\<close>

definition filter_terms :: "string \<Rightarrow> string \<times> query_filter \<Rightarrow> (string \<times> json option) list" where
  "filter_terms alias pf =
     (let field = alias @ ''.'' @ fst pf; f = snd pf;
          val = (\<lambda>lhs v. case v of None \<Rightarrow> [] | Some x \<Rightarrow> [(lhs, Some x)]);
          flag = (\<lambda>c v. if v = Some True then [(c, None)] else [])
      in val (field @ '' ='') (qf_equals f) @ val (field @ '' <>'') (qf_not_equals f)
       @ val (field @ '' CONTAINS'') (map_option JStr (qf_contains f)) @ val (field @ '' STARTS WITH'') (map_option JStr (qf_starts_with f))
       @ val (field @ '' ENDS WITH'') (map_option JStr (qf_ends_with f)) @ val (field @ '' >'') (qf_gt f) @ val (field @ '' >='') (qf_gte f)
       @ val (field @ '' <'') (qf_lt f) @ val (field @ '' <='') (qf_lte f) @ val (field @ '' IN'') (map_option JList (qf_in f))
       @ val (''NOT '' @ field @ '' IN'') (map_option JList (qf_not_in f)) @ flag (field @ '' IS NULL'') (qf_is_null f)
       @ flag (field @ '' IS NOT NULL'') (qf_is_not_null f) @ val (field @ '' =~'') (map_option JStr (qf_matches_regex f)))"

fun numbered :: "nat \<Rightarrow> (string \<times> json option) list \<Rightarrow> string list \<times> (string, json) dict" where
  "numbered k [] = ([], [])"
| "numbered k ((c, None) # ts) = (case numbered k ts of (cs, ps) \<Rightarrow> (c # cs, ps))"
| "numbered k ((lhs, Some v) # ts) =
     (case numbered (Suc k) ts of (cs, ps) \<Rightarrow> ((lhs @ '' $'' @ param_name k) # cs, (param_name k, v) # ps))"

definition term_values :: "(string \<times> json option) list \<Rightarrow> json list" where
  "term_values ts = List.map_filter snd ts"

text \<open>The effect of one term on the builder; \<open>where_property\<close> applies its terms in order.\<close>

definition put_term :: "string \<times> json option \<Rightarrow> cypher_builder \<Rightarrow> cypher_builder" where
  "put_term t b = (case snd t of None \<Rightarrow> b\<lparr>cy_where := cy_where b @ [fst t]\<rparr> | Some v \<Rightarrow> where_param (fst t) (Some v) b)"

lemma where_property_terms: "where_property alias prop f = fold put_term (filter_terms alias (prop, f))"
proof
  fix b
  have v: "where_param lhs v b = fold put_term (case v of None \<Rightarrow> [] | Some x \<Rightarrow> [(lhs, Some x)]) b" for lhs v b
    by (cases v) (simp_all add: put_term_def where_param_def)
  have g: "where_flag c v b = fold put_term (if v = Some True then [(c, None)] else []) b" for c v b
    by (simp add: put_term_def where_flag_def)
  show "where_property alias prop f b = fold put_term (filter_terms alias (prop, f)) b"
    by (simp add: where_property_def filter_terms_def Let_def v g)
qed

text \<open>A builder whose parameters are exactly the generated ones.\<close>

definition generated :: "cypher_builder \<Rightarrow> bool" where
  "generated b \<longleftrightarrow> map fst (cy_parameters b) = map param_name [1..<cy_param_counter b + 1]"

lemma param_name_inj: "param_name i = param_name j \<longleftrightarrow> i = j"
  by (auto simp: param_name_def dest: nat_str_inj)

lemma param_fresh: "generated b \<Longrightarrow> \<not> dict_has (cy_parameters b) (param_name (Suc (cy_param_counter b)))"
  unfolding dict_has_def generated_def set_map [symmetric] by (auto simp del: upt_Suc simp: param_name_inj)

lemma generated_where: "generated (b\<lparr>cy_where := cs\<rparr>) = generated b"
  by (simp add: generated_def del: upt_Suc)

lemma generated_snoc:
  "generated b \<Longrightarrow> generated (b\<lparr>cy_where := cs, cy_parameters := cy_parameters b @ [(param_name (Suc (cy_param_counter b)), v)],
     cy_param_counter := Suc (cy_param_counter b)\<rparr>)"
  by (simp add: generated_def)

lemma put_term_step:
  assumes "generated b"
  shows "put_term (c, None) b = b\<lparr>cy_where := cy_where b @ [c]\<rparr>"
    and "put_term (lhs, Some v) b = b\<lparr>cy_where := cy_where b @ [lhs @ '' $'' @ param_name (Suc (cy_param_counter b))],
      cy_parameters := cy_parameters b @ [(param_name (Suc (cy_param_counter b)), v)], cy_param_counter := Suc (cy_param_counter b)\<rparr>"
  using update_absent [OF param_fresh [OF assms]]
  by (simp_all add: put_term_def where_param_def next_param_def)

lemma put_terms:
  assumes "generated b" "numbered (Suc (cy_param_counter b)) ts = (cs, ps)"
  shows "fold put_term ts b = b\<lparr>cy_where := cy_where b @ cs, cy_parameters := cy_parameters b @ ps,
      cy_param_counter := cy_param_counter b + length ps\<rparr> \<and> generated (fold put_term ts b)"
  using assms
proof (induction ts arbitrary: b cs ps)
  case (Cons t ts)
  obtain c v where t: "t = (c, v)" by fastforce
  show ?case
  proof (cases v)
    case None
    obtain cs' where "cs = c # cs'" "numbered (Suc (cy_param_counter b)) ts = (cs', ps)"
      using Cons.prems(2) by (auto simp: t None split: prod.splits)
    with Cons.IH [of "put_term t b" cs' ps] Cons.prems(1) show ?thesis
      by (auto simp: t None put_term_step generated_where)
  next
    case (Some x)
    let ?p = "param_name (Suc (cy_param_counter b))"
    obtain cs' ps' where "cs = (c @ '' $'' @ ?p) # cs'" "ps = (?p, x) # ps'"
      "numbered (Suc (Suc (cy_param_counter b))) ts = (cs', ps')"
      using Cons.prems(2) by (auto simp: t Some split: prod.splits)
    with Cons.IH [of "put_term t b" cs' ps'] Cons.prems(1) show ?thesis
      by (auto simp: t Some put_term_step(2) generated_snoc)
  qed
qed simp

lemma numbered_params: "snd (numbered k ts) = zip (map param_name [k..<k + length (term_values ts)]) (term_values ts)"
proof (induction k ts rule: numbered.induct)
  case (3 k lhs v ts)
  have "[k..<k + Suc (length (term_values ts))] = k # [Suc k..<Suc k + length (term_values ts)]" by (subst upt_conv_Cons) simp_all
  moreover have "term_values ((lhs, Some v) # ts) = v # term_values ts" by (simp add: term_values_def map_filter_def)
  ultimately show ?case using 3 by (auto simp del: upt_Suc split: prod.splits)
qed (auto simp: term_values_def map_filter_def split: prod.splits)

section \<open>Label injection\<close>

text \<open>The only change of the injection is the insertion of the label after a colon.\<close>

inductive labels_added :: "string \<Rightarrow> string \<Rightarrow> string \<Rightarrow> bool" for label where
  la_nil: "labels_added label [] []"
| la_keep: "labels_added label t u \<Longrightarrow> labels_added label (c # t) (c # u)"
| la_insert: "labels_added label t u \<Longrightarrow> labels_added label t ('':'' @ label @ u)"

lemma labels_added_same: "labels_added label t t"
  by (induction t) (auto intro: labels_added.intros)

lemma labels_added_append: "labels_added label t u \<Longrightarrow> labels_added label t' u' \<Longrightarrow> labels_added label (t @ t') (u @ u')"
  by (induction rule: labels_added.induct) (auto intro: labels_added.la_keep dest: labels_added.la_insert)

lemma inject_nodes_adds: "labels_added label t (inject_nodes label t)"
proof (induction label t rule: inject_nodes.induct)
  case (2 label c cs)
  show ?case
  proof (cases "node_pattern (c # cs)")
    case None
    with 2 show ?thesis by (simp add: labels_added.la_keep)
  next
    case (Some nm)
    obtain n m where nm: "nm = (n, m)" by fastforce
    let ?t = "c # cs"
    have t: "?t = take n ?t @ take (m - n) (drop n ?t) @ drop m ?t"
      using node_pattern_bounds [OF Some [unfolded nm]] by (metis append_take_drop_id drop_drop le_add_diff_inverse2 less_imp_le)
    from 2(2) [OF Some nm [symmetric]] have "labels_added label (take (m - n) (drop n ?t) @ drop m ?t) ('':'' @ label @ take (m - n) (drop n ?t) @ inject_nodes label (drop m ?t))"
      by (intro labels_added.la_insert labels_added_append labels_added_same)
    then have "labels_added label (take n ?t @ take (m - n) (drop n ?t) @ drop m ?t) (inject_nodes label ?t)"
      using Some nm by (simp add: labels_added_append labels_added_same del: take_Cons drop_Cons)
    then show ?thesis by (subst t)
  qed
qed (simp add: labels_added.la_nil)

lemma inject_from_adds: "labels_added label (drop pos t) (inject_from label t pos)"
proof (induction label t pos rule: inject_from.induct)
  case (1 label t pos)
  show ?case
  proof (cases "pos < length t")
    case True
    show ?thesis
    proof (cases "search_match t pos")
      case None
      with True show ?thesis by (subst inject_from.simps) (simp add: labels_added_same)
    next
      case (Some i)
      have i: "drop pos t = take (i - pos) (drop pos t) @ drop i t"
        using search_match_bounds [OF Some] by (metis append_take_drop_id drop_drop le_add_diff_inverse2)
      show ?thesis
      proof (cases "search_clause t (i + the (match_keyword (drop i t)))")
        case None
        with True Some show ?thesis
          by (subst inject_from.simps, subst i) (simp add: labels_added_append labels_added_same inject_nodes_adds)
      next
        case (Some j)
        note j = this and m = \<open>search_match t pos = Some i\<close>
        have "i \<le> j" using search_clause_bounds [OF j] by simp
        then have "drop i t = take (j - i) (drop i t) @ drop j t" by (metis append_take_drop_id drop_drop le_add_diff_inverse2)
        with i have "drop pos t = take (i - pos) (drop pos t) @ take (j - i) (drop i t) @ drop j t" by metis
        moreover have "labels_added label (take (i - pos) (drop pos t) @ take (j - i) (drop i t) @ drop j t)
            (take (i - pos) (drop pos t) @ inject_nodes label (take (j - i) (drop i t)) @ inject_from label t j)"
          by (intro labels_added_append labels_added_same inject_nodes_adds 1 [OF True m j])
        ultimately show ?thesis using True m j by (subst inject_from.simps) simp
      qed
    qed
  qed (simp add: inject_from.simps labels_added.la_nil)
qed

lemma is_word_lower: "is_word c \<Longrightarrow> is_word (hd (py_lower (c # cs)))"
  by (auto simp: py_lower_def is_word_def is_letter_def Let_def)

text \<open>A label that is not a clause keyword.\<close>

definition plain_label :: "string \<Rightarrow> bool" where
  "plain_label ty \<longleftrightarrow> ty \<noteq> [] \<and> list_all is_word ty \<and> py_upper ty \<notin> set clause_keywords"

lemma clause_keywords_upper: "list_all (\<lambda>k. 3 \<le> length k \<and> list_all (\<lambda>c. 65 \<le> (of_char c :: nat) \<and> (of_char c :: nat) \<le> 90) k) clause_keywords"
  by code_simp

lemma keyword_letters:
  assumes "k \<in> set clause_keywords" "keyword_at k t" "i < length k"
  shows "i < length t \<and> is_letter (t ! i)"
proof -
  have "length k = length (py_upper (take (length k) t))" using assms(2) by (simp add: keyword_at_def)
  then have l: "length k \<le> length t" by (simp add: py_upper_def)
  have "py_upper (take (length k) t) ! i = k ! i" using assms(2) by (simp add: keyword_at_def)
  then have u: "(let c = t ! i in if 97 \<le> (of_char c :: nat) \<and> (of_char c :: nat) \<le> 122 then char_of (of_char c - 32 :: nat) else c) = k ! i"
    using l assms(3) by (auto simp: py_upper_def Let_def split: if_splits)
  have "65 \<le> (of_char (k ! i) :: nat) \<and> (of_char (k ! i) :: nat) \<le> 90"
    using clause_keywords_upper assms(1,3) by (auto simp: list_all_iff list_all_length)
  with u l assms(3) show ?thesis by (auto simp: is_letter_def Let_def split: if_splits)
qed

lemma not_clause_at: "i < length t \<Longrightarrow> \<not> is_letter (t ! i) \<Longrightarrow> \<not> clause_at t i"
  using clause_keywords_upper keyword_letters [of _ "drop i t" 0] by (fastforce simp: clause_at_def list_ex_iff list_all_iff)

lemma no_clause_in_pattern:
  assumes "plain_label ty"
  shows "search_clause (''MATCH ('' @ a # '':'' @ ty @ '')'') 5 = None"
proof -
  let ?t = "''MATCH ('' @ a # '':'' @ ty @ '')''"
  have nth: "?t ! (9 + j) = (ty @ '')'') ! j" for j by (simp add: nth_append numeral_eq_Suc)
  have drop9: "drop (9 + j) ?t = drop j (ty @ '')'')" for j by (simp add: numeral_eq_Suc)
  have "\<not> clause_at ?t i" if i: "5 \<le> i" "i < length ?t" for i
  proof (cases "9 \<le> i")
    case False
    then consider "i = 5" | "i = 6" | "i = 7" | "i = 8" using i by linarith
    then show ?thesis
    proof cases
      case 3
      have "\<not> keyword_at k (drop 7 ?t)" if "k \<in> set clause_keywords" for k
        using keyword_letters [OF that, of "drop 7 ?t" 1] clause_keywords_upper that by (fastforce simp: is_letter_def list_all_iff)
      then show ?thesis unfolding 3 clause_at_def list_ex_iff by blast
    qed (rule not_clause_at, use i in \<open>simp_all add: is_letter_def\<close>)+
  next
    case True
    define j where "j = i - 9"
    with True have i9: "i = 9 + j" by simp
    with i have j: "j \<le> length ty" by simp
    consider (first) "j = 0" | (inner) "0 < j" "j < length ty" | (close) "j = length ty" using j by linarith
    then show ?thesis
    proof cases
      case inner
      then have "j - 1 < length ty" "i - 1 = 9 + (j - 1)" using i9 by simp_all
      then have "?t ! (i - 1) = ty ! (j - 1)" using nth [of "j - 1"] by (simp add: nth_append)
      moreover have "is_word (ty ! (j - 1))" using inner assms by (simp add: plain_label_def list_all_length)
      ultimately show ?thesis using i9 by (simp add: clause_at_def)
    next
      case close
      have "?t ! i = CHR '')''" using nth [of j] close i9 by simp
      then show ?thesis using i by (intro not_clause_at) (simp_all add: is_letter_def)
    next
      case first
      have False if k: "k \<in> set clause_keywords" "keyword_at k (ty @ '')'')" "word_ends (drop (length k) (ty @ '')''))" for k
      proof -
        consider (lt) "length k < length ty" | (eq) "length k = length ty" | (gt) "length ty < length k" by linarith
        then show False
        proof cases
          case lt
          then show False using k(3) assms by (simp add: word_ends_def plain_label_def list_all_length hd_append hd_drop_conv_nth)
        next
          case eq
          then show False using k(1,2) assms by (simp add: keyword_at_def plain_label_def)
        next
          case gt
          with keyword_letters [OF k(1,2) gt] show False by (simp add: is_letter_def nth_append)
        qed
      qed
      then show ?thesis using drop9 [of 0] drop9 by (auto simp: clause_at_def list_ex_iff i9 first)
    qed
  qed
  then show ?thesis unfolding search_clause_def find_None_iff by auto
qed

lemma node_pattern_other: "c \<noteq> CHR ''('' \<Longrightarrow> node_pattern (c # cs) = None"
  by (simp add: node_pattern_def Let_def)

lemma node_pattern_labelled:
  assumes "is_word a" "list_all is_word ty" "ty \<noteq> []"
  shows "node_pattern (CHR ''('' # a # CHR '':'' # ty @ '')'') = Some (3 + length ty, 4 + length ty)"
proof -
  have w: "takeWhile is_word (ty @ '')'') = ty" using assms(2) by (simp add: list_all_iff is_word_def is_letter_def takeWhile_append2)
  have s: "takeWhile is_word (CHR '':'' # ty @ '')'') = []" "takeWhile py_isspace '')'' = []"
    by (simp_all add: is_word_def is_letter_def py_isspace_def)
  have "label_run (CHR '':'' # ty @ '')'') = Suc (length ty)" using assms(3) by (simp add: w Let_def)
  with assms(1) s show ?thesis by (simp add: node_pattern_def Let_def del: label_run.simps)
qed

lemma inject_pattern:
  assumes "plain_label ty" "is_word a"
  shows "inject_project_label (''MATCH ('' @ a # '':'' @ ty @ '')'') l = ''MATCH ('' @ a # '':'' @ ty @ '':'' @ l @ '')''"
proof -
  let ?t = "''MATCH ('' @ a # '':'' @ ty @ '')''"
  have m: "match_keyword ?t = Some 5" by (simp add: match_keyword_def keyword_at_def py_upper_def word_ends_def is_word_def is_letter_def)
  have "search_match ?t 0 = Some 0"
    unfolding search_match_def upt_rec [of 0 "length ?t"] using m by simp
  moreover from assms(1) have n: "node_pattern (CHR ''('' # a # CHR '':'' # ty @ '')'') = Some (3 + length ty, 4 + length ty)"
    using assms(2) by (intro node_pattern_labelled) (simp_all add: plain_label_def)
  have "inject_nodes l ?t = ''MATCH ('' @ a # '':'' @ ty @ '':'' @ l @ '')''"
    by (simp add: node_pattern_other n numeral_3_eq_3)
  ultimately show ?thesis unfolding inject_project_label_def
    by (subst inject_from.simps) (simp add: m [simplified] no_clause_in_pattern [OF assms(1), simplified])
qed

section \<open>Reference query\<close>

definition order_text :: "string \<Rightarrow> (string \<times> string) list \<Rightarrow> string" where
  "order_text a os = (if os = [] then [] else ''ORDER BY '' @ join_with '', '' (map (\<lambda>(p, d). a @ ''.'' @ p @ '' '' @ py_upper d) os))"

definition reference_query :: "query_options \<Rightarrow> string option \<Rightarrow> string \<times> (string, json) dict" where
  "reference_query opts label =
     (let a = [hd (py_lower (qo_type opts))];
          terms = concat (map (filter_terms a) (qo_filter opts));
          conds = fst (numbered 1 terms)
      in (join_with [CHR 0x0A]
            ([''MATCH ('' @ a @ '':'' @ qo_type opts @ label_suffix label @ '')'']
             @ (if conds = [] then [] else [''WHERE '' @ join_with '' AND '' conds])
             @ [''RETURN '' @ (if qo_properties opts = [] then a
                             else join_with '', '' (map (\<lambda>p. a @ ''.'' @ p @ '' AS '' @ p) (qo_properties opts)))]
             @ clause_if (order_text a (qo_order_by opts))
             @ (case qo_offset opts of None \<Rightarrow> [] | Some n \<Rightarrow> [''SKIP '' @ int_str n])
             @ (case qo_limit opts of None \<Rightarrow> [] | Some n \<Rightarrow> [''LIMIT '' @ int_str n])),
          zip (map param_name [1..<1 + length (term_values terms)]) (term_values terms)))"

lemma fold_order_by:
  assumes "cy_order_by b = []"
  shows "fold (\<lambda>(p, d). order_by p d a) os b = b\<lparr>cy_order_by := order_text a os\<rparr>"
proof (induction os rule: rev_induct)
  case Nil
  with assms show ?case by (simp add: order_text_def)
next
  case (snoc o' os)
  with assms show ?case by (cases o'; cases "os = []") (simp_all add: order_by_def order_text_def Let_def join_with_snoc)
qed

lemma fold_where_property:
  "fold (\<lambda>(prop, f). where_property a prop f) fs = fold put_term (concat (map (filter_terms a) fs))"
proof (induction fs)
  case (Cons pf fs)
  then show ?case by (cases pf) (simp add: where_property_terms fun_eq_iff)
qed (simp add: fun_eq_iff)

definition label_of :: "(string + project_context) option \<Rightarrow> string option" where
  "label_of = map_option (case_sum project_label kp_label)"

lemma label_of_nonempty: "label_of p = Some l \<Longrightarrow> l \<noteq> []"
  by (cases p; cases "the p") (auto simp: label_of_def project_label_def kp_label_def)

section \<open>Properties\<close>

text \<open>C22. Values stay out of the query text: replacing the values of the filters by any others of the same shape, hostile text
  included, changes neither the text of the query nor the names of its parameters.\<close>

theorem query_values_not_in_text:
  assumes "list_all2 (\<lambda>(p, f) (q, g). p = q \<and> same_shape f g) (qo_filter opts) fs"
  shows "map_sum (\<lambda>e. e) (\<lambda>b. (fst (build b), map fst (snd (build b)))) (from_query_options (opts\<lparr>qo_filter := fs\<rparr>) p) =
    map_sum (\<lambda>e. e) (\<lambda>b. (fst (build b), map fst (snd (build b)))) (from_query_options opts p)"
proof (cases "qo_type opts = []")
  case True
  then show ?thesis by (simp add: from_query_options_def Let_def)
next
  case False
  let ?a = "[hd (py_lower (qo_type opts))]"
  let ?b = "match_pattern (''('' @ ?a @ '':'' @ qo_type opts @ '')'') (case p of None \<Rightarrow> cy_init | Some p \<Rightarrow> for_project p cy_init)"
  let ?run = "\<lambda>gs. fold (\<lambda>(prop, dir). order_by prop dir ?a) (qo_order_by opts) (fold (\<lambda>(prop, f). where_property ?a prop f) gs ?b)"
  have "same_text (?run (qo_filter opts)) (?run fs)" by (rule same_text_orders [OF same_text_filters [OF assms same_text_refl]])
  then have "\<exists>b b'. from_query_options opts p = Inr b \<and> from_query_options (opts\<lparr>qo_filter := fs\<rparr>) p = Inr b' \<and> same_text b b'"
    using False by (auto simp: from_query_options_def Let_def intro!: text_intros split: option.splits)
  then obtain b b' where "from_query_options opts p = Inr b" "from_query_options (opts\<lparr>qo_filter := fs\<rparr>) p = Inr b'" "same_text b b'" by blast
  with same_text_build [of b b'] show ?thesis by simp
qed

definition no_filter :: query_filter where
  "no_filter = \<lparr>qf_equals = None, qf_not_equals = None, qf_contains = None, qf_starts_with = None, qf_ends_with = None, qf_gt = None,
     qf_gte = None, qf_lt = None, qf_lte = None, qf_in = None, qf_not_in = None, qf_is_null = None, qf_is_not_null = None,
     qf_matches_regex = None\<rparr>"

definition sample_options :: "string \<Rightarrow> string \<Rightarrow> query_options" where
  "sample_options ty name = \<lparr>qo_type = ty, qo_filter = [(''name'', no_filter\<lparr>qf_contains := Some name, qf_is_not_null := Some True\<rparr>)],
     qo_order_by = [(''name'', ''asc'')], qo_limit = Some 10, qo_offset = None, qo_properties = []\<rparr>"

theorem query_values_not_in_text_witness:
  "map_sum (\<lambda>e. e) (\<lambda>b. (fst (build b), map fst (snd (build b)))) (from_query_options (sample_options ''Vessel'' ''x) DELETE n'') None) =
   map_sum (\<lambda>e. e) (\<lambda>b. (fst (build b), map fst (snd (build b)))) (from_query_options (sample_options ''Vessel'' ''Busan'') None)"
proof -
  have "list_all2 (\<lambda>(p, f) (q, g). p = q \<and> same_shape f g) (qo_filter (sample_options ''Vessel'' ''Busan''))
      (qo_filter (sample_options ''Vessel'' ''x) DELETE n''))" by (simp add: sample_options_def same_shape_def)
  from query_values_not_in_text [OF this, of None] show ?thesis by (simp add: sample_options_def)
qed

text \<open>C21. The query built from structured options is the reference query: one pattern with the project label, the conditions of the
  filters in order with parameters numbered from 1 and bound to their values, then RETURN, ORDER BY, SKIP and LIMIT.  The
  type must be a word that is not a clause keyword.\<close>

theorem query_from_options_exact:
  assumes "plain_label (qo_type opts)"
  shows "\<exists>b. from_query_options opts p = Inr b \<and> build b = reference_query opts (label_of p)"
proof -
  let ?a = "[hd (py_lower (qo_type opts))]"
  let ?ts = "concat (map (filter_terms ?a) (qo_filter opts))"
  let ?m = "''MATCH ('' @ ?a @ '':'' @ qo_type opts"
  from assms have ne: "qo_type opts \<noteq> []" by (simp add: plain_label_def)
  then have w: "is_word (hd (py_lower (qo_type opts)))"
    using assms is_word_lower by (cases "qo_type opts") (auto simp: plain_label_def)
  let ?b0 = "cy_init\<lparr>cy_match := [?m @ '')''], cy_project_label := label_of p\<rparr>"
  have b0: "match_pattern (''('' @ ?a @ '':'' @ qo_type opts @ '')'') (case p of None \<Rightarrow> cy_init | Some p \<Rightarrow> for_project p cy_init) = ?b0"
    by (cases p) (auto simp: match_pattern_def for_project_def cy_init_def label_of_def split: sum.splits)
  obtain cs ps where num: "numbered 1 ?ts = (cs, ps)" by fastforce
  have ps: "ps = zip (map param_name [1..<1 + length (term_values ?ts)]) (term_values ?ts)" using numbered_params [of 1 ?ts] num by simp
  have "generated ?b0" by (simp add: generated_def cy_init_def)
  with put_terms [of ?b0 ?ts cs ps] num have filters: "fold (\<lambda>(prop, f). where_property ?a prop f) (qo_filter opts) ?b0 =
      ?b0\<lparr>cy_where := cs, cy_parameters := ps, cy_param_counter := length ps\<rparr>"
    unfolding fold_where_property by (simp add: cy_init_def)
  have match_line: "scoped (b\<lparr>cy_project_label := label_of p\<rparr>) [?m @ '')''] = [?m @ label_suffix (label_of p) @ '')'']" for b
  proof (cases "label_of p")
    case (Some l)
    with label_of_nonempty [OF Some] inject_pattern [OF assms w, of l] show ?thesis by (simp add: scoped_def label_suffix_def)
  qed (simp add: scoped_def label_suffix_def)
  define b where "b = (case from_query_options opts p of Inr b \<Rightarrow> b)"
  have fields: "from_query_options opts p = Inr b" "cy_call b = []" "cy_match b = [?m @ '')'']" "cy_optional_match b = []" "cy_where b = cs"
    "cy_with b = []" "cy_parameters b = ps" "cy_order_by b = order_text ?a (qo_order_by opts)"
    "cy_skip b = (case qo_offset opts of None \<Rightarrow> [] | Some n \<Rightarrow> ''SKIP '' @ int_str n)"
    "cy_limit b = (case qo_limit opts of None \<Rightarrow> [] | Some n \<Rightarrow> ''LIMIT '' @ int_str n)"
    "cy_return b = ''RETURN '' @ (if qo_properties opts = [] then ?a
       else join_with '', '' (map (\<lambda>p. ?a @ ''.'' @ p @ '' AS '' @ p) (qo_properties opts)))"
    "b = b\<lparr>cy_project_label := label_of p\<rparr>"
    unfolding b_def from_query_options_def Let_def if_not_P [OF ne] b0 filters
    by (simp_all add: fold_order_by cy_init_def skip_by_def limit_to_def return_clause_def split: option.splits)
  have m: "scoped b [?m @ '')''] = [?m @ label_suffix (label_of p) @ '')'']" by (subst fields(12)) (rule match_line)
  have "build b = reference_query opts (label_of p)"
    unfolding build_def reference_query_def Let_def fields(2-11) m num ps
    by (auto simp: scoped_def clause_if_def split: option.splits)
  with fields(1) show ?thesis by blast
qed

lemma sample_reference:
  "reference_query (sample_options ''Vessel'' ''Busan'') (Some ''KG_DevKG'') =
     (join_with [CHR 0x0A] [''MATCH (v:Vessel:KG_DevKG)'', ''WHERE v.name CONTAINS $p1 AND v.name IS NOT NULL'', ''RETURN v'',
        ''ORDER BY v.name ASC'', ''LIMIT 10''], [(''p1'', JStr ''Busan'')])"
  by code_simp

theorem query_from_options_exact_witness:
  "\<exists>b. from_query_options (sample_options ''Vessel'' ''Busan'') (Some (Inl ''DevKG'')) = Inr b
     \<and> build b = (join_with [CHR 0x0A] [''MATCH (v:Vessel:KG_DevKG)'', ''WHERE v.name CONTAINS $p1 AND v.name IS NOT NULL'', ''RETURN v'',
        ''ORDER BY v.name ASC'', ''LIMIT 10''], [(''p1'', JStr ''Busan'')])"
proof -
  have "plain_label (qo_type (sample_options ''Vessel'' ''Busan''))" by code_simp
  from query_from_options_exact [OF this, of "Some (Inl ''DevKG'')"] sample_reference show ?thesis
    by (simp add: label_of_def project_label_def)
qed

text \<open>Injection on any clause only inserts labels.\<close>

lemma inject_project_label_adds: "labels_added label clause (inject_project_label clause label)"
  using inject_from_adds [of label 0 clause] by (simp add: inject_project_label_def)

text \<open>A type named like a clause keyword is not scoped to the project, and neither is a node pattern without a variable.\<close>

lemma keyword_type_unscoped:
  "map_sum (\<lambda>e. ()) (\<lambda>b. fst (build b)) (from_query_options (sample_options ''Order'' ''x'') (Some (Inl ''DevKG''))) =
     Inr (join_with [CHR 0x0A] [''MATCH (o:Order)'', ''WHERE o.name CONTAINS $p1 AND o.name IS NOT NULL'', ''RETURN o'', ''ORDER BY o.name ASC'', ''LIMIT 10''])"
  by code_simp

lemma anonymous_node_unscoped:
  "inject_project_label ''MATCH (:Vessel)-[:DOCKED_AT]->(p:Port)'' ''KG_DevKG'' = ''MATCH (:Vessel)-[:DOCKED_AT]->(p:Port:KG_DevKG)''"
  by code_simp

text \<open>A parameter that the caller names like a generated one is overwritten by the next filter.\<close>

lemma caller_parameter_overwritten:
  "build (where_property ''v'' ''mmsi'' (no_filter\<lparr>qf_equals := Some (JNum 7)\<rparr>)
     (where_condition ''v.name = $p1'' [(''p1'', JStr ''Busan'')] (match_pattern ''(v)'' cy_init)))
   = (join_with [CHR 0x0A] [''MATCH (v)'', ''WHERE v.name = $p1 AND v.mmsi = $p1''], [(''p1'', JNum 7)])"
  by code_simp

text \<open>Headers give labels that are one word.\<close>

lemma header_label_word: "from_header h = Inr ctx \<Longrightarrow> list_all is_word (kp_label ctx) \<and> length (kp_label ctx) \<le> 67"
proof -
  assume "from_header h = Inr ctx"
  then have v: "valid_project_name (kp_name ctx)" by (auto simp: from_header_def Let_def split: if_splits)
  then obtain c cs where "kp_name ctx = c # cs" by (cases "kp_name ctx") (auto simp: valid_project_name_def)
  with v show ?thesis by (simp add: valid_project_name_def kp_label_def is_word_def is_letter_def)
qed

end
