(* ===== verification/Ws_Manager.thy ===== *)
theory Ws_Manager
  imports Prelude "HOL-Library.List_Lexorder" "HOL-Library.Char_ord"
begin

text \<open>
  \<^verbatim>\<open>gateway/ws\<close>: the message envelope of \<^verbatim>\<open>models.py\<close> and the \<open>ConnectionManager\<close> of \<^verbatim>\<open>manager.py\<close>.

  The manager is generic in the type of sockets.  A socket either takes a message or raises, which is the parameter
  \<open>alive\<close>; deliveries are returned as a list.  Each section that holds the lock is one definition, and
  \<open>ws_step\<close> lets such sections of different tasks follow each other in any order: a broadcast takes its targets in
  one section and drops the dead ones in later ones.
\<close>

section \<open>Messages\<close>

datatype ws_message_type = CHAT | NOTIFICATION | KG_UPDATE | SYSTEM | WS_ERROR | PING | PONG | AGENT_QUERY
  | AGENT_RESPONSE | WORKFLOW_EXECUTION | NODE_STATUS

fun ws_type_value :: "ws_message_type \<Rightarrow> string" where
  "ws_type_value CHAT = ''chat''"
| "ws_type_value NOTIFICATION = ''notification''"
| "ws_type_value KG_UPDATE = ''kg_update''"
| "ws_type_value SYSTEM = ''system''"
| "ws_type_value WS_ERROR = ''error''"
| "ws_type_value PING = ''ping''"
| "ws_type_value PONG = ''pong''"
| "ws_type_value AGENT_QUERY = ''agent_query''"
| "ws_type_value AGENT_RESPONSE = ''agent_response''"
| "ws_type_value WORKFLOW_EXECUTION = ''workflow_execution''"
| "ws_type_value NODE_STATUS = ''node_status''"

definition ws_types :: "ws_message_type list" where
  "ws_types = [CHAT, NOTIFICATION, KG_UPDATE, SYSTEM, WS_ERROR, PING, PONG, AGENT_QUERY, AGENT_RESPONSE,
     WORKFLOW_EXECUTION, NODE_STATUS]"

text \<open>\<^verbatim>\<open>WSMessageType(x)\<close>: the member with that value.\<close>

definition ws_type_of :: "json \<Rightarrow> ws_message_type option" where
  "ws_type_of j = (case j of JStr s \<Rightarrow> List.find (\<lambda>t. ws_type_value t = s) ws_types | _ \<Rightarrow> None)"

text \<open>\<open>from_json\<close> does not check the other fields, so they hold any JSON value.\<close>

record ws_message =
  wm_type :: ws_message_type
  wm_payload :: json
  wm_room :: json
  wm_sender :: json
  wm_timestamp :: json
  wm_message_id :: json

datatype ws_error = InvalidJson | UnknownType "json" | NotAnObject

definition ws_message_object :: "ws_message \<Rightarrow> json" where
  "ws_message_object m = JObj
     [(''type'', JStr (ws_type_value (wm_type m))), (''payload'', wm_payload m), (''room'', wm_room m),
      (''sender'', wm_sender m), (''timestamp'', wm_timestamp m), (''message_id'', wm_message_id m)]"

definition to_json :: "(json \<Rightarrow> 't) \<Rightarrow> ws_message \<Rightarrow> 't" where
  "to_json dumps m = dumps (ws_message_object m)"

text \<open>\<open>now\<close> and \<open>fresh\<close> are the defaults drawn for a missing timestamp and message id.\<close>

definition from_json :: "('t \<Rightarrow> json option) \<Rightarrow> real \<Rightarrow> string \<Rightarrow> 't \<Rightarrow> (ws_error, ws_message) res" where
  "from_json loads now fresh t =
     (case loads t of
        None \<Rightarrow> Inl InvalidJson
      | Some (JObj raw) \<Rightarrow>
          (let raw_type = dict_get_or raw ''type'' JNull in
           case ws_type_of raw_type of
             None \<Rightarrow> Inl (UnknownType raw_type)
           | Some ty \<Rightarrow>
               Inr \<lparr>wm_type = ty, wm_payload = dict_get_or raw ''payload'' (JObj []),
                    wm_room = dict_get_or raw ''room'' (JStr []), wm_sender = dict_get_or raw ''sender'' (JStr []),
                    wm_timestamp = dict_get_or raw ''timestamp'' (JNum now),
                    wm_message_id = dict_get_or raw ''message_id'' (JStr fresh)\<rparr>)
      | Some _ \<Rightarrow> Inl NotAnObject)"

section \<open>Connection manager\<close>

record ws_connection_info =
  ci_connection_id :: string
  ci_user_id :: string
  ci_rooms :: "string list"
  ci_connected_at :: real

record 'w ws_manager =
  ws_connections :: "(string, 'w) dict"
  ws_connection_info :: "(string, ws_connection_info) dict"
  ws_rooms :: "(string, string set) dict"

definition ws_init :: "'w ws_manager" where
  "ws_init = \<lparr>ws_connections = [], ws_connection_info = [], ws_rooms = []\<rparr>"

definition ws_connect :: "real \<Rightarrow> 'w \<Rightarrow> string \<Rightarrow> string \<Rightarrow> 'w ws_manager \<Rightarrow> ws_connection_info \<times> 'w ws_manager" where
  "ws_connect now sock cid uid m =
     (let info = \<lparr>ci_connection_id = cid, ci_user_id = uid, ci_rooms = [], ci_connected_at = now\<rparr>
      in (info, m\<lparr>ws_connections := AList.update cid sock (ws_connections m),
                  ws_connection_info := AList.update cid info (ws_connection_info m)\<rparr>))"

definition ws_disconnect :: "string \<Rightarrow> 'w ws_manager \<Rightarrow> 'w ws_manager" where
  "ws_disconnect cid m =
     (if \<not> dict_has (ws_connections m) cid then m
      else m\<lparr>ws_connections := AList.delete cid (ws_connections m),
             ws_connection_info := AList.delete cid (ws_connection_info m),
             ws_rooms := filter (\<lambda>p. snd p \<noteq> {}) (map (\<lambda>(room, ms). (room, ms - {cid})) (ws_rooms m))\<rparr>)"

definition ws_join_room :: "string \<Rightarrow> string \<Rightarrow> 'w ws_manager \<Rightarrow> 'w ws_manager" where
  "ws_join_room cid room m =
     (if \<not> dict_has (ws_connections m) cid then m
      else (let m1 = m\<lparr>ws_rooms := AList.update room (insert cid (dict_get_or (ws_rooms m) room {})) (ws_rooms m)\<rparr>
            in case map_of (ws_connection_info m1) cid of
                 None \<Rightarrow> m1
               | Some old \<Rightarrow>
                   if room \<in> set (ci_rooms old) then m1
                   else m1\<lparr>ws_connection_info :=
                          AList.update cid (old\<lparr>ci_rooms := ci_rooms old @ [room]\<rparr>) (ws_connection_info m1)\<rparr>))"

definition ws_leave_room :: "string \<Rightarrow> string \<Rightarrow> 'w ws_manager \<Rightarrow> 'w ws_manager" where
  "ws_leave_room cid room m =
     (case map_of (ws_rooms m) room of
        None \<Rightarrow> m
      | Some ms \<Rightarrow>
          (let m1 = m\<lparr>ws_rooms := (if ms - {cid} = {} then AList.delete room (ws_rooms m)
                                  else AList.update room (ms - {cid}) (ws_rooms m))\<rparr>
           in case map_of (ws_connection_info m1) cid of
                None \<Rightarrow> m1
              | Some old \<Rightarrow>
                  if room \<in> set (ci_rooms old)
                  then m1\<lparr>ws_connection_info :=
                         AList.update cid (old\<lparr>ci_rooms := filter (\<lambda>r. r \<noteq> room) (ci_rooms old)\<rparr>) (ws_connection_info m1)\<rparr>
                  else m1))"

text \<open>Reading operations.\<close>

definition ws_connection_count :: "'w ws_manager \<Rightarrow> nat" where
  "ws_connection_count m = length (ws_connections m)"

definition ws_room_names :: "'w ws_manager \<Rightarrow> string list" where
  "ws_room_names m = sort (map fst (ws_rooms m))"

definition ws_get_room_members :: "string \<Rightarrow> 'w ws_manager \<Rightarrow> string list" where
  "ws_get_room_members room m = sorted_list_of_set (dict_get_or (ws_rooms m) room {})"

definition ws_get_connection_info :: "string \<Rightarrow> 'w ws_manager \<Rightarrow> ws_connection_info option" where
  "ws_get_connection_info cid m = map_of (ws_connection_info m) cid"

definition ws_get_stats :: "'w ws_manager \<Rightarrow> nat \<times> nat \<times> (string, nat) dict" where
  "ws_get_stats m = (length (ws_connections m), length (ws_rooms m), map (\<lambda>(r, ms). (r, card ms)) (ws_rooms m))"

section \<open>Messaging\<close>

definition ws_targets :: "'w ws_manager \<Rightarrow> (string \<times> 'w) list" where
  "ws_targets m = ws_connections m"

definition ws_room_targets :: "string \<Rightarrow> 'w ws_manager \<Rightarrow> (string \<times> 'w) list" where
  "ws_room_targets room m = filter (\<lambda>(cid, sock). cid \<in> dict_get_or (ws_rooms m) room {}) (ws_connections m)"

definition ws_drop :: "string list \<Rightarrow> 'w ws_manager \<Rightarrow> 'w ws_manager" where
  "ws_drop dead m = fold ws_disconnect dead m"

text \<open>The loop over the targets: delivered ids in order, and the ids whose socket raised.\<close>

definition ws_send_loop :: "('w \<Rightarrow> bool) \<Rightarrow> (string \<times> 'w) list \<Rightarrow> string list \<times> string list" where
  "ws_send_loop alive targets = (map fst (filter (\<lambda>(c, w). alive w) targets), map fst (filter (\<lambda>(c, w). \<not> alive w) targets))"

definition ws_send_personal :: "('w \<Rightarrow> bool) \<Rightarrow> string \<Rightarrow> 'w ws_manager \<Rightarrow> bool" where
  "ws_send_personal alive cid m = (case map_of (ws_connections m) cid of None \<Rightarrow> False | Some w \<Rightarrow> alive w)"

definition ws_broadcast :: "('w \<Rightarrow> bool) \<Rightarrow> 'w ws_manager \<Rightarrow> (nat \<times> string list) \<times> 'w ws_manager" where
  "ws_broadcast alive m =
     (let (sent, dead) = ws_send_loop alive (ws_targets m) in ((length sent, sent), ws_drop dead m))"

definition ws_broadcast_to_room :: "('w \<Rightarrow> bool) \<Rightarrow> string \<Rightarrow> 'w ws_manager \<Rightarrow> (nat \<times> string list) \<times> 'w ws_manager" where
  "ws_broadcast_to_room alive room m =
     (let targets = ws_room_targets room m in
      if targets = [] then ((0, []), m)
      else (let (sent, dead) = ws_send_loop alive targets in ((length sent, sent), ws_drop dead m)))"

definition ws_ping_all :: "('w \<Rightarrow> bool) \<Rightarrow> 'w ws_manager \<Rightarrow> nat \<times> 'w ws_manager" where
  "ws_ping_all alive m = (let (sent, dead) = ws_send_loop alive (ws_targets m) in (length dead, ws_drop dead m))"

section \<open>Interleaved use\<close>

text \<open>
  One step is one locked section.  A new connection brings an identifier that is not registered; \<open>heartbeat\<close>,
  broadcasts and clients all drop connections through \<open>disconnect\<close>.
\<close>

inductive ws_step :: "'w ws_manager \<Rightarrow> 'w ws_manager \<Rightarrow> bool" where
  connect: "\<not> dict_has (ws_connections m) cid \<Longrightarrow> ws_step m (snd (ws_connect now sock cid uid m))"
| disconnect: "ws_step m (ws_disconnect cid m)"
| join: "ws_step m (ws_join_room cid room m)"
| leave: "ws_step m (ws_leave_room cid room m)"

inductive ws_reach :: "'w ws_manager \<Rightarrow> bool" where
  start: "ws_reach ws_init"
| step: "ws_reach m \<Longrightarrow> ws_step m m' \<Longrightarrow> ws_reach m'"

inductive_cases ws_stepE [elim!]: "ws_step m m'"

definition room_set :: "'w ws_manager \<Rightarrow> string \<Rightarrow> string set" where
  "room_set m r = dict_get_or (ws_rooms m) r {}"

definition conn_set :: "'w ws_manager \<Rightarrow> string set" where
  "conn_set m = fst ` set (ws_connections m)"

text \<open>Connections and their descriptions agree, rooms are not empty and hold connections only, and a description
  lists exactly the rooms its connection is in.\<close>

definition ws_inv :: "'w ws_manager \<Rightarrow> bool" where
  "ws_inv m \<longleftrightarrow> wf_dict (ws_connections m) \<and> wf_dict (ws_rooms m)
     \<and> fst ` set (ws_connection_info m) = conn_set m
     \<and> (\<forall>r ms. map_of (ws_rooms m) r = Some ms \<longrightarrow> ms \<noteq> {} \<and> ms \<subseteq> conn_set m)
     \<and> (\<forall>c i. map_of (ws_connection_info m) c = Some i \<longrightarrow> ci_connection_id i = c \<and> distinct (ci_rooms i)
          \<and> (\<forall>r. r \<in> set (ci_rooms i) \<longleftrightarrow> c \<in> room_set m r))"

text \<open>The abstract view: who is connected, and who is in which room.\<close>

definition ws_abs :: "'w ws_manager \<Rightarrow> string set \<times> (string \<times> string) set" where
  "ws_abs m = (conn_set m, {(c, r). c \<in> room_set m r})"

lemma conn_set_has: "c \<in> conn_set m \<longleftrightarrow> dict_has (ws_connections m) c"
  by (simp add: conn_set_def dict_has_def)

lemma set_keys_update: "fst ` set (AList.update k v d) = insert k (fst ` set d)"
  by (simp add: dom_update)

lemma set_keys_delete: "fst ` set (AList.delete k d) = fst ` set d - {k}"
proof -
  have "set (map fst (AList.delete k d)) = set (map fst d) - {k}" by (auto simp: fst_delete_filter simp del: set_map)
  then show ?thesis by simp
qed

lemma drop_member:
  assumes "wf_dict d"
  shows "map_of (filter (\<lambda>p. snd p \<noteq> {}) (map (\<lambda>(r, ms). (r, ms - {c})) d)) r
    = (case map_of d r of None \<Rightarrow> None | Some ms \<Rightarrow> if ms - {c} = {} then None else Some (ms - {c}))"
  using assms
proof (induction d)
  case (Cons p d)
  obtain k ms where p: "p = (k, ms)" by fastforce
  from Cons.prems have w: "wf_dict d" and k: "map_of d k = None" by (auto simp: p wf_dict_def map_of_eq_None_iff)
  have "map_of (filter (\<lambda>p. snd p \<noteq> {}) (map (\<lambda>(r, ms). (r, ms - {c})) d)) k = None"
    using k by (force simp: map_of_eq_None_iff)
  with Cons.IH [OF w] show ?case by (auto simp: p k)
qed simp

lemma room_set_simps:
  "room_set (snd (ws_connect now sock cid uid m)) r = room_set m r"
  "wf_dict (ws_rooms m) \<Longrightarrow> room_set (ws_disconnect cid m) r = (if cid \<in> conn_set m then room_set m r - {cid} else room_set m r)"
  "room_set (ws_join_room cid room m) r = (if cid \<in> conn_set m \<and> r = room then insert cid (room_set m r) else room_set m r)"
  "room_set (ws_leave_room cid room m) r = (if r = room then room_set m r - {cid} else room_set m r)"
  by (auto simp: room_set_def ws_connect_def ws_disconnect_def ws_join_room_def ws_leave_room_def conn_set_has Let_def
      dict_get_or_def drop_member map_of_update_dict map_of_delete_dict split: option.splits if_splits)

lemma conn_set_simps:
  "conn_set (snd (ws_connect now sock cid uid m)) = insert cid (conn_set m)"
  "conn_set (ws_disconnect cid m) = conn_set m - {cid}"
  "conn_set (ws_join_room cid room m) = conn_set m"
  "conn_set (ws_leave_room cid room m) = conn_set m"
  by (auto simp: conn_set_def ws_connect_def ws_disconnect_def ws_join_room_def ws_leave_room_def Let_def dict_has_def
      set_keys_update set_keys_delete split: option.splits)

lemma rooms_in_conns: "ws_inv m \<Longrightarrow> c \<in> room_set m r \<Longrightarrow> c \<in> conn_set m"
  unfolding ws_inv_def room_set_def dict_get_or_def by (cases "map_of (ws_rooms m) r") (simp, simp, blast)

text \<open>The invariant in terms of \<open>room_set\<close>, which the operations change one room at a time.\<close>

lemma ws_invI:
  assumes "wf_dict (ws_connections m)" and "wf_dict (ws_rooms m)" and "fst ` set (ws_connection_info m) = conn_set m"
    and "\<And>r. map_of (ws_rooms m) r \<noteq> Some {}" and "\<And>r. room_set m r \<subseteq> conn_set m"
    and "\<And>c i. map_of (ws_connection_info m) c = Some i \<Longrightarrow> ci_connection_id i = c \<and> distinct (ci_rooms i)
      \<and> (\<forall>r. r \<in> set (ci_rooms i) \<longleftrightarrow> c \<in> room_set m r)"
  shows "ws_inv m"
proof -
  have "ms \<noteq> {} \<and> ms \<subseteq> conn_set m" if "map_of (ws_rooms m) r = Some ms" for r ms
    using assms(4) [of r] assms(5) [of r] that by (auto simp: room_set_def dict_get_or_def)
  with assms show ?thesis by (auto simp: ws_inv_def)
qed

lemma no_empty_room: "ws_inv m \<Longrightarrow> map_of (ws_rooms m) r \<noteq> Some {}"
  by (auto simp: ws_inv_def)

lemma connect_inv:
  assumes inv: "ws_inv m" and "\<not> dict_has (ws_connections m) cid"
  shows "ws_inv (snd (ws_connect now sock cid uid m))"
proof (rule ws_invI)
  have new: "cid \<notin> room_set m r" for r using rooms_in_conns [OF inv] assms(2) by (auto simp: conn_set_has)
  let ?m = "snd (ws_connect now sock cid uid m)"
  show "wf_dict (ws_connections ?m)" "wf_dict (ws_rooms ?m)" using inv by (auto simp: ws_inv_def ws_connect_def Let_def)
  show "fst ` set (ws_connection_info ?m) = conn_set ?m"
    using inv by (simp add: conn_set_simps) (simp add: ws_inv_def ws_connect_def Let_def set_keys_update)
  show "map_of (ws_rooms ?m) r \<noteq> Some {}" for r using no_empty_room [OF inv] by (simp add: ws_connect_def Let_def)
  show "room_set ?m r \<subseteq> conn_set ?m" for r using rooms_in_conns [OF inv] by (auto simp: room_set_simps conn_set_simps)
  show "ci_connection_id i = c \<and> distinct (ci_rooms i) \<and> (\<forall>r. r \<in> set (ci_rooms i) \<longleftrightarrow> c \<in> room_set ?m r)"
    if "map_of (ws_connection_info ?m) c = Some i" for c i
    using that inv new unfolding room_set_simps
    by (auto simp: ws_connect_def Let_def map_of_update_dict ws_inv_def split: if_splits)
qed

lemma disconnect_inv:
  assumes inv: "ws_inv m"
  shows "ws_inv (ws_disconnect cid m)"
proof (cases "dict_has (ws_connections m) cid")
  case True
  let ?m = "ws_disconnect cid m"
  have wr: "wf_dict (ws_rooms m)" and wc: "wf_dict (ws_connections m)" using inv by (auto simp: ws_inv_def)
  have keys: "map fst (map (\<lambda>(r, ms). (r, ms - {cid})) d) = map fst d" for d :: "(string, string set) dict"
    by (induction d) auto
  show ?thesis
  proof (rule ws_invI)
    have "wf_dict (map (\<lambda>(r, ms). (r, ms - {cid})) (ws_rooms m))" using wr unfolding wf_dict_def keys .
    then show "wf_dict (ws_rooms ?m)" using True by (simp add: ws_disconnect_def wf_dict_filter)
    show "wf_dict (ws_connections ?m)" using wc True by (simp add: ws_disconnect_def)
    show "fst ` set (ws_connection_info ?m) = conn_set ?m"
      using inv True by (simp add: conn_set_simps) (simp add: ws_inv_def ws_disconnect_def set_keys_delete)
    show "map_of (ws_rooms ?m) r \<noteq> Some {}" for r
      using True by (auto simp: ws_disconnect_def drop_member [OF wr] split: option.splits)
    show "room_set ?m r \<subseteq> conn_set ?m" for r
      using rooms_in_conns [OF inv] True by (auto simp: room_set_simps(2) [OF wr] conn_set_simps conn_set_has)
    show "ci_connection_id i = c \<and> distinct (ci_rooms i) \<and> (\<forall>r. r \<in> set (ci_rooms i) \<longleftrightarrow> c \<in> room_set ?m r)"
      if "map_of (ws_connection_info ?m) c = Some i" for c i
      using that inv True unfolding room_set_simps(2) [OF wr]
      by (auto simp: ws_disconnect_def map_of_delete_dict ws_inv_def conn_set_has split: if_splits)
  qed
qed (simp add: ws_disconnect_def inv)

lemma join_inv:
  assumes inv: "ws_inv m"
  shows "ws_inv (ws_join_room cid room m)"
proof (cases "dict_has (ws_connections m) cid")
  case True
  let ?m = "ws_join_room cid room m"
  have "cid \<in> fst ` set (ws_connection_info m)" using inv True by (simp add: ws_inv_def conn_set_has)
  then obtain old where old: "map_of (ws_connection_info m) cid = Some old"
    by (metis map_of_eq_None_iff not_None_eq)
  with inv have mem: "r \<in> set (ci_rooms old) \<longleftrightarrow> cid \<in> room_set m r" for r unfolding ws_inv_def by blast
  show ?thesis
  proof (rule ws_invI)
    show "wf_dict (ws_connections ?m)" "wf_dict (ws_rooms ?m)"
      using inv by (auto simp: ws_inv_def ws_join_room_def Let_def old)
    show "fst ` set (ws_connection_info ?m) = conn_set ?m"
      using inv True unfolding conn_set_simps
      by (auto simp: ws_inv_def ws_join_room_def Let_def old set_keys_update conn_set_has)
    show "map_of (ws_rooms ?m) r \<noteq> Some {}" for r
      using no_empty_room [OF inv] True by (simp add: ws_join_room_def Let_def old map_of_update_dict)
    show "room_set ?m r \<subseteq> conn_set ?m" for r
      using rooms_in_conns [OF inv] True by (auto simp: room_set_simps conn_set_simps conn_set_has)
    show "ci_connection_id i = c \<and> distinct (ci_rooms i) \<and> (\<forall>r. r \<in> set (ci_rooms i) \<longleftrightarrow> c \<in> room_set ?m r)"
      if i: "map_of (ws_connection_info ?m) c = Some i" for c i
    proof (cases "c = cid")
      case False
      then have "map_of (ws_connection_info m) c = Some i"
        using i True by (auto simp: ws_join_room_def Let_def old map_of_update_dict split: if_splits)
      with inv False show ?thesis by (auto simp: ws_inv_def room_set_simps)
    next
      case True
      then have "i = (if room \<in> set (ci_rooms old) then old else old\<lparr>ci_rooms := ci_rooms old @ [room]\<rparr>)"
        using i \<open>dict_has (ws_connections m) cid\<close> by (auto simp: ws_join_room_def Let_def old map_of_update_dict split: if_splits)
      moreover have "ci_connection_id old = cid" "distinct (ci_rooms old)" using inv old by (auto simp: ws_inv_def)
      ultimately show ?thesis using True \<open>dict_has (ws_connections m) cid\<close> by (auto simp: room_set_simps mem conn_set_has)
    qed
  qed
qed (simp add: ws_join_room_def inv)

lemma leave_inv:
  assumes inv: "ws_inv m"
  shows "ws_inv (ws_leave_room cid room m)"
proof (cases "map_of (ws_rooms m) room")
  case (Some ms)
  let ?m = "ws_leave_room cid room m"
  have wr: "wf_dict (ws_rooms m)" using inv by (simp add: ws_inv_def)
  have no_room: "old\<lparr>ci_rooms := filter (\<lambda>r. r \<noteq> room) (ci_rooms old)\<rparr> = old" if "room \<notin> set (ci_rooms old)" for old :: ws_connection_info
  proof -
    have "filter (\<lambda>r. r \<noteq> room) (ci_rooms old) = ci_rooms old" using that by (intro filter_True) auto
    then show ?thesis by simp
  qed
  have known: "cid \<in> fst ` set (ws_connection_info m)" if "map_of (ws_connection_info m) cid = Some old" for old
    using that by (force dest: map_of_SomeD)
  show ?thesis
  proof (rule ws_invI)
    show "wf_dict (ws_connections ?m)" "wf_dict (ws_rooms ?m)"
      using inv by (auto simp: ws_inv_def ws_leave_room_def Let_def Some split: option.splits)
    show "fst ` set (ws_connection_info ?m) = conn_set ?m"
      using inv known unfolding conn_set_simps
      by (auto simp: ws_inv_def ws_leave_room_def Let_def Some set_keys_update split: option.splits)
    show "map_of (ws_rooms ?m) r \<noteq> Some {}" for r
      using no_empty_room [OF inv] by (auto simp: ws_leave_room_def Let_def Some map_of_update_dict map_of_delete_dict split: option.splits)
    show "room_set ?m r \<subseteq> conn_set ?m" for r
      using rooms_in_conns [OF inv] by (auto simp: room_set_simps conn_set_simps)
    show "ci_connection_id i = c \<and> distinct (ci_rooms i) \<and> (\<forall>r. r \<in> set (ci_rooms i) \<longleftrightarrow> c \<in> room_set ?m r)"
      if i: "map_of (ws_connection_info ?m) c = Some i" for c i
    proof -
      have "map_of (ws_connection_info ?m) c = (if c = cid
          then map_option (\<lambda>old. old\<lparr>ci_rooms := filter (\<lambda>r. r \<noteq> room) (ci_rooms old)\<rparr>) (map_of (ws_connection_info m) c)
          else map_of (ws_connection_info m) c)"
        by (auto simp: ws_leave_room_def Let_def Some map_of_update_dict no_room split: option.splits)
      with i obtain old where "map_of (ws_connection_info m) c = Some old"
        "i = (if c = cid then old\<lparr>ci_rooms := filter (\<lambda>r. r \<noteq> room) (ci_rooms old)\<rparr> else old)"
        by (auto split: if_splits)
      with inv show ?thesis by (auto simp: ws_inv_def room_set_simps)
    qed
  qed
qed (simp add: ws_leave_room_def inv)

lemma ws_step_inv: "ws_step m m' \<Longrightarrow> ws_inv m \<Longrightarrow> ws_inv m'"
  by (auto intro: connect_inv disconnect_inv join_inv leave_inv)

lemma ws_reach_inv: "ws_reach m \<Longrightarrow> ws_inv m"
proof (induction rule: ws_reach.induct)
  case start
  show ?case by (simp add: ws_inv_def ws_init_def conn_set_def)
next
  case (step m m')
  show ?case using step.hyps(2) step.IH by (rule ws_step_inv)
qed

lemma ws_drop_exact:
  assumes "ws_inv m"
  shows "ws_inv (ws_drop dead m) \<and> conn_set (ws_drop dead m) = conn_set m - set dead
    \<and> (\<forall>r. room_set (ws_drop dead m) r = room_set m r - set dead)"
  using assms
proof (induction dead arbitrary: m)
  case (Cons d dead)
  have "wf_dict (ws_rooms m)" using Cons.prems by (simp add: ws_inv_def)
  then have rs: "room_set (ws_disconnect d m) r = room_set m r - {d}" for r
    using rooms_in_conns [OF Cons.prems] by (auto simp: room_set_simps(2))
  have drop: "ws_drop (d # dead) m = ws_drop dead (ws_disconnect d m)" by (simp add: ws_drop_def)
  from Cons.IH [OF disconnect_inv [OF Cons.prems, of d]] show ?case
    unfolding drop by (auto simp: rs conn_set_simps)
qed (simp add: ws_drop_def)

lemma room_names_exact:
  assumes inv: "ws_inv m"
  shows "set (ws_room_names m) = snd ` snd (ws_abs m)"
proof -
  have "r \<in> fst ` set (ws_rooms m) \<longleftrightarrow> (\<exists>c. c \<in> room_set m r)" for r
  proof (cases "map_of (ws_rooms m) r")
    case None
    moreover from this have "r \<notin> fst ` set (ws_rooms m)" by (simp only: map_of_eq_None_iff not_False_eq_True)
    ultimately show ?thesis by (simp add: room_set_def dict_get_or_def)
  next
    case (Some ms)
    then have "r \<in> fst ` set (ws_rooms m)" by (force dest: map_of_SomeD)
    moreover have "ms \<noteq> {}" using no_empty_room [OF inv, of r] Some by auto
    ultimately show ?thesis using Some by (auto simp: room_set_def dict_get_or_def)
  qed
  then show ?thesis by (force simp: ws_room_names_def ws_abs_def)
qed

text \<open>Two members of a room, one of whose sockets is dead.\<close>

definition sample_ws :: "bool ws_manager" where
  "sample_ws = ws_join_room ''b'' ''r'' (ws_join_room ''a'' ''r''
     (snd (ws_connect 0 False ''b'' [] (snd (ws_connect 0 True ''a'' [] ws_init)))))"

lemma sample_ws_eq:
  "sample_ws = \<lparr>ws_connections = [(''a'', True), (''b'', False)],
     ws_connection_info = [(''a'', \<lparr>ci_connection_id = ''a'', ci_user_id = [], ci_rooms = [''r''], ci_connected_at = 0\<rparr>),
       (''b'', \<lparr>ci_connection_id = ''b'', ci_user_id = [], ci_rooms = [''r''], ci_connected_at = 0\<rparr>)],
     ws_rooms = [(''r'', {''a'', ''b''})]\<rparr>"
  by (simp add: sample_ws_def ws_join_room_def ws_connect_def ws_init_def dict_has_def dict_get_or_def Let_def insert_commute)

lemma sample_ws_reach: "ws_reach sample_ws"
proof -
  have "ws_reach (snd (ws_connect 0 True ''a'' [] ws_init))"
    by (rule ws_reach.step [OF ws_reach.start ws_step.connect]) (simp add: ws_init_def dict_has_def)
  then have "ws_reach (snd (ws_connect 0 False ''b'' [] (snd (ws_connect 0 True ''a'' [] ws_init))))"
    by (rule ws_reach.step [OF _ ws_step.connect]) (simp add: ws_init_def ws_connect_def dict_has_def Let_def)
  then show ?thesis unfolding sample_ws_def by (intro ws_reach.step [OF _ ws_step.join])
qed

text \<open>Two hazards of the manager.  Registering an identifier a second time keeps its memberships but forgets its list
  of rooms, and dropping a dead socket by its identifier also drops a newer socket under that identifier.\<close>

lemma reconnect_forgets_rooms:
  "let m = snd (ws_connect 1 True ''c'' [] (ws_join_room ''c'' ''r'' (snd (ws_connect 0 True ''c'' [] ws_init))))
   in ''c'' \<in> room_set m ''r'' \<and> map_option ci_rooms (ws_get_connection_info ''c'' m) = Some []"
  by (simp add: Let_def ws_connect_def ws_join_room_def ws_init_def dict_has_def room_set_def dict_get_or_def ws_get_connection_info_def)

lemma stale_drop_removes_new_socket:
  "let m = snd (ws_connect 0 False ''c'' [] ws_init); (sent, dead) = ws_send_loop id (ws_targets m);
       m' = snd (ws_connect 1 True ''c'' [] m)
   in ws_send_personal id ''c'' m' \<and> \<not> ws_send_personal id ''c'' (ws_drop dead m')"
  by (simp add: ws_connect_def ws_init_def ws_send_loop_def ws_targets_def ws_drop_def ws_disconnect_def ws_send_personal_def
      dict_has_def Let_def)

section \<open>Properties\<close>

text \<open>Consistency: whatever the interleaving of connects with unused identifiers, disconnects, joins and
  leaves, connections and descriptions cover the same identifiers, no room is empty or holds a stranger, and a
  connection's description lists a room exactly when the room lists the connection.\<close>

theorem ws_manager_consistent:
  assumes "ws_reach m"
  shows "fst ` set (ws_connection_info m) = fst ` set (ws_connections m)
    \<and> (\<forall>r ms. map_of (ws_rooms m) r = Some ms \<longrightarrow> ms \<noteq> {} \<and> ms \<subseteq> fst ` set (ws_connections m))
    \<and> (\<forall>c i. ws_get_connection_info c m = Some i \<longrightarrow>
         distinct (ci_rooms i) \<and> (\<forall>r. r \<in> set (ci_rooms i) \<longleftrightarrow> c \<in> dict_get_or (ws_rooms m) r {}))"
  using ws_reach_inv [OF assms]
  unfolding ws_inv_def conn_set_def room_set_def ws_get_connection_info_def by blast

theorem ws_manager_consistent_witness:
  "dict_has (ws_rooms sample_ws) ''r''
    \<and> fst ` set (ws_connection_info sample_ws) = fst ` set (ws_connections sample_ws)"
  using ws_manager_consistent [OF sample_ws_reach] by (simp add: sample_ws_eq dict_has_def)

text \<open>C20. Refinement: seen as a set of connections and a membership relation, connecting adds a connection,
  disconnecting removes it with its memberships, joining and leaving add and remove one membership, and the
  queries read that state.\<close>

theorem ws_manager_refines:
  assumes "ws_reach m"
  shows "ws_abs (snd (ws_connect now sock cid uid m)) = (insert cid (fst (ws_abs m)), snd (ws_abs m))
    \<and> ws_abs (ws_disconnect cid m) = (fst (ws_abs m) - {cid}, {(c, r) \<in> snd (ws_abs m). c \<noteq> cid})
    \<and> ws_abs (ws_join_room cid room m) = (fst (ws_abs m), if cid \<in> fst (ws_abs m) then insert (cid, room) (snd (ws_abs m)) else snd (ws_abs m))
    \<and> ws_abs (ws_leave_room cid room m) = (fst (ws_abs m), snd (ws_abs m) - {(cid, room)})
    \<and> ws_connection_count m = card (fst (ws_abs m))
    \<and> set (ws_get_room_members room m) = {c. (c, room) \<in> snd (ws_abs m)}
    \<and> set (ws_room_names m) = snd ` snd (ws_abs m)"
proof -
  note inv = ws_reach_inv [OF assms]
  then have w: "wf_dict (ws_rooms m)" "wf_dict (ws_connections m)" by (simp_all add: ws_inv_def)
  have sub: "room_set m r \<subseteq> conn_set m" for r using rooms_in_conns [OF inv] by auto
  have fin: "finite (room_set m r)" for r
    by (rule finite_subset [OF sub]) (simp add: conn_set_def)
  have "ws_connection_count m = card (conn_set m)"
    using w(2) by (metis ws_connection_count_def conn_set_def distinct_card length_map list.set_map wf_dict_def)
  moreover have "set (ws_get_room_members room m) = room_set m room"
    using fin by (simp add: ws_get_room_members_def room_set_def [symmetric])
  ultimately show ?thesis using sub room_names_exact [OF inv]
    by (auto simp: ws_abs_def room_set_simps(1,3,4) room_set_simps(2) [OF w(1)] conn_set_simps)
qed

theorem ws_manager_refines_witness:
  "ws_abs (ws_leave_room ''a'' ''r'' sample_ws) = ({''a'', ''b''}, {(''b'', ''r'')})"
proof -
  have "ws_abs sample_ws = ({''a'', ''b''}, {(''a'', ''r''), (''b'', ''r'')})"
    by (auto simp: ws_abs_def sample_ws_eq conn_set_def room_set_def dict_get_or_def split: if_splits)
  then show ?thesis using ws_manager_refines [OF sample_ws_reach, where cid = "''a''" and room = "''r''"] by auto
qed

text \<open>Room broadcast: a message reaches, in the order of registration and once each, exactly the members
  of the room whose socket works; the count is their number, and afterwards exactly the members
  whose socket failed are gone, from this and from all other rooms.\<close>

theorem ws_room_broadcast_exact:
  assumes "ws_reach m" and "ws_broadcast_to_room alive room m = ((k, sent), m')"
    and "dead = {c. c \<in> dict_get_or (ws_rooms m) room {} \<and> (\<exists>w. map_of (ws_connections m) c = Some w \<and> \<not> alive w)}"
  shows "sent = map fst (filter (\<lambda>(c, w). c \<in> dict_get_or (ws_rooms m) room {} \<and> alive w) (ws_connections m))
    \<and> k = length sent \<and> distinct sent
    \<and> ws_abs m' = (fst (ws_abs m) - dead, {(c, r) \<in> snd (ws_abs m). c \<notin> dead})"
proof -
  note inv = ws_reach_inv [OF assms(1)]
  then have w: "wf_dict (ws_connections m)" by (simp add: ws_inv_def)
  let ?ts = "ws_room_targets room m"
  obtain s d where sd: "ws_send_loop alive ?ts = (s, d)" by fastforce
  have s: "s = map fst (filter (\<lambda>(c, w). c \<in> dict_get_or (ws_rooms m) room {} \<and> alive w) (ws_connections m))"
    using sd by (auto simp: ws_send_loop_def ws_room_targets_def conj_commute split_def)
  have d: "set d = dead"
    using sd unfolding assms(3) by (force simp: ws_send_loop_def ws_room_targets_def map_of_wf_in_set [OF w, symmetric])
  have "distinct s" using w unfolding s wf_dict_def by (rule distinct_map_filter)
  moreover have "ws_abs (ws_drop d m) = (fst (ws_abs m) - dead, {(c, r) \<in> snd (ws_abs m). c \<notin> dead})"
    using ws_drop_exact [OF inv, of d] by (auto simp: ws_abs_def d)
  moreover have "k = length s \<and> sent = s \<and> m' = ws_drop d m"
    using assms(2) sd by (cases "?ts = []") (auto simp: ws_broadcast_to_room_def Let_def ws_send_loop_def ws_drop_def)
  ultimately show ?thesis using s by simp
qed

theorem ws_room_broadcast_exact_witness:
  "fst (ws_broadcast_to_room id ''r'' sample_ws) = (1, [''a''])
    \<and> fst (ws_abs (snd (ws_broadcast_to_room id ''r'' sample_ws))) = {''a''}"
proof -
  obtain k sent m' where b: "ws_broadcast_to_room id ''r'' sample_ws = ((k, sent), m')" by (metis surj_pair)
  from ws_room_broadcast_exact [OF sample_ws_reach b refl] show ?thesis
    by (simp add: b) (auto simp: sample_ws_eq ws_abs_def conn_set_def dict_get_or_def split: if_splits)
qed

text \<open>Message round trip: when the JSON library reads back what it writes, \<open>from_json\<close> restores every message
  that \<open>to_json\<close> wrote, whatever the default time and identifier.\<close>

theorem ws_message_round_trip:
  assumes "\<forall>j. loads (dumps j) = Some j"
  shows "from_json loads now fresh (to_json dumps m) = Inr m"
proof -
  have "ws_type_of (JStr (ws_type_value t)) = Some t" for t by (cases t) (simp_all add: ws_type_of_def ws_types_def)
  with assms show ?thesis by (simp add: from_json_def to_json_def ws_message_object_def dict_get_or_def)
qed

theorem ws_message_round_trip_witness:
  "from_json Some 0 [] (to_json id \<lparr>wm_type = CHAT, wm_payload = JObj [], wm_room = JStr ''r'', wm_sender = JStr [],
     wm_timestamp = JNum 5, wm_message_id = JStr ''id''\<rparr>)
   = Inr \<lparr>wm_type = CHAT, wm_payload = JObj [], wm_room = JStr ''r'', wm_sender = JStr [],
     wm_timestamp = JNum 5, wm_message_id = JStr ''id''\<rparr>"
  by (rule ws_message_round_trip) simp

end
