(* ===== verification/Chunker.thy ===== *)
theory Chunker
  imports Prelude
begin

text \<open>
  \<^verbatim>\<open>rag/documents/chunker.py\<close> and the chunking models of \<^verbatim>\<open>rag/documents/models.py\<close>: splitting at a separator, greedy
  merging up to the chunk size, and chunks with overlap and character offsets.  Chunk size and overlap are Python
  integers and may be negative until validated; metadata and embeddings of a chunk are left out.
\<close>

section \<open>Strings\<close>

text \<open>\<^verbatim>\<open>text.split(sep)\<close> for a non-empty separator: cut at the leftmost occurrences.\<close>

function split_acc :: "string \<Rightarrow> string \<Rightarrow> string \<Rightarrow> string list" where
  "split_acc sep acc t =
     (if sep = [] \<or> t = [] then [rev acc @ t]
      else if take (length sep) t = sep then rev acc # split_acc sep [] (drop (length sep) t)
      else split_acc sep (hd t # acc) (tl t))"
  by pat_completeness auto
termination
  by (relation "measure (\<lambda>(sep, acc, t). length t)") auto

declare split_acc.simps [simp del]

text \<open>\<^verbatim>\<open>s[-k:]\<close> for \<open>k \<noteq> 0\<close>.\<close>

definition py_tail :: "int \<Rightarrow> string \<Rightarrow> string" where
  "py_tail k s = (if 0 < k then drop (length s - nat k) s else drop (nat (- k)) s)"

section \<open>Configuration and chunks\<close>

record chunking_config =
  ck_chunk_size :: int
  ck_chunk_overlap :: int
  ck_separator :: string

definition chunking_config_init :: chunking_config where
  "chunking_config_init = \<lparr>ck_chunk_size = 512, ck_chunk_overlap = 50, ck_separator = [CHR 0x0A, CHR 0x0A]\<rparr>"

definition chunking_validate :: "chunking_config \<Rightarrow> string list" where
  "chunking_validate c =
     (if ck_chunk_size c \<le> 0 then [''chunk_size must be > 0, got '' @ int_str (ck_chunk_size c)] else [])
     @ (if ck_chunk_overlap c \<ge> ck_chunk_size c
        then [''chunk_overlap ('' @ int_str (ck_chunk_overlap c) @ '') must be < chunk_size ('' @ int_str (ck_chunk_size c) @ '')'']
        else [])"

record document_chunk =
  dc_chunk_id :: string
  dc_doc_id :: string
  dc_content :: string
  dc_chunk_index :: nat
  dc_start_char :: nat
  dc_end_char :: nat

datatype chunker_error = InvalidChunkingConfig "string list" | EmptySeparator

definition text_chunker :: "chunking_config option \<Rightarrow> (chunker_error, chunking_config) res" where
  "text_chunker c =
     (let cfg = (case c of None \<Rightarrow> chunking_config_init | Some x \<Rightarrow> x);
          errs = chunking_validate cfg
      in if errs = [] then Inr cfg else Inl (InvalidChunkingConfig errs))"

section \<open>The three phases\<close>

definition non_blank :: "string \<Rightarrow> bool" where
  "non_blank p \<longleftrightarrow> py_strip p \<noteq> []"

definition split_by_separator :: "chunking_config \<Rightarrow> string \<Rightarrow> (chunker_error, string list) res" where
  "split_by_separator c t =
     (if ck_separator c = [] then Inl EmptySeparator else Inr (filter non_blank (split_acc (ck_separator c) [] t)))"

fun merge_loop :: "chunking_config \<Rightarrow> string \<Rightarrow> string list \<Rightarrow> string list" where
  "merge_loop c cur [] = [cur]"
| "merge_loop c cur (seg # segs) =
     (let candidate = cur @ ck_separator c @ seg in
      if int (length candidate) \<le> ck_chunk_size c then merge_loop c candidate segs
      else cur # merge_loop c seg segs)"

definition merge_segments :: "chunking_config \<Rightarrow> string list \<Rightarrow> string list" where
  "merge_segments c segs = (case segs of [] \<Rightarrow> [] | s # ss \<Rightarrow> merge_loop c s ss)"

text \<open>
  The loop of \<open>build_chunks\<close>: \<open>ov\<close> is the overlap carried over, \<open>pos\<close> the search position, \<open>prev_end\<close> the end of the
  previous chunk, \<open>k\<close> the index.
\<close>

fun build_loop :: "chunking_config \<Rightarrow> string \<Rightarrow> string \<Rightarrow> string list \<Rightarrow> string \<Rightarrow> nat \<Rightarrow> nat \<Rightarrow> nat \<Rightarrow> document_chunk list" where
  "build_loop c doc t [] ov pos prev_end k = []"
| "build_loop c doc t (b # bs) ov pos prev_end k =
     (let content = (if ov \<noteq> [] \<and> int (length ov) + int (length b) \<le> ck_chunk_size c then ov @ b else b);
          start = (case py_find t b pos of None \<Rightarrow> prev_end | Some i \<Rightarrow> i);
          end_char = start + length b
      in \<lparr>dc_chunk_id = (if doc \<noteq> [] then doc @ ''_'' @ nat_str k else nat_str k), dc_doc_id = doc, dc_content = content,
          dc_chunk_index = k, dc_start_char = start, dc_end_char = end_char\<rparr>
         # build_loop c doc t bs (if ck_chunk_overlap c \<noteq> 0 then py_tail (ck_chunk_overlap c) content else [])
             (nat (max 0 (int end_char - ck_chunk_overlap c))) end_char (k + 1))"

definition build_chunks :: "chunking_config \<Rightarrow> string list \<Rightarrow> string \<Rightarrow> string \<Rightarrow> document_chunk list" where
  "build_chunks c merged doc t = build_loop c doc t merged [] 0 0 0"

definition chunk_text :: "chunking_config \<Rightarrow> string \<Rightarrow> string \<Rightarrow> (chunker_error, document_chunk list) res" where
  "chunk_text c t doc =
     (if t = [] then Inr []
      else res_bind (split_by_separator c t) (\<lambda>segs. Inr (build_chunks c (merge_segments c segs) doc t)))"

section \<open>Splitting and joining\<close>

lemma join_with_append:
  "p \<noteq> [] \<Longrightarrow> qs \<noteq> [] \<Longrightarrow> join_with sep (p @ qs) = join_with sep p @ sep @ join_with sep qs"
  by (induction p rule: induct_list012) (auto simp: join_with_Cons)

lemma join_with_concat:
  "[] \<notin> set parts \<Longrightarrow> join_with sep (map (join_with sep) parts) = join_with sep (concat parts)"
proof (induction parts)
  case (Cons p parts)
  show ?case
  proof (cases "parts = []")
    case False
    with Cons.prems have "p \<noteq> []" "concat parts \<noteq> []" by (cases parts; auto)+
    then have "join_with sep (concat (p # parts)) = join_with sep p @ sep @ join_with sep (concat parts)"
      unfolding concat.simps by (rule join_with_append)
    with False Cons show ?thesis by (simp add: join_with_Cons)
  qed simp
qed simp

lemma split_acc_nonempty: "split_acc sep acc t \<noteq> []"
  by (induction sep acc t rule: split_acc.induct) (subst split_acc.simps, simp)

text \<open>Splitting loses nothing: joining the parts with the separator gives the text back.\<close>

lemma join_split: "join_with sep (split_acc sep acc t) = rev acc @ t"
proof (induction sep acc t rule: split_acc.induct)
  case (1 sep acc t)
  consider (stop) "sep = [] \<or> t = []" | (cut) "sep \<noteq> []" "t \<noteq> []" "take (length sep) t = sep"
    | (walk) "sep \<noteq> []" "t \<noteq> []" "take (length sep) t \<noteq> sep" by blast
  then show ?case
  proof cases
    case stop
    then show ?thesis by (subst split_acc.simps) simp
  next
    case cut
    then have "join_with sep (split_acc sep acc t) = rev acc @ sep @ drop (length sep) t"
      using 1(1) by (subst split_acc.simps) (simp add: join_with_Cons split_acc_nonempty)
    also have "sep @ drop (length sep) t = t" using append_take_drop_id [of "length sep" t] cut(3) by simp
    finally show ?thesis .
  next
    case walk
    then show ?thesis using 1(2) by (subst split_acc.simps) simp
  qed
qed

section \<open>Merging\<close>

text \<open>
  The blocks join consecutive runs of segments; a run has one segment or fits the chunk size, and the next
  segment would not have fitted.
\<close>

definition greedy :: "chunking_config \<Rightarrow> string list list \<Rightarrow> bool" where
  "greedy c parts \<longleftrightarrow> [] \<notin> set parts
     \<and> (\<forall>p \<in> set parts. length p = 1 \<or> int (length (join_with (ck_separator c) p)) \<le> ck_chunk_size c)
     \<and> successively (\<lambda>p q. ck_chunk_size c < int (length (join_with (ck_separator c) p @ ck_separator c @ hd q))) parts"

lemma merge_loop_greedy:
  assumes "ps \<noteq> []" and "length ps = 1 \<or> int (length (join_with (ck_separator c) ps)) \<le> ck_chunk_size c"
  shows "\<exists>parts zs. merge_loop c (join_with (ck_separator c) ps) segs = map (join_with (ck_separator c)) ((ps @ zs) # parts)
    \<and> concat ((ps @ zs) # parts) = ps @ segs \<and> greedy c ((ps @ zs) # parts)"
  using assms
proof (induction segs arbitrary: ps)
  case Nil
  then show ?case by (intro exI [of _ "[]"]) (auto simp: greedy_def)
next
  case (Cons seg segs)
  let ?sep = "ck_separator c"
  let ?cand = "join_with ?sep ps @ ?sep @ seg"
  have cand: "?cand = join_with ?sep (ps @ [seg])" using Cons.prems(1) by (simp add: join_with_snoc)
  show ?case
  proof (cases "int (length ?cand) \<le> ck_chunk_size c")
    case True
    from Cons.IH [of "ps @ [seg]"] obtain parts zs where
      "merge_loop c (join_with ?sep (ps @ [seg])) segs = map (join_with ?sep) (((ps @ [seg]) @ zs) # parts)"
      "concat (((ps @ [seg]) @ zs) # parts) = (ps @ [seg]) @ segs" "greedy c (((ps @ [seg]) @ zs) # parts)"
      using True unfolding cand by auto
    with True show ?thesis unfolding cand
      by (intro exI [of _ parts] exI [of _ "seg # zs"]) (simp add: cand)
  next
    case False
    from Cons.IH [of "[seg]"] obtain parts zs where i:
      "merge_loop c (join_with ?sep [seg]) segs = map (join_with ?sep) (([seg] @ zs) # parts)"
      "concat (([seg] @ zs) # parts) = [seg] @ segs" "greedy c (([seg] @ zs) # parts)" by auto
    have "greedy c (ps # ([seg] @ zs) # parts)" using i(3) Cons.prems False by (auto simp: greedy_def)
    with False i show ?thesis
      by (intro exI [of _ "([seg] @ zs) # parts"] exI [of _ "[]"]) simp
  qed
qed

lemma merge_segments_greedy:
  "\<exists>parts. merge_segments c segs = map (join_with (ck_separator c)) parts \<and> concat parts = segs \<and> greedy c parts"
proof (cases segs)
  case Nil
  then show ?thesis by (intro exI [of _ "[]"]) (simp add: merge_segments_def greedy_def)
next
  case (Cons s ss)
  from merge_loop_greedy [of "[s]" c ss] obtain parts zs where
    "merge_loop c s ss = map (join_with (ck_separator c)) (([s] @ zs) # parts)"
    "concat (([s] @ zs) # parts) = [s] @ ss" "greedy c (([s] @ zs) # parts)" by auto
  then show ?thesis by (intro exI [of _ "([s] @ zs) # parts"]) (simp add: Cons merge_segments_def)
qed

section \<open>Chunks\<close>

text \<open>A chunk of a block: the block after an overlap that fits with it.\<close>

definition chunk_of :: "chunking_config \<Rightarrow> string \<Rightarrow> document_chunk \<Rightarrow> bool" where
  "chunk_of c b ch \<longleftrightarrow> (\<exists>ov. dc_content ch = ov @ b \<and> (ov \<noteq> [] \<longrightarrow> int (length (ov @ b)) \<le> ck_chunk_size c))"

lemma build_loop_content: "list_all2 (chunk_of c) bs (build_loop c doc t bs ov pos prev_end k)"
proof (induction bs arbitrary: ov pos prev_end k)
  case (Cons b bs)
  have "chunk_of c b ch" if "dc_content ch = (if ov \<noteq> [] \<and> int (length ov) + int (length b) \<le> ck_chunk_size c then ov @ b else b)" for ch
    unfolding chunk_of_def using that by (intro exI [of _ "if ov \<noteq> [] \<and> int (length ov) + int (length b) \<le> ck_chunk_size c then ov else []"]) auto
  with Cons.IH show ?case by (simp add: Let_def)
qed simp

lemma build_loop_index: "map dc_chunk_index (build_loop c doc t bs ov pos prev_end k) = [k..<k + length bs]"
proof (induction bs arbitrary: ov pos prev_end k)
  case (Cons b bs)
  have "[k..<k + length (b # bs)] = k # [Suc k..<k + length (b # bs)]" by (rule upt_conv_Cons) simp
  also have "k + length (b # bs) = Suc k + length bs" by simp
  finally show ?case using Cons.IH by (simp add: Let_def del: upt_Suc)
qed simp

section \<open>Offsets\<close>

lemma py_find_some:
  assumes "pos \<le> i" and "i + length b \<le> length t" and "take (length b) (drop i t) = b"
  shows "\<exists>j. py_find t b pos = Some j \<and> j \<le> i \<and> take (length b) (drop j t) = b \<and> j + length b \<le> length t"
proof -
  let ?is = "[pos..<length t + 1 - length b]" and ?P = "\<lambda>i. take (length b) (drop i t) = b"
  have "i \<in> set ?is" using assms(1,2) by auto
  with assms(3) have "List.find ?P ?is \<noteq> None" by (auto simp: find_None_iff)
  then obtain j where j: "List.find ?P ?is = Some j" by auto
  then obtain n where n: "n < length ?is" "?P (?is ! n)" "j = ?is ! n" "\<forall>m < n. \<not> ?P (?is ! m)" by (auto simp: find_Some_iff)
  then have "j = pos + n" by auto
  moreover have "\<not> i < j"
  proof
    assume "i < j"
    then have "i - pos < n" using \<open>j = pos + n\<close> assms(1) by linarith
    moreover from this n(1) assms(1) have "?is ! (i - pos) = i" by auto
    ultimately show False using n(4) assms(3) by fastforce
  qed
  ultimately show ?thesis using j n by (auto simp: py_find_def)
qed

text \<open>The offsets of a chunk cut its block out of the text.\<close>

definition located :: "string \<Rightarrow> string \<Rightarrow> document_chunk \<Rightarrow> bool" where
  "located t b ch \<longleftrightarrow> dc_end_char ch = dc_start_char ch + length b \<and> dc_end_char ch \<le> length t
     \<and> take (length b) (drop (dc_start_char ch) t) = b"

lemma build_loop_located:
  assumes "t = pre @ join_with (ck_separator c) bs" and "pos \<le> length pre" and "0 \<le> ck_chunk_overlap c"
  shows "list_all2 (located t) bs (build_loop c doc t bs ov pos prev_end k)"
  using assms
proof (induction bs arbitrary: pre ov pos prev_end k)
  case (Cons b bs)
  obtain rest where t: "t = pre @ b @ rest" and rest: "bs \<noteq> [] \<Longrightarrow> rest = ck_separator c @ join_with (ck_separator c) bs"
    using Cons.prems(1) by (cases "bs = []") (auto simp: join_with_Cons)
  from py_find_some [of pos "length pre" b t] Cons.prems(2) obtain j where
    j: "py_find t b pos = Some j" "j \<le> length pre" "take (length b) (drop j t) = b" "j + length b \<le> length t"
    by (auto simp: t)
  let ?pos = "nat (max 0 (int (j + length b) - ck_chunk_overlap c))"
  have IH: "list_all2 (located t) bs (build_loop c doc t bs ov' ?pos (j + length b) (Suc k))" for ov'
  proof (cases "bs = []")
    case False
    then have "t = (pre @ b @ ck_separator c) @ join_with (ck_separator c) bs" using rest by (simp add: t)
    moreover have "?pos \<le> length (pre @ b @ ck_separator c)" using j(2) Cons.prems(3) by simp
    ultimately show ?thesis using Cons.prems(3) by (rule Cons.IH)
  qed simp
  have "located t b ch" if "dc_start_char ch = j" "dc_end_char ch = j + length b" for ch
    using that j by (simp add: located_def)
  with IH show ?case by (simp add: Let_def j(1))
qed simp

lemma chunk_text_returns:
  "(\<exists>cs. chunk_text c t doc = Inr cs) \<longleftrightarrow> ck_separator c \<noteq> [] \<or> t = []"
  "chunk_text c t doc = Inl e \<Longrightarrow> e = EmptySeparator"
  by (auto simp: chunk_text_def split_by_separator_def split: if_splits)

lemma chunks_greedy:
  assumes "chunking_validate c = []" and "chunk_text c t doc = Inr cs"
  shows "\<exists>parts. concat parts = filter non_blank (split_acc (ck_separator c) [] t) \<and> greedy c parts
    \<and> list_all2 (chunk_of c) (map (join_with (ck_separator c)) parts) cs
    \<and> map dc_chunk_index cs = [0..<length cs]
    \<and> (\<forall>ch \<in> set cs. int (length (dc_content ch)) \<le> ck_chunk_size c
         \<or> (\<exists>seg \<in> set (split_acc (ck_separator c) [] t). dc_content ch = seg \<and> non_blank seg))"
proof (cases "t = []")
  case True
  then have "filter non_blank (split_acc (ck_separator c) [] t) = []" by (subst split_acc.simps) (simp add: non_blank_def py_strip_def)
  with True assms(2) show ?thesis by (intro exI [of _ "[]"]) (simp add: chunk_text_def greedy_def)
next
  case False
  let ?sep = "ck_separator c"
  let ?segs = "filter non_blank (split_acc ?sep [] t)"
  from assms(2) False have cs: "cs = build_loop c doc t (merge_segments c ?segs) [] 0 0 0"
    by (auto simp: chunk_text_def split_by_separator_def build_chunks_def split: if_splits)
  from merge_segments_greedy [of c ?segs] obtain parts where
    p: "merge_segments c ?segs = map (join_with ?sep) parts" "concat parts = ?segs" "greedy c parts" by blast
  have l: "list_all2 (chunk_of c) (map (join_with ?sep) parts) cs" unfolding cs p(1) by (rule build_loop_content)
  have "int (length (dc_content ch)) \<le> ck_chunk_size c \<or> (\<exists>seg \<in> set (split_acc ?sep [] t). dc_content ch = seg \<and> non_blank seg)"
    if "ch \<in> set cs" for ch
  proof -
    from list_all2_right [OF l that] obtain q where q: "q \<in> set parts" "chunk_of c (join_with ?sep q) ch" by auto
    then have "length q = 1 \<or> int (length (join_with ?sep q)) \<le> ck_chunk_size c" using p(3) by (auto simp: greedy_def)
    moreover have "set q \<subseteq> set ?segs" using q(1) by (force simp flip: p(2))
    ultimately show ?thesis using q(2) by (fastforce simp: chunk_of_def length_Suc_conv)
  qed
  moreover have "map dc_chunk_index cs = [0..<length cs]"
    using build_loop_index [of c doc t "merge_segments c ?segs" "[]" 0 0 0] list_all2_lengthD [OF l] by (simp add: cs p(1))
  ultimately show ?thesis using p l by blast
qed

lemma chunks_located:
  assumes "\<forall>seg \<in> set (split_acc (ck_separator c) [] t). non_blank seg" and "0 \<le> ck_chunk_overlap c"
    and "chunk_text c t doc = Inr cs"
  shows "(\<forall>ch \<in> set cs. dc_start_char ch \<le> dc_end_char ch \<and> dc_end_char ch \<le> length t
      \<and> (\<exists>ov. dc_content ch = ov @ take (dc_end_char ch - dc_start_char ch) (drop (dc_start_char ch) t)))
    \<and> join_with (ck_separator c) (map (\<lambda>ch. take (dc_end_char ch - dc_start_char ch) (drop (dc_start_char ch) t)) cs) = t"
proof (cases "t = []")
  case True
  with assms(3) show ?thesis by (simp add: chunk_text_def)
next
  case False
  let ?sep = "ck_separator c" and ?cut = "\<lambda>ch. take (dc_end_char ch - dc_start_char ch) (drop (dc_start_char ch) t)"
  let ?bs = "merge_segments c (split_acc ?sep [] t)"
  have "filter non_blank (split_acc ?sep [] t) = split_acc ?sep [] t" using assms(1) by (rule filter_True)
  with assms(3) False have cs: "cs = build_loop c doc t ?bs [] 0 0 0"
    by (auto simp: chunk_text_def split_by_separator_def build_chunks_def split: if_splits)
  from merge_segments_greedy [of c "split_acc ?sep [] t"] obtain parts where
    p: "?bs = map (join_with ?sep) parts" "concat parts = split_acc ?sep [] t" "greedy c parts" by blast
  then have t: "t = [] @ join_with ?sep ?bs" by (simp add: greedy_def join_with_concat join_split)
  have l: "list_all2 (located t) ?bs cs" unfolding cs by (rule build_loop_located [OF t _ assms(2)]) simp
  have k: "list_all2 (chunk_of c) ?bs cs" unfolding cs by (rule build_loop_content)
  from l have "map ?cut cs = ?bs" by (induction rule: list_all2_induct) (auto simp: located_def)
  moreover have "dc_start_char ch \<le> dc_end_char ch \<and> dc_end_char ch \<le> length t \<and> (\<exists>ov. dc_content ch = ov @ ?cut ch)"
    if "ch \<in> set cs" for ch
  proof -
    from that l k obtain b where "located t b ch" "chunk_of c b ch" by (auto simp: in_set_conv_nth list_all2_conv_all_nth)
    then show ?thesis by (auto simp: located_def chunk_of_def)
  qed
  ultimately show ?thesis using t by simp
qed

section \<open>Properties\<close>

text \<open>C35. Chunking: for a valid configuration a text is chunked unless it is not empty and the separator is, which raises.  The
  chunks are numbered from 0 and correspond, in order, to greedy runs of the non-blank segments, so that no segment is
  lost, repeated or moved; a chunk is longer than the chunk size only when it consists of one segment that is
  itself longer.\<close>

theorem chunk_text_greedy:
  assumes "chunking_validate c = []"
  shows "if ck_separator c = [] \<and> t \<noteq> [] then chunk_text c t doc = Inl EmptySeparator
    else \<exists>cs parts. chunk_text c t doc = Inr cs
    \<and> concat parts = filter non_blank (split_acc (ck_separator c) [] t) \<and> greedy c parts
    \<and> list_all2 (chunk_of c) (map (join_with (ck_separator c)) parts) cs
    \<and> map dc_chunk_index cs = [0..<length cs]
    \<and> (\<forall>ch \<in> set cs. int (length (dc_content ch)) \<le> ck_chunk_size c
         \<or> (\<exists>seg \<in> set (split_acc (ck_separator c) [] t). dc_content ch = seg \<and> non_blank seg))"
proof (cases "ck_separator c = [] \<and> t \<noteq> []")
  case True
  then show ?thesis by (simp add: chunk_text_def split_by_separator_def)
next
  case False
  then obtain cs where cs: "chunk_text c t doc = Inr cs" using chunk_text_returns(1) [of c t doc] by blast
  from chunks_greedy [OF assms cs] show ?thesis unfolding cs if_not_P [OF False] by blast
qed

theorem chunk_text_greedy_witness:
  "map dc_content (case chunk_text \<lparr>ck_chunk_size = 5, ck_chunk_overlap = 0, ck_separator = ''|''\<rparr> ''ab|c|defg'' ''d''
     of Inr cs \<Rightarrow> cs) = [''ab|c'', ''defg'']
   \<and> (\<exists>parts. concat parts = [''ab'', ''c'', ''defg''] \<and> greedy \<lparr>ck_chunk_size = 5, ck_chunk_overlap = 0, ck_separator = ''|''\<rparr> parts)"
proof -
  let ?c = "\<lparr>ck_chunk_size = 5, ck_chunk_overlap = 0, ck_separator = ''|''\<rparr>"
  have v: "chunking_validate ?c = []" by (simp add: chunking_validate_def)
  obtain cs where cs: "chunk_text ?c ''ab|c|defg'' ''d'' = Inr cs" "map dc_content cs = [''ab|c'', ''defg'']"
    by (simp add: chunk_text_def split_by_separator_def split_acc.simps non_blank_def py_strip_def py_isspace_def merge_segments_def
        build_chunks_def Let_def)
  moreover have "filter non_blank (split_acc (ck_separator ?c) [] ''ab|c|defg'') = [''ab'', ''c'', ''defg'']"
    by (simp add: split_acc.simps non_blank_def py_strip_def py_isspace_def)
  ultimately show ?thesis using chunk_text_greedy [OF v, of "''ab|c|defg''" "''d''"] by auto
qed

text \<open>Offsets: when no segment is blank, the separator is not empty and the overlap is not negative, a text is chunked and the
  offsets of every chunk cut a part out of the text that is the end of the chunk's content; joining these parts with the separator gives back the whole text.\<close>

theorem chunk_offsets_sound:
  assumes "\<forall>seg \<in> set (split_acc (ck_separator c) [] t). non_blank seg" and "0 \<le> ck_chunk_overlap c"
    and "ck_separator c \<noteq> []"
  shows "\<exists>cs. chunk_text c t doc = Inr cs \<and> (\<forall>ch \<in> set cs. dc_start_char ch \<le> dc_end_char ch \<and> dc_end_char ch \<le> length t
      \<and> (\<exists>ov. dc_content ch = ov @ take (dc_end_char ch - dc_start_char ch) (drop (dc_start_char ch) t)))
    \<and> join_with (ck_separator c) (map (\<lambda>ch. take (dc_end_char ch - dc_start_char ch) (drop (dc_start_char ch) t)) cs) = t"
proof -
  obtain cs where cs: "chunk_text c t doc = Inr cs" using assms(3) chunk_text_returns(1) [of c t doc] by blast
  with chunks_located [OF assms(1,2) cs] show ?thesis by blast
qed

theorem chunk_offsets_sound_witness:
  "\<exists>cs. chunk_text \<lparr>ck_chunk_size = 5, ck_chunk_overlap = 2, ck_separator = ''|''\<rparr> ''ab|c|defg'' ''d'' = Inr cs
     \<and> join_with ''|'' (map (\<lambda>ch. take (dc_end_char ch - dc_start_char ch) (drop (dc_start_char ch) ''ab|c|defg'')) cs) = ''ab|c|defg''"
proof -
  let ?c = "\<lparr>ck_chunk_size = 5, ck_chunk_overlap = 2, ck_separator = ''|''\<rparr>"
  have "\<forall>seg \<in> set (split_acc (ck_separator ?c) [] ''ab|c|defg''). non_blank seg"
    by (simp add: split_acc.simps non_blank_def py_strip_def py_isspace_def)
  then show ?thesis using chunk_offsets_sound [of ?c "''ab|c|defg''" "''d''"] by (simp add: conj_commute) blast
qed

text \<open>Without those conditions the offsets can be wrong: a dropped blank segment makes the merged block unfindable, and an
  overlap at least as long as the previous block lets the search find an earlier occurrence.\<close>

lemma blank_segment_offsets:
  "\<exists>ch. chunk_text \<lparr>ck_chunk_size = 9, ck_chunk_overlap = 0, ck_separator = ''|''\<rparr> ''a| |b'' ''d'' = Inr [ch]
     \<and> dc_content ch = ''a|b'' \<and> take (dc_end_char ch) (drop (dc_start_char ch) ''a| |b'') = ''a| ''"
  by (simp add: chunk_text_def split_by_separator_def split_acc.simps non_blank_def py_strip_def py_isspace_def merge_segments_def
      build_chunks_def Let_def py_find_def upt_rec)

lemma repeated_block_offsets:
  "\<exists>c1 c2. chunk_text \<lparr>ck_chunk_size = 3, ck_chunk_overlap = 2, ck_separator = ''|''\<rparr> ''ab|ab'' ''d'' = Inr [c1, c2]
     \<and> dc_start_char c1 = 0 \<and> dc_start_char c2 = 0"
  by (simp add: chunk_text_def split_by_separator_def split_acc.simps non_blank_def py_strip_def py_isspace_def merge_segments_def
      build_chunks_def Let_def py_find_def upt_rec)

end
