(* ===== verification/Retrieval.thy ===== *)
theory Retrieval
  imports Chunker "HOL-Library.Multiset"
begin

text \<open>
  \<^verbatim>\<open>rag/engines\<close>: the in-memory vector store, the retriever with cosine and BM25 search, the rerankers, reciprocal rank fusion and
  the hybrid engine, and the retrieval metrics.

  The model of a cross-encoder, the ranker of FlashRank and the reranking service are arguments that return nothing when they
  fail; so is the language model.  Latencies and durations are left out.  Sorting by descending score is stable, as in Python.
\<close>

section \<open>Sorting\<close>

definition sort_by_desc :: "('a \<Rightarrow> real) \<Rightarrow> 'a list \<Rightarrow> 'a list" where
  "sort_by_desc f xs = sort_key (\<lambda>x. - f x) xs"

section \<open>Vectors\<close>

definition vec_dot :: "real list \<Rightarrow> real list \<Rightarrow> real" where
  "vec_dot a b = sum_list (map (\<lambda>(x, y). x * y) (zip a b))"

definition vec_cosine :: "real list \<Rightarrow> real list \<Rightarrow> real" where
  "vec_cosine a b =
     (if length a \<noteq> length b \<or> a = [] then 0
      else (let norm_a = sqrt (sum_list (map (\<lambda>x. x * x) a)); norm_b = sqrt (sum_list (map (\<lambda>x. x * x) b))
            in if norm_a = 0 \<or> norm_b = 0 then 0 else vec_dot a b / (norm_a * norm_b)))"

section \<open>Vector store\<close>

record vector_search_result =
  vr_id :: string
  vr_score :: real
  vr_document :: string
  vr_metadata :: "(string, json) dict"

type_synonym vector_store = "(string, real list \<times> string \<times> (string, json) dict) dict"

definition vs_add :: "string list \<Rightarrow> real list list \<Rightarrow> string list \<Rightarrow> (string, json) dict list \<Rightarrow> vector_store \<Rightarrow> vector_store" where
  "vs_add ids embeddings documents metadatas st =
     (let metas = (if metadatas = [] then map (\<lambda>_. []) ids else metadatas)
      in fold (\<lambda>(i, e, d, m). AList.update i (e, d, m)) (zip ids (zip embeddings (zip documents metas))) st)"

text \<open>\<^verbatim>\<open>metadata.get(k) == v\<close>: a missing key is None.\<close>

definition matches_where :: "(string, json) dict \<Rightarrow> (string, json) dict \<Rightarrow> bool" where
  "matches_where metadata wh \<longleftrightarrow> list_all (\<lambda>(k, v). dict_get_or metadata k JNull = v) wh"

definition vs_query :: "real list \<Rightarrow> int \<Rightarrow> (string, json) dict \<Rightarrow> vector_store \<Rightarrow> vector_search_result list" where
  "vs_query embedding top_k wh st =
     slice_to top_k (sort_by_desc vr_score
       (map (\<lambda>(i, e, d, m). \<lparr>vr_id = i, vr_score = vec_cosine embedding e, vr_document = d, vr_metadata = m\<rparr>)
         (filter (\<lambda>(i, e, d, m). matches_where m wh) st)))"

definition vs_delete :: "string list \<Rightarrow> vector_store \<Rightarrow> vector_store" where
  "vs_delete ids st = fold AList.delete ids st"

definition vs_count :: "vector_store \<Rightarrow> nat" where
  "vs_count st = length st"

definition vs_clear :: "vector_store \<Rightarrow> vector_store" where
  "vs_clear st = []"

section \<open>Retriever\<close>

datatype retrieval_mode = SEMANTIC | KEYWORD | HYBRID_MODE

record rag_config =
  rg_mode :: retrieval_mode
  rg_top_k :: int
  rg_similarity_threshold :: real
  rg_rerank :: bool

definition rag_config_init :: rag_config where
  "rag_config_init = \<lparr>rg_mode = HYBRID_MODE, rg_top_k = 5, rg_similarity_threshold = 7 / 10, rg_rerank = False\<rparr>"

record indexed_chunk = document_chunk +
  ch_embedding :: "real list"

record retrieved_chunk =
  rc_chunk :: indexed_chunk
  rc_score :: real
  rc_mode :: retrieval_mode

record simple_retriever =
  rt_config :: rag_config
  rt_chunks :: "indexed_chunk list"

definition has_embedding :: "indexed_chunk \<Rightarrow> bool" where
  "has_embedding c \<longleftrightarrow> ch_embedding c \<noteq> []"

definition add_chunks :: "indexed_chunk list \<Rightarrow> simple_retriever \<Rightarrow> nat \<times> simple_retriever" where
  "add_chunks cs r = (length (filter has_embedding cs), r\<lparr>rt_chunks := rt_chunks r @ filter has_embedding cs\<rparr>)"

definition rt_clear :: "simple_retriever \<Rightarrow> simple_retriever" where
  "rt_clear r = r\<lparr>rt_chunks := []\<rparr>"

definition or_top_k :: "int option \<Rightarrow> simple_retriever \<Rightarrow> int" where
  "or_top_k k r = (case k of None \<Rightarrow> rg_top_k (rt_config r) | Some n \<Rightarrow> n)"

text \<open>The common end of both searches: sort the scored chunks, cut and wrap them.\<close>

definition ranked :: "retrieval_mode \<Rightarrow> int \<Rightarrow> (real \<times> indexed_chunk) list \<Rightarrow> retrieved_chunk list" where
  "ranked mode k scored = map (\<lambda>(s, c). \<lparr>rc_chunk = c, rc_score = s, rc_mode = mode\<rparr>) (slice_to k (sort_by_desc fst scored))"

definition retrieve :: "real list \<Rightarrow> int option \<Rightarrow> simple_retriever \<Rightarrow> retrieved_chunk list" where
  "retrieve q k r =
     ranked SEMANTIC (or_top_k k r)
       (filter (\<lambda>(s, c). s \<ge> rg_similarity_threshold (rt_config r))
         (map (\<lambda>c. (vec_cosine q (ch_embedding c), c)) (filter has_embedding (rt_chunks r))))"

definition query_terms :: "string \<Rightarrow> string list" where
  "query_terms q = map py_lower (filter (\<lambda>t. py_strip t \<noteq> []) (py_split q))"

definition tokens :: "indexed_chunk \<Rightarrow> string list" where
  "tokens c = py_split (py_lower (dc_content c))"

definition bm25_idf :: "nat \<Rightarrow> nat \<Rightarrow> real" where
  "bm25_idf n_docs n_t = ln ((real n_docs - real n_t + 1 / 2) / (real n_t + 1 / 2) + 1)"

definition bm25_tf :: "nat \<Rightarrow> nat \<Rightarrow> real \<Rightarrow> real" where
  "bm25_tf tf dl avg_dl = real tf * (3 / 2 + 1) / (real tf + 3 / 2 * (1 - 3 / 4 + 3 / 4 * real dl / max avg_dl 1))"

definition bm25_score :: "string list \<Rightarrow> string list list \<Rightarrow> string list \<Rightarrow> real" where
  "bm25_score terms docs words =
     (let avg_dl = real (sum_list (map length docs)) / real (max (length docs) 1)
      in sum_list (map (\<lambda>t. let tf = count_list words t in
           if tf = 0 then 0
           else bm25_idf (length docs) (length (filter (\<lambda>ws. t \<in> set ws) docs)) * bm25_tf tf (length words) avg_dl) terms))"

definition keyword_search :: "string \<Rightarrow> int option \<Rightarrow> simple_retriever \<Rightarrow> retrieved_chunk list" where
  "keyword_search q k r =
     (let terms = query_terms q; docs = map tokens (rt_chunks r) in
      if terms = [] \<or> rt_chunks r = [] then []
      else (let raw = map (bm25_score terms docs) docs;
                max_score = Max (set raw);
                normaliser = (if max_score > 0 then max_score else 1)
            in ranked KEYWORD (or_top_k k r)
                 (filter (\<lambda>(s, c). s > 0) (map (\<lambda>(x, c). (x / normaliser, c)) (zip raw (rt_chunks r))))))"

section \<open>Rerankers\<close>

definition score_boost_rerank :: "real \<Rightarrow> string \<Rightarrow> retrieved_chunk list \<Rightarrow> int \<Rightarrow> retrieved_chunk list" where
  "score_boost_rerank boost q cs k =
     (let sorted_chunks = sort_by_desc rc_score cs; n = max (length sorted_chunks) 1 in
      sort_by_desc rc_score (map (\<lambda>(i, c). c\<lparr>rc_score := min (rc_score c * boost * (1 - real i / real n * (1 / 2))) 1\<rparr>)
        (enumerate 0 (slice_to k sorted_chunks))))"

text \<open>A cross-encoder gives one score for each chunk; \<open>None\<close> when it cannot be loaded or fails.\<close>

definition cross_encoder_rerank :: "(string \<Rightarrow> string list \<Rightarrow> real list option) \<Rightarrow> string \<Rightarrow> retrieved_chunk list \<Rightarrow> int \<Rightarrow> retrieved_chunk list" where
  "cross_encoder_rerank predict q cs k =
     (if cs = [] then []
      else (case predict q (map (\<lambda>c. dc_content (rc_chunk c)) cs) of
              None \<Rightarrow> score_boost_rerank (11 / 10) q cs k
            | Some scores \<Rightarrow>
                (let min_score = (if scores = [] then 0 else Min (set scores));
                     max_score = (if scores = [] then 1 else Max (set scores));
                     score_range = (if max_score - min_score = 0 then 1 else max_score - min_score)
                 in slice_to k (sort_by_desc rc_score
                      (map (\<lambda>(c, s). c\<lparr>rc_score := (s - min_score) / score_range\<rparr>) (zip cs scores))))))"

text \<open>FlashRank answers with pairs of an identifier and a score, the identifiers being the positions as text.\<close>

definition flash_rank_rerank :: "(string \<Rightarrow> (string \<times> string) list \<Rightarrow> (string \<times> real) list option) \<Rightarrow> string \<Rightarrow> retrieved_chunk list \<Rightarrow> int
    \<Rightarrow> retrieved_chunk list" where
  "flash_rank_rerank rank q cs k =
     (if cs = [] then []
      else (case rank q (map (\<lambda>(i, c). (nat_str i, dc_content (rc_chunk c))) (enumerate 0 cs)) of
              None \<Rightarrow> score_boost_rerank (11 / 10) q cs k
            | Some results \<Rightarrow>
                concat (map (\<lambda>(i, s). case map_of (map (\<lambda>(j, c). (nat_str j, c)) (enumerate 0 cs)) i of
                          None \<Rightarrow> [] | Some c \<Rightarrow> [c\<lparr>rc_score := s\<rparr>]) (slice_to k results))))"

text \<open>The service answers with pairs of a position and a score; \<open>None\<close> when no address is configured or the call fails.\<close>

definition api_rerank :: "(string \<Rightarrow> string list \<Rightarrow> int \<Rightarrow> (int \<times> real) list option) \<Rightarrow> string \<Rightarrow> retrieved_chunk list \<Rightarrow> int \<Rightarrow> retrieved_chunk list" where
  "api_rerank post q cs k =
     (if cs = [] then []
      else (case post q (map (\<lambda>c. dc_content (rc_chunk c)) cs) k of
              None \<Rightarrow> score_boost_rerank (11 / 10) q cs k
            | Some results \<Rightarrow>
                slice_to k (concat (map (\<lambda>(i, s). if 0 \<le> i \<and> i < int (length cs) then [(cs ! nat i)\<lparr>rc_score := s\<rparr>] else []) results))))"

section \<open>Hybrid engine\<close>

text \<open>One entry of a ranked list: its reciprocal rank is added to the score of the chunk, and the better version is kept.\<close>

definition fuse_one :: "nat \<times> retrieved_chunk \<Rightarrow> (string, real) dict \<times> (string, retrieved_chunk) dict \<Rightarrow> (string, real) dict \<times> (string, retrieved_chunk) dict" where
  "fuse_one x st =
     (case x of (rank, rc) \<Rightarrow> case st of (scores, chunk_map) \<Rightarrow>
        (let cid = dc_chunk_id (rc_chunk rc) in
         (AList.update cid (dict_get_or scores cid 0 + 1 / (60 + real rank + 1)) scores,
          (case map_of chunk_map cid of
             None \<Rightarrow> AList.update cid rc chunk_map
           | Some old \<Rightarrow> if rc_score rc > rc_score old then AList.update cid rc chunk_map else chunk_map))))"

definition fuse :: "retrieved_chunk list list \<Rightarrow> (string, real) dict \<times> (string, retrieved_chunk) dict" where
  "fuse rls = fold (\<lambda>l st. fold fuse_one (enumerate 0 l) st) rls ([], [])"

definition reciprocal_rank_fusion :: "retrieved_chunk list list \<Rightarrow> int \<Rightarrow> retrieved_chunk list" where
  "reciprocal_rank_fusion rls top_k =
     (case fuse rls of (scores, chunk_map) \<Rightarrow>
        map (\<lambda>(cid, s). \<lparr>rc_chunk = rc_chunk (the (map_of chunk_map cid)), rc_score = py_round 6 s, rc_mode = HYBRID_MODE\<rparr>)
          (slice_to top_k (sort_by_desc snd scores)))"

definition hybrid_retrieve :: "string \<Rightarrow> real list option \<Rightarrow> int \<Rightarrow> simple_retriever \<Rightarrow> retrieved_chunk list" where
  "hybrid_retrieve q emb k r =
     (let semantic = (case emb of None \<Rightarrow> [] | Some e \<Rightarrow> retrieve e (Some (k * 3)) r)
      in reciprocal_rank_fusion [semantic, keyword_search q (Some (k * 3)) r] (k * 2))"

record rag_result =
  gr_answer :: string
  gr_chunks :: "retrieved_chunk list"
  gr_query :: string

definition answer_prompt :: "string \<Rightarrow> retrieved_chunk list \<Rightarrow> string" where
  "answer_prompt q cs =
     (let nl = [CHR 0x0A] in
      ''Based on the following context, answer the question.'' @ nl @ nl @ ''Context:'' @ nl
      @ join_with (nl @ nl) (map (\<lambda>c. dc_content (rc_chunk c)) cs) @ nl @ nl @ ''Question: '' @ q @ nl @ nl @ ''Answer:'')"

definition generate_answer :: "(string \<Rightarrow> string option) option \<Rightarrow> string \<Rightarrow> retrieved_chunk list \<Rightarrow> string" where
  "generate_answer llm q cs =
     (case cs of
        [] \<Rightarrow> ''No relevant information found.''
      | c # _ \<Rightarrow>
          (case Option.bind llm (\<lambda>g. g (answer_prompt q cs)) of
             Some text \<Rightarrow> text
           | None \<Rightarrow> dc_content (rc_chunk c)))"

type_synonym rerank_fn = "string \<Rightarrow> retrieved_chunk list \<Rightarrow> int \<Rightarrow> retrieved_chunk list"

record rag_engine =
  ge_config :: rag_config
  ge_retriever :: simple_retriever

definition final_k :: "int option \<Rightarrow> rag_engine \<Rightarrow> int" where
  "final_k k e = (case k of None \<Rightarrow> rg_top_k (ge_config e) | Some n \<Rightarrow> if n = 0 then rg_top_k (ge_config e) else n)"

definition rag_query :: "rerank_fn \<Rightarrow> (string \<Rightarrow> string option) option \<Rightarrow> string \<Rightarrow> real list option \<Rightarrow> int option \<Rightarrow> rag_engine \<Rightarrow> rag_result" where
  "rag_query rerank llm q emb top_k e =
     (let k = final_k top_k e; cfg = ge_config e; r = ge_retriever e in
      if rg_mode cfg = SEMANTIC \<and> emb = None
      then \<lparr>gr_answer = ''query_embedding required for SEMANTIC mode'', gr_chunks = [], gr_query = q\<rparr>
      else (let chunks = (case rg_mode cfg of
                  SEMANTIC \<Rightarrow> retrieve (the emb) (Some (k * 2)) r
                | KEYWORD \<Rightarrow> keyword_search q (Some (k * 2)) r
                | HYBRID_MODE \<Rightarrow> hybrid_retrieve q emb k r);
                reranked = (if rg_rerank cfg \<and> chunks \<noteq> [] then rerank q chunks k else chunks);
                final_chunks = slice_to k reranked
            in \<lparr>gr_answer = generate_answer llm q final_chunks, gr_chunks = final_chunks, gr_query = q\<rparr>))"

section \<open>Metrics\<close>

record retrieval_metrics =
  mt_precision :: real
  mt_recall :: real
  mt_f1 :: real
  mt_mrr :: real
  mt_results_count :: nat

fun reciprocal_rank :: "string set \<Rightarrow> nat \<Rightarrow> string list \<Rightarrow> real" where
  "reciprocal_rank rel i [] = 0"
| "reciprocal_rank rel i (c # cs) = (if c \<in> rel then 1 / (real i + 1) else reciprocal_rank rel (Suc i) cs)"

definition evaluate_single :: "retrieved_chunk list \<Rightarrow> string set \<Rightarrow> retrieval_metrics" where
  "evaluate_single results relevant =
     (let ids = map (\<lambda>r. dc_chunk_id (rc_chunk r)) results;
          tp = real (card (set ids \<inter> relevant));
          precision = (if ids \<noteq> [] then tp / real (card (set ids)) else 0);
          recall = (if relevant \<noteq> {} then tp / real (card relevant) else 0);
          f1 = (if precision + recall > 0 then 2 * precision * recall / (precision + recall) else 0)
      in \<lparr>mt_precision = py_round 4 precision, mt_recall = py_round 4 recall, mt_f1 = py_round 4 f1,
          mt_mrr = py_round 4 (reciprocal_rank relevant 0 ids), mt_results_count = length results\<rparr>)"

record eval_query =
  eq_query :: string
  eq_relevant :: "string set"

record batch_metrics =
  bt_query_count :: nat
  bt_avg_precision :: real
  bt_avg_recall :: real
  bt_avg_f1 :: real
  bt_avg_mrr :: real
  bt_avg_results_count :: real

text \<open>\<open>None\<close> is the answer that no query was evaluated.\<close>

definition evaluate_batch :: "(string \<Rightarrow> int \<Rightarrow> retrieved_chunk list) \<Rightarrow> eval_query list \<Rightarrow> int \<Rightarrow> batch_metrics option" where
  "evaluate_batch f queries top_k =
     (let ms = map (\<lambda>e. evaluate_single (f (eq_query e) top_k) (eq_relevant e)) queries;
          n = real (length ms);
          avg = (\<lambda>g. sum_list (map g ms) / n)
      in if ms = [] then None
         else Some \<lparr>bt_query_count = length ms, bt_avg_precision = py_round 4 (avg mt_precision), bt_avg_recall = py_round 4 (avg mt_recall),
                    bt_avg_f1 = py_round 4 (avg mt_f1), bt_avg_mrr = py_round 4 (avg mt_mrr),
                    bt_avg_results_count = py_round 1 (avg (\<lambda>m. real (mt_results_count m)))\<rparr>)"

section \<open>Sorting and cutting\<close>

definition descending :: "('a \<Rightarrow> real) \<Rightarrow> 'a list \<Rightarrow> bool" where
  "descending f xs \<longleftrightarrow> sorted_wrt (\<lambda>x y. f y \<le> f x) xs"

lemma sort_by_desc_props:
  "descending f (sort_by_desc f xs)" "mset (sort_by_desc f xs) = mset xs" "set (sort_by_desc f xs) = set xs" "length (sort_by_desc f xs) = length xs"
proof -
  have "sorted (map (\<lambda>x. - f x) (sort_by_desc f xs))" by (simp add: sort_by_desc_def)
  then show "descending f (sort_by_desc f xs)" by (simp add: descending_def sorted_map)
qed (simp_all add: sort_by_desc_def)

lemma set_slice_to: "set (slice_to k xs) \<subseteq> set xs"
  by (auto simp: slice_to_def dest: in_set_takeD)

lemma slice_to_nonneg: "0 \<le> k \<Longrightarrow> slice_to k xs = take (nat k) xs"
  by (simp add: slice_to_def)

lemma descending_slice: "descending f xs \<Longrightarrow> descending f (slice_to k xs)"
  by (simp add: descending_def slice_to_def sorted_wrt_take)

lemma descending_map: "descending f (map g xs) = descending (\<lambda>x. f (g x)) xs"
  by (simp add: descending_def sorted_wrt_map)

lemma descending_hd: "descending f xs \<Longrightarrow> x \<in> set xs \<Longrightarrow> f x \<le> f (hd xs)"
  by (cases xs) (auto simp: descending_def)

text \<open>A search result: the best of the scored chunks.\<close>

lemma ranked_props:
  assumes "0 \<le> k"
  shows "\<exists>full. ranked mode k scored = take (nat k) full \<and> mset (map (\<lambda>x. (rc_score x, rc_chunk x)) full) = mset scored \<and> descending rc_score full
    \<and> (\<forall>x \<in> set full. rc_mode x = mode)"
proof (intro exI conjI)
  let ?wrap = "\<lambda>(s, c). \<lparr>rc_chunk = c, rc_score = s, rc_mode = mode\<rparr>"
  let ?full = "map ?wrap (sort_by_desc fst scored)"
  show "ranked mode k scored = take (nat k) ?full" using assms by (simp add: ranked_def slice_to_nonneg take_map)
  have "map (\<lambda>x. (rc_score x, rc_chunk x)) ?full = sort_by_desc fst scored" by (simp add: comp_def split_def)
  then show "mset (map (\<lambda>x. (rc_score x, rc_chunk x)) ?full) = mset scored" by (metis sort_by_desc_props(2))
  have "(\<lambda>x. rc_score (?wrap x)) = fst" by (auto simp: fun_eq_iff split: prod.splits)
  then show "descending rc_score ?full" unfolding descending_map using sort_by_desc_props(1) [of fst scored] by simp
  show "\<forall>x \<in> set ?full. rc_mode x = mode" by auto
qed

lemma ranked_mode: "x \<in> set (ranked mode k scored) \<Longrightarrow> rc_mode x = mode \<and> (rc_score x, rc_chunk x) \<in> set scored"
  using set_slice_to [of k "sort_by_desc fst scored"] by (auto simp: ranked_def sort_by_desc_props)

lemma descending_ranked: "descending rc_score (ranked mode k scored)"
proof -
  have "(\<lambda>x. rc_score (case x of (s, c) \<Rightarrow> \<lparr>rc_chunk = c, rc_score = s, rc_mode = mode\<rparr>)) = fst" by (auto simp: fun_eq_iff)
  then show ?thesis unfolding ranked_def descending_map by (simp add: descending_slice sort_by_desc_props)
qed

section \<open>Cosine\<close>

lemma vec_dot_sum: "length a = length b \<Longrightarrow> vec_dot a b = (\<Sum>i < length a. a ! i * b ! i)"
  by (simp add: vec_dot_def sum_list_sum_nth atLeast0LessThan)

lemma vec_cosine_range: "\<bar>vec_cosine a b\<bar> \<le> 1"
proof (cases "length a \<noteq> length b \<or> a = []")
  case False
  then have l: "length a = length b" by simp
  let ?A = "\<Sum>i < length a. (a ! i)\<^sup>2" and ?B = "\<Sum>i < length a. (b ! i)\<^sup>2" and ?D = "\<Sum>i < length a. a ! i * b ! i"
  have sq: "sum_list (map (\<lambda>x. x * x) xs) = (\<Sum>i < length xs. (xs ! i)\<^sup>2)" for xs :: "real list"
    by (simp add: sum_list_sum_nth atLeast0LessThan power2_eq_square)
  have "?D\<^sup>2 \<le> ?A * ?B" by (rule cauchy_schwarz)
  then have "\<bar>?D\<bar> \<le> sqrt ?A * sqrt ?B" by (simp add: real_le_rsqrt real_sqrt_mult [symmetric])
  moreover have "0 \<le> sqrt ?A * sqrt ?B" by (intro mult_nonneg_nonneg real_sqrt_ge_zero sum_nonneg) auto
  moreover have "\<bar>d / m\<bar> \<le> 1" if "\<bar>d\<bar> \<le> m" "0 \<le> m" for d m :: real using that by (cases "m = 0") (simp_all add: abs_divide)
  ultimately have "\<bar>?D / (sqrt ?A * sqrt ?B)\<bar> \<le> 1" by blast
  then show ?thesis using False unfolding vec_cosine_def Let_def vec_dot_sum [OF l] sq by (simp add: l)
qed (simp add: vec_cosine_def)

section \<open>Keyword search\<close>

definition contains_term :: "string \<Rightarrow> indexed_chunk \<Rightarrow> bool" where
  "contains_term q c \<longleftrightarrow> (\<exists>t \<in> set (query_terms q). t \<in> set (tokens c))"

lemma bm25_idf_pos: "n \<le> m \<Longrightarrow> 0 < bm25_idf m n"
proof -
  assume "n \<le> m"
  then have "0 < (real m - real n + 1 / 2) / (real n + 1 / 2)" by (intro divide_pos_pos) simp_all
  then show ?thesis by (simp add: bm25_idf_def)
qed

lemma bm25_tf_pos: "0 < tf \<Longrightarrow> 0 < bm25_tf tf dl avg"
proof -
  assume tf: "0 < tf"
  have "0 \<le> 3 / 4 * real dl / max avg 1" by (intro divide_nonneg_nonneg) simp_all
  with tf show ?thesis unfolding bm25_tf_def by (intro divide_pos_pos) (simp_all add: add_pos_nonneg)
qed

lemma bm25_score_pos: "0 \<le> bm25_score terms docs ws" "0 < bm25_score terms docs ws \<longleftrightarrow> (\<exists>t \<in> set terms. t \<in> set ws)"
proof -
  define g where "g = (\<lambda>t. if count_list ws t = 0 then 0
     else bm25_idf (length docs) (length (filter (\<lambda>ws. t \<in> set ws) docs))
       * bm25_tf (count_list ws t) (length ws) (real (sum_list (map length docs)) / real (max (length docs) 1)))"
  have s: "bm25_score terms docs ws = sum_list (map g terms)" unfolding bm25_score_def g_def Let_def ..
  have pos: "0 < g t" if "t \<in> set ws" for t
  proof -
    from that have "0 < count_list ws t" by (metis count_list_0_iff gr0I)
    then show ?thesis by (simp add: g_def bm25_idf_pos bm25_tf_pos)
  qed
  have zero: "g t = 0 \<longleftrightarrow> t \<notin> set ws" for t using pos [of t] by (auto simp: g_def count_list_0_iff)
  have nonneg: "0 \<le> g t" for t using pos [of t] zero [of t] by (cases "t \<in> set ws") auto
  then show nn: "0 \<le> bm25_score terms docs ws" unfolding s by (intro sum_list_nonneg) auto
  have "sum_list (map g terms) = 0 \<longleftrightarrow> (\<forall>x \<in> set (map g terms). x = 0)" by (intro sum_list_nonneg_eq_0_iff) (use nonneg in auto)
  also have "\<dots> \<longleftrightarrow> (\<forall>t \<in> set terms. t \<notin> set ws)" by (simp add: zero)
  finally show "0 < bm25_score terms docs ws \<longleftrightarrow> (\<exists>t \<in> set terms. t \<in> set ws)" using nn unfolding s by fastforce
qed

text \<open>The chunks with a positive normalised score are those that contain a term, and the best of them scores 1.\<close>

definition keyword_scored :: "string \<Rightarrow> simple_retriever \<Rightarrow> (real \<times> indexed_chunk) list" where
  "keyword_scored q r =
     (let docs = map tokens (rt_chunks r); raw = map (bm25_score (query_terms q) docs) docs;
          max_score = Max (set raw); normaliser = (if max_score > 0 then max_score else 1)
      in filter (\<lambda>(s, c). s > 0) (map (\<lambda>(x, c). (x / normaliser, c)) (zip raw (rt_chunks r))))"

lemma keyword_search_scored:
  "keyword_search q k r = (if query_terms q = [] \<or> rt_chunks r = [] then [] else ranked KEYWORD (or_top_k k r) (keyword_scored q r))"
  unfolding keyword_search_def keyword_scored_def Let_def ..

lemma keyword_scored_props:
  assumes "rt_chunks r \<noteq> []"
  shows "map snd (keyword_scored q r) = filter (contains_term q) (rt_chunks r)"
    and "(s, c) \<in> set (keyword_scored q r) \<Longrightarrow> 0 < s \<and> s \<le> 1"
    and "keyword_scored q r \<noteq> [] \<Longrightarrow> \<exists>c. (1, c) \<in> set (keyword_scored q r)"
proof -
  let ?f = "\<lambda>c. bm25_score (query_terms q) (map tokens (rt_chunks r)) (tokens c)"
  define m where "m = Max (?f ` set (rt_chunks r))"
  define n where "n = (if m > 0 then m else 1)"
  have zip: "zip (map ?f cs) cs = map (\<lambda>c. (?f c, c)) cs" for cs by (induction cs) auto
  have ks: "keyword_scored q r = filter (\<lambda>(s, c). s > 0) (map (\<lambda>c. (?f c / n, c)) (rt_chunks r))"
    by (simp add: keyword_scored_def Let_def n_def m_def zip comp_def image_image)
  have n0: "0 < n" by (simp add: n_def)
  have pos: "0 < ?f c / n \<longleftrightarrow> contains_term q c" for c
    using n0 bm25_score_pos(2) [of "query_terms q" _ "tokens c"] by (simp add: zero_less_divide_iff contains_term_def)
  have le: "?f c \<le> m" if "c \<in> set (rt_chunks r)" for c unfolding m_def by (rule Max_ge) (use that in auto)
  have "map snd (filter (\<lambda>(s, c). s > 0) (map (\<lambda>c. (?f c / n, c)) cs)) = filter (contains_term q) cs" for cs
    by (induction cs) (simp_all add: pos)
  then show "map snd (keyword_scored q r) = filter (contains_term q) (rt_chunks r)" unfolding ks .
  show "0 < s \<and> s \<le> 1" if "(s, c) \<in> set (keyword_scored q r)" for s c
  proof -
    from that have c: "c \<in> set (rt_chunks r)" "s = ?f c / n" "0 < s" by (auto simp: ks)
    with n0 have "0 < ?f c" by (simp add: zero_less_divide_iff)
    with le [OF c(1)] have "n = m" "?f c \<le> n" by (auto simp: n_def)
    with c(2,3) n0 show ?thesis by simp
  qed
  show "\<exists>c. (1, c) \<in> set (keyword_scored q r)" if "keyword_scored q r \<noteq> []"
  proof -
    from that obtain c where "c \<in> set (rt_chunks r)" "0 < ?f c / n" unfolding ks by (auto simp: filter_empty_conv)
    then have "0 < m" using le [of c] n0 by (simp add: zero_less_divide_iff)
    then have "n = m" by (simp add: n_def)
    have "m \<in> ?f ` set (rt_chunks r)" unfolding m_def using assms by (intro Max_in) auto
    then obtain d where "d \<in> set (rt_chunks r)" "?f d = m" by auto
    with \<open>n = m\<close> \<open>0 < m\<close> show ?thesis by (auto simp: ks intro!: exI [of _ d] image_eqI [of _ _ d])
  qed
qed

lemma keyword_search_full:
  assumes "0 \<le> k"
  shows "\<exists>full. keyword_search q (Some k) r = take (nat k) full
    \<and> mset (map rc_chunk full) = mset (filter (contains_term q) (rt_chunks r)) \<and> descending rc_score full
    \<and> (\<forall>x \<in> set full. 0 < rc_score x \<and> rc_score x \<le> 1 \<and> rc_mode x = KEYWORD) \<and> (full \<noteq> [] \<longrightarrow> rc_score (hd full) = 1)"
proof (cases "query_terms q = [] \<or> rt_chunks r = []")
  case True
  then have "filter (contains_term q) (rt_chunks r) = []" by (auto simp: contains_term_def)
  with True show ?thesis by (intro exI [of _ "[]"]) (auto simp: keyword_search_scored descending_def)
next
  case False
  then have ne: "rt_chunks r \<noteq> []" by simp
  from ranked_props [OF assms, of KEYWORD "keyword_scored q r"] obtain full where
    full: "ranked KEYWORD k (keyword_scored q r) = take (nat k) full" "descending rc_score full" "\<forall>x \<in> set full. rc_mode x = KEYWORD"
    and m: "mset (map (\<lambda>x. (rc_score x, rc_chunk x)) full) = mset (keyword_scored q r)" by blast
  have "mset (map snd (map (\<lambda>x. (rc_score x, rc_chunk x)) full)) = mset (map snd (keyword_scored q r))" using m by (metis mset_map)
  then have chunks: "mset (map rc_chunk full) = mset (filter (contains_term q) (rt_chunks r))"
    unfolding keyword_scored_props(1) [OF ne] by (simp add: comp_def)
  have st: "set (map (\<lambda>x. (rc_score x, rc_chunk x)) full) = set (keyword_scored q r)" using m by (metis set_mset_mset)
  have range: "0 < rc_score x \<and> rc_score x \<le> 1" if "x \<in> set full" for x
    using keyword_scored_props(2) [OF ne, of "rc_score x" "rc_chunk x" q] that st by auto
  moreover have "rc_score (hd full) = 1" if f: "full \<noteq> []"
  proof -
    from f st have "keyword_scored q r \<noteq> []" by auto
    from keyword_scored_props(3) [OF ne this] obtain c where "(1, c) \<in> set (map (\<lambda>x. (rc_score x, rc_chunk x)) full)" unfolding st by blast
    then obtain x where "x \<in> set full" "rc_score x = 1" by auto
    with descending_hd [OF full(2)] range [of "hd full"] f show ?thesis by fastforce
  qed
  ultimately show ?thesis using full chunks False by (intro exI [of _ full]) (simp add: keyword_search_scored or_top_k_def)
qed

section \<open>Reciprocal rank fusion\<close>

definition chunk_id :: "retrieved_chunk \<Rightarrow> string" where
  "chunk_id x = dc_chunk_id (rc_chunk x)"

text \<open>The fused score of a chunk over entries with their ranks.\<close>

definition rrf_sum :: "string \<Rightarrow> (nat \<times> retrieved_chunk) list \<Rightarrow> real" where
  "rrf_sum cid xs = sum_list (map (\<lambda>(i, x). if chunk_id x = cid then 1 / (61 + real i) else 0) xs)"

definition fused_ok :: "(nat \<times> retrieved_chunk) list \<Rightarrow> (string, real) dict \<times> (string, retrieved_chunk) dict \<Rightarrow> bool" where
  "fused_ok xs st = (case st of (scores, chunk_map) \<Rightarrow>
     wf_dict scores \<and> (\<forall>c. map_of scores c = (if c \<in> chunk_id ` snd ` set xs then Some (rrf_sum c xs) else None))
   \<and> (\<forall>c. case map_of chunk_map c of
          None \<Rightarrow> c \<notin> chunk_id ` snd ` set xs
        | Some x \<Rightarrow> x \<in> snd ` set xs \<and> chunk_id x = c \<and> (\<forall>y \<in> snd ` set xs. chunk_id y = c \<longrightarrow> rc_score y \<le> rc_score x)))"

lemma rrf_sum_snoc: "rrf_sum c (xs @ [(i, x)]) = rrf_sum c xs + (if chunk_id x = c then 1 / (61 + real i) else 0)"
  by (simp add: rrf_sum_def)

lemma rrf_sum_absent: "c \<notin> chunk_id ` snd ` set xs \<Longrightarrow> rrf_sum c xs = 0"
proof (induction xs rule: rev_induct)
  case (snoc p xs)
  then show ?case by (cases p) (auto simp: rrf_sum_snoc)
qed (simp add: rrf_sum_def)

lemma fuse_one_ok:
  assumes "fused_ok xs st"
  shows "fused_ok (xs @ [(i, x)]) (fuse_one (i, x) st)"
proof -
  obtain scores cm where st: "st = (scores, cm)" by fastforce
  let ?c = "chunk_id x"
  have s: "wf_dict scores" "\<And>c. map_of scores c = (if c \<in> chunk_id ` snd ` set xs then Some (rrf_sum c xs) else None)"
    and m: "\<And>c. case map_of cm c of None \<Rightarrow> c \<notin> chunk_id ` snd ` set xs
        | Some y \<Rightarrow> y \<in> snd ` set xs \<and> chunk_id y = c \<and> (\<forall>z \<in> snd ` set xs. chunk_id z = c \<longrightarrow> rc_score z \<le> rc_score y)"
    using assms by (auto simp: fused_ok_def st)
  have old: "dict_get_or scores ?c 0 = rrf_sum ?c xs" using s(2) [of ?c] rrf_sum_absent [of ?c xs] by (simp add: dict_get_or_def)
  let ?cm = "case map_of cm ?c of None \<Rightarrow> AList.update ?c x cm
     | Some y \<Rightarrow> if rc_score x > rc_score y then AList.update ?c x cm else cm"
  have step: "fuse_one (i, x) st = (AList.update ?c (rrf_sum ?c xs + 1 / (61 + real i)) scores, ?cm)"
    by (simp add: fuse_one_def st chunk_id_def [symmetric] old Let_def add.commute)
  have "map_of (AList.update ?c (rrf_sum ?c xs + 1 / (61 + real i)) scores) c
      = (if c \<in> chunk_id ` snd ` set (xs @ [(i, x)]) then Some (rrf_sum c (xs @ [(i, x)])) else None)" for c
    using s(2) [of c] by (auto simp: dict_simps rrf_sum_snoc)
  moreover have "case map_of ?cm c of None \<Rightarrow> c \<notin> chunk_id ` snd ` set (xs @ [(i, x)])
      | Some y \<Rightarrow> y \<in> snd ` set (xs @ [(i, x)]) \<and> chunk_id y = c \<and> (\<forall>z \<in> snd ` set (xs @ [(i, x)]). chunk_id z = c \<longrightarrow> rc_score z \<le> rc_score y)" for c
  proof (cases "c = ?c")
    case False
    then have "map_of ?cm c = map_of cm c" by (auto simp: dict_simps split: option.splits)
    with m [of c] False show ?thesis by (auto split: option.splits)
  next
    case True
    show ?thesis
    proof (cases "map_of cm ?c")
      case None
      with m [of ?c] have "?c \<notin> chunk_id ` snd ` set xs" by simp
      then have "\<forall>z \<in> snd ` set xs. chunk_id z \<noteq> ?c" by (metis image_eqI)
      with None True show ?thesis by (simp add: dict_simps)
    next
      case (Some y)
      with m [of ?c] True show ?thesis by (fastforce simp: dict_simps)
    qed
  qed
  ultimately show ?thesis unfolding fused_ok_def step using s(1) by simp
qed

lemma fuse_ok: "fused_ok (concat (map (enumerate 0) rls)) (fuse rls)"
proof -
  have one: "fused_ok (ys @ xs) (fold fuse_one xs st)" if "fused_ok ys st" for ys xs st
    using that
  proof (induction xs arbitrary: ys st)
    case (Cons x xs)
    obtain i c where "x = (i, c)" by fastforce
    with Cons.IH [of "ys @ [x]" "fuse_one x st"] fuse_one_ok [OF Cons.prems] show ?case by simp
  qed simp
  have "fused_ok (ys @ concat (map (enumerate 0) rls)) (fold (\<lambda>l st. fold fuse_one (enumerate 0 l) st) rls st)" if "fused_ok ys st" for ys st
    using that
  proof (induction rls arbitrary: ys st)
    case (Cons l rls)
    with Cons.IH [OF one [OF Cons.prems, of "enumerate 0 l"]] show ?case by simp
  qed simp
  moreover have "fused_ok [] ([], [])" by (simp add: fused_ok_def)
  ultimately show ?thesis unfolding fuse_def by (metis append_Nil)
qed

lemma enumerate_ids: "snd ` set (concat (map (enumerate 0) rls)) = set (concat rls)"
proof -
  have "snd ` set (enumerate 0 l) = set l" for l :: "'a list" by (metis list.set_map map_snd_enumerate)
  then show ?thesis by (simp add: image_UN)
qed

text \<open>What fusing leaves in the two dictionaries.\<close>

lemma fuse_tables:
  assumes "xs = concat (map (enumerate 0) rls)" "ids = chunk_id ` set (concat rls)" "fuse rls = (scores, cm)"
  shows "wf_dict scores" "fst ` set scores = ids" "(c, v) \<in> set scores \<Longrightarrow> v = rrf_sum c xs"
    "c \<in> ids \<Longrightarrow> \<exists>x. map_of cm c = Some x \<and> x \<in> set (concat rls) \<and> chunk_id x = c"
proof -
  note ok = fuse_ok [of rls, unfolded fused_ok_def assms(3) assms(1) [symmetric] prod.case, unfolded assms(1) enumerate_ids assms(2) [symmetric],
    folded assms(1)]
  show w: "wf_dict scores" using ok by (elim conjE)
  from ok have s: "map_of scores c = (if c \<in> ids then Some (rrf_sum c xs) else None)" for c by blast
  have "dom (map_of scores) = ids" using s by (auto simp: dom_def)
  then show "fst ` set scores = ids" by (simp add: dom_map_of_conv_image_fst)
  show "v = rrf_sum c xs" if "(c, v) \<in> set scores" using that s [of c] by (simp add: map_of_wf_in_set [OF w] split: if_splits)
  show "\<exists>x. map_of cm c = Some x \<and> x \<in> set (concat rls) \<and> chunk_id x = c" if "c \<in> ids"
    using conjunct2 [OF conjunct2 [OF ok], THEN spec, of c] that by (cases "map_of cm c") simp_all
qed

lemma rrf_full:
  assumes "0 \<le> k" and xs: "xs = concat (map (enumerate 0) rls)"
  shows "\<exists>full. reciprocal_rank_fusion rls k = take (nat k) full \<and> distinct (map chunk_id full)
    \<and> set (map chunk_id full) = chunk_id ` set (concat rls) \<and> descending (\<lambda>x. rrf_sum (chunk_id x) xs) full
    \<and> (\<forall>x \<in> set full. rc_score x = py_round 6 (rrf_sum (chunk_id x) xs) \<and> rc_chunk x \<in> rc_chunk ` set (concat rls))"
proof -
  obtain scores cm where f: "fuse rls = (scores, cm)" by fastforce
  note tab = fuse_tables [OF xs refl f]
  define wrap where "wrap = (\<lambda>(cid, s). \<lparr>rc_chunk = rc_chunk (the (map_of cm cid)), rc_score = py_round 6 s, rc_mode = HYBRID_MODE\<rparr>)"
  define ps where "ps = sort_by_desc snd scores"
  have entry: "chunk_id (wrap p) = fst p \<and> snd p = rrf_sum (fst p) xs \<and> rc_chunk (wrap p) \<in> rc_chunk ` set (concat rls)
      \<and> rc_score (wrap p) = py_round 6 (snd p)" if "p \<in> set ps" for p
  proof -
    obtain c v where p: "p = (c, v)" by fastforce
    with that have cv: "(c, v) \<in> set scores" by (simp add: ps_def sort_by_desc_props)
    then have "c \<in> chunk_id ` set (concat rls)" unfolding tab(2) [symmetric] by force
    with tab(4) obtain x where "map_of cm c = Some x" "x \<in> set (concat rls)" "chunk_id x = c" by blast
    then show ?thesis using tab(3) [OF cv] by (simp add: p wrap_def chunk_id_def)
  qed
  have ids: "map chunk_id (map wrap ps) = map fst ps" using entry by simp
  have "mset (map fst ps) = mset (map fst scores)" unfolding ps_def mset_map sort_by_desc_props(2) ..
  then have dist: "distinct (map fst ps)" using tab(1) mset_eq_imp_distinct_iff unfolding wf_dict_def by blast
  have sts: "set (map fst ps) = chunk_id ` set (concat rls)" using tab(2) by (simp add: ps_def sort_by_desc_props)
  have "descending snd ps" by (simp add: ps_def sort_by_desc_props)
  then have desc: "descending (\<lambda>x. rrf_sum (chunk_id x) xs) (map wrap ps)"
    unfolding descending_map unfolding descending_def by (rule sorted_wrt_mono_rel [rotated]) (use entry in simp)
  have "reciprocal_rank_fusion rls k = take (nat k) (map wrap ps)"
    using assms(1) by (simp add: reciprocal_rank_fusion_def f slice_to_nonneg take_map wrap_def ps_def)
  moreover have "\<forall>x \<in> set (map wrap ps). rc_score x = py_round 6 (rrf_sum (chunk_id x) xs) \<and> rc_chunk x \<in> rc_chunk ` set (concat rls)"
    using entry by simp
  ultimately show ?thesis using dist sts desc unfolding ids [symmetric] by blast
qed

section \<open>Rerankers and the engine\<close>

text \<open>What the engine relies on: a reranker returns chunks it was given, at most as many as asked for.\<close>

locale reranker =
  fixes rerank :: rerank_fn
  assumes rerank_from: "x \<in> set (rerank q cs k) \<Longrightarrow> rc_chunk x \<in> rc_chunk ` set cs"
    and rerank_length: "0 \<le> k \<Longrightarrow> length (rerank q cs k) \<le> nat k"

lemma length_slice_to: "0 \<le> k \<Longrightarrow> length (slice_to k xs) \<le> nat k"
  by (simp add: slice_to_def)

lemma boost_from: "x \<in> set (score_boost_rerank b q cs k) \<Longrightarrow> rc_chunk x \<in> rc_chunk ` set cs"
proof -
  assume "x \<in> set (score_boost_rerank b q cs k)"
  then obtain i c where "(i, c) \<in> set (enumerate 0 (slice_to k (sort_by_desc rc_score cs)))" "rc_chunk x = rc_chunk c"
    by (auto simp: score_boost_rerank_def Let_def sort_by_desc_props)
  then have "c \<in> set cs" using set_slice_to [of k "sort_by_desc rc_score cs"] by (auto simp: in_set_enumerate_eq sort_by_desc_props dest: nth_mem)
  with \<open>rc_chunk x = rc_chunk c\<close> show ?thesis by simp
qed

lemma boost_length: "0 \<le> k \<Longrightarrow> length (score_boost_rerank b q cs k) \<le> nat k"
  by (simp add: score_boost_rerank_def Let_def sort_by_desc_props length_slice_to)

interpretation boost: reranker "score_boost_rerank b"
  by unfold_locales (fact boost_from boost_length)+

interpretation cross: reranker "cross_encoder_rerank predict"
proof
  fix x q cs k
  show "rc_chunk x \<in> rc_chunk ` set cs" if "x \<in> set (cross_encoder_rerank predict q cs k)"
  proof (cases "predict q (map (\<lambda>c. dc_content (rc_chunk c)) cs)")
    case None
    with that show ?thesis using boost_from by (auto simp: cross_encoder_rerank_def split: if_splits)
  next
    case (Some scores)
    define n where "n = (if scores = [] then 0 else Min (set scores))"
    define d where "d = (if (if scores = [] then 1 else Max (set scores)) - n = 0 then 1 else (if scores = [] then 1 else Max (set scores)) - n)"
    have "cs \<noteq> []" using that by (auto simp: cross_encoder_rerank_def)
    with that Some have "x \<in> set (slice_to k (sort_by_desc rc_score (map (\<lambda>(c, s). c\<lparr>rc_score := (s - n) / d\<rparr>) (zip cs scores))))"
      unfolding cross_encoder_rerank_def Let_def n_def d_def by simp
    then have "x \<in> set (map (\<lambda>(c, s). c\<lparr>rc_score := (s - n) / d\<rparr>) (zip cs scores))"
      using set_slice_to sort_by_desc_props(3) by (metis subsetD)
    then show ?thesis by (auto dest: set_zip_leftD)
  qed
  show "length (cross_encoder_rerank predict q cs k) \<le> nat k" if "0 \<le> k"
    using that by (simp add: cross_encoder_rerank_def Let_def boost_length length_slice_to split: option.split)
qed

lemma in_looked_up:
  assumes "x \<in> set (concat (map (\<lambda>(i, s). case m i of None \<Rightarrow> [] | Some c \<Rightarrow> [f c s]) rs))"
  shows "\<exists>i s c. m i = Some c \<and> x = f c s"
proof -
  from assms obtain i s where "x \<in> set (case m i of None \<Rightarrow> [] | Some c \<Rightarrow> [f c s])" by auto
  then show ?thesis by (cases "m i") auto
qed

interpretation flash: reranker "flash_rank_rerank rank"
proof
  fix x q cs k
  show "rc_chunk x \<in> rc_chunk ` set cs" if "x \<in> set (flash_rank_rerank rank q cs k)"
  proof (cases "rank q (map (\<lambda>(i, c). (nat_str i, dc_content (rc_chunk c))) (enumerate 0 cs))")
    case None
    with that show ?thesis using boost_from by (auto simp: flash_rank_rerank_def split: if_splits)
  next
    case (Some rs)
    with that have "x \<in> set (concat (map (\<lambda>(i, s). case map_of (map (\<lambda>(j, c). (nat_str j, c)) (enumerate 0 cs)) i of
        None \<Rightarrow> [] | Some c \<Rightarrow> [c\<lparr>rc_score := s\<rparr>]) (slice_to k rs)))"
      unfolding flash_rank_rerank_def by (simp split: if_splits)
    from in_looked_up [OF this] obtain i s c where "map_of (map (\<lambda>(j, c). (nat_str j, c)) (enumerate 0 cs)) i = Some c" "x = c\<lparr>rc_score := s\<rparr>" by blast
    then show ?thesis by (auto dest!: map_of_SomeD simp: in_set_enumerate_eq)
  qed
  have one: "length (concat (map (\<lambda>(i, s). case m i of None \<Rightarrow> [] | Some c \<Rightarrow> [f c s]) rs)) \<le> length rs"
    for m :: "string \<Rightarrow> retrieved_chunk option" and f :: "retrieved_chunk \<Rightarrow> real \<Rightarrow> retrieved_chunk" and rs
    by (induction rs) (auto split: option.split)
  show "length (flash_rank_rerank rank q cs k) \<le> nat k" if "0 \<le> k"
    using that order_trans [OF one length_slice_to [OF that]] by (simp add: flash_rank_rerank_def boost_length split: option.split)
qed

interpretation api: reranker "api_rerank post"
proof
  fix x q cs k
  show "rc_chunk x \<in> rc_chunk ` set cs" if "x \<in> set (api_rerank post q cs k)"
  proof (cases "post q (map (\<lambda>c. dc_content (rc_chunk c)) cs) k")
    case None
    with that show ?thesis using boost_from by (auto simp: api_rerank_def split: if_splits)
  next
    case (Some rs)
    with that obtain i s where "0 \<le> i" "i < int (length cs)" "x = (cs ! nat i)\<lparr>rc_score := s\<rparr>"
      using set_slice_to by (fastforce simp: api_rerank_def split: if_splits)
    then show ?thesis by (simp add: nat_less_iff)
  qed
  show "length (api_rerank post q cs k) \<le> nat k" if "0 \<le> k"
    using that by (simp add: api_rerank_def boost_length length_slice_to split: option.split)
qed

lemma retrieve_from: "x \<in> set (retrieve e k r) \<Longrightarrow> rc_chunk x \<in> set (rt_chunks r) \<and> rg_similarity_threshold (rt_config r) \<le> rc_score x"
  by (auto simp: retrieve_def dest!: ranked_mode)

lemma keyword_from: "x \<in> set (keyword_search q k r) \<Longrightarrow> rc_chunk x \<in> set (rt_chunks r)"
  by (auto simp: keyword_search_scored keyword_scored_def Let_def dest!: ranked_mode set_zip_rightD split: if_splits)

lemma hybrid_from:
  assumes "0 \<le> k" "x \<in> set (hybrid_retrieve q emb k r)"
  shows "rc_chunk x \<in> set (rt_chunks r)"
proof -
  let ?sem = "case emb of None \<Rightarrow> [] | Some e \<Rightarrow> retrieve e (Some (k * 3)) r"
  let ?kw = "keyword_search q (Some (k * 3)) r"
  have "0 \<le> k * 2" using assms(1) by simp
  from rrf_full [OF this refl, of "[?sem, ?kw]"] obtain full where
    "reciprocal_rank_fusion [?sem, ?kw] (k * 2) = take (nat (k * 2)) full" "\<forall>x \<in> set full. rc_chunk x \<in> rc_chunk ` set (concat [?sem, ?kw])" by blast
  moreover have "x \<in> set (reciprocal_rank_fusion [?sem, ?kw] (k * 2))" using assms(2) unfolding hybrid_retrieve_def Let_def .
  ultimately have "rc_chunk x \<in> rc_chunk ` set (concat [?sem, ?kw])" by (metis in_set_takeD)
  then show ?thesis using retrieve_from keyword_from by (auto split: option.splits)
qed

lemma hybrid_descending: "0 \<le> k \<Longrightarrow> descending rc_score (hybrid_retrieve q emb k r)"
proof -
  assume k: "0 \<le> k"
  let ?ls = "[case emb of None \<Rightarrow> [] | Some e \<Rightarrow> retrieve e (Some (k * 3)) r, keyword_search q (Some (k * 3)) r]"
  from rrf_full [of "k * 2" _ ?ls, OF _ refl] k obtain full where
    "reciprocal_rank_fusion ?ls (k * 2) = take (nat (k * 2)) full"
    and d: "descending (\<lambda>x. rrf_sum (chunk_id x) (concat (map (enumerate 0) ?ls))) full"
    and s: "\<forall>x \<in> set full. rc_score x = py_round 6 (rrf_sum (chunk_id x) (concat (map (enumerate 0) ?ls)))" by auto
  moreover have "descending rc_score full"
    using d unfolding descending_def by (rule sorted_wrt_mono_rel [rotated]) (use s py_round_mono in simp)
  ultimately show ?thesis by (simp add: hybrid_retrieve_def Let_def descending_def sorted_wrt_take)
qed

context reranker
begin

lemma query_chunks:
  assumes "0 \<le> final_k top_k e" and "res = rag_query rerank llm q emb top_k e"
  shows "length (gr_chunks res) \<le> nat (final_k top_k e) \<and> rc_chunk ` set (gr_chunks res) \<subseteq> set (rt_chunks (ge_retriever e))
    \<and> (\<not> rg_rerank (ge_config e) \<longrightarrow> descending rc_score (gr_chunks res))"
proof (cases "rg_mode (ge_config e) = SEMANTIC \<and> emb = None")
  case True
  with assms(2) show ?thesis by (simp add: rag_query_def Let_def descending_def)
next
  case False
  let ?k = "final_k top_k e"
  define cs where "cs = (case rg_mode (ge_config e) of SEMANTIC \<Rightarrow> retrieve (the emb) (Some (?k * 2)) (ge_retriever e)
     | KEYWORD \<Rightarrow> keyword_search q (Some (?k * 2)) (ge_retriever e) | HYBRID_MODE \<Rightarrow> hybrid_retrieve q emb ?k (ge_retriever e))"
  have res: "gr_chunks res = slice_to ?k (if rg_rerank (ge_config e) \<and> cs \<noteq> [] then rerank q cs ?k else cs)"
    unfolding assms(2) rag_query_def Let_def if_not_P [OF False] cs_def [symmetric] by simp
  have desc: "descending rc_score cs"
    by (cases "rg_mode (ge_config e)")
      (simp_all add: cs_def retrieve_def keyword_search_scored descending_ranked hybrid_descending assms(1), simp add: descending_def)
  have mem: "\<forall>x \<in> set cs. rc_chunk x \<in> set (rt_chunks (ge_retriever e))"
    using retrieve_from keyword_from hybrid_from [OF assms(1)] by (cases "rg_mode (ge_config e)") (auto simp: cs_def)
  have "rc_chunk x \<in> set (rt_chunks (ge_retriever e))" if x: "x \<in> set (gr_chunks res)" for x
  proof (cases "rg_rerank (ge_config e) \<and> cs \<noteq> []")
    case True
    with x have "x \<in> set (rerank q cs ?k)" unfolding res by (auto dest: subsetD [OF set_slice_to])
    from rerank_from [OF this] mem show ?thesis by auto
  next
    case False
    from x have "x \<in> set cs" unfolding res if_not_P [OF False] by (rule subsetD [OF set_slice_to])
    with mem show ?thesis by blast
  qed
  moreover have "length (gr_chunks res) \<le> nat ?k" unfolding res by (rule length_slice_to [OF assms(1)])
  moreover have "descending rc_score (gr_chunks res)" if "\<not> rg_rerank (ge_config e)"
    using that desc unfolding res by (simp add: descending_slice)
  ultimately show ?thesis by blast
qed

end

section \<open>Metrics\<close>

lemma reciprocal_rank_unit: "0 \<le> reciprocal_rank rel i cs \<and> reciprocal_rank rel i cs \<le> 1"
  by (induction cs arbitrary: i) (auto simp: divide_le_eq_1)

lemma harmonic_mean_unit:
  fixes p r :: real
  assumes "0 \<le> p" "p \<le> 1" "0 \<le> r" "r \<le> 1" "0 < p + r"
  shows "0 \<le> 2 * p * r / (p + r) \<and> 2 * p * r / (p + r) \<le> 1"
proof -
  have "p * r \<le> p * 1" "p * r \<le> 1 * r" using assms by (intro mult_left_mono mult_right_mono; simp)+
  then have "2 * p * r \<le> p + r" by simp
  with assms show ?thesis by (simp add: divide_le_eq_1)
qed

lemma metrics_unit:
  assumes "finite relevant" and "m = evaluate_single results relevant"
  shows "mt_precision m \<in> {0..1} \<and> mt_recall m \<in> {0..1} \<and> mt_f1 m \<in> {0..1} \<and> mt_mrr m \<in> {0..1}"
proof -
  define ids where "ids = map (\<lambda>r. dc_chunk_id (rc_chunk r)) results"
  define tp where "tp = real (card (set ids \<inter> relevant))"
  define p where "p = (if ids \<noteq> [] then tp / real (card (set ids)) else 0)"
  define r where "r = (if relevant \<noteq> {} then tp / real (card relevant) else 0)"
  have "tp \<le> real (card (set ids))" "tp \<le> real (card relevant)" unfolding tp_def using assms(1) by (auto intro: card_mono)
  then have pr: "0 \<le> p" "p \<le> 1" "0 \<le> r" "r \<le> 1" by (auto simp: p_def r_def tp_def divide_le_eq_1 card_gt_0_iff)
  have m: "m = \<lparr>mt_precision = py_round 4 p, mt_recall = py_round 4 r,
      mt_f1 = py_round 4 (if p + r > 0 then 2 * p * r / (p + r) else 0),
      mt_mrr = py_round 4 (reciprocal_rank relevant 0 ids), mt_results_count = length results\<rparr>"
    unfolding assms(2) evaluate_single_def Let_def ids_def [symmetric] tp_def [symmetric] p_def [symmetric] r_def [symmetric] ..
  have "0 \<le> (if p + r > 0 then 2 * p * r / (p + r) else 0)" "(if p + r > 0 then 2 * p * r / (p + r) else 0) \<le> 1"
    using harmonic_mean_unit [OF pr] by auto
  from py_round_unit [OF this] pr py_round_unit reciprocal_rank_unit show ?thesis unfolding m by simp
qed

section \<open>Properties\<close>

text \<open>C37. A query to the hybrid engine, with any of the four rerankers and whatever the external models answer, returns at most
  \<open>top_k\<close> chunks, all of them from the index; without reranking they come in descending order of score.\<close>

theorem rag_query_sound:
  assumes "rerank \<in> {score_boost_rerank b, cross_encoder_rerank predict, flash_rank_rerank rank, api_rerank post}"
    and "0 \<le> final_k top_k e"
  shows "length (gr_chunks (rag_query rerank llm q emb top_k e)) \<le> nat (final_k top_k e)
    \<and> rc_chunk ` set (gr_chunks (rag_query rerank llm q emb top_k e)) \<subseteq> set (rt_chunks (ge_retriever e))
    \<and> (\<not> rg_rerank (ge_config e) \<longrightarrow> descending rc_score (gr_chunks (rag_query rerank llm q emb top_k e)))"
proof -
  from assms(1) consider "rerank = score_boost_rerank b" | "rerank = cross_encoder_rerank predict" | "rerank = flash_rank_rerank rank"
    | "rerank = api_rerank post" by blast
  then show ?thesis
    by cases (simp_all add: boost.query_chunks [OF assms(2) refl] cross.query_chunks [OF assms(2) refl]
        flash.query_chunks [OF assms(2) refl] api.query_chunks [OF assms(2) refl])
qed


text \<open>C38. Reciprocal rank fusion returns the first \<open>k\<close> of a list with one entry per chunk that occurs in the given rankings, in
  descending order of the sum of \<open>1 / (61 + rank)\<close> over its occurrences, which rounded is the score.\<close>

theorem rrf_exact:
  assumes "0 \<le> k"
  shows "\<exists>full. reciprocal_rank_fusion rls k = take (nat k) full \<and> distinct (map chunk_id full)
    \<and> set (map chunk_id full) = chunk_id ` set (concat rls)
    \<and> descending (\<lambda>x. rrf_sum (chunk_id x) (concat (map (enumerate 0) rls))) full
    \<and> list_all (\<lambda>x. rc_score x = py_round 6 (rrf_sum (chunk_id x) (concat (map (enumerate 0) rls)))
        \<and> rc_chunk x \<in> rc_chunk ` set (concat rls)) full"
  using rrf_full [OF assms refl, of rls] unfolding list_all_iff .

definition sample_chunk :: "string \<Rightarrow> string \<Rightarrow> indexed_chunk" where
  "sample_chunk i txt = \<lparr>dc_chunk_id = i, dc_doc_id = ''d'', dc_content = txt, dc_chunk_index = 0, dc_start_char = 0, dc_end_char = 0, ch_embedding = [1]\<rparr>"

definition sample_retriever :: simple_retriever where
  "sample_retriever = \<lparr>rt_config = rag_config_init, rt_chunks = [sample_chunk ''1'' ''Port of Busan'', sample_chunk ''2'' ''A vessel'']\<rparr>"

lemma sample_terms: "query_terms ''busan'' = [''busan'']" "tokens (sample_chunk ''1'' ''Port of Busan'') = [''port'', ''of'', ''busan'']"
  "tokens (sample_chunk ''2'' ''A vessel'') = [''a'', ''vessel'']"
  by code_simp+

theorem rag_query_sound_witness:
  "length (gr_chunks (rag_query (score_boost_rerank 1) None ''busan'' None None \<lparr>ge_config = rag_config_init, ge_retriever = sample_retriever\<rparr>)) \<le> 5
   \<and> descending rc_score (gr_chunks (rag_query (score_boost_rerank 1) None ''busan'' None None \<lparr>ge_config = rag_config_init, ge_retriever = sample_retriever\<rparr>))"
  using rag_query_sound [of "score_boost_rerank 1" 1 "\<lambda>_ _. None" "\<lambda>_ _. None" "\<lambda>_ _ _. None" None "\<lparr>ge_config = rag_config_init, ge_retriever = sample_retriever\<rparr>" None "''busan''" None]
  by (simp add: final_k_def rag_config_init_def)


theorem rrf_exact_witness:
  "\<exists>full. reciprocal_rank_fusion [[\<lparr>rc_chunk = sample_chunk ''1'' [], rc_score = 1, rc_mode = KEYWORD\<rparr>], [\<lparr>rc_chunk = sample_chunk ''1'' [], rc_score = 1 / 2, rc_mode = SEMANTIC\<rparr>]] 5
     = take 5 full \<and> set (map chunk_id full) = {''1''} \<and> distinct (map chunk_id full)"
  using rrf_exact [of 5 "[[\<lparr>rc_chunk = sample_chunk ''1'' [], rc_score = 1, rc_mode = KEYWORD\<rparr>], [\<lparr>rc_chunk = sample_chunk ''1'' [], rc_score = 1 / 2, rc_mode = SEMANTIC\<rparr>]]"]
  by (auto simp: chunk_id_def sample_chunk_def)

text \<open>The score boost caps scores at 1 but does not raise negative ones to 0.\<close>

lemma boost_keeps_negative:
  "map rc_score (score_boost_rerank (11 / 10) q [\<lparr>rc_chunk = c, rc_score = - 1 / 2, rc_mode = SEMANTIC\<rparr>] 5) = [- 11 / 20]"
  by (simp add: score_boost_rerank_def Let_def sort_by_desc_def slice_to_def)

end
