(* ===== verification/Agent_Tools.thy ===== *)
theory Agent_Tools
  imports Prelude
begin

text \<open>
  \<^verbatim>\<open>agent/memory/buffer.py\<close>, \<^verbatim>\<open>agent/tools\<close> (models and registry) and \<^verbatim>\<open>agent/skills\<close> (models and registry).

  Handlers are functions of their keyword arguments and of the state \<open>'w\<close> of the outside world; one that raises
  returns the text of the exception.  Calling a handler with something that is not a mapping, and asking for
  membership in something that is not a container, raise in Python: their texts are the fields of \<open>py_errors\<close>.
  Durations and timestamps are left out.
\<close>

section \<open>Buffer memory\<close>

datatype memory_type = USER | ASSISTANT | SYSTEM_MSG | TOOL

record memory_entry =
  me_role :: memory_type
  me_content :: string

record buffer_memory =
  bm_messages :: "memory_entry list"
  bm_max :: int

definition bm_init :: "int \<Rightarrow> buffer_memory" where
  "bm_init max_messages = \<lparr>bm_messages = [], bm_max = max_messages\<rparr>"

definition lastk :: "nat \<Rightarrow> 'a list \<Rightarrow> 'a list" where
  "lastk n xs = drop (length xs - n) xs"

definition bm_add :: "memory_type \<Rightarrow> string \<Rightarrow> buffer_memory \<Rightarrow> buffer_memory" where
  "bm_add role content m =
     (let ms = bm_messages m @ [\<lparr>me_role = role, me_content = content\<rparr>]
      in m\<lparr>bm_messages := (if 0 < bm_max m \<and> bm_max m < int (length ms) then lastk (nat (bm_max m)) ms else ms)\<rparr>)"

definition bm_get_history :: "int \<Rightarrow> buffer_memory \<Rightarrow> memory_entry list" where
  "bm_get_history limit m = (if limit \<le> 0 then bm_messages m else lastk (nat limit) (bm_messages m))"

definition bm_clear :: "buffer_memory \<Rightarrow> buffer_memory" where
  "bm_clear m = m\<lparr>bm_messages := []\<rparr>"

definition bm_message_count :: "buffer_memory \<Rightarrow> nat" where
  "bm_message_count m = length (bm_messages m)"

section \<open>Tools\<close>

record tool_definition =
  td_name :: string
  td_description :: string
  td_required_params :: "string list"
  td_category :: string
  td_is_dangerous :: bool

record tool_result =
  tr_tool_name :: string
  tr_output :: string
  tr_success :: bool
  tr_error :: string

type_synonym 'w handler = "(string, json) dict \<Rightarrow> 'w \<Rightarrow> (string + string) \<times> 'w"

record 'w tool_registry =
  tg_tools :: "(string, tool_definition) dict"
  tg_handlers :: "(string, 'w handler) dict"

definition tg_init :: "'w tool_registry" where
  "tg_init = \<lparr>tg_tools = [], tg_handlers = []\<rparr>"

definition tg_register :: "tool_definition \<Rightarrow> 'w handler \<Rightarrow> 'w tool_registry \<Rightarrow> 'w tool_registry" where
  "tg_register d h r = r\<lparr>tg_tools := AList.update (td_name d) d (tg_tools r),
     tg_handlers := AList.update (td_name d) h (tg_handlers r)\<rparr>"

definition tg_get :: "string \<Rightarrow> 'w tool_registry \<Rightarrow> tool_definition option" where
  "tg_get n r = map_of (tg_tools r) n"

definition tg_tool_names :: "'w tool_registry \<Rightarrow> string list" where
  "tg_tool_names r = map fst (tg_tools r)"

definition tg_tool_count :: "'w tool_registry \<Rightarrow> nat" where
  "tg_tool_count r = length (tg_tools r)"

definition tg_list_tools :: "'w tool_registry \<Rightarrow> tool_definition list" where
  "tg_list_tools r = map snd (tg_tools r)"

definition tg_clear :: "'w tool_registry \<Rightarrow> 'w tool_registry" where
  "tg_clear r = r\<lparr>tg_tools := [], tg_handlers := []\<rparr>"

text \<open>\<^verbatim>\<open>p in x\<close> for a JSON value; \<open>None\<close> is TypeError.\<close>

fun json_contains :: "json \<Rightarrow> string \<Rightarrow> bool option" where
  "json_contains (JObj d) p = Some (dict_has d p)"
| "json_contains (JList xs) p = Some (JStr p \<in> set xs)"
| "json_contains (JStr s) p = Some (py_find s p 0 \<noteq> None)"
| "json_contains _ p = None"

record py_errors =
  pe_not_container :: "json \<Rightarrow> string"
  pe_not_mapping :: "json \<Rightarrow> string"

fun missing_params :: "py_errors \<Rightarrow> json \<Rightarrow> string list \<Rightarrow> (string, string list) res" where
  "missing_params pe inp [] = Inr []"
| "missing_params pe inp (p # ps) =
     (case json_contains inp p of
        None \<Rightarrow> Inl (pe_not_container pe inp)
      | Some b \<Rightarrow> res_bind (missing_params pe inp ps)
                   (\<lambda>es. Inr (if b then es else (''Missing required parameter: '' @ p) # es)))"

definition validate_input :: "py_errors \<Rightarrow> tool_definition \<Rightarrow> json \<Rightarrow> (string, string list) res" where
  "validate_input pe d inp = missing_params pe inp (td_required_params d)"

definition tool_failure :: "string \<Rightarrow> string \<Rightarrow> tool_result" where
  "tool_failure n e = \<lparr>tr_tool_name = n, tr_output = [], tr_success = False, tr_error = e\<rparr>"

text \<open>An exception of \<open>validate_input\<close> leaves \<open>execute\<close>; an exception of the handler does not.\<close>

definition tool_execute :: "py_errors \<Rightarrow> 'w tool_registry \<Rightarrow> string \<Rightarrow> json \<Rightarrow> 'w \<Rightarrow> (string, tool_result) res \<times> 'w" where
  "tool_execute pe r n inp w =
     (case map_of (tg_tools r) n of
        None \<Rightarrow> (Inr (tool_failure n (''Unknown tool: '' @ n)), w)
      | Some d \<Rightarrow>
          (let inputs = (if json_truthy inp then inp else JObj []) in
           case validate_input pe d inputs of
             Inl e \<Rightarrow> (Inl e, w)
           | Inr errs \<Rightarrow>
               if errs \<noteq> [] then (Inr (tool_failure n (join_with ''; '' errs)), w)
               else (case map_of (tg_handlers r) n of
                       None \<Rightarrow> (Inl n, w)
                     | Some h \<Rightarrow>
                         (case inputs of
                            JObj kw \<Rightarrow>
                              (case h kw w of
                                 (Inl e, w') \<Rightarrow> (Inr (tool_failure n e), w')
                               | (Inr out, w') \<Rightarrow>
                                   (Inr \<lparr>tr_tool_name = n, tr_output = out, tr_success = True, tr_error = []\<rparr>, w'))
                          | _ \<Rightarrow> (Inr (tool_failure n (pe_not_mapping pe inputs)), w)))))"

section \<open>Skills\<close>

record skill_definition =
  sk_name :: string
  sk_description :: string
  sk_category :: string

definition skill_validate :: "skill_definition \<Rightarrow> string list" where
  "skill_validate d = (if sk_name d = [] then [''Skill name is required''] else [])
     @ (if sk_description d = [] then [''Skill description is required''] else [])"

record skill_result =
  sr_skill_name :: string
  sr_output :: string
  sr_success :: bool
  sr_error :: string
  sr_steps_taken :: int

text \<open>What a skill handler may do: raise, return a result of its own, or return a value with text and step count.\<close>

datatype skill_return = SkRaise string | SkResult skill_result | SkValue string int

type_synonym 'w skill_handler = "(string, json) dict \<Rightarrow> 'w \<Rightarrow> skill_return \<times> 'w"

record 'w skill_registry =
  sg_skills :: "(string, skill_definition) dict"
  sg_handlers :: "(string, 'w skill_handler) dict"

definition sg_register :: "skill_definition \<Rightarrow> 'w skill_handler \<Rightarrow> 'w skill_registry \<Rightarrow> (string list, 'w skill_registry) res" where
  "sg_register d h r =
     (let errs = skill_validate d in
      if errs \<noteq> [] then Inl errs
      else Inr (r\<lparr>sg_skills := AList.update (sk_name d) d (sg_skills r),
                  sg_handlers := AList.update (sk_name d) h (sg_handlers r)\<rparr>))"

definition sg_execute :: "'w skill_registry \<Rightarrow> string \<Rightarrow> (string, json) dict \<Rightarrow> 'w \<Rightarrow> skill_result option \<times> 'w" where
  "sg_execute r n kw w =
     (case map_of (sg_skills r) n of
        None \<Rightarrow> (Some \<lparr>sr_skill_name = n, sr_output = [], sr_success = False, sr_error = ''Unknown skill: '' @ n, sr_steps_taken = 0\<rparr>, w)
      | Some d \<Rightarrow>
          (case map_of (sg_handlers r) n of
             None \<Rightarrow> (None, w)
           | Some h \<Rightarrow>
               (case h kw w of
                  (SkRaise e, w') \<Rightarrow>
                    (Some \<lparr>sr_skill_name = n, sr_output = [], sr_success = False, sr_error = e, sr_steps_taken = 0\<rparr>, w')
                | (SkResult res, w') \<Rightarrow> (Some res, w')
                | (SkValue out k, w') \<Rightarrow>
                    (Some \<lparr>sr_skill_name = n, sr_output = out, sr_success = True, sr_error = [], sr_steps_taken = k\<rparr>, w'))))"

definition sg_list_by_category :: "string \<Rightarrow> 'w skill_registry \<Rightarrow> skill_definition list" where
  "sg_list_by_category cat r = filter (\<lambda>d. sk_category d = cat) (map snd (sg_skills r))"

definition sg_clear :: "'w skill_registry \<Rightarrow> 'w skill_registry" where
  "sg_clear r = r\<lparr>sg_skills := [], sg_handlers := []\<rparr>"

section \<open>What engines rely on\<close>

text \<open>
  The interface of a tool runner: a result carries the tool's name, a failure has no output and a success has no
  error text, and an exception happens only for a known tool whose arguments are not a mapping.
\<close>

locale tool_runner =
  fixes run :: "'r \<Rightarrow> string \<Rightarrow> json \<Rightarrow> 'w \<Rightarrow> (string, tool_result) res \<times> 'w"
    and known :: "'r \<Rightarrow> string \<Rightarrow> bool"
    and ok :: "'r \<Rightarrow> bool"
  assumes run_name: "run r n inp w = (Inr tr, w') \<Longrightarrow> tr_tool_name tr = n"
    and run_failure: "run r n inp w = (Inr tr, w') \<Longrightarrow> \<not> tr_success tr \<Longrightarrow> tr_output tr = []"
    and run_success: "run r n inp w = (Inr tr, w') \<Longrightarrow> tr_success tr \<Longrightarrow> tr_error tr = [] \<and> known r n"
    and run_object: "ok r \<Longrightarrow> \<exists>tr w'. run r n (JObj d) w = (Inr tr, w')"

lemma missing_params_object: "\<exists>es. missing_params pe (JObj d) ps = Inr es"
  by (induction ps) auto

text \<open>A registry whose two dictionaries were filled together.\<close>

definition tg_ok :: "'w tool_registry \<Rightarrow> bool" where
  "tg_ok r \<longleftrightarrow> (\<forall>n. dict_has (tg_tools r) n \<longleftrightarrow> dict_has (tg_handlers r) n)
     \<and> (\<forall>n d. map_of (tg_tools r) n = Some d \<longrightarrow> td_name d = n)"

lemma tg_ok_ops [inv_intros]:
  "tg_ok tg_init" "tg_ok (tg_clear r)" "tg_ok r \<Longrightarrow> tg_ok (tg_register d h r)"
  by (auto simp: tg_ok_def tg_init_def tg_clear_def tg_register_def dict_has_def dict_simps dom_update map_of_update_dict)

lemma tool_execute_object: "tg_ok r \<Longrightarrow> \<exists>tr w'. tool_execute pe r n (JObj d) w = (Inr tr, w')"
proof -
  assume ok: "tg_ok r"
  show ?thesis
  proof (cases "map_of (tg_tools r) n")
    case (Some t)
    with ok obtain h where h: "map_of (tg_handlers r) n = Some h" unfolding tg_ok_def dict_has_map_of by fastforce
    obtain es where es: "missing_params pe (JObj d) (td_required_params t) = Inr es" using missing_params_object by blast
    have empty: "(if json_truthy (JObj d) then JObj d else JObj []) = JObj d" by (cases d) auto
    show ?thesis unfolding tool_execute_def Some option.case empty Let_def validate_input_def es h
      by (cases "es = []"; cases "fst (h d w)") (auto split: prod.splits sum.splits)
  qed (simp add: tool_execute_def)
qed

lemmas tool_execute_splits = option.splits sum.splits if_splits json.splits prod.splits

interpretation tools: tool_runner "tool_execute pe" "\<lambda>r. dict_has (tg_tools r)" tg_ok
proof
  fix r :: "'w tool_registry" and n :: string and inp w tr w'
  assume e: "tool_execute pe r n inp w = (Inr tr, w')"
  show "tr_tool_name tr = n" using e
    by (auto simp: tool_execute_def tool_failure_def Let_def split: tool_execute_splits)
  show "tr_output tr = []" if "\<not> tr_success tr" using e that
    by (auto simp: tool_execute_def tool_failure_def Let_def split: tool_execute_splits)
  show "tr_error tr = [] \<and> dict_has (tg_tools r) n" if "tr_success tr" using e that
    by (auto simp: tool_execute_def tool_failure_def Let_def dict_has_map_of split: tool_execute_splits)
qed (rule tool_execute_object)

section \<open>Memory keeps the latest messages\<close>

lemma lastk_snoc: "lastk (Suc n) (xs @ [x]) = lastk n xs @ [x]"
  by (simp add: lastk_def)

lemma lastk_all: "length xs \<le> n \<Longrightarrow> lastk n xs = xs"
  by (simp add: lastk_def)

lemma length_lastk: "length (lastk n xs) = min n (length xs)"
  by (auto simp: lastk_def)

lemma lastk_lastk: "lastk n (lastk m xs) = lastk (min n m) xs"
proof -
  have "length xs - (length xs - m + n) + (length xs - m) = length xs - n" if "n \<le> m" using that by linarith
  then show ?thesis by (auto simp: lastk_def min_def)
qed

definition bm_run :: "(memory_type \<times> string) list \<Rightarrow> buffer_memory \<Rightarrow> buffer_memory" where
  "bm_run es m = fold (\<lambda>(r, c). bm_add r c) es m"

definition all_entries :: "(memory_type \<times> string) list \<Rightarrow> memory_entry list" where
  "all_entries es = map (\<lambda>(r, c). \<lparr>me_role = r, me_content = c\<rparr>) es"

text \<open>What a memory of the given bound holds after a sequence of messages.\<close>

definition bounded_view :: "int \<Rightarrow> 'a list \<Rightarrow> 'a list" where
  "bounded_view mx xs = (if 0 < mx then lastk (nat mx) xs else xs)"

lemma bounded_view_snoc: "bounded_view mx (bounded_view mx xs @ [x]) = bounded_view mx (xs @ [x])"
proof (cases "0 < mx")
  case True
  then obtain n where "nat mx = Suc n" by (metis gr0_implies_Suc zero_less_nat_eq)
  with True show ?thesis by (simp add: bounded_view_def lastk_snoc lastk_lastk min_def)
qed (simp add: bounded_view_def)

lemma bm_add_view: "bm_messages (bm_add r c m) = bounded_view (bm_max m) (bm_messages m @ [\<lparr>me_role = r, me_content = c\<rparr>])"
  by (auto simp: bm_add_def Let_def bounded_view_def intro!: lastk_all [symmetric])

lemma bm_run_view: "bm_max (bm_run es (bm_init mx)) = mx \<and> bm_messages (bm_run es (bm_init mx)) = bounded_view mx (all_entries es)"
proof (induction es rule: rev_induct)
  case Nil
  show ?case by (simp add: bm_run_def bm_init_def all_entries_def bounded_view_def lastk_def)
next
  case (snoc e es)
  obtain r c where e: "e = (r, c)" by fastforce
  have "bm_run (es @ [e]) (bm_init mx) = bm_add r c (bm_run es (bm_init mx))" by (simp add: bm_run_def e)
  with snoc show ?case by (simp add: bm_add_view bounded_view_snoc all_entries_def e) (simp add: bm_add_def Let_def)
qed

end
