(* ===== verification/Agent_Runtime.thy ===== *)
theory Agent_Runtime
  imports Agent_Tools
begin

text \<open>
  \<^verbatim>\<open>agent/runtime\<close>: the ReAct engine of \<^verbatim>\<open>react.py\<close>, the pipeline engine of \<^verbatim>\<open>pipeline.py\<close> and the batch engine of \<^verbatim>\<open>batch.py\<close>.

  The tool registry is reached through its \<open>execute\<close>, the parameter \<open>run\<close>; the language model (\<open>gen\<close>) and the JSON reader
  (\<open>loads\<close>) are parameters as well.  The model returns nothing when there is no provider or the call failed.  The elapsed
  time at the check of the \<open>k\<close>-th round is \<open>elapsed k\<close>.  Texts are ASCII, so that upper case keeps positions.
  Durations, timestamps, logging and session-aware memory providers are left out.
\<close>

section \<open>Models\<close>

datatype step_type = THOUGHT | ACTION | OBSERVATION | FINAL

datatype agent_state = IDLE | AG_RUNNING | AG_COMPLETED | AG_FAILED | AG_TIMEOUT

record agent_config =
  ac_max_steps :: int
  ac_timeout :: real

record agent_step =
  as_number :: nat
  as_type :: step_type
  as_content :: string
  as_tool_name :: string
  as_tool_input :: "json option"
  as_tool_output :: string

record agent_result =
  ar_answer :: string
  ar_state :: agent_state
  ar_steps :: "agent_step list"
  ar_total_tokens :: int
  ar_error :: string
  ar_max_steps_reached :: bool

definition plain_step :: "nat \<Rightarrow> step_type \<Rightarrow> string \<Rightarrow> agent_step" where
  "plain_step k ty c = \<lparr>as_number = k, as_type = ty, as_content = c, as_tool_name = [], as_tool_input = None, as_tool_output = []\<rparr>"

section \<open>Reading a response\<close>

datatype parsed = PFinal string | PAction string json | PThought string

definition first_line :: "string \<Rightarrow> string" where
  "first_line s = takeWhile (\<lambda>c. c \<noteq> CHR 0x0A) s"

definition find_marker :: "string \<Rightarrow> string \<Rightarrow> string option" where
  "find_marker t m = map_option (\<lambda>i. py_strip (drop (i + length m) t)) (py_find (py_upper t) m 0)"

definition parse_response :: "(string \<Rightarrow> json option) \<Rightarrow> string \<Rightarrow> parsed" where
  "parse_response loads t =
     (case List.map_filter (find_marker t) [''FINAL ANSWER:'', ''FINAL:'', ''ANSWER:''] of
        a # _ \<Rightarrow> PFinal a
      | [] \<Rightarrow>
          (case find_marker t ''ACTION:'' of
             None \<Rightarrow> PThought t
           | Some act \<Rightarrow>
               PAction (py_strip (first_line act))
                 (case find_marker t ''INPUT:'' of
                    None \<Rightarrow> JObj []
                  | Some it \<Rightarrow>
                      (case loads it of
                         Some j \<Rightarrow> j
                       | None \<Rightarrow> JObj [(''query'', JStr (py_strip (first_line it)))]))))"

section \<open>ReAct\<close>

definition stub_think :: "string list \<Rightarrow> string \<Rightarrow> agent_step list \<Rightarrow> string" where
  "stub_think names query steps =
     (if \<not> (\<exists>s \<in> set steps. as_type s = OBSERVATION) \<and> names \<noteq> []
      then ''ACTION: '' @ hd names @ [CHR 0x0A] @ ''INPUT: {'' @ dquote ''query'' @ '': '' @ dquote query @ ''}''
      else ''FINAL ANSWER: [Stub response for: '' @ query @ '']'')"

record react_engine =
  re_config :: agent_config
  re_memory :: buffer_memory
  re_state :: agent_state

record 'w react_env =
  rv_run :: "string \<Rightarrow> json \<Rightarrow> 'w \<Rightarrow> (string, tool_result) res \<times> 'w"
  rv_names :: "string list"
  rv_tools :: "tool_definition list"
  rv_gen :: "string \<Rightarrow> 'w \<Rightarrow> (string \<times> int) option \<times> 'w"
  rv_loads :: "string \<Rightarrow> json option"
  rv_elapsed :: "nat \<Rightarrow> real"

definition nl :: string where
  "nl = [CHR 0x0A]"

fun step_type_value :: "step_type \<Rightarrow> string" where
  "step_type_value THOUGHT = ''thought''"
| "step_type_value ACTION = ''action''"
| "step_type_value OBSERVATION = ''observation''"
| "step_type_value FINAL = ''final''"

definition tool_line :: "tool_definition \<Rightarrow> string" where
  "tool_line d = ''- '' @ td_name d @ '': '' @ td_description d @ '' (params: ''
     @ (if td_required_params d = [] then ''none'' else join_with '', '' (td_required_params d)) @ '')''"

definition build_prompt :: "tool_definition list \<Rightarrow> string \<Rightarrow> agent_step list \<Rightarrow> string" where
  "build_prompt tools query steps =
     (if tools = [] then [] else ''Available tools:'' @ nl @ join_with nl (map tool_line tools) @ nl @ nl)
     @ (if steps = [] then []
        else ''Previous steps:'' @ nl
             @ join_with nl (map (\<lambda>s. ''['' @ step_type_value (as_type s) @ ''] '' @ as_content s) (lastk 6 steps)) @ nl @ nl)
     @ ''Query: '' @ query @ nl @ nl
     @ ''Think step by step. If you can answer directly, respond with:'' @ nl @ ''FINAL ANSWER: <your answer>'' @ nl @ nl
     @ ''If you need to use a tool, respond with:'' @ nl @ ''ACTION: <tool_name>'' @ nl @ ''INPUT: <json input>'' @ nl"

definition react_result :: "string \<Rightarrow> agent_state \<Rightarrow> agent_step list \<Rightarrow> int \<Rightarrow> string \<Rightarrow> bool \<Rightarrow> agent_result" where
  "react_result ans st steps toks err mx = \<lparr>ar_answer = ans, ar_state = st, ar_steps = steps, ar_total_tokens = toks,
     ar_error = err, ar_max_steps_reached = mx\<rparr>"

definition last_thought :: "agent_step list \<Rightarrow> string" where
  "last_thought steps =
     (case filter (\<lambda>s. as_type s = THOUGHT) (rev steps) of
        [] \<Rightarrow> ''Maximum steps reached without a conclusive answer.'' | s # _ \<Rightarrow> as_content s)"

definition observation_text :: "string \<Rightarrow> tool_result \<Rightarrow> string" where
  "observation_text pre tr = (if tr_success tr then tr_output tr else pre @ tr_error tr)"

text \<open>The \<open>for\<close> loop over the round numbers that are left.\<close>

fun react_loop :: "'w react_env \<Rightarrow> real \<Rightarrow> string \<Rightarrow> nat list \<Rightarrow> agent_step list \<Rightarrow> int \<Rightarrow> buffer_memory \<Rightarrow> 'w
    \<Rightarrow> agent_result \<times> buffer_memory \<times> 'w" where
  "react_loop env timeout query [] steps toks mem w =
     (react_result (last_thought steps) AG_COMPLETED steps toks [] True, mem, w)"
| "react_loop env timeout query (k # ks) steps toks mem w =
     (if rv_elapsed env k > timeout
      then (react_result [] AG_TIMEOUT steps toks ''Execution timed out'' False, mem, w)
      else (let (resp, w1) = rv_gen env (build_prompt (rv_tools env) query steps) w;
                toks1 = (case resp of Some (t, n) \<Rightarrow> toks + n | None \<Rightarrow> toks);
                thought = (case resp of Some (t, n) \<Rightarrow> t | None \<Rightarrow> stub_think (rv_names env) query steps);
                steps1 = steps @ [plain_step k THOUGHT thought]
            in case parse_response (rv_loads env) thought of
                 PFinal a \<Rightarrow>
                   (react_result a AG_COMPLETED (steps1 @ [plain_step k FINAL a]) toks1 [] False, bm_add ASSISTANT a mem, w1)
               | PAction tool inp \<Rightarrow>
                   (let steps2 = steps1 @ [(plain_step k ACTION (''Using tool: '' @ tool))\<lparr>as_tool_name := tool, as_tool_input := Some inp\<rparr>]
                    in case rv_run env tool inp w1 of
                         (Inl e, w2) \<Rightarrow> (react_result [] AG_FAILED steps2 toks1 e False, mem, w2)
                       | (Inr tr, w2) \<Rightarrow>
                           (let obs = observation_text ''Error: '' tr
                            in react_loop env timeout query ks
                                 (steps2 @ [(plain_step k OBSERVATION obs)\<lparr>as_tool_name := tool, as_tool_output := obs\<rparr>]) toks1
                                 (bm_add TOOL (''['' @ tool @ ''] '' @ obs) mem) w2))
               | PThought _ \<Rightarrow> react_loop env timeout query ks steps1 toks1 mem w1))"

definition react_execute :: "'w react_env \<Rightarrow> string \<Rightarrow> react_engine \<Rightarrow> 'w \<Rightarrow> agent_result \<times> react_engine \<times> 'w" where
  "react_execute env query e w =
     (if re_state e = AG_RUNNING then (react_result [] AG_FAILED [] 0 ''Engine is already running'' False, e, w)
      else (case react_loop env (ac_timeout (re_config e)) query [1..<nat (ac_max_steps (re_config e)) + 1] [] 0
                  (bm_add USER query (re_memory e)) w of
              (r, mem, w') \<Rightarrow> (r, e\<lparr>re_memory := mem, re_state := ar_state r\<rparr>, w')))"

definition react_is_ready :: "react_engine \<Rightarrow> bool" where
  "react_is_ready e \<longleftrightarrow> re_state e = IDLE"

definition react_reset :: "react_engine \<Rightarrow> react_engine" where
  "react_reset e = e\<lparr>re_state := IDLE, re_memory := bm_clear (re_memory e)\<rparr>"

section \<open>Pipeline engine\<close>

record pipeline_step =
  ps_tool_name :: string
  ps_inputs :: "(string, json) dict"
  ps_description :: string
  ps_on_error :: string
  ps_max_retries :: int

text \<open>Merged inputs: the static ones, the previous output when there is one, and the query unless it is set.\<close>

definition merge_inputs :: "(string, json) dict \<Rightarrow> string \<Rightarrow> string \<Rightarrow> (string, json) dict" where
  "merge_inputs inputs prev query =
     (let d = (if prev \<noteq> [] then AList.update ''prev_output'' (JStr prev) inputs else inputs)
      in if dict_has d ''query'' then d else AList.update ''query'' (JStr query) d)"

datatype pipeline_error = ToolRaised string | NoResult

text \<open>The retry loop with the attempts that are left; it has no result when there is no attempt at all.\<close>

fun try_tool :: "('w \<Rightarrow> (string, tool_result) res \<times> 'w) \<Rightarrow> bool \<Rightarrow> nat \<Rightarrow> 'w \<Rightarrow> (pipeline_error, tool_result) res \<times> 'w" where
  "try_tool call retry 0 w = (Inl NoResult, w)"
| "try_tool call retry (Suc n) w =
     (case call w of
        (Inl e, w1) \<Rightarrow> (Inl (ToolRaised e), w1)
      | (Inr tr, w1) \<Rightarrow> if tr_success tr \<or> \<not> retry \<or> n = 0 then (Inr tr, w1) else try_tool call retry n w1)"

definition attempts :: "pipeline_step \<Rightarrow> nat" where
  "attempts ps = (if ps_on_error ps = ''retry'' then nat (ps_max_retries ps) else 1)"

fun pipeline_loop :: "(string \<Rightarrow> json \<Rightarrow> 'w \<Rightarrow> (string, tool_result) res \<times> 'w) \<Rightarrow> string \<Rightarrow> pipeline_step list \<Rightarrow> agent_step list
    \<Rightarrow> string list \<Rightarrow> string \<Rightarrow> 'w \<Rightarrow> (pipeline_error, agent_step list \<times> string list \<times> string option) res \<times> 'w" where
  "pipeline_loop run query [] tr outs prev w = (Inr (tr, outs, None), w)"
| "pipeline_loop run query (ps # pss) tr outs prev w =
     (let inputs = merge_inputs (ps_inputs ps) prev query;
          k = length tr + 1;
          act = (plain_step k ACTION (if ps_description ps \<noteq> [] then ps_description ps
                   else ''Calling tool '' @ squote (ps_tool_name ps)))\<lparr>as_tool_name := ps_tool_name ps, as_tool_input := Some (JObj inputs)\<rparr>
      in case try_tool (run (ps_tool_name ps) (JObj inputs)) (ps_on_error ps = ''retry'') (attempts ps) w of
           (Inl e, w1) \<Rightarrow> (Inl e, w1)
         | (Inr res, w1) \<Rightarrow>
             (let obs = (plain_step (k + 1) OBSERVATION (observation_text ''ERROR: '' res))
                          \<lparr>as_tool_name := ps_tool_name ps, as_tool_output := tr_output res\<rparr>;
                  tr1 = tr @ [act, obs]
              in if tr_success res then pipeline_loop run query pss tr1 (outs @ [tr_output res]) (tr_output res) w1
                 else if ps_on_error ps = ''skip'' then pipeline_loop run query pss tr1 outs [] w1
                 else (Inr (tr1, outs, Some (''Step '' @ squote (ps_tool_name ps) @ '' failed: '' @ tr_error res)), w1)))"

record pipeline_engine =
  pe_steps :: "pipeline_step list"
  pe_state :: agent_state

definition pe_add_step :: "pipeline_step \<Rightarrow> pipeline_engine \<Rightarrow> pipeline_engine" where
  "pe_add_step ps e = e\<lparr>pe_steps := pe_steps e @ [ps]\<rparr>"

definition pe_clear_steps :: "pipeline_engine \<Rightarrow> pipeline_engine" where
  "pe_clear_steps e = e\<lparr>pe_steps := []\<rparr>"

definition pe_is_ready :: "pipeline_engine \<Rightarrow> bool" where
  "pe_is_ready e \<longleftrightarrow> 0 < length (pe_steps e)"

definition pe_reset :: "pipeline_engine \<Rightarrow> pipeline_engine" where
  "pe_reset e = e\<lparr>pe_state := IDLE\<rparr>"

text \<open>An exception leaves the engine in the running state.\<close>

definition pipeline_execute :: "(string \<Rightarrow> json \<Rightarrow> 'w \<Rightarrow> (string, tool_result) res \<times> 'w) \<Rightarrow> string \<Rightarrow> pipeline_engine \<Rightarrow> 'w
    \<Rightarrow> (pipeline_error, agent_result) res \<times> pipeline_engine \<times> 'w" where
  "pipeline_execute run query e w =
     (if \<not> pe_is_ready e then (Inr (react_result [] AG_FAILED [] 0 ''Pipeline has no steps defined.'' False), e, w)
      else (case pipeline_loop run query (pe_steps e) [] [] [] w of
              (Inl x, w1) \<Rightarrow> (Inl x, e\<lparr>pe_state := AG_RUNNING\<rparr>, w1)
            | (Inr (tr, outs, Some err), w1) \<Rightarrow>
                (Inr (react_result [] AG_FAILED (tr @ [plain_step (length tr + 1) FINAL err]) 0 err False), e\<lparr>pe_state := AG_FAILED\<rparr>, w1)
            | (Inr (tr, outs, None), w1) \<Rightarrow>
                (let ans = join_with nl outs
                 in (Inr (react_result ans AG_COMPLETED (tr @ [plain_step (length tr + 1) FINAL ans]) 0 [] False),
                     e\<lparr>pe_state := AG_COMPLETED\<rparr>, w1))))"

section \<open>Batch engine\<close>

definition run_single :: "(string \<Rightarrow> json \<Rightarrow> 'w \<Rightarrow> (string, tool_result) res \<times> 'w) \<Rightarrow> string \<Rightarrow> string \<Rightarrow> (string, json) dict \<Rightarrow> nat \<Rightarrow> 'w
    \<Rightarrow> (string, agent_result) res \<times> 'w" where
  "run_single run tool query inputs idx w =
     (if tool = [] then (Inr (react_result [] AG_FAILED [] 0 ''No tool_name configured for BatchEngine.'' False), w)
      else (let kw = JObj (AList.update ''query'' (JStr query) inputs);
                act = (plain_step 1 ACTION (''Batch item '' @ nat_str idx @ '': calling tool '' @ squote tool))
                        \<lparr>as_tool_name := tool, as_tool_input := Some kw\<rparr>
            in case run tool kw w of
                 (Inl e, w1) \<Rightarrow> (Inl e, w1)
               | (Inr tr, w1) \<Rightarrow>
                   (let obs = (plain_step 2 OBSERVATION (observation_text ''ERROR: '' tr))\<lparr>as_tool_name := tool, as_tool_output := tr_output tr\<rparr>
                    in if tr_success tr
                       then (Inr (react_result (tr_output tr) AG_COMPLETED [act, obs, plain_step 3 FINAL (tr_output tr)] 0 [] False), w1)
                       else (Inr (react_result [] AG_FAILED [act, obs, plain_step 3 FINAL (''Failed: '' @ tr_error tr)] 0 (tr_error tr) False), w1))))"

record batch_result =
  br_items :: "agent_result list"
  br_success_count :: int
  br_failure_count :: int

fun batch_loop :: "(string \<Rightarrow> json \<Rightarrow> 'w \<Rightarrow> (string, tool_result) res \<times> 'w) \<Rightarrow> string \<Rightarrow> (string \<times> (string, json) dict) list \<Rightarrow> nat
    \<Rightarrow> batch_result \<Rightarrow> 'w \<Rightarrow> (string, batch_result) res \<times> 'w" where
  "batch_loop run tool [] idx b w = (Inr b, w)"
| "batch_loop run tool ((q, kw) # xs) idx b w =
     (case run_single run tool q kw idx w of
        (Inl e, w1) \<Rightarrow> (Inl e, w1)
      | (Inr r, w1) \<Rightarrow>
          batch_loop run tool xs (idx + 1)
            (if ar_state r = AG_COMPLETED
             then b\<lparr>br_items := br_items b @ [r], br_success_count := br_success_count b + 1\<rparr>
             else b\<lparr>br_items := br_items b @ [r], br_failure_count := br_failure_count b + 1\<rparr>) w1)"

definition execute_batch :: "(string \<Rightarrow> json \<Rightarrow> 'w \<Rightarrow> (string, tool_result) res \<times> 'w) \<Rightarrow> string \<Rightarrow> string list
    \<Rightarrow> (string, json) dict list option \<Rightarrow> 'w \<Rightarrow> (string, batch_result) res \<times> 'w" where
  "execute_batch run tool queries inputs w =
     batch_loop run tool (zip queries (case inputs of None \<Rightarrow> map (\<lambda>_. []) queries | Some xs \<Rightarrow> xs)) 0
       \<lparr>br_items = [], br_success_count = 0, br_failure_count = 0\<rparr> w"

definition success_rate :: "batch_result \<Rightarrow> real" where
  "success_rate b = (if br_items b = [] then 0 else real_of_int (br_success_count b) / real (length (br_items b)))"

section \<open>Traces of the ReAct loop\<close>

text \<open>
  What one run may add to the trace when the rounds \<open>ks\<close> are left, and how it may end: a round is a thought, a thought with
  an action and its observation, a final answer, or an action whose tool raised.
\<close>

inductive react_trace :: "nat list \<Rightarrow> agent_step list \<Rightarrow> agent_state \<Rightarrow> bool" where
  timed_out: "react_trace ks [] AG_TIMEOUT"
| exhausted: "react_trace [] [] AG_COMPLETED"
| thinks: "as_type t = THOUGHT \<Longrightarrow> as_number t = k \<Longrightarrow> react_trace ks tr st \<Longrightarrow> react_trace (k # ks) (t # tr) st"
| acts: "map as_type [t, a, b] = [THOUGHT, ACTION, OBSERVATION] \<Longrightarrow> map as_number [t, a, b] = [k, k, k]
    \<Longrightarrow> react_trace ks tr st \<Longrightarrow> react_trace (k # ks) (t # a # b # tr) st"
| answers: "map as_type [t, f] = [THOUGHT, FINAL] \<Longrightarrow> map as_number [t, f] = [k, k] \<Longrightarrow> react_trace (k # ks) [t, f] AG_COMPLETED"
| raises: "map as_type [t, a] = [THOUGHT, ACTION] \<Longrightarrow> map as_number [t, a] = [k, k] \<Longrightarrow> react_trace (k # ks) [t, a] AG_FAILED"

lemma plain_step_simps [simp]:
  "as_number (plain_step k ty c) = k" "as_type (plain_step k ty c) = ty" "as_content (plain_step k ty c) = c"
  by (simp_all add: plain_step_def)

lemma react_result_simps [simp]:
  "ar_state (react_result a st tr n e m) = st" "ar_steps (react_result a st tr n e m) = tr"
  "ar_answer (react_result a st tr n e m) = a" "ar_error (react_result a st tr n e m) = e"
  by (simp_all add: react_result_def)

lemma react_loop_trace:
  "\<exists>tr. ar_steps (fst (react_loop env to q ks steps toks mem w)) = steps @ tr
    \<and> react_trace ks tr (ar_state (fst (react_loop env to q ks steps toks mem w)))
    \<and> (ar_state (fst (react_loop env to q ks steps toks mem w)) = AG_FAILED \<longrightarrow>
        (\<exists>a inp w0 e w1. last tr = a \<and> as_tool_input a = Some inp \<and> tr \<noteq> []
          \<and> rv_run env (as_tool_name a) inp w0 = (Inl e, w1)))"
proof (induction ks arbitrary: steps toks mem w)
  case Nil
  show ?case by (intro exI [of _ "[]"]) (simp add: react_trace.exhausted)
next
  case (Cons k ks)
  show ?case
  proof (cases "rv_elapsed env k > to")
    case True
    then show ?thesis by (intro exI [of _ "[]"]) (simp add: react_trace.timed_out)
  next
    case False
    obtain resp w1 where g: "rv_gen env (build_prompt (rv_tools env) q steps) w = (resp, w1)" by fastforce
    let ?toks = "case resp of Some (t, n) \<Rightarrow> toks + n | None \<Rightarrow> toks"
    let ?th = "case resp of Some (t, n) \<Rightarrow> t | None \<Rightarrow> stub_think (rv_names env) q steps"
    let ?t = "plain_step k THOUGHT ?th"
    show ?thesis
    proof (cases "parse_response (rv_loads env) ?th")
      case (PFinal a)
      with False g show ?thesis
        by (intro exI [of _ "[?t, plain_step k FINAL a]"]) (simp add: react_trace.answers)
    next
      case (PThought x)
      from Cons.IH [of "steps @ [?t]" ?toks mem w1] obtain tr where
        "ar_steps (fst (react_loop env to q ks (steps @ [?t]) ?toks mem w1)) = (steps @ [?t]) @ tr"
        "react_trace ks tr (ar_state (fst (react_loop env to q ks (steps @ [?t]) ?toks mem w1)))"
        "ar_state (fst (react_loop env to q ks (steps @ [?t]) ?toks mem w1)) = AG_FAILED \<longrightarrow>
          (\<exists>a inp w0 e w1. last tr = a \<and> as_tool_input a = Some inp \<and> tr \<noteq> [] \<and> rv_run env (as_tool_name a) inp w0 = (Inl e, w1))"
        by blast
      with False g PThought show ?thesis
        by (intro exI [of _ "?t # tr"]) (auto intro: react_trace.thinks)
    next
      case (PAction tool inp)
      let ?a = "(plain_step k ACTION (''Using tool: '' @ tool))\<lparr>as_tool_name := tool, as_tool_input := Some inp\<rparr>"
      obtain res w2 where r: "rv_run env tool inp w1 = (res, w2)" by fastforce
      show ?thesis
      proof (cases res)
        case (Inl e)
        with r have "rv_run env (as_tool_name ?a) inp w1 = (Inl e, w2)" by simp
        with False g PAction Inl r show ?thesis
          by (intro exI [of _ "[?t, ?a]"]) (auto intro!: react_trace.raises simp: plain_step_def)
      next
        case (Inr x)
        let ?o = "(plain_step k OBSERVATION (observation_text ''Error: '' x))\<lparr>as_tool_name := tool, as_tool_output := observation_text ''Error: '' x\<rparr>"
        let ?loop = "react_loop env to q ks (steps @ [?t, ?a, ?o]) ?toks (bm_add TOOL (''['' @ tool @ ''] '' @ observation_text ''Error: '' x) mem) w2"
        from Cons.IH [of "steps @ [?t, ?a, ?o]" ?toks "bm_add TOOL (''['' @ tool @ ''] '' @ observation_text ''Error: '' x) mem" w2] obtain tr where
          "ar_steps (fst ?loop) = (steps @ [?t, ?a, ?o]) @ tr" "react_trace ks tr (ar_state (fst ?loop))"
          "ar_state (fst ?loop) = AG_FAILED \<longrightarrow>
            (\<exists>a inp w0 e w1. last tr = a \<and> as_tool_input a = Some inp \<and> tr \<noteq> [] \<and> rv_run env (as_tool_name a) inp w0 = (Inl e, w1))"
          by blast
        moreover have "react_loop env to q (k # ks) steps toks mem w = ?loop" using False g PAction Inr r by (simp add: Let_def)
        moreover have "react_trace (k # ks) (?t # ?a # ?o # tr) (ar_state (fst ?loop))"
          using calculation(2) by (intro react_trace.acts) (simp_all add: plain_step_def)
        ultimately show ?thesis by (intro exI [of _ "?t # ?a # ?o # tr"]) auto
      qed
    qed
  qed
qed

text \<open>Every trace of that shape is short and numbered by its rounds.\<close>

lemma react_trace_bounds:
  assumes "react_trace ks tr st"
  shows "length tr \<le> 3 * length ks \<and> set (map as_number tr) \<subseteq> set ks \<and> st \<in> {AG_COMPLETED, AG_FAILED, AG_TIMEOUT}
    \<and> (sorted ks \<longrightarrow> sorted (map as_number tr))"
  using assms
proof (induction rule: react_trace.induct)
  case (acts t a b k ks tr st)
  then have "sorted (map as_number (t # a # b # tr))" if "sorted (k # ks)" using that by fastforce
  with acts show ?case by auto
next
  case (thinks t k ks tr st)
  then have "sorted (map as_number (t # tr))" if "sorted (k # ks)" using that by fastforce
  with thinks show ?case by auto
qed auto

lemma react_execute_trace:
  assumes "react_execute env q e w = (r, e', w')" "re_state e \<noteq> AG_RUNNING"
  shows "re_state e' = ar_state r \<and> react_trace [1..<nat (ac_max_steps (re_config e)) + 1] (ar_steps r) (ar_state r)"
    and "ar_state r = AG_FAILED \<Longrightarrow>
      ar_steps r \<noteq> [] \<and> (\<exists>inp w0 x w1. as_tool_input (last (ar_steps r)) = Some inp
        \<and> rv_run env (as_tool_name (last (ar_steps r))) inp w0 = (Inl x, w1))"
proof -
  let ?ks = "[1..<nat (ac_max_steps (re_config e)) + 1]"
  let ?out = "react_loop env (ac_timeout (re_config e)) q ?ks [] 0 (bm_add USER q (re_memory e)) w"
  from assms have r: "r = fst ?out" "re_state e' = ar_state r" unfolding react_execute_def by (auto split: prod.splits)
  obtain tr where "ar_steps (fst ?out) = [] @ tr" "react_trace ?ks tr (ar_state (fst ?out))"
    and f: "ar_state (fst ?out) = AG_FAILED \<longrightarrow>
      (\<exists>a inp w0 x w1. last tr = a \<and> as_tool_input a = Some inp \<and> tr \<noteq> [] \<and> rv_run env (as_tool_name a) inp w0 = (Inl x, w1))"
    using react_loop_trace [of env "ac_timeout (re_config e)" q ?ks "[]" 0 "bm_add USER q (re_memory e)" w] by (elim exE conjE)
  with r have tr: "ar_steps r = tr" "react_trace ?ks tr (ar_state r)" by simp_all
  with r show "re_state e' = ar_state r \<and> react_trace ?ks (ar_steps r) (ar_state r)" by simp
  show "ar_steps r \<noteq> [] \<and> (\<exists>inp w0 x w1. as_tool_input (last (ar_steps r)) = Some inp
      \<and> rv_run env (as_tool_name (last (ar_steps r))) inp w0 = (Inl x, w1))" if "ar_state r = AG_FAILED"
  proof -
    from f that obtain inp w0 x w1 where "tr \<noteq> []" "as_tool_input (last tr) = Some inp" "rv_run env (as_tool_name (last tr)) inp w0 = (Inl x, w1)"
      unfolding r(1) [symmetric] by blast
    then show ?thesis unfolding tr(1) by blast
  qed
qed

section \<open>Engines over a tool runner\<close>

text \<open>
  The body of a pipeline trace for the steps \<open>pss\<close>: one action and one observation per step, numbered from \<open>k\<close>, each
  action called on its static inputs, the query and the output recorded by the observation before it.
\<close>

definition step_inputs :: "pipeline_step \<Rightarrow> string \<Rightarrow> string \<Rightarrow> string \<Rightarrow> json option" where
  "step_inputs ps prev q k =
     (if k = ''prev_output'' \<and> prev \<noteq> [] then Some (JStr prev)
      else case map_of (ps_inputs ps) k of
             Some v \<Rightarrow> Some v
           | None \<Rightarrow> if k = ''query'' then Some (JStr q) else None)"

lemma merge_inputs_lookup: "map_of (merge_inputs (ps_inputs ps) prev q) = step_inputs ps prev q"
  by (auto simp: fun_eq_iff merge_inputs_def step_inputs_def Let_def dict_simps dict_has_map_of split: option.splits)

fun chained :: "string \<Rightarrow> string \<Rightarrow> nat \<Rightarrow> pipeline_step list \<Rightarrow> agent_step list \<Rightarrow> bool" where
  "chained q prev k pss [] = True"
| "chained q prev k (ps # pss) (a # b # tr) =
     ([as_type a, as_type b] = [ACTION, OBSERVATION] \<and> [as_number a, as_number b] = [k, k + 1]
      \<and> [as_tool_name a, as_tool_name b] = [ps_tool_name ps, ps_tool_name ps]
      \<and> (\<exists>d. as_tool_input a = Some (JObj d) \<and> map_of d = step_inputs ps prev q)
      \<and> chained q (as_tool_output b) (k + 2) pss tr)"
| "chained q prev k _ _ = False"

definition completed :: "agent_result list \<Rightarrow> nat" where
  "completed rs = length (filter (\<lambda>r. ar_state r = AG_COMPLETED) rs)"

definition retries_ok :: "pipeline_step list \<Rightarrow> bool" where
  "retries_ok pss \<longleftrightarrow> (\<forall>ps \<in> set pss. 0 < attempts ps)"

context tool_runner
begin

lemma try_tool_total:
  assumes "ok r" "0 < n"
  shows "\<exists>tr w1. try_tool (run r t (JObj d)) retry n w = (Inr tr, w1) \<and> tr_tool_name tr = t \<and> (\<not> tr_success tr \<longrightarrow> tr_output tr = [])"
  using assms(2)
proof (induction n arbitrary: w)
  case (Suc n)
  from run_object [OF assms(1)] obtain tr w1 where c: "run r t (JObj d) w = (Inr tr, w1)" by blast
  show ?case
  proof (cases "tr_success tr \<or> \<not> retry \<or> n = 0")
    case True
    with c run_name [OF c] run_failure [OF c] show ?thesis by simp
  next
    case False
    with c Suc.IH [of w1] show ?thesis by simp
  qed
qed simp

lemma pipeline_loop_chained:
  assumes "ok r" "retries_ok pss"
  shows "\<exists>tr' outs' err w1. pipeline_loop (run r) q pss tr outs prev w = (Inr (tr @ tr', outs', err), w1)
    \<and> chained q prev (length tr + 1) pss tr'
    \<and> (err = None \<longrightarrow> length tr' = 2 * length pss)
    \<and> (err \<noteq> None \<longrightarrow> tr' \<noteq> [] \<and> length tr' \<le> 2 * length pss \<and> ps_on_error (pss ! (length tr' div 2 - 1)) \<noteq> ''skip'')"
  using assms(2)
proof (induction pss arbitrary: tr outs prev w)
  case (Cons ps pss)
  let ?in = "merge_inputs (ps_inputs ps) prev q"
  have "0 < attempts ps" and ok': "retries_ok pss" using Cons.prems by (auto simp: retries_ok_def)
  from try_tool_total [OF assms(1) this(1), of "ps_tool_name ps" ?in "ps_on_error ps = ''retry''" w] obtain res w1
    where c: "try_tool (run r (ps_tool_name ps) (JObj ?in)) (ps_on_error ps = ''retry'') (attempts ps) w = (Inr res, w1)"
      and out: "\<not> tr_success res \<longrightarrow> tr_output res = []" by blast
  obtain a b where ab: "chained q prev (length tr + 1) (ps # pss) [a, b]" "as_tool_output b = tr_output res"
    and step: "pipeline_loop (run r) q (ps # pss) tr outs prev w =
        (if tr_success res then pipeline_loop (run r) q pss (tr @ [a, b]) (outs @ [tr_output res]) (tr_output res) w1
         else if ps_on_error ps = ''skip'' then pipeline_loop (run r) q pss (tr @ [a, b]) outs [] w1
         else (Inr (tr @ [a, b], outs, Some (''Step '' @ squote (ps_tool_name ps) @ '' failed: '' @ tr_error res)), w1))"
    by (rule that) (simp_all add: c Let_def plain_step_def merge_inputs_lookup)
  show ?case
  proof (cases "tr_success res \<or> ps_on_error ps = ''skip''")
    case True
    then obtain outs1 where "pipeline_loop (run r) q (ps # pss) tr outs prev w = pipeline_loop (run r) q pss (tr @ [a, b]) outs1 (tr_output res) w1"
      using step out by (metis (no_types, lifting))
    moreover from Cons.IH [OF ok', of "tr @ [a, b]" outs1 "tr_output res" w1] obtain tr' outs' err w2 where
      IH: "pipeline_loop (run r) q pss (tr @ [a, b]) outs1 (tr_output res) w1 = (Inr ((tr @ [a, b]) @ tr', outs', err), w2)"
      "chained q (tr_output res) (Suc (Suc (Suc (length tr)))) pss tr'" "err = None \<longrightarrow> length tr' = 2 * length pss"
      "err \<noteq> None \<longrightarrow> tr' \<noteq> [] \<and> length tr' \<le> 2 * length pss \<and> ps_on_error (pss ! (length tr' div 2 - 1)) \<noteq> ''skip''"
      by auto
    moreover have "err \<noteq> None \<longrightarrow> ps_on_error ((ps # pss) ! (length (a # b # tr') div 2 - 1)) \<noteq> ''skip''"
    proof
      assume e: "err \<noteq> None"
      with IH(2,4) obtain x y ys where "tr' = x # y # ys" by (cases "(q, tr_output res, Suc (Suc (Suc (length tr))), pss, tr')" rule: chained.cases) auto
      with e IH(4) show "ps_on_error ((ps # pss) ! (length (a # b # tr') div 2 - 1)) \<noteq> ''skip''" by simp
    qed
    ultimately show ?thesis using ab
      by (intro exI [of _ "a # b # tr'"] exI [of _ outs'] exI [of _ err] exI [of _ w2]) auto
  next
    case False
    with step ab show ?thesis by (intro exI [of _ "[a, b]"]) auto
  qed
qed simp

lemma run_single_total:
  assumes "ok r"
  shows "\<exists>ar w1. run_single (run r) t q kw i w = (Inr ar, w1) \<and> ar_state ar \<in> {AG_COMPLETED, AG_FAILED}
    \<and> (ar_state ar = AG_COMPLETED \<longrightarrow> known r t)"
proof (cases "t = []")
  case False
  from run_object [OF assms, of t "AList.update ''query'' (JStr q) kw" w] obtain tr w1
    where c: "run r t (JObj (AList.update ''query'' (JStr q) kw)) w = (Inr tr, w1)" by blast
  with False run_success [OF c] show ?thesis by (simp add: run_single_def Let_def)
qed (simp add: run_single_def)

lemma batch_loop_total:
  assumes "ok r"
  shows "\<exists>rs w1. batch_loop (run r) t xs i b w =
      (Inr \<lparr>br_items = br_items b @ rs, br_success_count = br_success_count b + int (completed rs),
            br_failure_count = br_failure_count b + int (length rs - completed rs)\<rparr>, w1)
    \<and> length rs = length xs \<and> (\<forall>ar \<in> set rs. ar_state ar \<in> {AG_COMPLETED, AG_FAILED})
    \<and> (\<not> known r t \<longrightarrow> completed rs = 0)"
proof (induction xs arbitrary: i b w)
  case Nil
  show ?case by (intro exI [of _ "[]"]) (simp add: completed_def)
next
  case (Cons x xs)
  obtain q kw where x: "x = (q, kw)" by fastforce
  from run_single_total [OF assms, of t q kw i w] obtain ar w1
    where s: "run_single (run r) t q kw i w = (Inr ar, w1)" and st: "ar_state ar \<in> {AG_COMPLETED, AG_FAILED}"
      and kn: "ar_state ar = AG_COMPLETED \<longrightarrow> known r t" by blast
  let ?b = "if ar_state ar = AG_COMPLETED
     then b\<lparr>br_items := br_items b @ [ar], br_success_count := br_success_count b + 1\<rparr>
     else b\<lparr>br_items := br_items b @ [ar], br_failure_count := br_failure_count b + 1\<rparr>"
  from Cons.IH [of "i + 1" ?b w1] obtain rs w2 where
    "batch_loop (run r) t xs (i + 1) ?b w1 =
      (Inr \<lparr>br_items = br_items ?b @ rs, br_success_count = br_success_count ?b + int (completed rs),
            br_failure_count = br_failure_count ?b + int (length rs - completed rs)\<rparr>, w2)"
    "length rs = length xs" "\<forall>ar \<in> set rs. ar_state ar \<in> {AG_COMPLETED, AG_FAILED}" "\<not> known r t \<longrightarrow> completed rs = 0"
    by blast
  moreover have "completed rs \<le> length rs" by (simp add: completed_def)
  ultimately show ?case using s st kn
    by (intro exI [of _ "ar # rs"] exI [of _ w2]) (auto simp: x completed_def)
qed

end

section \<open>The engines on the tool registry\<close>

text \<open>A registry with one tool, and a language model that calls it with a number.\<close>

definition agent_registry :: "unit tool_registry" where
  "agent_registry = tg_register \<lparr>td_name = ''echo'', td_description = ''repeats'', td_required_params = [''query''],
       td_category = ''general'', td_is_dangerous = False\<rparr>
     (\<lambda>kw w. (case map_of kw ''query'' of Some (JStr s) \<Rightarrow> Inr s | _ \<Rightarrow> Inl ''not a text'', w)) tg_init"

definition sample_errors :: py_errors where
  "sample_errors = \<lparr>pe_not_container = (\<lambda>_. ''argument is not iterable''), pe_not_mapping = (\<lambda>_. ''argument must be a mapping'')\<rparr>"

definition agent_env :: "unit react_env" where
  "agent_env = \<lparr>rv_run = tool_execute sample_errors agent_registry, rv_names = [''echo''], rv_tools = [],
     rv_gen = (\<lambda>p w. (Some (''ACTION: echo'' @ nl @ ''INPUT: 5'', 7), w)),
     rv_loads = (\<lambda>s. if s = ''5'' then Some (JNum 5) else None), rv_elapsed = (\<lambda>_. 0)\<rparr>"

definition sample_engine :: react_engine where
  "sample_engine = \<lparr>re_config = \<lparr>ac_max_steps = 10, ac_timeout = 120\<rparr>, re_memory = bm_init 100, re_state = IDLE\<rparr>"

lemma agent_registry_ok: "tg_ok agent_registry"
  by (simp add: agent_registry_def tg_ok_ops)

text \<open>C17. A ReAct run always ends: an idle engine returns completed, failed or timed out and takes over that state, after at
  most three steps for each of the \<open>max_steps\<close> rounds, numbered in order by their rounds.  On the model of the tool
  registry it fails only when the last step is an action whose input, as read from the model's answer, is not a JSON object.\<close>

theorem react_always_returns:
  assumes "react_execute env q e w = (r, e', w')" "re_state e \<noteq> AG_RUNNING" "rv_run env = tool_execute pe reg" "tg_ok reg"
  shows "re_state e' = ar_state r \<and> ar_state r \<in> {AG_COMPLETED, AG_FAILED, AG_TIMEOUT}
    \<and> length (ar_steps r) \<le> 3 * nat (ac_max_steps (re_config e))
    \<and> sorted (map as_number (ar_steps r)) \<and> set (map as_number (ar_steps r)) \<subseteq> {1..nat (ac_max_steps (re_config e))}
    \<and> (ar_state r = AG_FAILED \<longrightarrow> ar_steps r \<noteq> [] \<and> (\<exists>inp. as_tool_input (last (ar_steps r)) = Some inp \<and> (\<forall>d. inp \<noteq> JObj d)))"
proof -
  note tr = react_execute_trace [OF assms(1,2)]
  have "\<forall>d. inp \<noteq> JObj d" if "tool_execute pe reg n inp w0 = (Inl x, w1)" for n inp w0 x w1
    using that tools.run_object [OF assms(4)] by (metis Inl_Inr_False prod.inject)
  with tr(2) assms(3) have "ar_state r = AG_FAILED \<longrightarrow>
      ar_steps r \<noteq> [] \<and> (\<exists>inp. as_tool_input (last (ar_steps r)) = Some inp \<and> (\<forall>d. inp \<noteq> JObj d))" by metis
  moreover have "set [1..<nat (ac_max_steps (re_config e)) + 1] = {1..nat (ac_max_steps (re_config e))}" by auto
  ultimately show ?thesis using tr(1) react_trace_bounds [OF conjunct2 [OF tr(1)]]
    by (simp del: upt_Suc add: sorted_upt)
qed

lemma sample_run_fails: "ar_state (fst (react_execute agent_env ''hi'' sample_engine ())) = AG_FAILED"
  by code_simp

theorem react_always_returns_witness:
  "ar_state (fst (react_execute agent_env ''hi'' sample_engine ())) = AG_FAILED
   \<and> (\<exists>inp. as_tool_input (last (ar_steps (fst (react_execute agent_env ''hi'' sample_engine ())))) = Some inp \<and> (\<forall>d. inp \<noteq> JObj d))
   \<and> length (ar_steps (fst (react_execute agent_env ''hi'' sample_engine ()))) \<le> 30"
proof -
  obtain r e' w' where x: "react_execute agent_env ''hi'' sample_engine () = (r, e', w')" by (cases "react_execute agent_env ''hi'' sample_engine ()") auto
  have "ar_state r = AG_FAILED" using sample_run_fails unfolding x by simp
  with react_always_returns [OF x _ _ agent_registry_ok, of sample_errors] show ?thesis
    unfolding x by (simp add: agent_env_def sample_engine_def)
qed


definition agent_pipeline :: pipeline_engine where
  "agent_pipeline = \<lparr>pe_steps =
     [\<lparr>ps_tool_name = ''echo'', ps_inputs = [], ps_description = [], ps_on_error = ''stop'', ps_max_retries = 1\<rparr>,
      \<lparr>ps_tool_name = ''missing'', ps_inputs = [], ps_description = [], ps_on_error = ''retry'', ps_max_retries = 2\<rparr>],
     pe_state = IDLE\<rparr>"


text \<open>The second tool is unknown: the sample run fails after both steps.\<close>

lemma agent_pipeline_fails:
  "map_sum (\<lambda>_. ()) (\<lambda>ar. (ar_state ar, map as_number (ar_steps ar), map as_tool_output (ar_steps ar), ar_error ar))
     (fst (pipeline_execute (tool_execute sample_errors agent_registry) ''hi'' agent_pipeline ())) =
   Inr (AG_FAILED, [1, 2, 3, 4, 5], [[], ''hi'', [], [], []], ''Step '' @ squote ''missing'' @ '' failed: Unknown tool: missing'')"
  by code_simp

text \<open>A retrying step that allows no attempt raises, and the engine stays in the running state.\<close>

lemma no_attempt_raises:
  assumes "pe_steps e = ps # pss" "ps_on_error ps = ''retry''" "ps_max_retries ps \<le> 0"
  shows "pipeline_execute run q e w = (Inl NoResult, e\<lparr>pe_state := AG_RUNNING\<rparr>, w)"
  using assms by (simp add: pipeline_execute_def pe_is_ready_def attempts_def Let_def)

text \<open>A batch never stops early on the model of the tool registry: it has one result per pair of a query and its inputs, each
  completed or failed, the counters are the numbers of completed and of failed results, and the success rate is their
  quotient, between zero and one.  An unknown tool fails every item.\<close>

theorem batch_accounting:
  assumes "tg_ok reg"
  shows "\<exists>b w'. execute_batch (tool_execute pe reg) tool queries inputs w = (Inr b, w')
    \<and> length (br_items b) = (case inputs of None \<Rightarrow> length queries | Some xs \<Rightarrow> min (length queries) (length xs))
    \<and> br_success_count b = int (completed (br_items b))
    \<and> br_success_count b + br_failure_count b = int (length (br_items b))
    \<and> 0 \<le> success_rate b \<and> success_rate b \<le> 1
    \<and> (\<forall>r \<in> set (br_items b). ar_state r = AG_COMPLETED \<or> ar_state r = AG_FAILED)
    \<and> (\<not> dict_has (tg_tools reg) tool \<longrightarrow> br_success_count b = 0)"
proof -
  let ?xs = "zip queries (case inputs of None \<Rightarrow> map (\<lambda>_. []) queries | Some xs \<Rightarrow> xs)"
  let ?b = "\<lparr>br_items = [], br_success_count = 0, br_failure_count = 0\<rparr>"
  from tools.batch_loop_total [OF assms, of pe tool ?xs 0 ?b w] obtain rs w1 where
    loop: "batch_loop (tool_execute pe reg) tool ?xs 0 ?b w =
      (Inr \<lparr>br_items = rs, br_success_count = int (completed rs), br_failure_count = int (length rs - completed rs)\<rparr>, w1)"
    and rs: "length rs = length ?xs" "\<forall>r \<in> set rs. ar_state r \<in> {AG_COMPLETED, AG_FAILED}"
      "\<not> dict_has (tg_tools reg) tool \<longrightarrow> completed rs = 0" by auto
  have le: "completed rs \<le> length rs" by (simp add: completed_def)
  then have "rs \<noteq> [] \<Longrightarrow> real (completed rs) / real (length rs) \<le> 1" by simp
  moreover have "int (completed rs) + int (length rs - completed rs) = int (length rs)" using le by simp
  moreover have "length ?xs = (case inputs of None \<Rightarrow> length queries | Some xs \<Rightarrow> min (length queries) (length xs))"
    by (cases inputs) auto
  ultimately show ?thesis using rs unfolding execute_batch_def loop
    by (simp add: success_rate_def del: length_zip)
qed

theorem batch_accounting_witness:
  "\<exists>b w'. execute_batch (tool_execute sample_errors agent_registry) ''echo'' [''a'', ''b'', ''c''] (Some [[], []]) () = (Inr b, w')
    \<and> length (br_items b) = 2 \<and> success_rate b \<le> 1"
  using batch_accounting [OF agent_registry_ok, of sample_errors "''echo''" "[''a'', ''b'', ''c'']" "Some [[], []]" "()"]
  by (auto simp: min_def)

end
