(* ===== verification/Repositories.thy ===== *)
theory Repositories
  imports Workflow_Executor
begin

text \<open>
  \<^verbatim>\<open>core/kg/db\<close>: the in-memory repositories for workflows, documents and executions, and the dictionaries that
  \<open>ExecutionResult.to_dict\<close> hands to them.

  A repository is its dictionary (or list), and a method returns the new one.  An execution record is an open
  dictionary, as in the code: \<open>update\<close> merges whatever it is given.  Its values are the ones the service stores, text,
  \<open>None\<close> and node results.  Time stamps of workflows and documents are clock readings, and \<open>isof\<close> renders the ones of
  executions, which are compared as text.
\<close>

section \<open>Workflows\<close>

record ('v, 'p) workflow_record =
  wr_id :: string
  wr_name :: string
  wr_description :: string
  wr_nodes :: "'v node_def list"
  wr_edges :: "edge_def list"
  wr_viewport :: 'p
  wr_created_at :: clock
  wr_updated_at :: clock

type_synonym ('v, 'p) workflow_repo = "(string, ('v, 'p) workflow_record) dict"

definition wr_create :: "clock \<Rightarrow> string \<Rightarrow> string \<Rightarrow> string \<Rightarrow> 'v node_def list \<Rightarrow> edge_def list \<Rightarrow> 'p
    \<Rightarrow> ('v, 'p) workflow_repo \<Rightarrow> ('v, 'p) workflow_record \<times> ('v, 'p) workflow_repo" where
  "wr_create now wid name desc nodes edges vp repo =
     (let w = \<lparr>wr_id = wid, wr_name = name, wr_description = desc, wr_nodes = nodes, wr_edges = edges,
               wr_viewport = vp, wr_created_at = now, wr_updated_at = now\<rparr>
      in (w, AList.update wid w repo))"

definition wr_get :: "('v, 'p) workflow_repo \<Rightarrow> string \<Rightarrow> ('v, 'p) workflow_record option" where
  "wr_get repo wid = map_of repo wid"

definition wr_list_all :: "('v, 'p) workflow_repo \<Rightarrow> ('v, 'p) workflow_record list" where
  "wr_list_all repo = map snd repo"

definition wr_update :: "clock \<Rightarrow> string \<Rightarrow> string \<Rightarrow> string \<Rightarrow> 'v node_def list \<Rightarrow> edge_def list \<Rightarrow> 'p
    \<Rightarrow> ('v, 'p) workflow_repo \<Rightarrow> ('v, 'p) workflow_record option \<times> ('v, 'p) workflow_repo" where
  "wr_update now wid name desc nodes edges vp repo =
     (case map_of repo wid of
        None \<Rightarrow> (None, repo)
      | Some existing \<Rightarrow>
          (let w = \<lparr>wr_id = wid, wr_name = name, wr_description = desc, wr_nodes = nodes, wr_edges = edges,
                    wr_viewport = vp, wr_created_at = wr_created_at existing, wr_updated_at = now\<rparr>
           in (Some w, AList.update wid w repo)))"

definition wr_delete :: "string \<Rightarrow> ('v, 'p) workflow_repo \<Rightarrow> bool \<times> ('v, 'p) workflow_repo" where
  "wr_delete wid repo = (dict_has repo wid, AList.delete wid repo)"

definition wr_clear :: "('v, 'p) workflow_repo \<Rightarrow> ('v, 'p) workflow_repo" where
  "wr_clear repo = []"

section \<open>Documents\<close>

record document_record =
  doc_id :: string
  doc_filename :: string
  doc_size :: int
  doc_content_type :: string
  doc_description :: string
  doc_status :: string
  doc_chunks :: int
  doc_created_at :: clock

definition dr_create :: "clock \<Rightarrow> string \<Rightarrow> string \<Rightarrow> int \<Rightarrow> string \<Rightarrow> string \<Rightarrow> string \<Rightarrow> int
    \<Rightarrow> document_record list \<Rightarrow> document_record \<times> document_record list" where
  "dr_create now did fname sz ctype desc st chunks docs =
     (let d = \<lparr>doc_id = did, doc_filename = fname, doc_size = sz, doc_content_type = ctype,
               doc_description = desc, doc_status = st, doc_chunks = chunks, doc_created_at = now\<rparr>
      in (d, filter (\<lambda>x. doc_id x \<noteq> did) docs @ [d]))"

definition dr_list :: "int \<Rightarrow> int \<Rightarrow> document_record list \<Rightarrow> document_record list \<times> nat" where
  "dr_list limit offset docs = (py_slice offset (offset + limit) docs, length docs)"

definition dr_delete :: "string \<Rightarrow> document_record list \<Rightarrow> bool \<times> document_record list" where
  "dr_delete did docs =
     (let docs' = filter (\<lambda>x. doc_id x \<noteq> did) docs in (length docs' < length docs, docs'))"

definition dr_clear :: "document_record list \<Rightarrow> document_record list" where
  "dr_clear docs = []"

section \<open>Executions\<close>

fun execution_status_value :: "execution_status \<Rightarrow> string" where
  "execution_status_value PENDING = ''pending''"
| "execution_status_value RUNNING = ''running''"
| "execution_status_value SUCCESS = ''success''"
| "execution_status_value ERROR = ''error''"
| "execution_status_value CANCELLED = ''cancelled''"

fun node_status_value :: "node_status \<Rightarrow> string" where
  "node_status_value NIdle = ''idle''"
| "node_status_value NRunning = ''running''"
| "node_status_value NSuccess = ''success''"
| "node_status_value NError = ''error''"
| "node_status_value NSkipped = ''skipped''"

fun trigger_type_value :: "trigger_type \<Rightarrow> string" where
  "trigger_type_value MANUAL = ''manual''"
| "trigger_type_value SCHEDULE = ''schedule''"
| "trigger_type_value WEBHOOK = ''webhook''"
| "trigger_type_value EVENT = ''event''"

datatype 'i node_val = NText string | NNone | NNum real | NItems "'i list"

type_synonym 'i node_dict = "(string, 'i node_val) dict"

datatype 'i exec_val = VText string | VNone | VNodes "(string, 'i node_dict) dict"

type_synonym 'i exec_record = "(string, 'i exec_val) dict"

definition node_result_to_dict :: "(clock \<Rightarrow> string) \<Rightarrow> 'i node_execution_result \<Rightarrow> 'i node_dict" where
  "node_result_to_dict isof nr =
     (let stamp = (\<lambda>t. case t of None \<Rightarrow> NNone | Some c \<Rightarrow> NText (isof c)) in
      [(''node_id'', NText (nr_node_id nr)), (''node_type'', NText (nr_node_type nr)),
       (''status'', NText (node_status_value (nr_status nr))), (''input_data'', NItems (nr_input_data nr)),
       (''output_data'', NItems (nr_output_data nr)), (''error_message'', NText (nr_error_message nr)),
       (''started_at'', stamp (nr_started_at nr)), (''finished_at'', stamp (nr_finished_at nr)),
       (''duration_ms'', NNum (nr_duration_ms nr))])"

definition node_results_to_dict ::
  "(clock \<Rightarrow> string) \<Rightarrow> (string, 'i node_execution_result) dict \<Rightarrow> (string, 'i node_dict) dict" where
  "node_results_to_dict isof nrs = map (\<lambda>(nid, nr). (nid, node_result_to_dict isof nr)) nrs"

definition optional_stamp :: "(clock \<Rightarrow> string) \<Rightarrow> clock option \<Rightarrow> 'i exec_val" where
  "optional_stamp isof t = (case t of None \<Rightarrow> VNone | Some c \<Rightarrow> VText (isof c))"

definition execution_to_dict :: "(clock \<Rightarrow> string) \<Rightarrow> 'i execution_result \<Rightarrow> 'i exec_record" where
  "execution_to_dict isof r =
     [(''id'', VText (execution_id r)), (''workflow_id'', VText (workflow_id r)),
      (''status'', VText (execution_status_value (status r))),
      (''trigger_type'', VText (trigger_type_value (trigger r))),
      (''node_results'', VNodes (node_results_to_dict isof (node_results r))),
      (''started_at'', VText (isof (started_at r))), (''finished_at'', optional_stamp isof (finished_at r)),
      (''error_message'', VText (error_message r))]"

text \<open>
  The store maps the value under \<open>id\<close> to the record; the callers only use text as identifier.  \<open>None\<close> is the
  \<open>KeyError\<close> of a record without identifier.
\<close>

type_synonym 'i exec_repo = "(string, 'i exec_record) dict"

definition er_create :: "'i exec_record \<Rightarrow> 'i exec_repo \<Rightarrow> ('i exec_record \<times> 'i exec_repo) option" where
  "er_create e repo =
     (case map_of e ''id'' of Some (VText k) \<Rightarrow> Some (e, AList.update k e repo) | _ \<Rightarrow> None)"

definition er_update :: "string \<Rightarrow> 'i exec_record \<Rightarrow> 'i exec_repo \<Rightarrow> 'i exec_record option \<times> 'i exec_repo" where
  "er_update eid data repo =
     (case map_of repo eid of
        None \<Rightarrow> (None, repo)
      | Some e \<Rightarrow> (let e' = dict_merge e data in (Some e', AList.update eid e' repo)))"

definition er_get :: "'i exec_repo \<Rightarrow> string \<Rightarrow> 'i exec_record option" where
  "er_get repo eid = map_of repo eid"

definition of_workflow :: "string \<Rightarrow> 'i exec_record \<Rightarrow> bool" where
  "of_workflow wid e \<longleftrightarrow> map_of e ''workflow_id'' = Some (VText wid)"

definition is_live :: "'i exec_record \<Rightarrow> bool" where
  "is_live e \<longleftrightarrow> (case map_of e ''status'' of Some (VText s) \<Rightarrow> s = ''running'' \<or> s = ''pending'' | _ \<Rightarrow> False)"

text \<open>
  The sort compares \<open>started_at\<close>: Python can order two texts, but neither \<open>None\<close> nor dictionaries, and it compares
  every record with another one as soon as there are two.  With \<open>reverse=True\<close> equal keys keep their order.
\<close>

definition started_key :: "'i exec_record \<Rightarrow> string option" where
  "started_key e = (case dict_get_or e ''started_at'' (VText []) of VText s \<Rightarrow> Some s | _ \<Rightarrow> None)"

definition er_list_by_workflow :: "string \<Rightarrow> int \<Rightarrow> int \<Rightarrow> 'i exec_repo \<Rightarrow> 'i exec_record list option" where
  "er_list_by_workflow wid limit offset repo =
     (let results = filter (of_workflow wid) (map snd repo) in
      if 2 \<le> length results \<and> list_ex (\<lambda>e. started_key e = None) results then None
      else Some (py_slice offset (offset + limit)
             (rev (sort_key (\<lambda>e. case started_key e of None \<Rightarrow> [] | Some s \<Rightarrow> s) (rev results)))))"

definition er_delete :: "string \<Rightarrow> 'i exec_repo \<Rightarrow> bool \<times> 'i exec_repo" where
  "er_delete eid repo = (if dict_has repo eid then (True, AList.delete eid repo) else (False, repo))"

definition er_count_by_workflow :: "string \<Rightarrow> 'i exec_repo \<Rightarrow> nat" where
  "er_count_by_workflow wid repo = length (filter (\<lambda>(k, e). of_workflow wid e) repo)"

definition er_count_running_by_workflow :: "string \<Rightarrow> 'i exec_repo \<Rightarrow> nat" where
  "er_count_running_by_workflow wid repo = length (filter (\<lambda>(k, e). of_workflow wid e \<and> is_live e) repo)"

definition er_count_running_total :: "'i exec_repo \<Rightarrow> nat" where
  "er_count_running_total repo = length (filter (\<lambda>(k, e). is_live e) repo)"

section \<open>The contract of a repository\<close>

text \<open>
  What the services rely on (\<^verbatim>\<open>core/kg/db/protocols.py\<close>): a record is found under its key until it is replaced or removed,
  \<open>remove\<close> tells whether there was one, and the listing shows the records that can be found, each once.
\<close>

datatype 'r repo_op = Put 'r | Remove string

fun repo_step :: "('r \<Rightarrow> 's \<Rightarrow> 's) \<Rightarrow> (string \<Rightarrow> 's \<Rightarrow> bool \<times> 's) \<Rightarrow> 'r repo_op \<Rightarrow> 's \<Rightarrow> 's" where
  "repo_step store remove (Put r) s = store r s"
| "repo_step store remove (Remove k) s = snd (remove k s)"

fun table_step :: "('r \<Rightarrow> string) \<Rightarrow> 'r repo_op \<Rightarrow> (string \<rightharpoonup> 'r) \<Rightarrow> (string \<rightharpoonup> 'r)" where
  "table_step key (Put r) m = m(key r \<mapsto> r)"
| "table_step key (Remove k) m = m(k := None)"

fun puts :: "'r repo_op \<Rightarrow> 'r list" where
  "puts (Put r) = [r]"
| "puts (Remove k) = []"

locale repository =
  fixes key :: "'r \<Rightarrow> string" and ok :: "'r \<Rightarrow> bool" and inv :: "'s \<Rightarrow> bool" and empty :: 's
    and lookup :: "'s \<Rightarrow> string \<Rightarrow> 'r option" and store :: "'r \<Rightarrow> 's \<Rightarrow> 's" and remove :: "string \<Rightarrow> 's \<Rightarrow> bool \<times> 's"
    and listing :: "'s \<Rightarrow> 'r list"
  assumes inv_empty: "inv empty" and lookup_empty: "lookup empty k = None"
    and inv_store: "inv s \<Longrightarrow> ok r \<Longrightarrow> inv (store r s)"
    and lookup_store: "inv s \<Longrightarrow> ok r \<Longrightarrow> lookup (store r s) k = (if k = key r then Some r else lookup s k)"
    and inv_remove: "inv s \<Longrightarrow> inv (snd (remove k s))"
    and lookup_remove: "inv s \<Longrightarrow> lookup (snd (remove k s)) j = (if j = k then None else lookup s j)"
    and found: "inv s \<Longrightarrow> fst (remove k s) \<longleftrightarrow> lookup s k \<noteq> None"
    and listed: "inv s \<Longrightarrow> distinct (map key (listing s)) \<and> set (listing s) = {r. lookup s (key r) = Some r}"
begin

lemma run_inv: "inv s \<Longrightarrow> \<forall>r \<in> set (concat (map puts ops)). ok r \<Longrightarrow> inv (fold (repo_step store remove) ops s)"
proof (induction ops arbitrary: s)
  case (Cons a ops)
  then show ?case by (cases a) (auto intro: inv_store inv_remove)
qed simp

lemma run_refines:
  "inv s \<Longrightarrow> \<forall>r \<in> set (concat (map puts ops)). ok r
    \<Longrightarrow> lookup (fold (repo_step store remove) ops s) = fold (table_step key) ops (lookup s)"
proof (induction ops arbitrary: s)
  case (Cons a ops)
  have "inv (repo_step store remove a s)" using Cons.prems by (cases a) (auto intro: inv_store inv_remove)
  moreover have "lookup (repo_step store remove a s) = table_step key a (lookup s)"
    using Cons.prems by (cases a) (auto simp: lookup_store lookup_remove fun_eq_iff)
  ultimately show ?case using Cons by simp
qed simp

text \<open>From the empty repository: the table, its listing and what a removal answers.\<close>

lemma behaves_like_table:
  assumes "\<forall>r \<in> set (concat (map puts ops)). ok r"
  shows "let s = fold (repo_step store remove) ops empty; m = fold (table_step key) ops Map.empty in
    lookup s = m \<and> distinct (map key (listing s)) \<and> set (listing s) = {r. m (key r) = Some r}
    \<and> (\<forall>k. fst (remove k s) \<longleftrightarrow> m k \<noteq> None)"
proof -
  have e: "lookup empty = Map.empty" using lookup_empty by auto
  have r: "lookup (fold (repo_step store remove) ops empty) = fold (table_step key) ops Map.empty"
    using run_refines [OF inv_empty assms] by (simp add: e)
  note i = run_inv [OF inv_empty assms]
  show ?thesis using listed [OF i] found [OF i] by (simp add: Let_def r)
qed

end

section \<open>The three repositories keep it\<close>

text \<open>\<open>create\<close> and a successful \<open>update\<close> both store a whole record under its identifier.\<close>

definition wr_store :: "('v, 'p) workflow_record \<Rightarrow> ('v, 'p) workflow_repo \<Rightarrow> ('v, 'p) workflow_repo" where
  "wr_store w repo = AList.update (wr_id w) w repo"

definition wr_inv :: "('v, 'p) workflow_repo \<Rightarrow> bool" where
  "wr_inv repo \<longleftrightarrow> wf_dict repo \<and> (\<forall>(k, w) \<in> set repo. wr_id w = k)"

lemma wr_create_store: "snd (wr_create now wid n d ns es vp repo) = wr_store (fst (wr_create now wid n d ns es vp repo)) repo"
  by (simp add: wr_create_def wr_store_def Let_def)

lemma keyed_listing:
  assumes "wf_dict d" and "\<forall>(k, r) \<in> set d. key r = k"
  shows "distinct (map key (map snd d)) \<and> set (map snd d) = {r. map_of d (key r) = Some r}"
proof -
  have "map (key \<circ> snd) d = map fst d" using assms(2) by auto
  then have "distinct (map key (map snd d))" using assms(1) by (simp only: wf_dict_def map_map)
  moreover have "r \<in> snd ` set d \<longleftrightarrow> map_of d (key r) = Some r" for r
  proof
    assume "r \<in> snd ` set d"
    with assms(2) have "(key r, r) \<in> set d" by auto
    with assms(1) show "map_of d (key r) = Some r" by (simp add: map_of_wf_in_set)
  qed (force dest: map_of_SomeD)
  ultimately show ?thesis by auto
qed

interpretation wr: repository wr_id "\<lambda>w. True" wr_inv "[]" wr_get wr_store wr_delete wr_list_all
proof unfold_locales
  fix s :: "('a, 'b) workflow_repo" and k
  assume "wr_inv s"
  then show "distinct (map wr_id (wr_list_all s)) \<and> set (wr_list_all s) = {r. wr_get s (wr_id r) = Some r}"
    unfolding wr_list_all_def wr_get_def wr_inv_def by (intro keyed_listing) auto
qed (auto simp: wr_inv_def wr_get_def wr_store_def wr_delete_def set_update_dict set_delete_dict dict_has_map_of dict_simps)

definition dr_store :: "document_record \<Rightarrow> document_record list \<Rightarrow> document_record list" where
  "dr_store d docs = filter (\<lambda>x. doc_id x \<noteq> doc_id d) docs @ [d]"

definition dr_lookup :: "document_record list \<Rightarrow> string \<Rightarrow> document_record option" where
  "dr_lookup docs k = List.find (\<lambda>d. doc_id d = k) docs"

lemma dr_create_store: "snd (dr_create now i f z c d st n docs) = dr_store (fst (dr_create now i f z c d st n docs)) docs"
  by (simp add: dr_create_def dr_store_def Let_def)

lemma dr_lookup_None: "dr_lookup docs k = None \<longleftrightarrow> k \<notin> doc_id ` set docs"
  by (auto simp: dr_lookup_def find_None_iff)

lemma dr_lookup_Nil [simp]: "dr_lookup [] k = None"
  by (simp add: dr_lookup_def)

lemma dr_lookup_single [simp]: "dr_lookup [d] k = (if k = doc_id d then Some d else None)"
  by (simp add: dr_lookup_def)

lemma dr_lookup_filter: "dr_lookup (filter (\<lambda>x. doc_id x \<noteq> j) docs) k = (if k = j then None else dr_lookup docs k)"
  unfolding dr_lookup_def by (induction docs) auto

lemma dr_lookup_append: "dr_lookup (xs @ ys) k = (case dr_lookup xs k of None \<Rightarrow> dr_lookup ys k | Some d \<Rightarrow> Some d)"
  unfolding dr_lookup_def by (induction xs) auto

lemma dr_lookup_distinct: "distinct (map doc_id docs) \<Longrightarrow> d \<in> set docs \<longleftrightarrow> dr_lookup docs (doc_id d) = Some d"
  unfolding dr_lookup_def by (induction docs) (auto simp: image_iff find_Some_iff)

interpretation dr: repository doc_id "\<lambda>d. True" "\<lambda>docs. distinct (map doc_id docs)" "[]" dr_lookup dr_store dr_delete
  "\<lambda>docs. fst (dr_list (int (length docs)) 0 docs)"
proof unfold_locales
  fix s k
  show "fst (dr_delete k s) \<longleftrightarrow> dr_lookup s k \<noteq> None"
  proof -
    have "fst (dr_delete k s) \<longleftrightarrow> (\<exists>x \<in> set s. doc_id x = k)"
      by (simp add: dr_delete_def Let_def) (induction s, auto simp: le_imp_less_Suc)
    then show ?thesis by (auto simp: dr_lookup_None)
  qed
qed (auto simp: dr_store_def dr_delete_def dr_list_def py_slice_def dr_lookup_filter dr_lookup_append dr_lookup_distinct
    distinct_map_filter Let_def split: option.splits)

definition er_store :: "'i exec_record \<Rightarrow> 'i exec_repo \<Rightarrow> 'i exec_repo" where
  "er_store e repo = (case er_create e repo of None \<Rightarrow> repo | Some (e', repo') \<Rightarrow> repo')"

definition er_key :: "'i exec_record \<Rightarrow> string" where
  "er_key e = (case map_of e ''id'' of Some (VText k) \<Rightarrow> k | _ \<Rightarrow> [])"

definition er_ok :: "'i exec_record \<Rightarrow> bool" where
  "er_ok e \<longleftrightarrow> map_of e ''id'' = Some (VText (er_key e))"

definition er_inv :: "'i exec_repo \<Rightarrow> bool" where
  "er_inv repo \<longleftrightarrow> wf_dict repo \<and> (\<forall>(k, e) \<in> set repo. er_ok e \<and> er_key e = k)"

interpretation er: repository er_key er_ok er_inv "[]" er_get er_store er_delete "map snd"
proof unfold_locales
  fix s :: "'a exec_repo"
  assume "er_inv s"
  then show "distinct (map er_key (map snd s)) \<and> set (map snd s) = {r. er_get s (er_key r) = Some r}"
    unfolding er_get_def er_inv_def by (intro keyed_listing) auto
qed (auto simp: er_inv_def er_get_def er_store_def er_create_def er_ok_def er_delete_def set_update_dict set_delete_dict
    dict_has_map_of dict_simps)

section \<open>Runs of the service\<close>

datatype ('v, 'p) wr_op =
    WfCreate clock string string string "'v node_def list" "edge_def list" 'p
  | WfUpdate clock string string string "'v node_def list" "edge_def list" 'p
  | WfDelete string

fun wr_step :: "('v, 'p) wr_op \<Rightarrow> ('v, 'p) workflow_repo \<Rightarrow> ('v, 'p) workflow_repo" where
  "wr_step (WfCreate now i n d ns es vp) repo = snd (wr_create now i n d ns es vp repo)"
| "wr_step (WfUpdate now i n d ns es vp) repo = snd (wr_update now i n d ns es vp repo)"
| "wr_step (WfDelete i) repo = snd (wr_delete i repo)"

text \<open>The table it stands for.\<close>

fun wr_table :: "('v, 'p) wr_op \<Rightarrow> (string \<rightharpoonup> ('v, 'p) workflow_record) \<Rightarrow> (string \<rightharpoonup> ('v, 'p) workflow_record)" where
  "wr_table (WfCreate now i n d ns es vp) m = m(i \<mapsto> \<lparr>wr_id = i, wr_name = n, wr_description = d, wr_nodes = ns,
     wr_edges = es, wr_viewport = vp, wr_created_at = now, wr_updated_at = now\<rparr>)"
| "wr_table (WfUpdate now i n d ns es vp) m = m(i := map_option (\<lambda>old. \<lparr>wr_id = i, wr_name = n, wr_description = d,
     wr_nodes = ns, wr_edges = es, wr_viewport = vp, wr_created_at = wr_created_at old, wr_updated_at = now\<rparr>) (m i))"
| "wr_table (WfDelete i) m = m(i := None)"

datatype 'i er_op = ECreate "'i exec_record" | EUpdate string "'i exec_record" | EDelete string

fun er_step :: "'i er_op \<Rightarrow> 'i exec_repo \<Rightarrow> 'i exec_repo" where
  "er_step (ECreate e) repo = (case er_create e repo of None \<Rightarrow> repo | Some (r, repo') \<Rightarrow> repo')"
| "er_step (EUpdate i d) repo = snd (er_update i d repo)"
| "er_step (EDelete i) repo = snd (er_delete i repo)"

fun er_table :: "'i er_op \<Rightarrow> (string \<rightharpoonup> 'i exec_record) \<Rightarrow> (string \<rightharpoonup> 'i exec_record)" where
  "er_table (ECreate e) m = (case map_of e ''id'' of Some (VText k) \<Rightarrow> m(k \<mapsto> e) | _ \<Rightarrow> m)"
| "er_table (EUpdate i d) m = m(i := map_option (\<lambda>e. dict_merge e d) (m i))"
| "er_table (EDelete i) m = m(i := None)"

text \<open>An update must not overwrite the identifier; no caller does.\<close>

fun er_op_ok :: "'i er_op \<Rightarrow> bool" where
  "er_op_ok (EUpdate i d) \<longleftrightarrow> wf_dict d \<and> \<not> dict_has d ''id''"
| "er_op_ok _ \<longleftrightarrow> True"

lemma wr_step_refines:
  assumes "wr_inv repo"
  shows "wr_inv (wr_step a repo)" and "wr_get (wr_step a repo) = wr_table a (wr_get repo)"
proof -
  have "wr_inv (wr_step a repo) \<and> wr_get (wr_step a repo) = wr_table a (wr_get repo)"
  proof (cases a)
    case (WfCreate now i n d ns es vp)
    then show ?thesis
      using wr.inv_store [OF assms] wr.lookup_store [OF assms]
      by (auto simp: wr_create_store) (simp_all add: wr_create_def Let_def fun_eq_iff)
  next
    case (WfUpdate now i n d ns es vp)
    show ?thesis
    proof (cases "wr_get repo i")
      case None
      with WfUpdate assms show ?thesis by (auto simp: wr_update_def wr_get_def)
    next
      case (Some old)
      let ?w = "\<lparr>wr_id = i, wr_name = n, wr_description = d, wr_nodes = ns, wr_edges = es, wr_viewport = vp,
        wr_created_at = wr_created_at old, wr_updated_at = now\<rparr>"
      have "wr_step a repo = wr_store ?w repo"
        using Some by (simp add: WfUpdate wr_update_def wr_get_def wr_store_def Let_def)
      with Some show ?thesis
        using wr.inv_store [OF assms, of ?w] wr.lookup_store [OF assms, of ?w] by (simp add: WfUpdate fun_eq_iff)
    qed
  next
    case (WfDelete i)
    then show ?thesis using wr.inv_remove [OF assms] wr.lookup_remove [OF assms] by (simp add: fun_eq_iff)
  qed
  then show "wr_inv (wr_step a repo)" and "wr_get (wr_step a repo) = wr_table a (wr_get repo)" by auto
qed

lemma wr_run_refines: "wr_inv repo \<Longrightarrow> wr_inv (fold wr_step ops repo) \<and> wr_get (fold wr_step ops repo) = fold wr_table ops (wr_get repo)"
  by (induction ops arbitrary: repo) (simp_all add: wr_step_refines)

lemma er_store_cases:
  "er_step (ECreate e) repo = (if er_ok e then er_store e repo else repo)"
  by (auto simp: er_store_def er_create_def er_ok_def er_key_def split: option.splits exec_val.splits)

lemma er_update_store:
  assumes "er_inv repo" and "map_of repo i = Some e" and "wf_dict d" and "\<not> dict_has d ''id''"
  shows "er_ok (dict_merge e d)" and "er_key (dict_merge e d) = i"
    and "snd (er_update i d repo) = er_store (dict_merge e d) repo"
proof -
  from assms(1,2) have e: "map_of e ''id'' = Some (VText i)"
    by (auto simp: er_inv_def er_ok_def dest!: map_of_SomeD)
  have m: "map_of (dict_merge e d) ''id'' = Some (VText i)"
    using e map_of_merge_other [OF assms(3,4)] by simp
  then show "er_ok (dict_merge e d)" "er_key (dict_merge e d) = i" by (simp_all add: er_ok_def er_key_def)
  show "snd (er_update i d repo) = er_store (dict_merge e d) repo"
    by (simp add: er_update_def assms(2) Let_def er_store_def er_create_def m)
qed

lemma er_step_refines:
  assumes "er_inv repo" and "er_op_ok a"
  shows "er_inv (er_step a repo)" and "er_get (er_step a repo) = er_table a (er_get repo)"
proof -
  have "er_inv (er_step a repo) \<and> er_get (er_step a repo) = er_table a (er_get repo)"
  proof (cases a)
    case (ECreate e)
    show ?thesis
    proof (cases "er_ok e")
      case True
      with er.inv_store [OF assms(1)] er.lookup_store [OF assms(1)] show ?thesis
        unfolding ECreate er_store_cases by (auto simp: er_ok_def fun_eq_iff)
    next
      case False
      with assms show ?thesis unfolding ECreate er_store_cases
        by (auto simp: er_ok_def er_key_def split: option.splits exec_val.splits)
    qed
  next
    case (EUpdate i d)
    show ?thesis
    proof (cases "map_of repo i")
      case None
      with EUpdate assms show ?thesis by (auto simp: er_update_def er_get_def)
    next
      case (Some e)
      from EUpdate assms(2) have d: "wf_dict d" "\<not> dict_has d ''id''" by auto
      note u = er_update_store [OF assms(1) Some d]
      from er.inv_store [OF assms(1) u(1)] er.lookup_store [OF assms(1) u(1)] Some show ?thesis
        by (simp add: EUpdate u(2,3) er_get_def fun_eq_iff)
    qed
  next
    case (EDelete i)
    then show ?thesis using er.inv_remove [OF assms(1)] er.lookup_remove [OF assms(1)] by (simp add: fun_eq_iff)
  qed
  then show "er_inv (er_step a repo)" and "er_get (er_step a repo) = er_table a (er_get repo)" by auto
qed

lemma er_run_refines:
  "er_inv repo \<Longrightarrow> list_all er_op_ok ops
    \<Longrightarrow> er_inv (fold er_step ops repo) \<and> er_get (fold er_step ops repo) = fold er_table ops (er_get repo)"
  by (induction ops arbitrary: repo) (simp_all add: er_step_refines)



end
