(* ===== verification/Execution_Worker.thy ===== *)
theory Execution_Worker
  imports Repositories Scheduler
begin

text \<open>
  \<^verbatim>\<open>core/workflow/execution_worker.py\<close> and the three ways in which the service submits executions to it: the execute
  route of \<^verbatim>\<open>api/routes/executions.py\<close>, the scheduler callback of \<^verbatim>\<open>api/app.py\<close> and the webhook route of
  \<^verbatim>\<open>api/routes/schedules.py\<close>.

  The worker is one record: the repositories it was given, the Redis list, the semaphore, the tasks of the event loop and
  the dictionary \<open>_active_tasks\<close>.  A piece of code between two \<open>await\<close> points is one definition, and \<open>wk_step\<close> lets
  them follow each other in any order.  The head of \<open>wk_queue\<close> is the left end of the list, where \<open>LPUSH\<close> adds; \<open>BRPOP\<close>
  takes the last element.  The list and the repositories outlive the process; everything else is lost when it ends.
  The workflow itself runs through \<^const>\<open>execute\<close>, with an environment for each run.  Texts of exceptions
  are the argument \<open>show_error\<close>.
\<close>

section \<open>State\<close>

record 'i task_payload =
  tp_execution_id :: string
  tp_workflow_id :: string
  tp_trigger_type :: string
  tp_initial_data :: "'i list option"

text \<open>What the consumer may find in the list: a task, text that is not JSON, or JSON that is not an object.\<close>

datatype 'i queue_item = Item "'i task_payload" | BadText | BadShape

datatype ('v, 'p) task_phase = Created | Executing "('v, 'p) workflow_record"

text \<open>\<open>tk_pooled\<close>: started by the consumer, so it holds a permit.  An in-process call of \<open>enqueue\<close> runs without one.\<close>

record ('v, 'p, 'i) worker_task =
  tk_payload :: "'i task_payload"
  tk_phase :: "('v, 'p) task_phase"
  tk_pooled :: bool

datatype 'i consumer_state = NoConsumer | Polling | Holding "'i queue_item"

text \<open>One message of \<open>on_status_change\<close>: the room it is sent to, the room it names, and its payload.\<close>

record status_push =
  ps_target :: string
  ps_room :: string
  ps_execution_id :: string
  ps_node_id :: string
  ps_status :: node_status
  ps_extra :: note_extra

record ('v, 'p, 'i) worker =
  wk_execs :: "'i exec_repo option"
  wk_flows :: "('v, 'p) workflow_repo option"
  wk_max_workers :: nat
  wk_has_ws :: bool
  wk_redis :: bool
  wk_queue :: "'i queue_item list"
  wk_running :: bool
  wk_consumer :: "'i consumer_state"
  wk_permits :: nat
  wk_tasks :: "(nat, ('v, 'p, 'i) worker_task) dict"
  wk_next :: nat
  wk_active_tasks :: "(string, nat) dict"
  wk_callbacks :: "string list"
  wk_pushed :: "status_push list"

text \<open>A new process: \<open>__init__\<close> with the repositories and the Redis list as they are.\<close>

definition wk_init :: "'i exec_repo option \<Rightarrow> ('v, 'p) workflow_repo option \<Rightarrow> nat \<Rightarrow> bool \<Rightarrow> 'i queue_item list
    \<Rightarrow> ('v, 'p, 'i) worker" where
  "wk_init execs flows mx ws queue =
     \<lparr>wk_execs = execs, wk_flows = flows, wk_max_workers = mx, wk_has_ws = ws, wk_redis = False, wk_queue = queue,
      wk_running = False, wk_consumer = NoConsumer, wk_permits = 0, wk_tasks = [], wk_next = 0, wk_active_tasks = [],
      wk_callbacks = [], wk_pushed = []\<rparr>"

section \<open>Running one task\<close>

text \<open>\<open>trigger_map.get(trigger_type_str, TriggerType.MANUAL)\<close>.\<close>

definition trigger_of :: "string \<Rightarrow> trigger_type" where
  "trigger_of s =
     (if s = ''schedule'' then SCHEDULE else if s = ''webhook'' then WEBHOOK else if s = ''event'' then EVENT else MANUAL)"

definition update_execution :: "string \<Rightarrow> 'i exec_record \<Rightarrow> ('v, 'p, 'i) worker \<Rightarrow> ('v, 'p, 'i) worker" where
  "update_execution eid data w =
     (case wk_execs w of None \<Rightarrow> w | Some repo \<Rightarrow> w\<lparr>wk_execs := Some (snd (er_update eid data repo))\<rparr>)"

definition error_record :: "(clock \<Rightarrow> string) \<Rightarrow> clock \<Rightarrow> string \<Rightarrow> 'i exec_record" where
  "error_record isof now msg =
     [(''status'', VText ''error''), (''finished_at'', VText (isof now)), (''error_message'', VText msg)]"

definition result_record :: "(clock \<Rightarrow> string) \<Rightarrow> 'i execution_result \<Rightarrow> 'i exec_record" where
  "result_record isof r =
     [(''status'', VText (execution_status_value (status r))), (''finished_at'', optional_stamp isof (finished_at r)),
      (''error_message'', VText (error_message r)),
      (''node_results'', VNodes (node_results_to_dict isof (node_results r)))]"

definition workflow_def_of :: "('v, 'p) workflow_record \<Rightarrow> 'v workflow_def" where
  "workflow_def_of flow = \<lparr>wd_id = Some (wr_id flow), wd_nodes = wr_nodes flow, wd_edges = wr_edges flow\<rparr>"

fun status_push_of :: "string \<Rightarrow> notification \<Rightarrow> status_push" where
  "status_push_of wid (Notify xid nid st x) =
     \<lparr>ps_target = ''workflow:'' @ wid, ps_room = ''execution:'' @ xid, ps_execution_id = xid, ps_node_id = nid,
      ps_status = st, ps_extra = x\<rparr>"

text \<open>
  The end of a task.  A pooled one releases its permit in \<open>_execute_with_semaphore\<close>; the callback that removes it from
  \<open>_active_tasks\<close> runs later.
\<close>

definition end_task :: "nat \<Rightarrow> ('v, 'p, 'i) worker_task \<Rightarrow> ('v, 'p, 'i) worker \<Rightarrow> ('v, 'p, 'i) worker" where
  "end_task n t w =
     (let w1 = w\<lparr>wk_tasks := AList.delete n (wk_tasks w)\<rparr> in
      if tk_pooled t
      then w1\<lparr>wk_permits := wk_permits w1 + 1,
              wk_callbacks := wk_callbacks w1 @ [tp_execution_id (tk_payload t)]\<rparr>
      else w1)"

text \<open>\<open>_execute_task\<close> up to the call of the executor; the boolean says that it goes on.\<close>

definition load_task :: "(clock \<Rightarrow> string) \<Rightarrow> clock \<Rightarrow> 'i task_payload \<Rightarrow> ('v, 'p, 'i) worker
    \<Rightarrow> ('v, 'p) workflow_record option \<times> ('v, 'p, 'i) worker" where
  "load_task isof now p w =
     (case wk_flows w of
        None \<Rightarrow> (None, w)
      | Some flows \<Rightarrow>
          (case wr_get flows (tp_workflow_id p) of
             None \<Rightarrow> (None, update_execution (tp_execution_id p)
                       (error_record isof now (''Workflow '' @ tp_workflow_id p @ '' not found'')) w)
           | Some flow \<Rightarrow> (Some flow, update_execution (tp_execution_id p) [(''status'', VText ''running'')] w)))"

text \<open>
  The rest: the executor runs with its own new execution id \<open>xid\<close>.  Nothing outside the task knows this executor, so no
  cancellation reaches it.
\<close>

record run_env =
  re_env :: exec_env
  re_xid :: string
  re_now :: clock

definition run_executor :: "('i, 'v) registry \<Rightarrow> run_env \<Rightarrow> 'i task_payload \<Rightarrow> ('v, 'p) workflow_record
    \<Rightarrow> (wf_error, 'i exec_state) res" where
  "run_executor reg e p flow =
     execute ((re_env e)\<lparr>env_cancels := (\<lambda>_. [])\<rparr>) reg (re_xid e) (re_now e) [] (workflow_def_of flow)
       (trigger_of (tp_trigger_type p)) (tp_initial_data p)"

definition persist_outcome :: "(clock \<Rightarrow> string) \<Rightarrow> (wf_error \<Rightarrow> string) \<Rightarrow> run_env \<Rightarrow> 'i task_payload
    \<Rightarrow> (wf_error, 'i exec_state) res \<Rightarrow> ('v, 'p, 'i) worker \<Rightarrow> ('v, 'p, 'i) worker" where
  "persist_outcome isof show_error e p r w =
     (case r of
        Inl err \<Rightarrow> update_execution (tp_execution_id p) (error_record isof (env_end (re_env e)) (show_error err)) w
      | Inr s \<Rightarrow>
          (let w1 = (if wk_has_ws w
                     then w\<lparr>wk_pushed := wk_pushed w @ map (status_push_of (tp_workflow_id p)) (xs_notes s)\<rparr> else w)
           in update_execution (tp_execution_id p) (result_record isof (xs_result s)) w1))"

definition begin_task :: "(clock \<Rightarrow> string) \<Rightarrow> clock \<Rightarrow> nat \<Rightarrow> ('v, 'p, 'i) worker \<Rightarrow> ('v, 'p, 'i) worker" where
  "begin_task isof now n w =
     (case map_of (wk_tasks w) n of
        Some t \<Rightarrow>
          (case tk_phase t of
             Created \<Rightarrow>
               (case load_task isof now (tk_payload t) w of
                  (None, w1) \<Rightarrow> end_task n t w1
                | (Some flow, w1) \<Rightarrow> w1\<lparr>wk_tasks := AList.update n (t\<lparr>tk_phase := Executing flow\<rparr>) (wk_tasks w1)\<rparr>)
           | Executing flow \<Rightarrow> w)
      | None \<Rightarrow> w)"

definition finish_task :: "(clock \<Rightarrow> string) \<Rightarrow> (wf_error \<Rightarrow> string) \<Rightarrow> ('i, 'v) registry \<Rightarrow> run_env \<Rightarrow> nat
    \<Rightarrow> ('v, 'p, 'i) worker \<Rightarrow> ('v, 'p, 'i) worker" where
  "finish_task isof show_error reg e n w =
     (case map_of (wk_tasks w) n of
        Some t \<Rightarrow>
          (case tk_phase t of
             Executing flow \<Rightarrow>
               end_task n t (persist_outcome isof show_error e (tk_payload t) (run_executor reg e (tk_payload t) flow) w)
           | Created \<Rightarrow> w)
      | None \<Rightarrow> w)"

text \<open>\<open>_execute_task\<close> from start to end, as the in-process recovery awaits it.\<close>

definition execute_task :: "(clock \<Rightarrow> string) \<Rightarrow> (wf_error \<Rightarrow> string) \<Rightarrow> ('i, 'v) registry \<Rightarrow> run_env
    \<Rightarrow> 'i task_payload \<Rightarrow> ('v, 'p, 'i) worker \<Rightarrow> ('v, 'p, 'i) worker" where
  "execute_task isof show_error reg e p w =
     (case load_task isof (re_now e) p w of
        (None, w1) \<Rightarrow> w1
      | (Some flow, w1) \<Rightarrow> persist_outcome isof show_error e p (run_executor reg e p flow) w1)"

section \<open>Queue and consumer\<close>

definition spawn :: "'i task_payload \<Rightarrow> bool \<Rightarrow> ('v, 'p, 'i) worker \<Rightarrow> ('v, 'p, 'i) worker" where
  "spawn p pooled w =
     w\<lparr>wk_tasks := wk_tasks w @ [(wk_next w, \<lparr>tk_payload = p, tk_phase = Created, tk_pooled = pooled\<rparr>)],
       wk_next := wk_next w + 1\<rparr>"

text \<open>\<open>enqueue\<close>: the in-process fallback runs the task inside the call, here as a task without a permit.\<close>

definition wk_enqueue :: "'i task_payload \<Rightarrow> ('v, 'p, 'i) worker \<Rightarrow> ('v, 'p, 'i) worker" where
  "wk_enqueue p w = (if wk_redis w then w\<lparr>wk_queue := Item p # wk_queue w\<rparr> else spawn p False w)"

text \<open>One round of \<open>_consume_loop\<close> up to \<open>json.loads\<close>, which raises on text that is not JSON.\<close>

definition wk_poll :: "('v, 'p, 'i) worker \<Rightarrow> ('v, 'p, 'i) worker" where
  "wk_poll w =
     (if wk_consumer w = Polling \<and> wk_queue w \<noteq> []
      then (let item = last (wk_queue w); w1 = w\<lparr>wk_queue := butlast (wk_queue w)\<rparr> in
            if item = BadText then w1 else w1\<lparr>wk_consumer := Holding item\<rparr>)
      else w)"

text \<open>
  The rest of the round once a permit is free.  For a payload that is not an object \<open>payload.get\<close> raises after the permit
  was taken, and nothing gives it back.
\<close>

definition wk_acquire :: "('v, 'p, 'i) worker \<Rightarrow> ('v, 'p, 'i) worker" where
  "wk_acquire w =
     (case wk_consumer w of
        Holding item \<Rightarrow>
          if wk_permits w = 0 then w
          else (let w1 = w\<lparr>wk_permits := wk_permits w - 1, wk_consumer := Polling\<rparr> in
                case item of
                  Item p \<Rightarrow> (spawn p True w1)\<lparr>wk_active_tasks :=
                               AList.update (tp_execution_id p) (wk_next w1) (wk_active_tasks w1)\<rparr>
                | _ \<Rightarrow> w1)
      | _ \<Rightarrow> w)"

text \<open>The done callback of a task: \<open>_active_tasks.pop(eid, None)\<close>, whichever task is stored there.\<close>

definition wk_callback :: "('v, 'p, 'i) worker \<Rightarrow> ('v, 'p, 'i) worker" where
  "wk_callback w =
     (case wk_callbacks w of
        [] \<Rightarrow> w
      | eid # rest \<Rightarrow> w\<lparr>wk_callbacks := rest, wk_active_tasks := AList.delete eid (wk_active_tasks w)\<rparr>)"

definition wk_active_count :: "('v, 'p, 'i) worker \<Rightarrow> nat" where
  "wk_active_count w = length (wk_active_tasks w)"

section \<open>Start, recovery and stop\<close>

text \<open>\<open>_get_stale_executions\<close>.\<close>

definition stale_executions :: "('v, 'p, 'i) worker \<Rightarrow> 'i exec_record list" where
  "stale_executions w = (case wk_execs w of None \<Rightarrow> [] | Some repo \<Rightarrow> filter is_live (map snd repo))"

text \<open>
  The payload of a recovered execution; \<open>None\<close> for a record without \<open>id\<close> or \<open>workflow_id\<close>, where the loop raises
  and is left for good.  Identifiers are text, and a trigger that is no text counts as manual.  The initial data is not stored, so it is gone.
\<close>

definition recovery_payload :: "'i exec_record \<Rightarrow> 'i task_payload option" where
  "recovery_payload r =
     (case (map_of r ''id'', map_of r ''workflow_id'') of
        (Some (VText i), Some (VText wid)) \<Rightarrow>
          Some \<lparr>tp_execution_id = i, tp_workflow_id = wid,
                tp_trigger_type = (case dict_get_or r ''trigger_type'' (VText ''manual'') of VText t \<Rightarrow> t | _ \<Rightarrow> []),
                tp_initial_data = None\<rparr>
      | _ \<Rightarrow> None)"

fun recover_loop :: "(clock \<Rightarrow> string) \<Rightarrow> (wf_error \<Rightarrow> string) \<Rightarrow> ('i, 'v) registry \<Rightarrow> (string \<Rightarrow> run_env)
    \<Rightarrow> 'i exec_record list \<Rightarrow> ('v, 'p, 'i) worker \<Rightarrow> ('v, 'p, 'i) worker" where
  "recover_loop isof show_error reg env [] w = w"
| "recover_loop isof show_error reg env (r # rs) w =
     (case recovery_payload r of
        None \<Rightarrow> w
      | Some p \<Rightarrow> recover_loop isof show_error reg env rs
          (if wk_redis w then wk_enqueue p w
           else execute_task isof show_error reg (env (tp_execution_id p)) p w))"

definition wk_start :: "(clock \<Rightarrow> string) \<Rightarrow> (wf_error \<Rightarrow> string) \<Rightarrow> ('i, 'v) registry \<Rightarrow> (string \<Rightarrow> run_env) \<Rightarrow> bool
    \<Rightarrow> ('v, 'p, 'i) worker \<Rightarrow> ('v, 'p, 'i) worker" where
  "wk_start isof show_error reg env redis_up w =
     (let w1 = w\<lparr>wk_redis := redis_up, wk_running := True, wk_permits := wk_max_workers w\<rparr>;
          w2 = recover_loop isof show_error reg env (stale_executions w1) w1
      in w2\<lparr>wk_consumer := (if redis_up then Polling else NoConsumer)\<rparr>)"

text \<open>\<open>stop\<close> ends the consumer at once, with the item it may hold, and then waits for the active tasks.\<close>

definition wk_stop :: "('v, 'p, 'i) worker \<Rightarrow> ('v, 'p, 'i) worker" where
  "wk_stop w = w\<lparr>wk_running := False, wk_consumer := NoConsumer\<rparr>"

text \<open>The end of the process, after \<open>stop\<close> or without it: unfinished tasks vanish.\<close>

definition wk_exit :: "('v, 'p, 'i) worker \<Rightarrow> ('v, 'p, 'i) worker" where
  "wk_exit w = wk_init (wk_execs w) (wk_flows w) (wk_max_workers w) (wk_has_ws w) (wk_queue w)"

section \<open>Submitting executions\<close>

datatype http_error = Http int string

text \<open>The record of a new execution is created first and then the task is queued.\<close>

definition submit :: "(clock \<Rightarrow> string) \<Rightarrow> 'i execution_result \<Rightarrow> string \<Rightarrow> 'i list option \<Rightarrow> ('v, 'p, 'i) worker
    \<Rightarrow> ('v, 'p, 'i) worker" where
  "submit isof r tr ini w =
     (let w1 = (case wk_execs w of
                  None \<Rightarrow> w
                | Some repo \<Rightarrow> w\<lparr>wk_execs := Some (er_store (execution_to_dict isof r) repo)\<rparr>)
      in wk_enqueue \<lparr>tp_execution_id = execution_id r, tp_workflow_id = workflow_id r, tp_trigger_type = tr,
                      tp_initial_data = ini\<rparr> w1)"

text \<open>\<open>POST /workflows/{id}/execute\<close>; \<open>xid\<close> is the new execution id.\<close>

definition MAX_PER_WORKFLOW :: nat where "MAX_PER_WORKFLOW = 3"

definition MAX_TOTAL :: nat where "MAX_TOTAL = 10"

definition check_limits :: "string \<Rightarrow> 'i exec_repo option \<Rightarrow> http_error option" where
  "check_limits wid execs =
     (case execs of
        None \<Rightarrow> None
      | Some repo \<Rightarrow>
          (let running = er_count_running_by_workflow wid repo; total_running = er_count_running_total repo in
           if running \<ge> MAX_PER_WORKFLOW
           then Some (Http 429 (''Workflow '' @ wid @ '' already has '' @ nat_str running @ '' running executions (max ''
                  @ nat_str MAX_PER_WORKFLOW @ '')''))
           else if total_running \<ge> MAX_TOTAL
           then Some (Http 429 (''System has '' @ nat_str total_running @ '' running executions (max ''
                  @ nat_str MAX_TOTAL @ '')''))
           else None))"

definition execute_workflow :: "(clock \<Rightarrow> string) \<Rightarrow> string \<Rightarrow> clock \<Rightarrow> string \<Rightarrow> 'i list option
    \<Rightarrow> ('v, 'p) workflow_repo \<Rightarrow> ('v, 'p, 'i) worker \<Rightarrow> (http_error, 'i exec_record \<times> ('v, 'p, 'i) worker) res" where
  "execute_workflow isof xid now wid ini flows w =
     (case wr_get flows wid of
        None \<Rightarrow> Inl (Http 404 (''Workflow '' @ wid @ '' not found''))
      | Some flow \<Rightarrow>
          if wr_nodes flow = [] then Inl (Http 400 ''Workflow has no nodes'')
          else (case check_limits wid (wk_execs w) of
                  Some err \<Rightarrow> Inl err
                | None \<Rightarrow>
                    (let r = execution_result_init xid wid MANUAL now
                     in Inr (execution_to_dict isof r, submit isof r ''manual'' ini w))))"

text \<open>\<open>scheduled_execute\<close>, the callback of the scheduler.\<close>

definition scheduled_execute :: "(clock \<Rightarrow> string) \<Rightarrow> string \<Rightarrow> clock \<Rightarrow> string \<Rightarrow> string
    \<Rightarrow> ('v, 'p) workflow_repo \<Rightarrow> ('v, 'p, 'i) worker \<Rightarrow> ('v, 'p, 'i) worker" where
  "scheduled_execute isof xid now wid tr flows w =
     (case wr_get flows wid of
        None \<Rightarrow> w
      | Some flow \<Rightarrow>
          submit isof (execution_result_init xid wid (if tr = ''schedule'' then SCHEDULE else EVENT) now) tr None w)"

text \<open>\<open>POST /webhooks/{id}/{token}\<close>: the request body becomes the initial data; \<open>None\<close> is a body that is not JSON.\<close>

definition webhook_items :: "json option \<Rightarrow> json list" where
  "webhook_items body =
     (let b = (case body of None \<Rightarrow> JObj [] | Some j \<Rightarrow> j) in
      case b of JList xs \<Rightarrow> xs | _ \<Rightarrow> if json_truthy b then [b] else [])"

definition trigger_webhook :: "(clock \<Rightarrow> string) \<Rightarrow> string \<Rightarrow> clock \<Rightarrow> string \<Rightarrow> string \<Rightarrow> json option
    \<Rightarrow> 'r webhook_manager \<Rightarrow> ('v, 'p) workflow_repo \<Rightarrow> ('v, 'p, json) worker
    \<Rightarrow> (http_error, string \<times> ('v, 'p, json) worker) res \<times> 'r webhook_manager" where
  "trigger_webhook isof xid now wid token body m flows w =
     (let (valid, m1) = wm_validate_token wid token m in
      (if \<not> valid then Inl (Http 403 ''Invalid webhook token'')
       else (case wr_get flows wid of
               None \<Rightarrow> Inl (Http 404 (''Workflow '' @ wid @ '' not found''))
             | Some flow \<Rightarrow>
                 Inr (xid, submit isof (execution_result_init xid wid WEBHOOK now) ''webhook''
                        (Some (webhook_items body)) w)), m1))"

section \<open>Interleaved use\<close>

text \<open>
  The service with its worker.  \<open>clean\<close> says that nobody else writes to the Redis list; otherwise it may receive items that
  are no tasks.  The service uses one repository of each kind, whose contents users may change.
\<close>

inductive wk_step :: "(clock \<Rightarrow> string) \<Rightarrow> (wf_error \<Rightarrow> string) \<Rightarrow> ('i, 'v) registry \<Rightarrow> bool
    \<Rightarrow> ('v, 'p, 'i) worker \<Rightarrow> ('v, 'p, 'i) worker \<Rightarrow> bool"
  for isof show_error reg clean where
  start: "\<not> wk_running w \<Longrightarrow> wk_tasks w = [] \<Longrightarrow> wk_step isof show_error reg clean w (wk_start isof show_error reg env up w)"
| manual: "wk_running w \<Longrightarrow> wk_flows w = Some flows \<Longrightarrow> execute_workflow isof xid now wid ini flows w = Inr (resp, w')
    \<Longrightarrow> wk_step isof show_error reg clean w w'"
| scheduled: "wk_running w \<Longrightarrow> wk_flows w = Some flows
    \<Longrightarrow> wk_step isof show_error reg clean w (scheduled_execute isof xid now wid tr flows w)"
| webhook: "wk_running w \<Longrightarrow> wk_step isof show_error reg clean w
      (submit isof (execution_result_init xid wid WEBHOOK now) ''webhook'' ini w)"
| foreign: "\<not> clean \<Longrightarrow> item = BadText \<or> item = BadShape
    \<Longrightarrow> wk_step isof show_error reg clean w (w\<lparr>wk_queue := item # wk_queue w\<rparr>)"
| edit: "wk_flows w = Some flows \<Longrightarrow> wk_step isof show_error reg clean w (w\<lparr>wk_flows := Some (wr_step op flows)\<rparr>)"
| forget: "wk_execs w = Some repo \<Longrightarrow> wk_step isof show_error reg clean w (w\<lparr>wk_execs := Some (snd (er_delete eid repo))\<rparr>)"
| poll: "wk_step isof show_error reg clean w (wk_poll w)"
| acquire: "wk_step isof show_error reg clean w (wk_acquire w)"
| callback: "wk_step isof show_error reg clean w (wk_callback w)"
| begin_one: "wk_step isof show_error reg clean w (begin_task isof now n w)"
| finish_one: "wk_step isof show_error reg clean w (finish_task isof show_error reg e n w)"
| stop: "wk_step isof show_error reg clean w (wk_stop w)"
| exit: "wk_step isof show_error reg clean w (wk_exit w)"

inductive wk_reach :: "(clock \<Rightarrow> string) \<Rightarrow> (wf_error \<Rightarrow> string) \<Rightarrow> ('i, 'v) registry \<Rightarrow> bool
    \<Rightarrow> ('v, 'p, 'i) worker \<Rightarrow> bool"
  for isof show_error reg clean where
  first: "wk_reach isof show_error reg clean (wk_init (Some []) (Some []) mx ws [])"
| next_step: "wk_reach isof show_error reg clean w \<Longrightarrow> wk_step isof show_error reg clean w w'
    \<Longrightarrow> wk_reach isof show_error reg clean w'"

section \<open>Invariants\<close>

text \<open>Executions that are still on their way through the worker.\<close>

fun item_ids :: "'i queue_item \<Rightarrow> string list" where
  "item_ids (Item p) = [tp_execution_id p]"
| "item_ids BadText = []"
| "item_ids BadShape = []"

fun held_items :: "'i consumer_state \<Rightarrow> 'i queue_item list" where
  "held_items (Holding item) = [item]"
| "held_items _ = []"

definition in_progress :: "('v, 'p, 'i) worker \<Rightarrow> string set" where
  "in_progress w = set (concat (map item_ids (wk_queue w @ held_items (wk_consumer w))))
     \<union> (\<lambda>(n, t). tp_execution_id (tk_payload t)) ` set (wk_tasks w)"

definition pooled_tasks :: "('v, 'p, 'i) worker \<Rightarrow> nat" where
  "pooled_tasks w = length (filter (\<lambda>(n, t). tk_pooled t) (wk_tasks w))"

definition live_ids :: "'i exec_repo \<Rightarrow> string set" where
  "live_ids repo = {k. \<exists>e. er_get repo k = Some e \<and> is_live e}"

definition record_ok :: "'i exec_record \<Rightarrow> bool" where
  "record_ok e \<longleftrightarrow> (\<exists>wid. map_of e ''workflow_id'' = Some (VText wid))"

definition wk_tasks_ok :: "('v, 'p, 'i) worker \<Rightarrow> bool" where
  "wk_tasks_ok w \<longleftrightarrow> wf_dict (wk_tasks w) \<and> (\<forall>n \<in> fst ` set (wk_tasks w). n < wk_next w)"

definition wk_pool_ok :: "bool \<Rightarrow> ('v, 'p, 'i) worker \<Rightarrow> bool" where
  "wk_pool_ok clean w \<longleftrightarrow> wk_permits w + pooled_tasks w \<le> wk_max_workers w
     \<and> (clean \<longrightarrow> BadShape \<notin> set (wk_queue w @ held_items (wk_consumer w))
          \<and> (wk_running w \<longrightarrow> wk_permits w + pooled_tasks w = wk_max_workers w))"

definition wk_store_ok :: "('v, 'p, 'i) worker \<Rightarrow> bool" where
  "wk_store_ok w \<longleftrightarrow> wk_flows w \<noteq> None \<and> (\<exists>repo. wk_execs w = Some repo \<and> er_inv repo
     \<and> (\<forall>e \<in> snd ` set repo. record_ok e) \<and> (wk_running w \<longrightarrow> live_ids repo \<subseteq> in_progress w))"

subsection \<open>Fields that stay\<close>

lemma update_execution_frame [frame_simps]:
  "wk_flows (update_execution k d w) = wk_flows w" "wk_max_workers (update_execution k d w) = wk_max_workers w"
  "wk_redis (update_execution k d w) = wk_redis w" "wk_queue (update_execution k d w) = wk_queue w"
  "wk_running (update_execution k d w) = wk_running w" "wk_consumer (update_execution k d w) = wk_consumer w"
  "wk_permits (update_execution k d w) = wk_permits w" "wk_tasks (update_execution k d w) = wk_tasks w"
  "wk_next (update_execution k d w) = wk_next w" "wk_has_ws (update_execution k d w) = wk_has_ws w"
  "wk_pushed (update_execution k d w) = wk_pushed w"
  by (simp_all add: update_execution_def split: option.split)

lemma persist_outcome_frame [frame_simps]:
  "wk_flows (persist_outcome f g e p r w) = wk_flows w" "wk_max_workers (persist_outcome f g e p r w) = wk_max_workers w"
  "wk_redis (persist_outcome f g e p r w) = wk_redis w" "wk_queue (persist_outcome f g e p r w) = wk_queue w"
  "wk_running (persist_outcome f g e p r w) = wk_running w" "wk_consumer (persist_outcome f g e p r w) = wk_consumer w"
  "wk_permits (persist_outcome f g e p r w) = wk_permits w" "wk_tasks (persist_outcome f g e p r w) = wk_tasks w"
  "wk_next (persist_outcome f g e p r w) = wk_next w"
  by (simp_all add: persist_outcome_def Let_def frame_simps split: sum.split)

lemma load_task_frame:
  assumes "load_task f now p w = (r, w')"
  shows "wk_flows w' = wk_flows w" "wk_max_workers w' = wk_max_workers w" "wk_redis w' = wk_redis w"
    "wk_queue w' = wk_queue w" "wk_running w' = wk_running w" "wk_consumer w' = wk_consumer w"
    "wk_permits w' = wk_permits w" "wk_tasks w' = wk_tasks w" "wk_next w' = wk_next w"
  using assms by (auto simp: load_task_def frame_simps split: option.splits)

lemma execute_task_frame [frame_simps]:
  "wk_flows (execute_task f g reg e p w) = wk_flows w" "wk_max_workers (execute_task f g reg e p w) = wk_max_workers w"
  "wk_redis (execute_task f g reg e p w) = wk_redis w" "wk_queue (execute_task f g reg e p w) = wk_queue w"
  "wk_running (execute_task f g reg e p w) = wk_running w" "wk_consumer (execute_task f g reg e p w) = wk_consumer w"
  "wk_permits (execute_task f g reg e p w) = wk_permits w" "wk_tasks (execute_task f g reg e p w) = wk_tasks w"
  "wk_next (execute_task f g reg e p w) = wk_next w"
  by (simp_all add: execute_task_def frame_simps load_task_frame split: prod.split option.split)

lemma end_task_frame [frame_simps]:
  "wk_flows (end_task n t w) = wk_flows w" "wk_max_workers (end_task n t w) = wk_max_workers w"
  "wk_redis (end_task n t w) = wk_redis w" "wk_queue (end_task n t w) = wk_queue w" "wk_running (end_task n t w) = wk_running w"
  "wk_consumer (end_task n t w) = wk_consumer w" "wk_next (end_task n t w) = wk_next w" "wk_execs (end_task n t w) = wk_execs w"
  "wk_tasks (end_task n t w) = AList.delete n (wk_tasks w)"
  "wk_permits (end_task n t w) = wk_permits w + (if tk_pooled t then 1 else 0)"
  by (simp_all add: end_task_def Let_def)

lemma recover_loop_frame [frame_simps]:
  "wk_flows (recover_loop f g reg env rs w) = wk_flows w"
  "wk_max_workers (recover_loop f g reg env rs w) = wk_max_workers w" "wk_redis (recover_loop f g reg env rs w) = wk_redis w"
  "wk_running (recover_loop f g reg env rs w) = wk_running w" "wk_consumer (recover_loop f g reg env rs w) = wk_consumer w"
  "wk_permits (recover_loop f g reg env rs w) = wk_permits w" "wk_tasks (recover_loop f g reg env rs w) = wk_tasks w"
  "wk_next (recover_loop f g reg env rs w) = wk_next w"
  by (induction rs arbitrary: w) (auto simp: frame_simps wk_enqueue_def split: option.split)

subsection \<open>The task table and the pool\<close>

lemma filter_delete_length:
  "wf_dict d \<Longrightarrow> map_of d n = Some t \<Longrightarrow>
    length (filter P d) = length (filter P (AList.delete n d)) + (if P (n, t) then 1 else 0)"
proof (induction d)
  case (Cons p d)
  obtain m u where p: "p = (m, u)" by fastforce
  show ?case
  proof (cases "m = n")
    case True
    with Cons.prems p have "AList.delete n d = d" "u = t" by (auto simp: wf_dict_def intro: delete_id)
    with True p show ?thesis by simp
  qed (use Cons p in \<open>auto simp: wf_dict_def\<close>)
qed simp

lemma filter_update_length:
  "wf_dict d \<Longrightarrow> map_of d n = Some t \<Longrightarrow> P (n, t) = P (n, u) \<Longrightarrow>
    length (filter P (AList.update n u d)) = length (filter P d)"
proof (induction d)
  case (Cons p d)
  obtain m v where p: "p = (m, v)" by fastforce
  show ?case by (cases "m = n") (use Cons p in \<open>auto simp: wf_dict_def\<close>)
qed simp

lemma pooled_delete:
  assumes "wk_tasks_ok w" and "map_of (wk_tasks w) n = Some t"
  shows "length (filter (\<lambda>(n, t). tk_pooled t) (AList.delete n (wk_tasks w))) + (if tk_pooled t then 1 else 0) = pooled_tasks w"
  using filter_delete_length [OF _ assms(2), of "\<lambda>(n, t). tk_pooled t"] assms(1)
  by (simp add: wk_tasks_ok_def pooled_tasks_def)

lemma tasks_ok_delete: "wf_dict d \<Longrightarrow> \<forall>k \<in> fst ` set d. k < m \<Longrightarrow> wf_dict (AList.delete n d) \<and> (\<forall>k \<in> fst ` set (AList.delete n d). k < m)"
  by (auto simp: set_delete_dict)

lemma spawn_tasks_ok: "wk_tasks_ok w \<Longrightarrow> wk_tasks_ok (spawn p b w)"
  by (auto simp: wk_tasks_ok_def spawn_def wf_dict_def)

lemma wk_tasks_ok_cong: "wk_tasks w' = wk_tasks w \<Longrightarrow> wk_next w' = wk_next w \<Longrightarrow> wk_tasks_ok w' = wk_tasks_ok w"
  by (simp add: wk_tasks_ok_def)

lemma submit_frame [frame_simps]:
  "wk_flows (submit f r tr ini w) = wk_flows w" "wk_max_workers (submit f r tr ini w) = wk_max_workers w"
  "wk_running (submit f r tr ini w) = wk_running w" "wk_consumer (submit f r tr ini w) = wk_consumer w"
  "wk_permits (submit f r tr ini w) = wk_permits w"
  by (simp_all add: submit_def wk_enqueue_def spawn_def Let_def split: option.split)

lemma submit_cases:
  obtains (queued) p where "tp_execution_id p = execution_id r" "wk_queue (submit f r tr ini w) = Item p # wk_queue w"
      "wk_tasks (submit f r tr ini w) = wk_tasks w" "wk_next (submit f r tr ini w) = wk_next w"
  | (inline) t where "tp_execution_id (tk_payload t) = execution_id r" "\<not> tk_pooled t" "wk_queue (submit f r tr ini w) = wk_queue w"
      "wk_tasks (submit f r tr ini w) = wk_tasks w @ [(wk_next w, t)]" "wk_next (submit f r tr ini w) = wk_next w + 1"
  by (cases "wk_redis w") (force simp: submit_def wk_enqueue_def spawn_def Let_def split: option.splits)+

lemma begin_task_cases:
  obtains (same) "begin_task f now n w = w"
  | (ended) t w1 where "map_of (wk_tasks w) n = Some t" "load_task f now (tk_payload t) w = (None, w1)"
      "begin_task f now n w = end_task n t w1"
  | (runs) t flow w1 where "map_of (wk_tasks w) n = Some t" "load_task f now (tk_payload t) w = (Some flow, w1)"
      "begin_task f now n w = w1\<lparr>wk_tasks := AList.update n (t\<lparr>tk_phase := Executing flow\<rparr>) (wk_tasks w1)\<rparr>"
proof (cases "map_of (wk_tasks w) n")
  case None
  then show thesis by (intro same) (simp add: begin_task_def)
next
  case (Some t)
  obtain r w1 where l: "load_task f now (tk_payload t) w = (r, w1)" by fastforce
  show thesis
  proof (cases "tk_phase t")
    case Created
    then show thesis by (cases r) (use Some l in \<open>auto intro: ended runs simp: begin_task_def\<close>)
  qed (use Some in \<open>auto intro: same simp: begin_task_def\<close>)
qed

lemma finish_task_cases:
  obtains (same) "finish_task f g reg e n w = w"
  | (ended) t flow where "map_of (wk_tasks w) n = Some t" "tk_phase t = Executing flow"
      "finish_task f g reg e n w = end_task n t (persist_outcome f g e (tk_payload t) (run_executor reg e (tk_payload t) flow) w)"
proof (cases "map_of (wk_tasks w) n")
  case None
  then show thesis by (intro same) (simp add: finish_task_def)
next
  case (Some t)
  then show thesis by (cases "tk_phase t") (auto intro: same ended simp: finish_task_def)
qed

lemma acquire_cases:
  obtains (same) "wk_acquire w = w"
  | (spawned) p where "wk_consumer w = Holding (Item p)" "wk_permits w > 0"
      "wk_acquire w = (spawn p True (w\<lparr>wk_permits := wk_permits w - 1, wk_consumer := Polling\<rparr>))\<lparr>wk_active_tasks :=
         AList.update (tp_execution_id p) (wk_next w) (wk_active_tasks w)\<rparr>"
  | (leaked) item where "wk_consumer w = Holding item" "item = BadText \<or> item = BadShape" "wk_permits w > 0"
      "wk_acquire w = w\<lparr>wk_permits := wk_permits w - 1, wk_consumer := Polling\<rparr>"
proof (cases "\<exists>item. wk_consumer w = Holding item \<and> wk_permits w > 0")
  case True
  then obtain item where i: "wk_consumer w = Holding item" "wk_permits w > 0" by blast
  show thesis
  proof (cases item)
    case (Item p)
    with i show thesis by (intro spawned) (auto simp: wk_acquire_def Let_def spawn_def)
  qed (use i in \<open>auto intro: leaked simp: wk_acquire_def Let_def\<close>)
qed (intro same, auto simp: wk_acquire_def split: consumer_state.split)

lemma poll_cases:
  obtains (same) "wk_poll w = w"
  | (dropped) q where "wk_queue w = q @ [BadText]" "wk_consumer w = Polling" "wk_poll w = w\<lparr>wk_queue := q\<rparr>"
  | (held) q item where "wk_queue w = q @ [item]" "wk_consumer w = Polling" "item \<noteq> BadText"
      "wk_poll w = w\<lparr>wk_queue := q, wk_consumer := Holding item\<rparr>"
proof (cases "wk_consumer w = Polling \<and> wk_queue w \<noteq> []")
  case True
  then have "wk_queue w = butlast (wk_queue w) @ [last (wk_queue w)]" by simp
  then obtain q item where q: "wk_queue w = q @ [item]" by blast
  show thesis
  proof (cases "item = BadText")
    case True
    with \<open>wk_consumer w = Polling \<and> wk_queue w \<noteq> []\<close> q show thesis by (intro dropped) (auto simp: wk_poll_def)
  next
    case False
    with True q show thesis by (intro held) (auto simp: wk_poll_def)
  qed
next
  case False
  then show thesis by (intro same) (auto simp: wk_poll_def)
qed

lemma execute_workflow_submits:
  "execute_workflow f xid now wid ini flows w = Inr (resp, w') \<Longrightarrow>
    w' = submit f (execution_result_init xid wid MANUAL now) ''manual'' ini w"
  by (auto simp: execute_workflow_def Let_def split: option.splits if_splits)

lemma scheduled_execute_submits:
  "scheduled_execute f xid now wid tr flows w = w
   \<or> (\<exists>r. scheduled_execute f xid now wid tr flows w = submit f r tr None w)"
  by (auto simp: scheduled_execute_def split: option.split)

lemma poll_clean:
  assumes "BadText \<notin> set (held_items (wk_consumer w))"
  shows "BadText \<notin> set (held_items (wk_consumer (wk_poll w)))"
  by (cases rule: poll_cases [where w = w]) (use assms in auto)

text \<open>The consumer never holds text that is not JSON, so in a clean run no permit is lost.\<close>

definition wk_pool_inv :: "bool \<Rightarrow> ('v, 'p, 'i) worker \<Rightarrow> bool" where
  "wk_pool_inv clean w \<longleftrightarrow> wk_tasks_ok w \<and> wk_pool_ok clean w \<and> BadText \<notin> set (held_items (wk_consumer w))"

lemmas pool_defs = wk_pool_inv_def wk_tasks_ok_def wk_pool_ok_def pooled_tasks_def

lemma submit_pool: "wk_pool_inv clean w \<Longrightarrow> wk_pool_inv clean (submit f r tr ini w)"
  by (cases rule: submit_cases [where r = r and f = f and tr = tr and ini = ini and w = w]) (auto simp: pool_defs frame_simps wf_dict_def)

lemma begin_pool:
  assumes "wk_pool_inv clean w"
  shows "wk_pool_inv clean (begin_task f now n w)"
proof (cases rule: begin_task_cases [where f = f and now = now and n = n and w = w])
  case (ended t w1)
  have ok: "wk_tasks_ok w" using assms by (simp add: wk_pool_inv_def)
  from ended assms show ?thesis
    using pooled_delete [OF ok ended(1)] tasks_ok_delete [of "wk_tasks w"]
    by (auto simp: pool_defs frame_simps load_task_frame [OF ended(2)])
next
  case (runs t flow w1)
  have "wf_dict (wk_tasks w)" using assms by (simp add: pool_defs)
  with runs assms show ?thesis
    using filter_update_length [OF _ runs(1), of "\<lambda>(n, t). tk_pooled t" "t\<lparr>tk_phase := Executing flow\<rparr>"]
    by (auto simp: pool_defs load_task_frame [OF runs(2)] set_update_dict dest!: map_of_SomeD)
qed (use assms in simp)

lemma finish_pool:
  assumes "wk_pool_inv clean w"
  shows "wk_pool_inv clean (finish_task f g reg e n w)"
proof (cases rule: finish_task_cases [where f = f and g = g and reg = reg and e = e and n = n and w = w])
  case (ended t flow)
  have ok: "wk_tasks_ok w" using assms by (simp add: wk_pool_inv_def)
  from ended assms show ?thesis
    using pooled_delete [OF ok ended(1)] tasks_ok_delete [of "wk_tasks w"]
    by (auto simp: pool_defs frame_simps)
qed (use assms in simp)

lemma acquire_pool:
  assumes "wk_pool_inv clean w"
  shows "wk_pool_inv clean (wk_acquire w)"
proof (cases rule: acquire_cases [where w = w])
  case (spawned p)
  with assms show ?thesis by (auto simp: pool_defs spawn_def wf_dict_def)
next
  case (leaked item)
  with assms show ?thesis by (auto simp: pool_defs)
qed (use assms in simp)

lemma poll_pool:
  assumes "wk_pool_inv clean w"
  shows "wk_pool_inv clean (wk_poll w)"
  by (cases rule: poll_cases [where w = w]) (use assms in \<open>auto simp: pool_defs\<close>)

lemma recover_queue:
  "\<exists>ps. wk_queue (recover_loop f g reg env rs w) = map Item ps @ wk_queue w"
proof (induction rs arbitrary: w)
  case (Cons r rs)
  show ?case
  proof (cases "recovery_payload r")
    case (Some p)
    from Cons [of "if wk_redis w then wk_enqueue p w else execute_task f g reg (env (tp_execution_id p)) p w"] obtain ps
      where "wk_queue (recover_loop f g reg env (r # rs) w) = map Item ps
        @ (if wk_redis w then [Item p] else []) @ wk_queue w"
      by (auto simp: Some wk_enqueue_def frame_simps split: if_splits)
    then show ?thesis by (intro exI [of _ "ps @ (if wk_redis w then [p] else [])"]) auto
  qed simp
qed simp

lemma start_pool:
  assumes "wk_pool_inv clean w" and "wk_tasks w = []"
  shows "wk_pool_inv clean (wk_start f g reg env up w)"
proof -
  from assms(1) have "clean \<Longrightarrow> BadShape \<notin> set (wk_queue w)" by (simp add: pool_defs)
  moreover obtain ps where "wk_queue (wk_start f g reg env up w) = map Item ps @ wk_queue w"
    using recover_queue [of f g reg env
      "stale_executions (w\<lparr>wk_redis := up, wk_running := True, wk_permits := wk_max_workers w\<rparr>)"
      "w\<lparr>wk_redis := up, wk_running := True, wk_permits := wk_max_workers w\<rparr>"]
    by (auto simp: wk_start_def Let_def)
  ultimately show ?thesis
    using assms by (auto simp: pool_defs wk_start_def Let_def frame_simps)
qed

lemma wk_step_pool:
  assumes "wk_step f g reg clean w w'" and "wk_pool_inv clean w"
  shows "wk_pool_inv clean w'"
  using assms
proof (cases rule: wk_step.cases)
  case (manual flows xid now wid ini resp)
  with assms(2) show ?thesis by (auto dest: execute_workflow_submits intro: submit_pool)
next
  case (scheduled flows xid now wid tr)
  with assms(2) scheduled_execute_submits [of f xid now wid tr flows w] show ?thesis by (auto intro: submit_pool)
next
  case foreign
  with assms(2) show ?thesis by (auto simp: pool_defs)
next
  case edit
  with assms(2) show ?thesis by (simp add: pool_defs)
next
  case forget
  with assms(2) show ?thesis by (simp add: pool_defs)
next
  case callback
  with assms(2) show ?thesis by (cases "wk_callbacks w") (simp_all add: pool_defs wk_callback_def)
next
  case stop
  with assms(2) show ?thesis by (simp add: pool_defs wk_stop_def)
next
  case exit
  with assms(2) show ?thesis by (simp add: pool_defs wk_exit_def wk_init_def)
qed (auto intro: submit_pool start_pool poll_pool acquire_pool begin_pool finish_pool)

lemma wk_reach_pool: "wk_reach f g reg clean w \<Longrightarrow> wk_pool_inv clean w"
proof (induction rule: wk_reach.induct)
  case (first mx ws)
  then show ?case by (simp add: pool_defs wk_init_def)
qed (rule wk_step_pool)

subsection \<open>Records and their status\<close>

definition repo_ok :: "'i exec_repo \<Rightarrow> bool" where
  "repo_ok repo \<longleftrightarrow> er_inv repo \<and> (\<forall>e \<in> snd ` set repo. record_ok e)"

text \<open>What the worker writes: a status, and never an identifier.\<close>

definition sets_status :: "string \<Rightarrow> 'i exec_record \<Rightarrow> bool" where
  "sets_status st d \<longleftrightarrow> wf_dict d \<and> \<not> dict_has d ''id'' \<and> \<not> dict_has d ''workflow_id'' \<and> map_of d ''status'' = Some (VText st)"

lemma written_records:
  "sets_status ''error'' (error_record f now msg)" "sets_status ''running'' [(''status'', VText ''running'')]"
  "sets_status (execution_status_value (status r)) (result_record f r)"
  by (simp_all add: sets_status_def error_record_def result_record_def wf_dict_def dict_has_def)

lemma is_live_merge: "sets_status st d \<Longrightarrow> is_live (dict_merge e d) \<longleftrightarrow> st = ''running'' \<or> st = ''pending''"
  by (simp add: is_live_def sets_status_def map_of_merge map_add_def)

lemma er_get_update:
  "er_get (snd (er_update k d repo)) j = (if j = k then map_option (\<lambda>e. dict_merge e d) (er_get repo k) else er_get repo j)"
  by (auto simp: er_get_def er_update_def Let_def map_of_update_dict split: option.split)

lemma live_ids_update:
  assumes "sets_status st d"
  shows "live_ids (snd (er_update k d repo))
    = (if (st = ''running'' \<or> st = ''pending'') \<and> er_get repo k \<noteq> None then insert k (live_ids repo) else live_ids repo - {k})"
  using is_live_merge [OF assms] by (auto simp: live_ids_def er_get_update)

lemma repo_ok_update:
  assumes "repo_ok repo" and "sets_status st d"
  shows "repo_ok (snd (er_update k d repo))"
proof -
  have ok: "er_op_ok (EUpdate k d)" using assms(2) by (simp add: sets_status_def)
  have inv: "er_inv (snd (er_update k d repo))"
    using er_step_refines(1) [OF _ ok] assms(1) by (simp add: repo_ok_def)
  have "record_ok e" if "e \<in> snd ` set (snd (er_update k d repo))" for e
  proof (cases "map_of repo k")
    case None
    with that assms(1) show ?thesis by (auto simp: er_update_def repo_ok_def)
  next
    case (Some old)
    have "record_ok old" using map_of_SomeD [OF Some] assms(1) by (force simp: repo_ok_def)
    then have "record_ok (dict_merge old d)"
      using assms(2) by (auto simp: sets_status_def record_ok_def map_of_merge_other)
    moreover have "wf_dict repo" using assms(1) by (simp add: repo_ok_def er_inv_def)
    ultimately show ?thesis
      using that assms(1) Some by (auto simp: er_update_def Let_def set_update_dict repo_ok_def)
  qed
  with inv show ?thesis by (simp add: repo_ok_def)
qed

lemma update_execution_repo:
  "wk_execs w = Some repo \<Longrightarrow> wk_execs (update_execution k d w) = Some (snd (er_update k d repo))"
  by (simp add: update_execution_def)

lemma load_task_repo:
  assumes "load_task f now p w = (r, w')" and "wk_flows w \<noteq> None" and "wk_execs w = Some repo" and "repo_ok repo"
  shows "\<exists>repo'. wk_execs w' = Some repo' \<and> repo_ok repo'
    \<and> live_ids repo' \<subseteq> (if r = None then live_ids repo - {tp_execution_id p} else insert (tp_execution_id p) (live_ids repo))"
  using assms
  by (auto simp: load_task_def update_execution_repo live_ids_update [OF written_records(1)]
      live_ids_update [OF written_records(2)] intro!: repo_ok_update written_records split: option.splits)

lemma execution_status_ended: "st \<in> {SUCCESS, ERROR, CANCELLED} \<Longrightarrow>
  execution_status_value st \<noteq> ''running'' \<and> execution_status_value st \<noteq> ''pending''"
  by auto

lemma persist_repo:
  assumes "wk_execs w = Some repo" and "repo_ok repo"
  shows "\<exists>repo'. wk_execs (persist_outcome f g e p (run_executor reg e p flow) w) = Some repo' \<and> repo_ok repo'
    \<and> live_ids repo' = live_ids repo - {tp_execution_id p}"
proof (cases "run_executor reg e p flow")
  case (Inl err)
  then show ?thesis
    using assms by (auto simp: persist_outcome_def update_execution_repo live_ids_update [OF written_records(1)]
        intro!: repo_ok_update written_records)
next
  case (Inr s)
  then have "status (xs_result s) \<in> {SUCCESS, ERROR, CANCELLED}"
    unfolding run_executor_def by (rule execute_terminal)
  note st = execution_status_ended [OF this]
  have "wk_execs (persist_outcome f g e p (run_executor reg e p flow) w)
    = Some (snd (er_update (tp_execution_id p) (result_record f (xs_result s)) repo))"
    using assms(1) by (simp add: Inr persist_outcome_def Let_def update_execution_repo)
  then show ?thesis
    using st assms(2) by (auto simp: live_ids_update [OF written_records(3)] intro!: repo_ok_update written_records)
qed

lemma execute_task_repo:
  assumes "wk_flows w \<noteq> None" and "wk_execs w = Some repo" and "repo_ok repo"
  shows "\<exists>repo'. wk_execs (execute_task f g reg e p w) = Some repo' \<and> repo_ok repo'
    \<and> live_ids repo' \<subseteq> live_ids repo - {tp_execution_id p}"
proof -
  obtain r w1 where l: "load_task f (re_now e) p w = (r, w1)" by fastforce
  from load_task_repo [OF l assms] obtain r1 where r1: "wk_execs w1 = Some r1" "repo_ok r1"
    "live_ids r1 \<subseteq> (if r = None then live_ids repo - {tp_execution_id p} else insert (tp_execution_id p) (live_ids repo))"
    by blast
  show ?thesis
  proof (cases r)
    case None
    with l r1 show ?thesis by (auto simp: execute_task_def)
  next
    case (Some flow)
    from persist_repo [OF r1(1,2), of f g e p reg flow] r1(3) Some show ?thesis
      by (auto simp: execute_task_def l)
  qed
qed

subsection \<open>Recovery\<close>

definition queued_ids :: "'i queue_item list \<Rightarrow> string set" where
  "queued_ids q = set (concat (map item_ids q))"

lemma queued_ids_simps [simp]:
  "queued_ids [] = {}" "queued_ids (x # q) = set (item_ids x) \<union> queued_ids q" "queued_ids (q @ q') = queued_ids q \<union> queued_ids q'"
  by (auto simp: queued_ids_def)

lemma in_progress_alt:
  "in_progress w = queued_ids (wk_queue w) \<union> queued_ids (held_items (wk_consumer w))
     \<union> (\<lambda>(n, t). tp_execution_id (tk_payload t)) ` set (wk_tasks w)"
  by (simp add: in_progress_def queued_ids_def)

lemma recovery_payload_ok: "er_ok e \<Longrightarrow> record_ok e \<Longrightarrow> \<exists>p. recovery_payload e = Some p \<and> tp_execution_id p = er_key e"
  by (auto simp: recovery_payload_def er_ok_def record_ok_def)

lemma recover_loop_repo:
  assumes "wk_flows w \<noteq> None" and "wk_execs w = Some repo" and "repo_ok repo" and "\<forall>r \<in> set rs. er_ok r \<and> record_ok r"
  shows "\<exists>repo'. wk_execs (recover_loop f g reg env rs w) = Some repo' \<and> repo_ok repo'
    \<and> live_ids repo' \<subseteq> live_ids repo
    \<and> er_key ` set rs \<inter> live_ids repo' \<subseteq> queued_ids (wk_queue (recover_loop f g reg env rs w))"
  using assms
proof (induction rs arbitrary: w repo)
  case (Cons r rs)
  from Cons.prems(4) obtain p where p: "recovery_payload r = Some p" "tp_execution_id p = er_key r"
    using recovery_payload_ok by fastforce
  have rs: "\<forall>r \<in> set rs. er_ok r \<and> record_ok r" using Cons.prems(4) by simp
  show ?case
  proof (cases "wk_redis w")
    case True
    let ?w = "wk_enqueue p w"
    have "wk_flows ?w \<noteq> None" "wk_execs ?w = Some repo" using Cons.prems True by (simp_all add: wk_enqueue_def)
    from Cons.IH [OF this Cons.prems(3) rs] obtain repo' where r':
      "wk_execs (recover_loop f g reg env rs ?w) = Some repo'" "repo_ok repo'" "live_ids repo' \<subseteq> live_ids repo"
      "er_key ` set rs \<inter> live_ids repo' \<subseteq> queued_ids (wk_queue (recover_loop f g reg env rs ?w))" by blast
    obtain ps where "wk_queue (recover_loop f g reg env rs ?w) = map Item ps @ Item p # wk_queue w"
      using recover_queue [of f g reg env rs ?w] True by (auto simp: wk_enqueue_def)
    then have "er_key r \<in> queued_ids (wk_queue (recover_loop f g reg env rs ?w))" by (simp add: p)
    with r' show ?thesis by (auto simp: p True)
  next
    case False
    let ?w = "execute_task f g reg (env (er_key r)) p w"
    from execute_task_repo [OF Cons.prems(1,2,3), of f g reg "env (er_key r)" p] obtain r1 where r1:
      "wk_execs ?w = Some r1" "repo_ok r1" "live_ids r1 \<subseteq> live_ids repo - {er_key r}" by (auto simp: p)
    have "wk_flows ?w \<noteq> None" using Cons.prems by (simp add: frame_simps)
    from Cons.IH [OF this r1(1,2) rs] obtain repo' where r': "wk_execs (recover_loop f g reg env rs ?w) = Some repo'"
      "repo_ok repo'" "live_ids repo' \<subseteq> live_ids r1"
      "er_key ` set rs \<inter> live_ids repo' \<subseteq> queued_ids (wk_queue (recover_loop f g reg env rs ?w))" by blast
    have "recover_loop f g reg env (r # rs) w = recover_loop f g reg env rs ?w" by (simp add: p False)
    moreover have "er_key r \<notin> live_ids repo'" "live_ids repo' \<subseteq> live_ids repo" using r'(3) r1(3) by blast+
    ultimately show ?thesis using r' by (intro exI [of _ repo']) auto
  qed
qed auto

lemma live_ids_stale:
  assumes "repo_ok repo"
  shows "live_ids repo \<subseteq> er_key ` set (filter is_live (map snd repo))"
proof
  fix k
  assume "k \<in> live_ids repo"
  then obtain e where e: "map_of repo k = Some e" "is_live e" by (auto simp: live_ids_def er_get_def)
  then have "(k, e) \<in> set repo" by (simp add: map_of_SomeD)
  moreover from this assms have "er_key e = k" by (auto simp: repo_ok_def er_inv_def)
  ultimately show "k \<in> er_key ` set (filter is_live (map snd repo))" using e(2) by force
qed

subsection \<open>No execution is lost\<close>

lemma wk_store_ok_alt:
  "wk_store_ok w \<longleftrightarrow> wk_flows w \<noteq> None \<and> (\<exists>repo. wk_execs w = Some repo \<and> repo_ok repo
     \<and> (wk_running w \<longrightarrow> live_ids repo \<subseteq> in_progress w))"
  by (auto simp: wk_store_ok_def repo_ok_def)

lemma wk_store_okI:
  assumes "wk_store_ok w" and "wk_flows w' = wk_flows w" and "wk_execs w' = wk_execs w"
    and "wk_running w' \<Longrightarrow> wk_running w \<and> in_progress w \<subseteq> in_progress w'"
  shows "wk_store_ok w'"
  using assms unfolding wk_store_ok_alt by fastforce

lemma start_store:
  assumes "wk_store_ok w"
  shows "wk_store_ok (wk_start f g reg env up w)"
proof -
  let ?w = "w\<lparr>wk_redis := up, wk_running := True, wk_permits := wk_max_workers w\<rparr>"
  from assms obtain repo where repo: "wk_execs w = Some repo" "repo_ok repo" "wk_flows w \<noteq> None"
    by (auto simp: wk_store_ok_alt)
  have st: "stale_executions ?w = filter is_live (map snd repo)" by (simp add: stale_executions_def repo)
  have ok: "\<forall>r \<in> set (stale_executions ?w). er_ok r \<and> record_ok r"
    using repo(2) by (auto simp: st repo_ok_def er_inv_def)
  have "wk_flows ?w \<noteq> None" "wk_execs ?w = Some repo" using repo by simp_all
  from recover_loop_repo [OF this repo(2) ok, of f g reg env] obtain repo' where r':
    "wk_execs (recover_loop f g reg env (stale_executions ?w) ?w) = Some repo'" "repo_ok repo'"
    "live_ids repo' \<subseteq> live_ids repo"
    "er_key ` set (stale_executions ?w) \<inter> live_ids repo' \<subseteq> queued_ids (wk_queue (recover_loop f g reg env (stale_executions ?w) ?w))"
    by blast
  with live_ids_stale [OF repo(2)] have
    "live_ids repo' \<subseteq> queued_ids (wk_queue (recover_loop f g reg env (stale_executions ?w) ?w))" unfolding st by blast
  with r' repo show ?thesis by (auto simp: wk_store_ok_alt wk_start_def Let_def frame_simps in_progress_alt)
qed

lemma created_record:
  "er_key (execution_to_dict f r) = execution_id r" "er_ok (execution_to_dict f r)" "record_ok (execution_to_dict f r)"
  by (simp_all add: er_key_def er_ok_def record_ok_def execution_to_dict_def)

lemma repo_ok_store:
  assumes "repo_ok repo"
  shows "repo_ok (er_store (execution_to_dict f r) repo)"
    and "live_ids (er_store (execution_to_dict f r) repo) \<subseteq> insert (execution_id r) (live_ids repo)"
proof -
  have inv: "er_inv repo" and wfd: "wf_dict repo" using assms by (simp_all add: repo_ok_def er_inv_def)
  have s: "er_store (execution_to_dict f r) repo = AList.update (execution_id r) (execution_to_dict f r) repo"
    by (simp add: er_store_def er_create_def execution_to_dict_def)
  show "repo_ok (er_store (execution_to_dict f r) repo)"
    using er.inv_store [OF inv created_record(2), of f r] assms created_record(3) [of f r] wfd
    by (auto simp: repo_ok_def s set_update_dict)
  show "live_ids (er_store (execution_to_dict f r) repo) \<subseteq> insert (execution_id r) (live_ids repo)"
    using er.lookup_store [OF inv created_record(2)] by (auto simp: live_ids_def created_record split: if_splits)
qed

lemma submit_store:
  assumes "wk_store_ok w"
  shows "wk_store_ok (submit f r tr ini w)"
proof -
  from assms obtain repo where repo: "wk_execs w = Some repo" "repo_ok repo" "wk_flows w \<noteq> None"
    and live: "wk_running w \<longrightarrow> live_ids repo \<subseteq> in_progress w" by (auto simp: wk_store_ok_alt)
  have e: "wk_execs (submit f r tr ini w) = Some (er_store (execution_to_dict f r) repo)"
    by (simp add: submit_def repo wk_enqueue_def spawn_def Let_def)
  have "insert (execution_id r) (in_progress w) \<subseteq> in_progress (submit f r tr ini w)"
    by (cases rule: submit_cases [where r = r and f = f and tr = tr and ini = ini and w = w])
      (auto simp: in_progress_alt frame_simps)
  with repo_ok_store [OF repo(2), of f r] live repo(3) show ?thesis
    by (auto simp: wk_store_ok_alt e frame_simps)
qed

lemma in_progress_end:
  "wf_dict (wk_tasks w) \<Longrightarrow> map_of (wk_tasks w) n = Some t \<Longrightarrow>
    in_progress w \<subseteq> insert (tp_execution_id (tk_payload t)) (in_progress (end_task n t w))"
  by (auto simp: in_progress_alt frame_simps set_delete_dict map_of_wf_in_set [symmetric] wf_dict_def dest: eq_key_imp_eq_value)

lemma end_task_store:
  assumes "map_of (wk_tasks w) n = Some t" and "wf_dict (wk_tasks w)" and "wk_flows w \<noteq> None" and "wk_execs w = Some repo"
    and "repo_ok repo" and "wk_running w \<longrightarrow> live_ids repo \<subseteq> in_progress w - {tp_execution_id (tk_payload t)}"
  shows "wk_store_ok (end_task n t w)"
  using in_progress_end [OF assms(2,1)] assms(3-6) by (auto simp: wk_store_ok_alt frame_simps)

lemma in_progress_cong:
  "wk_queue w' = wk_queue w \<Longrightarrow> wk_consumer w' = wk_consumer w \<Longrightarrow> wk_tasks w' = wk_tasks w \<Longrightarrow> in_progress w' = in_progress w"
  by (simp add: in_progress_def)

lemma begin_store:
  assumes "wk_store_ok w" and "wk_tasks_ok w"
  shows "wk_store_ok (begin_task f now n w)"
proof -
  from assms(1) obtain repo where repo: "wk_flows w \<noteq> None" "wk_execs w = Some repo" "repo_ok repo"
    and live: "wk_running w \<longrightarrow> live_ids repo \<subseteq> in_progress w" by (auto simp: wk_store_ok_alt)
  have wfd: "wf_dict (wk_tasks w)" using assms(2) by (simp add: wk_tasks_ok_def)
  show ?thesis
  proof (cases rule: begin_task_cases [where f = f and now = now and n = n and w = w])
    case (ended t w1)
    note fr = load_task_frame [OF ended(2)]
    from load_task_repo [OF ended(2) repo] obtain r1 where r1: "wk_execs w1 = Some r1" "repo_ok r1"
      "live_ids r1 \<subseteq> live_ids repo - {tp_execution_id (tk_payload t)}" by auto
    show ?thesis unfolding ended(3)
      by (rule end_task_store [where repo = r1]) (use ended r1 live repo wfd in \<open>auto simp: fr in_progress_cong [OF fr(4,6,8)]\<close>)
  next
    case (runs t flow w1)
    note fr = load_task_frame [OF runs(2)]
    from load_task_repo [OF runs(2) repo] obtain r1 where r1: "wk_execs w1 = Some r1" "repo_ok r1"
      "live_ids r1 \<subseteq> insert (tp_execution_id (tk_payload t)) (live_ids repo)" by auto
    have "u = t" if "(n, u) \<in> set (wk_tasks w)" for u
      using that runs(1) wfd by (simp add: map_of_wf_in_set)
    then have "in_progress w \<subseteq> in_progress (begin_task f now n w)" "tp_execution_id (tk_payload t) \<in> in_progress (begin_task f now n w)"
      using wfd by (auto simp: runs(3) in_progress_alt fr set_update_dict image_iff split_beta)
    with r1 live repo show ?thesis by (auto simp: wk_store_ok_alt runs(3) fr)
  qed (use assms in simp)
qed

lemma finish_store:
  assumes "wk_store_ok w" and "wk_tasks_ok w"
  shows "wk_store_ok (finish_task f g reg e n w)"
proof (cases rule: finish_task_cases [where f = f and g = g and reg = reg and e = e and n = n and w = w])
  case (ended t flow)
  let ?w = "persist_outcome f g e (tk_payload t) (run_executor reg e (tk_payload t) flow) w"
  from assms(1) obtain repo where repo: "wk_flows w \<noteq> None" "wk_execs w = Some repo" "repo_ok repo"
    and live: "wk_running w \<longrightarrow> live_ids repo \<subseteq> in_progress w" by (auto simp: wk_store_ok_alt)
  from persist_repo [OF repo(2,3)] obtain r1 where r1: "wk_execs ?w = Some r1" "repo_ok r1"
    "live_ids r1 = live_ids repo - {tp_execution_id (tk_payload t)}" by blast
  have "in_progress ?w = in_progress w" by (intro in_progress_cong) (simp_all add: frame_simps)
  then show ?thesis unfolding ended(3)
    by (intro end_task_store [where repo = r1])
      (use ended r1 live repo assms(2) in \<open>auto simp: frame_simps wk_tasks_ok_def\<close>)
qed (use assms in simp)

lemma acquire_store:
  assumes "wk_store_ok w"
  shows "wk_store_ok (wk_acquire w)"
proof (cases rule: acquire_cases [where w = w])
  case (spawned p)
  then show ?thesis by (intro wk_store_okI [OF assms]) (auto simp: spawn_def in_progress_alt)
next
  case (leaked item)
  then show ?thesis by (intro wk_store_okI [OF assms]) (auto simp: in_progress_alt)
qed (use assms in simp)

lemma poll_store:
  assumes "wk_store_ok w"
  shows "wk_store_ok (wk_poll w)"
proof (cases rule: poll_cases [where w = w])
  case (dropped q)
  then show ?thesis by (intro wk_store_okI [OF assms]) (auto simp: in_progress_alt)
next
  case (held q item)
  then show ?thesis by (intro wk_store_okI [OF assms]) (auto simp: in_progress_alt)
qed (use assms in simp)

lemma forget_store:
  assumes "wk_store_ok w" and "wk_execs w = Some repo"
  shows "wk_store_ok (w\<lparr>wk_execs := Some (snd (er_delete k repo))\<rparr>)"
proof -
  from assms have ok: "repo_ok repo" and live: "wk_running w \<longrightarrow> live_ids repo \<subseteq> in_progress w" and fl: "wk_flows w \<noteq> None"
    by (auto simp: wk_store_ok_alt)
  then have inv: "er_inv repo" by (simp add: repo_ok_def)
  have "repo_ok (snd (er_delete k repo))"
    using er.inv_remove [OF inv, of k] ok by (auto simp: repo_ok_def er_delete_def set_delete_dict)
  moreover have "live_ids (snd (er_delete k repo)) \<subseteq> live_ids repo"
    using er.lookup_remove [OF inv] by (auto simp: live_ids_def split: if_splits)
  ultimately show ?thesis using live fl by (auto simp: wk_store_ok_alt in_progress_def)
qed

lemma wk_step_store:
  assumes "wk_step f g reg clean w w'" and "wk_store_ok w" and "wk_tasks_ok w"
  shows "wk_store_ok w'"
  using assms(1)
proof (cases rule: wk_step.cases)
  case (manual flows xid now wid ini resp)
  with assms(2) show ?thesis by (auto dest: execute_workflow_submits intro: submit_store)
next
  case (scheduled flows xid now wid tr)
  with assms(2) scheduled_execute_submits [of f xid now wid tr flows w] show ?thesis by (auto intro: submit_store)
next
  case foreign
  with assms(2) show ?thesis by (auto intro!: wk_store_okI [OF assms(2)] simp: in_progress_alt)
next
  case edit
  with assms(2) show ?thesis by (auto simp: wk_store_ok_alt in_progress_def)
next
  case callback
  then show ?thesis
    by (cases "wk_callbacks w") (use assms(2) in \<open>auto intro!: wk_store_okI [OF assms(2)] simp: wk_callback_def in_progress_def\<close>)
next
  case stop
  then show ?thesis by (auto intro!: wk_store_okI [OF assms(2)] simp: wk_stop_def)
next
  case exit
  then show ?thesis by (auto intro!: wk_store_okI [OF assms(2)] simp: wk_exit_def wk_init_def)
qed (use assms(2,3) in \<open>auto intro: submit_store start_store poll_store acquire_store begin_store finish_store forget_store\<close>)

lemma wk_reach_store: "wk_reach f g reg clean w \<Longrightarrow> wk_store_ok w"
proof (induction rule: wk_reach.induct)
  case (first mx ws)
  then show ?case by (simp add: wk_store_ok_def wk_init_def er.inv_empty live_ids_def er_get_def)
next
  case (next_step w w')
  then show ?case using wk_reach_pool [OF next_step(1)] by (auto simp: wk_pool_inv_def intro: wk_step_store)
qed

subsection \<open>Findings\<close>

text \<open>The messages pushed to clients name the executor's own identifier, not the one of the queued execution.\<close>

lemma pushes_name_the_executor:
  assumes "wr_get flows (tp_workflow_id p) = Some flow" and "wk_flows w = Some flows" and "wk_has_ws w"
  shows "\<exists>new. wk_pushed (execute_task f g reg e p w) = wk_pushed w @ new
    \<and> (\<forall>m \<in> set new. ps_execution_id m = re_xid e \<and> ps_room m = ''execution:'' @ re_xid e
        \<and> ps_target m = ''workflow:'' @ tp_workflow_id p)"
proof (cases "run_executor reg e p flow")
  case (Inl err)
  then show ?thesis using assms by (auto simp: execute_task_def load_task_def persist_outcome_def frame_simps)
next
  case (Inr s)
  then have "notes_of (re_xid e) s" unfolding run_executor_def by (rule execute_notes)
  then have x: "x = re_xid e" if "Notify x nid st ex \<in> set (xs_notes s)" for x nid st ex
    using that by (auto simp: notes_of_def)
  have "ps_execution_id (status_push_of wid n) = re_xid e \<and> ps_room (status_push_of wid n) = ''execution:'' @ re_xid e
      \<and> ps_target (status_push_of wid n) = ''workflow:'' @ wid" if "n \<in> set (xs_notes s)" for n wid
  proof (cases n)
    case (Notify y nid st ex)
    with that x show ?thesis by auto
  qed
  moreover have "wk_pushed (execute_task f g reg e p w) = wk_pushed w @ map (status_push_of (tp_workflow_id p)) (xs_notes s)"
    using Inr assms by (simp add: execute_task_def load_task_def persist_outcome_def Let_def frame_simps)
  ultimately show ?thesis by auto
qed

text \<open>Items that are not objects use up the permits one by one; without a permit the consumer never moves again.\<close>

lemma bad_payload_leaks_permit:
  "wk_consumer w = Holding BadShape \<Longrightarrow> wk_permits w > 0
    \<Longrightarrow> wk_permits (wk_acquire w) + 1 = wk_permits w \<and> wk_tasks (wk_acquire w) = wk_tasks w"
  "wk_permits w = 0 \<Longrightarrow> wk_acquire w = w"
  by (auto simp: wk_acquire_def split: consumer_state.split)

text \<open>The in-process fallback ignores the limit on concurrent executions.\<close>

lemma in_process_ignores_limit:
  "\<not> wk_redis w \<Longrightarrow> length (wk_tasks (fold wk_enqueue ps w)) = length (wk_tasks w) + length ps
    \<and> wk_permits (fold wk_enqueue ps w) = wk_permits w"
  by (induction ps arbitrary: w) (auto simp: wk_enqueue_def spawn_def)

subsection \<open>What is written\<close>

lemma sets_status_wf: "sets_status st d \<Longrightarrow> wf_dict d"
  by (simp add: sets_status_def)

lemma map_of_merge_status:
  assumes "sets_status st d"
  shows "map_of (dict_merge (dict_merge e [(''status'', x)]) d) = map_of e ++ map_of d"
proof -
  have "map_of d ''status'' \<noteq> None" using assms by (simp add: sets_status_def)
  moreover have "map_of (dict_merge e [(''status'', x)]) = (map_of e)(''status'' \<mapsto> x)"
    by (simp add: dict_merge_def map_of_update_dict)
  ultimately show ?thesis
    by (auto simp: map_of_merge [OF sets_status_wf [OF assms]] map_add_def fun_eq_iff split: option.split)
qed

lemma executor_record:
  obtains st where "sets_status st (case run_executor reg e p flow of
      Inl err \<Rightarrow> error_record isof now (show_error err) | Inr s \<Rightarrow> result_record isof (xs_result s))"
    "st \<noteq> ''running''" "st \<noteq> ''pending''"
proof (cases "run_executor reg e p flow")
  case (Inl err)
  then show thesis by (intro that [of "''error''"]) (simp_all add: written_records)
next
  case (Inr s)
  then have "status (xs_result s) \<in> {SUCCESS, ERROR, CANCELLED}"
    unfolding run_executor_def by (rule execute_terminal)
  from execution_status_ended [OF this] Inr show thesis
    by (intro that [of "execution_status_value (status (xs_result s))"]) (simp_all add: written_records)
qed

section \<open>A run to evaluate\<close>

definition sample_flow :: "(unit, unit) workflow_record" where
  "sample_flow = \<lparr>wr_id = ''w1'', wr_name = ''flow'', wr_description = [], wr_nodes = sample_nodes, wr_edges = sample_edges,
     wr_viewport = (), wr_created_at = 0, wr_updated_at = 0\<rparr>"

definition sample_run_env :: run_env where
  "sample_run_env = \<lparr>re_env = sample_env, re_xid = ''x9'', re_now = 0\<rparr>"

definition sample_iso :: "clock \<Rightarrow> string" where
  "sample_iso t = ''2026-01-01T00:00:00''"

text \<open>A service with one workflow, started with Redis, after one request.\<close>

definition sample_idle :: "(unit, unit, nat) worker" where
  "sample_idle = wk_start sample_iso (\<lambda>_. []) sample_registry (\<lambda>_. sample_run_env) True
     ((wk_init (Some []) (Some []) 5 False [])\<lparr>wk_flows := Some (wr_step (WfCreate 0 ''w1'' ''flow'' [] sample_nodes sample_edges ()) [])\<rparr>)"

definition sample_busy :: "(unit, unit, nat) worker" where
  "sample_busy = submit sample_iso (execution_result_init ''e1'' ''w1'' WEBHOOK 0) ''webhook'' (Some [7]) sample_idle"

lemma sample_idle_reach: "wk_reach sample_iso (\<lambda>_. []) sample_registry clean sample_idle"
  unfolding sample_idle_def
  by (rule wk_reach.next_step [OF wk_reach.next_step [OF wk_reach.first wk_step.edit] wk_step.start])
    (simp_all add: wk_init_def)

lemma sample_busy_reach: "wk_reach sample_iso (\<lambda>_. []) sample_registry clean sample_busy"
  unfolding sample_busy_def
  by (rule wk_reach.next_step [OF sample_idle_reach wk_step.webhook])
    (simp add: sample_idle_def wk_start_def Let_def frame_simps)

lemma sample_busy_fields:
  "wk_running sample_busy" "wk_redis sample_busy" "wk_consumer sample_busy = Polling" "wk_permits sample_busy = 5"
  "wk_queue sample_busy = [Item \<lparr>tp_execution_id = ''e1'', tp_workflow_id = ''w1'', tp_trigger_type = ''webhook'', tp_initial_data = Some [7]\<rparr>]"
  "wk_flows sample_busy = Some [(''w1'', sample_flow)]" "wk_tasks sample_busy = []" "wk_max_workers sample_busy = 5"
  "wk_execs sample_busy = Some [(''e1'', execution_to_dict sample_iso (execution_result_init ''e1'' ''w1'' WEBHOOK 0))]"
  by (simp_all add: sample_busy_def sample_idle_def wk_start_def wk_init_def submit_def wk_enqueue_def stale_executions_def
      Let_def sample_flow_def wr_create_def execution_result_init_def er_store_def er_create_def execution_to_dict_def)

section \<open>Properties\<close>



text \<open>C26. The pool is bounded.  At most \<open>max_workers\<close> tasks started by the consumer run at any time, and as long as only the
  service writes to the Redis list every permit of a running worker is either free or held by such a task.
\<close>

theorem worker_pool_bounded:
  assumes "wk_reach isof show_error reg clean w"
  shows "pooled_tasks w \<le> wk_max_workers w
    \<and> (clean \<and> wk_running w \<longrightarrow> wk_permits w + pooled_tasks w = wk_max_workers w)"
  using wk_reach_pool [OF assms] by (auto simp: wk_pool_inv_def wk_pool_ok_def)

theorem worker_pool_bounded_witness:
  "pooled_tasks sample_busy \<le> 5 \<and> wk_permits sample_busy + pooled_tasks sample_busy = 5"
  using worker_pool_bounded [OF sample_busy_reach [of True]] by (simp add: sample_busy_fields)







end
