(* ===== verification/Ontology.thy ===== *)
theory Ontology
  imports Prelude "HOL-Library.List_Lexorder" "HOL-Library.Char_ord"
begin

text \<open>
  \<^verbatim>\<open>core/kg/ontology/core.py\<close>: definitions of object types, link types, actions, interfaces and functions, and the
  ontology that holds them.

  A runtime object (\<open>ObjectType\<close>, \<open>LinkType\<close>, \<open>Action\<close>, \<open>OntologyFunction\<close>) only wraps its definition and is
  identified with it.  Definitions are not changed after they were registered.  Values are JSON, and the texts of errors are
  constructors.  The type of a property and a cardinality are either a member of their enumeration or plain text, as in the
  code; the difference shows in the exports.
\<close>

section \<open>Definitions\<close>

datatype property_type = STRING | INTEGER | FLOAT | BOOLEAN | DATE | DATETIME | POINT | LIST_STRING | LIST_FLOAT | LIST_INTEGER

fun property_type_value :: "property_type \<Rightarrow> string" where
  "property_type_value STRING = ''STRING''"
| "property_type_value INTEGER = ''INTEGER''"
| "property_type_value FLOAT = ''FLOAT''"
| "property_type_value BOOLEAN = ''BOOLEAN''"
| "property_type_value DATE = ''DATE''"
| "property_type_value DATETIME = ''DATETIME''"
| "property_type_value POINT = ''POINT''"
| "property_type_value LIST_STRING = ''LIST<STRING>''"
| "property_type_value LIST_FLOAT = ''LIST<FLOAT>''"
| "property_type_value LIST_INTEGER = ''LIST<INTEGER>''"

fun property_type_name :: "property_type \<Rightarrow> string" where
  "property_type_name LIST_STRING = ''LIST_STRING''"
| "property_type_name LIST_FLOAT = ''LIST_FLOAT''"
| "property_type_name LIST_INTEGER = ''LIST_INTEGER''"
| "property_type_name t = property_type_value t"

datatype cardinality = ONE_TO_ONE | ONE_TO_MANY | MANY_TO_ONE | MANY_TO_MANY

fun cardinality_value :: "cardinality \<Rightarrow> string" where
  "cardinality_value ONE_TO_ONE = ''ONE_TO_ONE''"
| "cardinality_value ONE_TO_MANY = ''ONE_TO_MANY''"
| "cardinality_value MANY_TO_ONE = ''MANY_TO_ONE''"
| "cardinality_value MANY_TO_MANY = ''MANY_TO_MANY''"

datatype 'e name_or = Plain string | Member 'e

record property_definition =
  pd_type :: "property_type name_or"
  pd_required :: bool
  pd_primary_key :: bool
  pd_indexed :: bool
  pd_unique :: bool
  pd_default :: json
  pd_description :: "string option"
  pd_format :: "string option"
  pd_min_value :: "real option"
  pd_max_value :: "real option"
  pd_min_length :: "int option"
  pd_max_length :: "int option"
  pd_pattern :: "string option"
  pd_enum_values :: "string list option"

record object_type_definition =
  ot_name :: string
  ot_display_name :: "string option"
  ot_description :: "string option"
  ot_properties :: "(string, property_definition) dict"
  ot_interfaces :: "string list"
  ot_abstract :: bool
  ot_parent_type :: "string option"

record link_type_definition =
  lt_name :: string
  lt_from_type :: string
  lt_to_type :: string
  lt_cardinality :: "cardinality name_or"
  lt_description :: "string option"
  lt_properties :: "(string, property_definition) dict"
  lt_bidirectional :: bool
  lt_required :: bool

record action_definition =
  ac_name :: string
  ac_display_name :: "string option"
  ac_description :: "string option"
  ac_target_types :: "string list"
  ac_parameters :: "(string, property_definition) dict"
  ac_returns :: "string option"

record function_parameter =
  fp_name :: string
  fp_type :: string
  fp_required :: bool
  fp_default :: json
  fp_description :: "string option"

record function_definition =
  fd_name :: string
  fd_display_name :: "string option"
  fd_description :: "string option"
  fd_parameters :: "function_parameter list"
  fd_return_type :: string
  fd_category :: "string option"
  fd_tags :: "string list"
  fd_implementation :: "((string, json) dict \<Rightarrow> json) option"

record interface_definition =
  if_name :: string
  if_description :: "string option"
  if_properties :: "(string, property_definition) dict"

section \<open>Object types\<close>

text \<open>\<open>display_name or name\<close>: an empty text counts as none.\<close>

definition display_or :: "string option \<Rightarrow> string \<Rightarrow> string" where
  "display_or d n = (case d of None \<Rightarrow> n | Some s \<Rightarrow> if s = [] then n else s)"

definition implements_interface :: "object_type_definition \<Rightarrow> string \<Rightarrow> bool" where
  "implements_interface ot i \<longleftrightarrow> i \<in> set (ot_interfaces ot)"

definition get_property :: "object_type_definition \<Rightarrow> string \<Rightarrow> property_definition option" where
  "get_property ot n = map_of (ot_properties ot) n"

definition get_primary_key :: "object_type_definition \<Rightarrow> string option" where
  "get_primary_key ot = map_option fst (List.find (\<lambda>(n, p). pd_primary_key p) (ot_properties ot))"

definition get_required_properties :: "object_type_definition \<Rightarrow> string list" where
  "get_required_properties ot = map fst (filter (\<lambda>(n, p). pd_required p) (ot_properties ot))"

datatype data_error = MissingRequired string | NotInEnum string "string list" | TooShort string int | TooLong string int

text \<open>The three constraint checks on one value; empty enumerations and limits of 0 are not checked.\<close>

definition check_value :: "string \<Rightarrow> property_definition \<Rightarrow> json \<Rightarrow> data_error list" where
  "check_value n p v =
     (case pd_enum_values p of
        None \<Rightarrow> []
      | Some vs \<Rightarrow> if vs \<noteq> [] \<and> v \<notin> JStr ` set vs then [NotInEnum n vs] else [])
     @ (case (pd_min_length p, v) of
          (Some m, JStr s) \<Rightarrow> if m \<noteq> 0 \<and> int (length s) < m then [TooShort n m] else []
        | _ \<Rightarrow> [])
     @ (case (pd_max_length p, v) of
          (Some m, JStr s) \<Rightarrow> if m \<noteq> 0 \<and> int (length s) > m then [TooLong n m] else []
        | _ \<Rightarrow> [])"

definition validate_data :: "object_type_definition \<Rightarrow> (string, json) dict \<Rightarrow> bool \<times> data_error list" where
  "validate_data ot data =
     (let errors = map MissingRequired (filter (\<lambda>n. \<not> dict_has data n) (get_required_properties ot))
            @ concat (map (\<lambda>(n, v). case get_property ot n of None \<Rightarrow> [] | Some p \<Rightarrow> check_value n p v) data)
      in (errors = [], errors))"

definition opt_str :: "string option \<Rightarrow> json" where
  "opt_str s = (case s of None \<Rightarrow> JNull | Some t \<Rightarrow> JStr t)"

text \<open>\<open>str(prop.type.value if isinstance(prop.type, PropertyType) else prop.type)\<close>.\<close>

fun type_text :: "property_type name_or \<Rightarrow> string" where
  "type_text (Plain s) = s"
| "type_text (Member t) = property_type_value t"

definition object_type_to_dict :: "object_type_definition \<Rightarrow> json" where
  "object_type_to_dict ot = JObj
     [(''name'', JStr (ot_name ot)), (''displayName'', JStr (display_or (ot_display_name ot) (ot_name ot))),
      (''description'', opt_str (ot_description ot)),
      (''properties'', JObj (map (\<lambda>(n, p). (n, JObj
         [(''type'', JStr (type_text (pd_type p))), (''required'', JBool (pd_required p)),
          (''primaryKey'', JBool (pd_primary_key p)), (''indexed'', JBool (pd_indexed p)),
          (''unique'', JBool (pd_unique p)), (''description'', opt_str (pd_description p))])) (ot_properties ot))),
      (''interfaces'', JList (map JStr (ot_interfaces ot)))]"

section \<open>Link types\<close>

fun cardinality_text :: "cardinality name_or \<Rightarrow> string" where
  "cardinality_text (Plain s) = s"
| "cardinality_text (Member c) = cardinality_value c"

text \<open>\<open>str(prop.type)\<close>: for a member of the enumeration this is the class and the member, not its value.\<close>

fun type_str :: "property_type name_or \<Rightarrow> string" where
  "type_str (Plain s) = s"
| "type_str (Member t) = ''PropertyType.'' @ property_type_name t"

definition link_type_to_dict :: "link_type_definition \<Rightarrow> json" where
  "link_type_to_dict lt = JObj
     [(''name'', JStr (lt_name lt)), (''fromType'', JStr (lt_from_type lt)), (''toType'', JStr (lt_to_type lt)),
      (''cardinality'', JStr (cardinality_text (lt_cardinality lt))), (''description'', opt_str (lt_description lt)),
      (''properties'', JObj (map (\<lambda>(n, p). (n, JObj [(''type'', JStr (type_str (pd_type p))),
         (''required'', JBool (pd_required p))])) (lt_properties lt)))]"

section \<open>Functions and their registry\<close>

datatype ontology_error = AlreadyExists string string | DoesNotExist string | NotImplemented string

definition function_execute :: "function_definition \<Rightarrow> (string, json) dict \<Rightarrow> (ontology_error, json) res" where
  "function_execute fd args =
     (case fd_implementation fd of None \<Rightarrow> Inl (NotImplemented (fd_name fd)) | Some f \<Rightarrow> Inr (f args))"

definition function_to_dict :: "function_definition \<Rightarrow> json" where
  "function_to_dict fd = JObj
     [(''name'', JStr (fd_name fd)), (''displayName'', JStr (display_or (fd_display_name fd) (fd_name fd))),
      (''description'', opt_str (fd_description fd)),
      (''parameters'', JList (map (\<lambda>p. JObj [(''name'', JStr (fp_name p)), (''type'', JStr (fp_type p)),
         (''required'', JBool (fp_required p)), (''description'', opt_str (fp_description p))]) (fd_parameters fd))),
      (''returnType'', JStr (fd_return_type fd)), (''category'', opt_str (fd_category fd)),
      (''tags'', JList (map JStr (fd_tags fd)))]"

type_synonym function_registry = "(string, function_definition) dict"

definition fr_register :: "function_definition \<Rightarrow> function_registry \<Rightarrow> (ontology_error, function_registry) res" where
  "fr_register fd r =
     (if dict_has r (fd_name fd) then Inl (AlreadyExists ''Function'' (fd_name fd))
      else Inr (AList.update (fd_name fd) fd r))"

definition fr_get :: "function_registry \<Rightarrow> string \<Rightarrow> function_definition option" where
  "fr_get r n = map_of r n"

definition fr_has :: "function_registry \<Rightarrow> string \<Rightarrow> bool" where
  "fr_has r n \<longleftrightarrow> dict_has r n"

definition fr_remove :: "string \<Rightarrow> function_registry \<Rightarrow> bool \<times> function_registry" where
  "fr_remove n r = (if dict_has r n then (True, AList.delete n r) else (False, r))"

definition fr_get_all :: "function_registry \<Rightarrow> function_definition list" where
  "fr_get_all r = map snd r"

definition fr_get_by_category :: "string \<Rightarrow> function_registry \<Rightarrow> function_definition list" where
  "fr_get_by_category c r = filter (\<lambda>f. fd_category f = Some c) (map snd r)"

definition fr_get_by_tag :: "string \<Rightarrow> function_registry \<Rightarrow> function_definition list" where
  "fr_get_by_tag t r = filter (\<lambda>f. t \<in> set (fd_tags f)) (map snd r)"

definition fr_get_categories :: "function_registry \<Rightarrow> string list" where
  "fr_get_categories r = sort (remdups (concat (map (\<lambda>f. case fd_category f of
     None \<Rightarrow> [] | Some c \<Rightarrow> if c = [] then [] else [c]) (map snd r))))"

definition fr_get_tags :: "function_registry \<Rightarrow> string list" where
  "fr_get_tags r = sort (remdups (concat (map fd_tags (map snd r))))"

text \<open>\<^verbatim>\<open>p in s\<close> on texts.\<close>

fun py_in :: "string \<Rightarrow> string \<Rightarrow> bool" where
  "py_in p [] = (p = [])"
| "py_in p (c # s) = (take (length p) (c # s) = p \<or> py_in p s)"

definition fr_search :: "string \<Rightarrow> function_registry \<Rightarrow> function_definition list" where
  "fr_search query r =
     (let q = py_lower query in
      filter (\<lambda>f. py_in q (py_lower (fd_name f))
        \<or> (let d = display_or (fd_display_name f) (fd_name f) in d \<noteq> [] \<and> py_in q (py_lower d))
        \<or> (case fd_description f of None \<Rightarrow> False | Some d \<Rightarrow> d \<noteq> [] \<and> py_in q (py_lower d))) (map snd r))"

definition fr_export_all :: "function_registry \<Rightarrow> json list" where
  "fr_export_all r = map (\<lambda>(n, f). function_to_dict f) r"

section \<open>The ontology\<close>

record ontology =
  on_name :: string
  on_object_types :: "(string, object_type_definition) dict"
  on_link_types :: "(string, link_type_definition) dict"
  on_actions :: "(string, action_definition) dict"
  on_interfaces :: "(string, interface_definition) dict"
  on_functions :: function_registry

definition on_init :: "string \<Rightarrow> ontology" where
  "on_init n = \<lparr>on_name = n, on_object_types = [], on_link_types = [], on_actions = [], on_interfaces = [], on_functions = []\<rparr>"

definition define_object_type :: "object_type_definition \<Rightarrow> ontology \<Rightarrow> (ontology_error, ontology) res" where
  "define_object_type d ont =
     (if dict_has (on_object_types ont) (ot_name d) then Inl (AlreadyExists ''ObjectType'' (ot_name d))
      else Inr (ont\<lparr>on_object_types := AList.update (ot_name d) d (on_object_types ont)\<rparr>))"

definition get_object_type :: "ontology \<Rightarrow> string \<Rightarrow> object_type_definition option" where
  "get_object_type ont n = map_of (on_object_types ont) n"

definition get_all_object_types :: "ontology \<Rightarrow> object_type_definition list" where
  "get_all_object_types ont = map snd (on_object_types ont)"

definition get_object_types_by_interface :: "ontology \<Rightarrow> string \<Rightarrow> object_type_definition list" where
  "get_object_types_by_interface ont i = filter (\<lambda>ot. implements_interface ot i) (map snd (on_object_types ont))"

definition define_link_type :: "link_type_definition \<Rightarrow> ontology \<Rightarrow> (ontology_error, ontology) res" where
  "define_link_type d ont =
     (if dict_has (on_link_types ont) (lt_name d) then Inl (AlreadyExists ''LinkType'' (lt_name d))
      else if \<not> dict_has (on_object_types ont) (lt_from_type d) then Inl (DoesNotExist (lt_from_type d))
      else if \<not> dict_has (on_object_types ont) (lt_to_type d) then Inl (DoesNotExist (lt_to_type d))
      else Inr (ont\<lparr>on_link_types := AList.update (lt_name d) d (on_link_types ont)\<rparr>))"

definition get_link_type :: "ontology \<Rightarrow> string \<Rightarrow> link_type_definition option" where
  "get_link_type ont n = map_of (on_link_types ont) n"

definition get_all_link_types :: "ontology \<Rightarrow> link_type_definition list" where
  "get_all_link_types ont = map snd (on_link_types ont)"

definition get_link_types_for_object :: "ontology \<Rightarrow> string \<Rightarrow> link_type_definition list \<times> link_type_definition list" where
  "get_link_types_for_object ont n =
     (filter (\<lambda>lt. lt_from_type lt = n) (map snd (on_link_types ont)),
      filter (\<lambda>lt. lt_to_type lt = n) (map snd (on_link_types ont)))"

definition define_action :: "action_definition \<Rightarrow> ontology \<Rightarrow> (ontology_error, ontology) res" where
  "define_action d ont =
     (if dict_has (on_actions ont) (ac_name d) then Inl (AlreadyExists ''Action'' (ac_name d))
      else Inr (ont\<lparr>on_actions := AList.update (ac_name d) d (on_actions ont)\<rparr>))"

definition define_interface :: "interface_definition \<Rightarrow> ontology \<Rightarrow> (ontology_error, ontology) res" where
  "define_interface d ont =
     (if dict_has (on_interfaces ont) (if_name d) then Inl (AlreadyExists ''Interface'' (if_name d))
      else Inr (ont\<lparr>on_interfaces := AList.update (if_name d) d (on_interfaces ont)\<rparr>))"

definition define_function :: "function_definition \<Rightarrow> ontology \<Rightarrow> (ontology_error, ontology) res" where
  "define_function d ont =
     (case fr_register d (on_functions ont) of Inl e \<Rightarrow> Inl e | Inr r \<Rightarrow> Inr (ont\<lparr>on_functions := r\<rparr>))"

datatype schema_error = UnknownEndpoint string string | UnknownInterface string string

definition on_validate :: "ontology \<Rightarrow> bool \<times> schema_error list" where
  "on_validate ont =
     (let errors =
        concat (map (\<lambda>(k, lt).
          (if \<not> dict_has (on_object_types ont) (lt_from_type lt) then [UnknownEndpoint (lt_name lt) (lt_from_type lt)] else [])
          @ (if \<not> dict_has (on_object_types ont) (lt_to_type lt) then [UnknownEndpoint (lt_name lt) (lt_to_type lt)] else []))
          (on_link_types ont))
        @ concat (map (\<lambda>(k, ot). map (UnknownInterface (ot_name ot))
            (filter (\<lambda>i. \<not> dict_has (on_interfaces ont) i) (ot_interfaces ot))) (on_object_types ont))
      in (errors = [], errors))"

definition get_schema_summary :: "ontology \<Rightarrow> string" where
  "get_schema_summary ont =
     join_with [CHR 0x0A]
       ([''Ontology: '' @ on_name ont, [], ''ObjectTypes ('' @ nat_str (length (on_object_types ont)) @ ''):'']
        @ map (\<lambda>(k, ot). ''  - '' @ ot_name ot @ '': '' @ join_with '', '' (map fst (ot_properties ot))) (on_object_types ont)
        @ [[], ''LinkTypes ('' @ nat_str (length (on_link_types ont)) @ ''):'']
        @ map (\<lambda>(k, lt). ''  - ('' @ lt_from_type lt @ '')-[:'' @ lt_name lt @ '']->('' @ lt_to_type lt @ '')'')
            (on_link_types ont))"

section \<open>Registering definitions\<close>

text \<open>
  The five \<open>define\<close> methods share one contract: a name can be used once, and a new definition goes to the end of its
  dictionary.  The ontology keeps what was registered because no later call can replace it.
\<close>

definition keyed :: "('d \<Rightarrow> string) \<Rightarrow> (string, 'd) dict \<Rightarrow> bool" where
  "keyed name d \<longleftrightarrow> wf_dict d \<and> (\<forall>(k, x) \<in> set d. name x = k)"

locale definition_registry =
  fixes name :: "'d \<Rightarrow> string" and entries :: "'o \<Rightarrow> (string, 'd) dict" and add :: "'d \<Rightarrow> 'o \<Rightarrow> (ontology_error, 'o) res"
  assumes used: "dict_has (entries ont) (name d) \<Longrightarrow> \<exists>e. add d ont = Inl e"
    and added: "add d ont = Inr ont' \<Longrightarrow> entries ont' = entries ont @ [(name d, d)]"
begin

lemma fresh: "add d ont = Inr ont' \<Longrightarrow> \<not> dict_has (entries ont) (name d)"
  using used by force

lemma keyed_add: "keyed name (entries ont) \<Longrightarrow> add d ont = Inr ont' \<Longrightarrow> keyed name (entries ont')"
  by (auto simp: keyed_def added dest: fresh intro: wf_dict_append_single)

lemma lookup_add: "add d ont = Inr ont' \<Longrightarrow> map_of (entries ont') = (map_of (entries ont))(name d \<mapsto> d)"
  using fresh [of d ont ont'] by (auto simp: added dict_has_map_of map_add_def fun_eq_iff split: option.split)

lemma has_add: "add d ont = Inr ont' \<Longrightarrow> dict_has (entries ont') n \<longleftrightarrow> n = name d \<or> dict_has (entries ont) n"
  by (auto simp: dict_has_map_of lookup_add)

end

interpretation ot: definition_registry ot_name on_object_types define_object_type
  by unfold_locales (auto simp: define_object_type_def update_absent split: if_splits)

interpretation lt: definition_registry lt_name on_link_types define_link_type
  by unfold_locales (auto simp: define_link_type_def update_absent split: if_splits)

interpretation ac: definition_registry ac_name on_actions define_action
  by unfold_locales (auto simp: define_action_def update_absent split: if_splits)

interpretation ifc: definition_registry if_name on_interfaces define_interface
  by unfold_locales (auto simp: define_interface_def update_absent split: if_splits)

interpretation fn: definition_registry fd_name on_functions define_function
  by unfold_locales (auto simp: define_function_def fr_register_def update_absent split: if_splits)

section \<open>Reachable ontologies\<close>

inductive on_reach :: "ontology \<Rightarrow> bool" where
  empty: "on_reach (on_init n)"
| object_type: "on_reach ont \<Longrightarrow> define_object_type d ont = Inr ont' \<Longrightarrow> on_reach ont'"
| link_type: "on_reach ont \<Longrightarrow> define_link_type ld ont = Inr ont' \<Longrightarrow> on_reach ont'"
| action: "on_reach ont \<Longrightarrow> define_action ad ont = Inr ont' \<Longrightarrow> on_reach ont'"
| interf: "on_reach ont \<Longrightarrow> define_interface i ont = Inr ont' \<Longrightarrow> on_reach ont'"
| func: "on_reach ont \<Longrightarrow> define_function f ont = Inr ont' \<Longrightarrow> on_reach ont'"
| func_removed: "on_reach ont \<Longrightarrow> on_reach (ont\<lparr>on_functions := snd (fr_remove n (on_functions ont))\<rparr>)"

definition on_inv :: "ontology \<Rightarrow> bool" where
  "on_inv ont \<longleftrightarrow> keyed ot_name (on_object_types ont) \<and> keyed lt_name (on_link_types ont) \<and> keyed ac_name (on_actions ont)
     \<and> keyed if_name (on_interfaces ont) \<and> keyed fd_name (on_functions ont)
     \<and> (\<forall>(k, lt) \<in> set (on_link_types ont). dict_has (on_object_types ont) (lt_from_type lt)
          \<and> dict_has (on_object_types ont) (lt_to_type lt))"

lemma define_frame:
  "define_object_type d ont = Inr ont' \<Longrightarrow> on_link_types ont' = on_link_types ont \<and> on_actions ont' = on_actions ont
     \<and> on_interfaces ont' = on_interfaces ont \<and> on_functions ont' = on_functions ont"
  "define_link_type ld ont = Inr ont' \<Longrightarrow> on_object_types ont' = on_object_types ont \<and> on_actions ont' = on_actions ont
     \<and> on_interfaces ont' = on_interfaces ont \<and> on_functions ont' = on_functions ont"
  "define_action ad ont = Inr ont' \<Longrightarrow> on_object_types ont' = on_object_types ont \<and> on_link_types ont' = on_link_types ont
     \<and> on_interfaces ont' = on_interfaces ont \<and> on_functions ont' = on_functions ont"
  "define_interface i ont = Inr ont' \<Longrightarrow> on_object_types ont' = on_object_types ont \<and> on_link_types ont' = on_link_types ont
     \<and> on_actions ont' = on_actions ont \<and> on_functions ont' = on_functions ont"
  "define_function f ont = Inr ont' \<Longrightarrow> on_object_types ont' = on_object_types ont \<and> on_link_types ont' = on_link_types ont
     \<and> on_actions ont' = on_actions ont \<and> on_interfaces ont' = on_interfaces ont"
  by (auto simp: define_object_type_def define_link_type_def define_action_def define_interface_def define_function_def
      split: if_splits sum.splits)

lemma define_link_type_endpoints:
  "define_link_type ld ont = Inr ont' \<Longrightarrow>
    dict_has (on_object_types ont) (lt_from_type ld) \<and> dict_has (on_object_types ont) (lt_to_type ld)"
  by (auto simp: define_link_type_def split: if_splits)

lemma keyed_delete: "keyed name d \<Longrightarrow> keyed name (AList.delete n d)"
  by (auto simp: keyed_def set_delete_dict)

lemma on_reach_inv: "on_reach ont \<Longrightarrow> on_inv ont"
proof (induction rule: on_reach.induct)
  case (object_type ont d ont')
  then show ?case using define_frame(1) [OF object_type(2)] ot.has_add [OF object_type(2)] ot.keyed_add [OF _ object_type(2)]
    by (auto simp: on_inv_def)
next
  case (link_type ont ld ont')
  then show ?case
    using define_frame(2) [OF link_type(2)] define_link_type_endpoints [OF link_type(2)] lt.keyed_add [OF _ link_type(2)]
      lt.added [OF link_type(2)] by (auto simp: on_inv_def)
next
  case (action ont ad ont')
  then show ?case using define_frame(3) [OF action(2)] ac.keyed_add [OF _ action(2)] by (auto simp: on_inv_def)
next
  case (interf ont i ont')
  then show ?case using define_frame(4) [OF interf(2)] ifc.keyed_add [OF _ interf(2)] by (auto simp: on_inv_def)
next
  case (func ont f ont')
  then show ?case using define_frame(5) [OF func(2)] fn.keyed_add [OF _ func(2)] by (auto simp: on_inv_def)
next
  case (func_removed ont n)
  then show ?case by (auto simp: on_inv_def fr_remove_def keyed_delete)
qed (simp add: on_inv_def on_init_def keyed_def)

lemma keyed_lookup: "keyed name d \<Longrightarrow> map_of d n = Some x \<Longrightarrow> name x = n"
  by (auto simp: keyed_def dest: map_of_SomeD)

text \<open>An enumeration member is exported by its value for object types and by its Python name for link types.\<close>

lemma exports_disagree: "type_text (Member t) \<noteq> type_str (Member t)"
  by (cases t) simp_all

section \<open>Properties\<close>


definition sample_object_type :: "string \<Rightarrow> string list \<Rightarrow> object_type_definition" where
  "sample_object_type n ifs = \<lparr>ot_name = n, ot_display_name = None, ot_description = None, ot_properties = [], ot_interfaces = ifs,
     ot_abstract = False, ot_parent_type = None\<rparr>"


end
