(* ===== verification/Cypher_Check.thy ===== *)
theory Cypher_Check
  imports Ontology
begin

text \<open>
  \<^verbatim>\<open>core/kg/cypher_validator.py\<close> and \<^verbatim>\<open>core/kg/cypher_corrector.py\<close>: checking a Cypher text against the ontology and
  repairing the spelling of labels and relationship types.

  The regular expressions of the code are scanners here.  None of them needs to back up: at every point the next character
  decides which part of the pattern continues.  \<open>scan\<close> cuts a text into single characters and references such as
  \<^verbatim>\<open>(v:Vessel)\<close> or \<^verbatim>\<open>[r:DOCKED_AT]\<close>, in the order in which \<^verbatim>\<open>findall\<close> and \<^verbatim>\<open>sub\<close> find them; putting the pieces
  together again gives the text.  Messages are constructors.  A set of names is a list in the order of its iteration, which only
  matters when two names differ in case alone.
\<close>

section \<open>References\<close>

text \<open>\<open>Ref pre w1 name w2\<close> is the opening bracket, \<open>pre\<close> (the alias with blanks around it), a colon, blanks \<open>w1\<close>, the name,
  blanks \<open>w2\<close> and the closing bracket.\<close>

datatype seg = Txt char | Ref string string string string

definition is_ident :: "string \<Rightarrow> bool" where
  "is_ident n \<longleftrightarrow> n \<noteq> [] \<and> (is_letter (hd n) \<or> hd n = CHR ''_'') \<and> list_all is_word n"

text \<open>The pattern after its opening bracket: \<open>pre\<close>, \<open>w1\<close>, name, \<open>w2\<close> and the text behind the closing bracket.  The name is a run of
  word characters that satisfies \<open>ok\<close>.\<close>

definition scan_ref_with :: "(string \<Rightarrow> bool) \<Rightarrow> char \<Rightarrow> string \<Rightarrow> (string \<times> string \<times> string \<times> string \<times> string) option" where
  "scan_ref_with ok cl r =
     (let p1 = takeWhile py_isspace r; r1 = dropWhile py_isspace r;
          a = takeWhile is_word r1; r2 = dropWhile is_word r1;
          p2 = takeWhile py_isspace r2; r3 = dropWhile py_isspace r2 in
      case r3 of
        [] \<Rightarrow> None
      | c # r4 \<Rightarrow>
          if c \<noteq> CHR '':'' then None
          else (let w1 = takeWhile py_isspace r4; r5 = dropWhile py_isspace r4;
                    n = takeWhile is_word r5; r6 = dropWhile is_word r5;
                    w2 = takeWhile py_isspace r6; r7 = dropWhile py_isspace r6 in
                if \<not> ok n then None
                else (case r7 of
                        [] \<Rightarrow> None
                      | d # r8 \<Rightarrow> if d = cl then Some (p1 @ a @ p2, w1, n, w2, r8) else None)))"

definition scan_ref :: "char \<Rightarrow> string \<Rightarrow> (string \<times> string \<times> string \<times> string \<times> string) option" where
  "scan_ref cl r = scan_ref_with is_ident cl r"

lemma dropWhile_Cons_length: "dropWhile P xs = y # ys \<Longrightarrow> length ys < length xs"
  using length_dropWhile_le [of P xs] by simp

lemma scan_ref_with_length: "scan_ref_with ok cl r = Some (p, w1, n, w2, rest) \<Longrightarrow> length rest < length r"
proof -
  assume a: "scan_ref_with ok cl r = Some (p, w1, n, w2, rest)"
  define r2 where "r2 = dropWhile is_word (dropWhile py_isspace r)"
  from a obtain r4 where r4: "dropWhile py_isspace r2 = CHR '':'' # r4"
    and b: "dropWhile py_isspace (dropWhile is_word (dropWhile py_isspace r4)) = cl # rest"
    by (auto simp: scan_ref_with_def Let_def r2_def split: list.splits if_splits)
  have "length r4 < length r2" using r4 by (rule dropWhile_Cons_length)
  also have "length r2 \<le> length r"
    unfolding r2_def using length_dropWhile_le [of is_word "dropWhile py_isspace r"] length_dropWhile_le [of py_isspace r] by linarith
  finally have "length r4 < length r" .
  moreover have "length rest < length (dropWhile is_word (dropWhile py_isspace r4))" using b by (rule dropWhile_Cons_length)
  moreover have "length (dropWhile is_word (dropWhile py_isspace r4)) \<le> length r4"
    using length_dropWhile_le [of is_word "dropWhile py_isspace r4"] length_dropWhile_le [of py_isspace r4] by linarith
  ultimately show ?thesis by linarith
qed

lemma scan_ref_length: "scan_ref cl r = Some (p, w1, n, w2, rest) \<Longrightarrow> length rest < length r"
  unfolding scan_ref_def by (rule scan_ref_with_length)

function scan :: "char \<Rightarrow> char \<Rightarrow> string \<Rightarrow> seg list" where
  "scan op cl [] = []"
| "scan op cl (c # r) =
     (if c \<noteq> op then Txt c # scan op cl r
      else (case scan_ref cl r of
              None \<Rightarrow> Txt c # scan op cl r
            | Some (p, w1, n, w2, rest) \<Rightarrow> Ref p w1 n w2 # scan op cl rest))"
  by pat_completeness auto
termination
  by (relation "measure (\<lambda>(op, cl, s). length s)") (auto dest: scan_ref_length)

fun seg_text :: "char \<Rightarrow> char \<Rightarrow> seg \<Rightarrow> string" where
  "seg_text op cl (Txt c) = [c]"
| "seg_text op cl (Ref p w1 n w2) = op # p @ CHR '':'' # w1 @ n @ w2 @ [cl]"

definition unscan :: "char \<Rightarrow> char \<Rightarrow> seg list \<Rightarrow> string" where
  "unscan op cl segs = concat (map (seg_text op cl) segs)"

fun seg_name :: "seg \<Rightarrow> string list" where
  "seg_name (Txt c) = []"
| "seg_name (Ref p w1 n w2) = [n]"

definition names :: "char \<Rightarrow> char \<Rightarrow> string \<Rightarrow> string list" where
  "names op cl s = concat (map seg_name (scan op cl s))"

text \<open>\<open>_LABEL_PATTERN.findall\<close> and \<open>_REL_PATTERN.findall\<close>.\<close>

definition find_labels :: "string \<Rightarrow> string list" where
  "find_labels s = names CHR ''('' CHR '')'' s"

definition find_rel_types :: "string \<Rightarrow> string list" where
  "find_rel_types s = names CHR ''['' CHR '']'' s"

section \<open>Words\<close>

text \<open>The maximal runs of word characters; \<^verbatim>\<open>\bMATCH\b\<close> without regard to case is one of them.\<close>

fun word_runs :: "string \<Rightarrow> string \<Rightarrow> string list" where
  "word_runs cur [] = (if cur = [] then [] else [rev cur])"
| "word_runs cur (c # cs) =
     (if is_word c then word_runs (c # cur) cs else (if cur = [] then [] else [rev cur]) @ word_runs [] cs)"

definition has_keyword :: "string \<Rightarrow> string \<Rightarrow> bool" where
  "has_keyword kw s \<longleftrightarrow> kw \<in> set (map py_upper (word_runs [] s))"

text \<open>\<^verbatim>\<open>\b\w+\.(\w+)\b\<close>: the run before and the run behind a dot; a run is used once.\<close>

function property_pairs :: "string \<Rightarrow> (string \<times> string) list" where
  "property_pairs s =
     (case dropWhile (\<lambda>c. \<not> is_word c) s of
        [] \<Rightarrow> []
      | c # r \<Rightarrow>
          (let rest = dropWhile is_word (c # r) in
           case rest of
             [] \<Rightarrow> []
           | d # r2 \<Rightarrow>
               (let n = takeWhile is_word r2 in
                if d = CHR ''.'' \<and> n \<noteq> [] then (takeWhile is_word (c # r), n) # property_pairs (dropWhile is_word r2) else property_pairs rest)))"
  by pat_completeness auto
termination
proof (relation "measure length", goal_cases)
  case (2 s c r rest d r2 n)
  have "length (dropWhile is_word r2) \<le> length r2" by (rule length_dropWhile_le)
  moreover have "length r2 < length (c # r)" using 2(2,3) dropWhile_Cons_length [of is_word "c # r" d r2] by simp
  moreover have "length (c # r) \<le> length s" using 2(1) length_dropWhile_le [of "\<lambda>c. \<not> is_word c" s] by simp
  ultimately show ?case by simp
next
  case (3 s c r rest d r2 n)
  have "is_word c" using 3(1) by (metis (mono_tags, lifting) hd_dropWhile list.sel(1) list.distinct(1))
  then have "rest = dropWhile is_word r" using 3(2) by simp
  then have "length rest \<le> length r" using length_dropWhile_le [of is_word r] by simp
  moreover have "length (c # r) \<le> length s" using 3(1) length_dropWhile_le [of "\<lambda>c. \<not> is_word c" s] by simp
  ultimately show ?case by simp
qed simp

declare property_pairs.simps [simp del]

definition property_refs :: "string \<Rightarrow> string list" where
  "property_refs s = map snd (property_pairs s)"

section \<open>Directed patterns\<close>

text \<open>White space and then a fixed text.\<close>

definition expect :: "string \<Rightarrow> string \<Rightarrow> string option" where
  "expect p s = (let r = dropWhile py_isspace s in if take (length p) r = p then Some (drop (length p) r) else None)"

text \<open>\<^verbatim>\<open>(a:A)-[r:R]->(b:B)\<close> at the start of the text.\<close>

definition match_outgoing :: "string \<Rightarrow> (string \<times> string \<times> string \<times> string) option" where
  "match_outgoing s =
     (case s of
        [] \<Rightarrow> None
      | c # r \<Rightarrow>
          if c \<noteq> CHR ''('' then None
          else Option.bind (scan_ref_with (\<lambda>n. n \<noteq> []) CHR '')'' r) (\<lambda>(_, _, from, _, r1).
               Option.bind (expect ''-'' r1) (\<lambda>r2.
               Option.bind (expect ''['' r2) (\<lambda>r3.
               Option.bind (scan_ref_with (\<lambda>n. n \<noteq> []) CHR '']'' r3) (\<lambda>(_, _, rel, _, r4).
               Option.bind (expect ''->'' r4) (\<lambda>r5.
               Option.bind (expect ''('' r5) (\<lambda>r6.
               Option.bind (scan_ref_with (\<lambda>n. n \<noteq> []) CHR '')'' r6) (\<lambda>(_, _, to, _, r7).
               Some (from, rel, to, r7)))))))))"

lemma expect_length: "expect p s = Some r \<Longrightarrow> length r \<le> length s"
  using length_dropWhile_le [of py_isspace s] by (auto simp: expect_def Let_def split: if_splits)

lemma match_outgoing_length: "match_outgoing s = Some (f, rel, t, r) \<Longrightarrow> length r < length s"
  by (auto simp: match_outgoing_def bind_eq_Some_conv split: list.splits if_splits
      dest!: scan_ref_with_length expect_length)

function find_outgoing :: "string \<Rightarrow> (string \<times> string \<times> string) list" where
  "find_outgoing [] = []"
| "find_outgoing (c # s) =
     (case match_outgoing (c # s) of
        None \<Rightarrow> find_outgoing s
      | Some (f, rel, t, rest) \<Rightarrow> (f, rel, t) # find_outgoing rest)"
  by pat_completeness auto
termination
  by (relation "measure length") (auto dest: match_outgoing_length)

section \<open>The validator\<close>

datatype failure_type = FT_NONE | FT_SCHEMA | FT_RETRIEVAL | FT_GENERATION

datatype cypher_error = EmptyQuery | MissingMatch | UnknownLabel string | UnknownRelType string | MissingReturn

datatype cypher_warning =
    LabelCase string string
  | RelTypeCase string string
  | MayNotExist string
  | WrongDirection string string string string string

record validation_result =
  vl_is_valid :: bool
  vl_errors :: "cypher_error list"
  vl_warnings :: "cypher_warning list"
  vl_score :: real
  vl_failure_type :: failure_type

record cypher_validator =
  cv_ontology :: "ontology option"
  cv_valid_labels :: "string list"
  cv_valid_rel_types :: "string list"
  cv_valid_properties :: "(string, string list) dict"

definition cv_from_labels_and_types :: "string list \<Rightarrow> string list \<Rightarrow> cypher_validator" where
  "cv_from_labels_and_types labels rel_types =
     \<lparr>cv_ontology = None, cv_valid_labels = labels, cv_valid_rel_types = rel_types, cv_valid_properties = []\<rparr>"

text \<open>\<open>__init__\<close> with \<open>_extract_ontology_schema\<close>.\<close>

definition cv_init :: "ontology option \<Rightarrow> cypher_validator" where
  "cv_init ont =
     (case ont of
        None \<Rightarrow> \<lparr>cv_ontology = None, cv_valid_labels = [], cv_valid_rel_types = [], cv_valid_properties = []\<rparr>
      | Some o' \<Rightarrow>
          \<lparr>cv_ontology = Some o', cv_valid_labels = map ot_name (get_all_object_types o'),
           cv_valid_rel_types = map lt_name (get_all_link_types o'),
           cv_valid_properties = fold (\<lambda>ot d. if ot_properties ot = [] then d
              else AList.update (ot_name ot) (map fst (ot_properties ot)) d) (get_all_object_types o') []\<rparr>)"

text \<open>\<^verbatim>\<open>{f(v): v for v in names}\<close>: the last of two names with one key stays.\<close>

definition case_map :: "(string \<Rightarrow> string) \<Rightarrow> string list \<Rightarrow> (string, string) dict" where
  "case_map f vs = fold (\<lambda>v. AList.update (f v) v) vs []"

definition check_syntax :: "string \<Rightarrow> cypher_error list" where
  "check_syntax s = (if has_keyword ''MATCH'' s then [] else [MissingMatch])"

definition check_label :: "string list \<Rightarrow> string \<Rightarrow> cypher_error list \<times> cypher_warning list" where
  "check_label valid l =
     (if l = ''Node'' \<or> l \<in> set valid then ([], [])
      else (case map_of (case_map py_lower valid) (py_lower l) of
              Some correct \<Rightarrow> ([], [LabelCase l correct])
            | None \<Rightarrow> ([UnknownLabel l], [])))"

definition check_labels :: "string list \<Rightarrow> string \<Rightarrow> cypher_error list \<times> cypher_warning list" where
  "check_labels valid s =
     (let rs = map (check_label valid) (find_labels s) in (concat (map fst rs), concat (map snd rs)))"

definition check_rel_type :: "string list \<Rightarrow> string \<Rightarrow> cypher_error list \<times> cypher_warning list" where
  "check_rel_type valid t =
     (if t \<in> set valid then ([], [])
      else (case map_of (case_map py_upper valid) (py_upper t) of
              Some correct \<Rightarrow> ([], if t \<noteq> correct then [RelTypeCase t correct] else [])
            | None \<Rightarrow> ([UnknownRelType t], [])))"

definition check_relationships :: "string list \<Rightarrow> string \<Rightarrow> cypher_error list \<times> cypher_warning list" where
  "check_relationships valid s =
     (let rs = map (check_rel_type valid) (find_rel_types s) in (concat (map fst rs), concat (map snd rs)))"

definition check_properties :: "(string, string list) dict \<Rightarrow> string \<Rightarrow> cypher_warning list" where
  "check_properties valid s =
     (let known = concat (map (\<lambda>l. dict_get_or valid l []) (remdups (find_labels s))) in
      if known = [] then []
      else map MayNotExist (filter (\<lambda>p. py_upper p \<notin> {''COUNT'', ''SUM'', ''AVG'', ''MIN'', ''MAX'', ''AS''} \<and> p \<notin> set known)
             (property_refs s)))"

definition check_relationship_directions :: "ontology option \<Rightarrow> string \<Rightarrow> cypher_warning list" where
  "check_relationship_directions ont s =
     (case ont of
        None \<Rightarrow> []
      | Some o' \<Rightarrow> concat (map (\<lambda>(f, rel, t). case get_link_type o' rel of
            None \<Rightarrow> []
          | Some link \<Rightarrow> if lt_from_type link \<noteq> f \<or> lt_to_type link \<noteq> t
              then [WrongDirection rel (lt_from_type link) (lt_to_type link) f t] else []) (find_outgoing s)))"

definition check_return_clause :: "string \<Rightarrow> cypher_error list" where
  "check_return_clause s = (if has_keyword ''RETURN'' s then [] else [MissingReturn])"

definition compute_score :: "cypher_error list \<Rightarrow> cypher_warning list \<Rightarrow> real" where
  "compute_score errors ws =
     (if errors \<noteq> [] then py_round 2 (max 0 (1 - real (length errors) * (3 / 10) - real (length ws) * (1 / 10)))
      else py_round 2 (max (1 / 10) (1 - real (length ws) * (1 / 10))))"

text \<open>A warning mentions \<^verbatim>\<open>may not exist\<close> exactly when it is about a property: names are single words.\<close>

fun retrieval_risk :: "cypher_warning \<Rightarrow> bool" where
  "retrieval_risk (MayNotExist p) = True"
| "retrieval_risk _ = False"

definition classify_failure_type :: "cypher_error list \<Rightarrow> cypher_warning list \<Rightarrow> failure_type" where
  "classify_failure_type errors ws =
     (if errors \<noteq> [] then FT_SCHEMA else if list_ex retrieval_risk ws then FT_RETRIEVAL else FT_NONE)"

definition cv_validate :: "cypher_validator \<Rightarrow> string \<Rightarrow> validation_result" where
  "cv_validate v s =
     (if py_strip s = []
      then \<lparr>vl_is_valid = False, vl_errors = [EmptyQuery], vl_warnings = [], vl_score = 0, vl_failure_type = FT_SCHEMA\<rparr>
      else (let (le, lw) = (if cv_valid_labels v = [] then ([], []) else check_labels (cv_valid_labels v) s);
                (re, rw) = (if cv_valid_rel_types v = [] then ([], []) else check_relationships (cv_valid_rel_types v) s);
                pw = (if cv_valid_properties v = [] then [] else check_properties (cv_valid_properties v) s);
                dw = check_relationship_directions (cv_ontology v) s;
                errors = check_syntax s @ le @ re @ check_return_clause s;
                ws = lw @ rw @ pw @ dw
            in \<lparr>vl_is_valid = (errors = []), vl_errors = errors, vl_warnings = ws, vl_score = compute_score errors ws,
                vl_failure_type = classify_failure_type errors ws\<rparr>))"

section \<open>The corrector\<close>

record correction_result =
  cr_original :: string
  cr_corrected :: string
  cr_applied :: "string list"
  cr_was_modified :: bool

record cypher_corrector =
  cc_label_lookup :: "(string, string) dict"
  cc_rel_lookup :: "(string, string) dict"

definition cc_init :: "string list \<Rightarrow> string list \<Rightarrow> cypher_corrector" where
  "cc_init labels rel_types =
     \<lparr>cc_label_lookup = case_map py_lower labels, cc_rel_lookup = case_map py_upper rel_types\<rparr>"

text \<open>\<open>_replace_label\<close> and \<open>_replace_rel\<close>: a reference with another spelling loses its blanks around the name.  \<open>key\<close> is how
  names are compared, and an empty canonical name counts as none.\<close>

definition canonical :: "(string \<Rightarrow> string) \<Rightarrow> (string, string) dict \<Rightarrow> string \<Rightarrow> string option" where
  "canonical key lookup n =
     (case map_of lookup (key n) of Some c \<Rightarrow> if c \<noteq> [] \<and> c \<noteq> n then Some c else None | None \<Rightarrow> None)"

fun replace_ref :: "(string \<Rightarrow> string option) \<Rightarrow> seg \<Rightarrow> seg" where
  "replace_ref f (Txt c) = Txt c"
| "replace_ref f (Ref p w1 n w2) = (case f n of Some m \<Rightarrow> Ref p [] m [] | None \<Rightarrow> Ref p w1 n w2)"

fun replace_note :: "string \<Rightarrow> (string \<Rightarrow> string option) \<Rightarrow> seg \<Rightarrow> string list" where
  "replace_note what f (Txt c) = []"
| "replace_note what f (Ref p w1 n w2) =
     (case f n of Some m \<Rightarrow> [what @ squote n @ '' -> '' @ squote m] | None \<Rightarrow> [])"

definition fix_case :: "char \<Rightarrow> char \<Rightarrow> string \<Rightarrow> (string \<Rightarrow> string option) \<Rightarrow> string \<Rightarrow> string \<times> string list" where
  "fix_case op cl what f s =
     (unscan op cl (map (replace_ref f) (scan op cl s)), concat (map (replace_note what f) (scan op cl s)))"

definition fix_label_case :: "cypher_corrector \<Rightarrow> string \<Rightarrow> string \<times> string list" where
  "fix_label_case c s = fix_case CHR ''('' CHR '')'' ''Fixed label case: '' (canonical py_lower (cc_label_lookup c)) s"

definition fix_rel_type_case :: "cypher_corrector \<Rightarrow> string \<Rightarrow> string \<times> string list" where
  "fix_rel_type_case c s =
     fix_case CHR ''['' CHR '']'' ''Fixed relationship type case: '' (canonical py_upper (cc_rel_lookup c)) s"

text \<open>\<^verbatim>\<open>re.search(r"\(\s*(\w+)\s*:", s)\<close>.\<close>

fun find_alias :: "string \<Rightarrow> string option" where
  "find_alias [] = None"
| "find_alias (c # s) =
     (let r = dropWhile py_isspace s; a = takeWhile is_word r; r2 = dropWhile py_isspace (dropWhile is_word r) in
      if c = CHR ''('' \<and> a \<noteq> [] \<and> r2 \<noteq> [] \<and> hd r2 = CHR '':'' then Some a else find_alias s)"

definition rstrip_clause :: "string \<Rightarrow> string" where
  "rstrip_clause s = rev (dropWhile (\<lambda>c. c = CHR '';'') (dropWhile py_isspace (rev s)))"

definition add_return_clause :: "string \<Rightarrow> string \<times> string list" where
  "add_return_clause s =
     (if has_keyword ''MATCH'' s \<and> \<not> has_keyword ''RETURN'' s
      then (let what = ''RETURN '' @ (case find_alias s of Some a \<Rightarrow> a | None \<Rightarrow> ''*'') in
            (rstrip_clause s @ [CHR 0x0A] @ what, [''Added missing RETURN clause: '' @ squote what]))
      else (s, []))"

definition cc_correct :: "cypher_corrector \<Rightarrow> string \<Rightarrow> correction_result" where
  "cc_correct c s =
     (if py_strip s = [] then \<lparr>cr_original = s, cr_corrected = s, cr_applied = [], cr_was_modified = False\<rparr>
      else (let (s1, n1) = fix_label_case c s; (s2, n2) = fix_rel_type_case c s1; (s3, n3) = add_return_clause s2
            in \<lparr>cr_original = s, cr_corrected = s3, cr_applied = n1 @ n2 @ n3, cr_was_modified = (s3 \<noteq> s)\<rparr>))"

section \<open>Scanning and putting together\<close>

text \<open>Brackets that cannot occur inside a reference.\<close>

definition stopper :: "char \<Rightarrow> char \<Rightarrow> bool" where
  "stopper cl c \<longleftrightarrow> \<not> py_isspace c \<and> \<not> is_word c \<and> c \<noteq> CHR '':'' \<and> c \<noteq> cl"

definition brackets :: "char \<Rightarrow> char \<Rightarrow> bool" where
  "brackets op cl \<longleftrightarrow> stopper cl op \<and> \<not> py_isspace cl \<and> \<not> is_word cl \<and> cl \<noteq> CHR '':''"

lemma char_classes [simp]:
  "brackets CHR ''('' CHR '')''" "brackets CHR ''['' CHR '']''" "stopper CHR '')'' CHR ''(''" "stopper CHR '')'' CHR ''[''"
  "stopper CHR '')'' CHR '']''" "stopper CHR '']'' CHR ''('' " "stopper CHR '']'' CHR ''[''" "stopper CHR '']'' CHR '')''"
  by code_simp+

lemma word_not_space: "is_word c \<Longrightarrow> \<not> py_isspace c"
  by (auto simp: is_word_def is_letter_def py_isspace_def Let_def)

lemma colon_plain [simp]: "\<not> is_word CHR '':''" "\<not> py_isspace CHR '':''"
  by code_simp+

lemma takeWhile_stop: "t = [] \<or> \<not> P (hd t) \<Longrightarrow> takeWhile P (u @ t) = takeWhile P u"
  by (induction u) (auto simp: takeWhile_eq_Nil_iff)

lemma dropWhile_stop: "t = [] \<or> \<not> P (hd t) \<Longrightarrow> dropWhile P (u @ t) = dropWhile P u @ t"
  by (induction u) (auto simp: dropWhile_eq_self_iff)

text \<open>A reference is decided by the text up to the next stopper.\<close>

lemma scan_ref_local:
  assumes "t = [] \<or> stopper cl (hd t)"
  shows "scan_ref cl (u @ t) = map_option (\<lambda>(p, w1, n, w2, r). (p, w1, n, w2, r @ t)) (scan_ref cl u)"
proof -
  have stop: "t = [] \<or> \<not> py_isspace (hd t)" "t = [] \<or> \<not> is_word (hd t)" and t: "t = [] \<or> hd t \<noteq> CHR '':'' \<and> hd t \<noteq> cl"
    using assms by (auto simp: stopper_def)
  note w = takeWhile_stop [where P = py_isspace, OF stop(1)] takeWhile_stop [where P = is_word, OF stop(2)]
    dropWhile_stop [where P = py_isspace, OF stop(1)] dropWhile_stop [where P = is_word, OF stop(2)]
  define r3 where "r3 = dropWhile py_isspace (dropWhile is_word (dropWhile py_isspace u))"
  show ?thesis
  proof (cases r3)
    case Nil
    show ?thesis
      unfolding scan_ref_def scan_ref_with_def Let_def w r3_def [symmetric] Nil using t by (cases t) simp_all
  next
    case (Cons c r4)
    define r7 where "r7 = dropWhile py_isspace (dropWhile is_word (dropWhile py_isspace r4))"
    show ?thesis
      unfolding scan_ref_def scan_ref_with_def Let_def w r3_def [symmetric] Cons append_Cons list.case r7_def [symmetric]
      using t by (cases r7; cases t) auto
  qed
qed

definition wf_ref :: "string \<Rightarrow> string \<Rightarrow> string \<Rightarrow> string \<Rightarrow> bool" where
  "wf_ref p w1 n w2 \<longleftrightarrow> (\<exists>p1 a p2. p = p1 @ a @ p2 \<and> list_all py_isspace p1 \<and> list_all is_word a \<and> list_all py_isspace p2
     \<and> (a = [] \<longrightarrow> p2 = [])) \<and> list_all py_isspace w1 \<and> is_ident n \<and> list_all py_isspace w2"

fun wf_seg :: "seg \<Rightarrow> bool" where
  "wf_seg (Txt c) = True"
| "wf_seg (Ref p w1 n w2) = wf_ref p w1 n w2"

lemma takeWhile_all_stop: "list_all P u \<Longrightarrow> t = [] \<or> \<not> P (hd t) \<Longrightarrow> takeWhile P (u @ t) = u \<and> dropWhile P (u @ t) = t"
  by (cases t) (auto simp: takeWhile_append dropWhile_append list_all_iff takeWhile_eq_all_conv)

lemma scan_ref_wf:
  assumes "wf_ref p w1 n w2" and "brackets op cl"
  shows "scan_ref cl (p @ CHR '':'' # w1 @ n @ w2 @ cl # rest) = Some (p, w1, n, w2, rest)"
proof -
  from assms(1) obtain p1 a p2 where p: "p = p1 @ a @ p2" "list_all py_isspace p1" "list_all is_word a" "list_all py_isspace p2"
    "a = [] \<longrightarrow> p2 = []" and rest: "list_all py_isspace w1" "is_ident n" "list_all py_isspace w2" by (auto simp: wf_ref_def)
  have cl: "\<not> py_isspace cl" "\<not> is_word cl" using assms(2) by (simp_all add: brackets_def)
  have n: "n \<noteq> []" "list_all is_word n" "is_word (hd n)" using rest(2) by (auto simp: is_ident_def is_word_def)
  let ?t1 = "CHR '':'' # w1 @ n @ w2 @ cl # rest"
  have h2: "p2 @ ?t1 = [] \<or> \<not> is_word (hd (p2 @ ?t1))"
    using p(4) word_not_space by (cases p2) auto
  have h1: "a @ p2 @ ?t1 = [] \<or> \<not> py_isspace (hd (a @ p2 @ ?t1))"
    using p(3,5) word_not_space by (cases a) auto
  have h3: "?t1 = [] \<or> \<not> py_isspace (hd ?t1)" by simp
  have h4: "n @ w2 @ cl # rest = [] \<or> \<not> py_isspace (hd (n @ w2 @ cl # rest))"
    using n word_not_space by (cases n) auto
  have h5: "w2 @ cl # rest = [] \<or> \<not> is_word (hd (w2 @ cl # rest))"
    using rest(3) cl word_not_space by (cases w2) auto
  have h6: "cl # rest = [] \<or> \<not> py_isspace (hd (cl # rest))" using cl by simp
  note steps = takeWhile_all_stop [OF p(2) h1] takeWhile_all_stop [OF p(3) h2] takeWhile_all_stop [OF p(4) h3]
    takeWhile_all_stop [OF rest(1) h4] takeWhile_all_stop [OF n(2) h5] takeWhile_all_stop [OF rest(3) h6]
  show ?thesis using steps rest(2) by (simp add: scan_ref_def scan_ref_with_def Let_def p(1))
qed

lemma list_all_takeWhile: "list_all P (takeWhile P xs)"
  by (simp add: list_all_iff) (meson set_takeWhileD)

lemma scan_ref_Some:
  assumes "scan_ref cl r = Some (p, w1, n, w2, rest)"
  shows "r = p @ CHR '':'' # w1 @ n @ w2 @ cl # rest" and "wf_ref p w1 n w2"
proof -
  define r2 where "r2 = dropWhile is_word (dropWhile py_isspace r)"
  from assms obtain r4 where r4: "dropWhile py_isspace r2 = CHR '':'' # r4"
    and p: "p = takeWhile py_isspace r @ takeWhile is_word (dropWhile py_isspace r) @ takeWhile py_isspace r2"
    and w1: "w1 = takeWhile py_isspace r4" and n: "n = takeWhile is_word (dropWhile py_isspace r4)" "is_ident n"
    and w2: "w2 = takeWhile py_isspace (dropWhile is_word (dropWhile py_isspace r4))"
    and e: "dropWhile py_isspace (dropWhile is_word (dropWhile py_isspace r4)) = cl # rest"
    by (auto simp: scan_ref_def scan_ref_with_def Let_def r2_def split: list.splits if_splits)
  have "r4 = w1 @ n @ w2 @ cl # rest"
    unfolding w1 n(1) w2 using e by (metis takeWhile_dropWhile_id)
  moreover have "r = p @ CHR '':'' # r4"
    unfolding p using r4 by (metis append_assoc r2_def takeWhile_dropWhile_id)
  ultimately show "r = p @ CHR '':'' # w1 @ n @ w2 @ cl # rest" by simp
  have "takeWhile py_isspace r2 = []" if "takeWhile is_word (dropWhile py_isspace r) = []"
  proof -
    have "r2 = dropWhile py_isspace r"
      unfolding r2_def using that by (metis append_Nil takeWhile_dropWhile_id)
    then have "r2 = [] \<or> \<not> py_isspace (hd r2)" by (metis hd_dropWhile)
    then show ?thesis by (cases r2) auto
  qed
  then show "wf_ref p w1 n w2"
    unfolding wf_ref_def p using n(2) w1 w2 by (auto intro!: exI list_all_takeWhile simp: list_all_takeWhile)
qed

lemma unscan_simps [simp]:
  "unscan op cl [] = []" "unscan op cl (x # xs) = seg_text op cl x @ unscan op cl xs"
  by (simp_all add: unscan_def)

lemma unscan_scan: "unscan op cl (scan op cl s) = s"
  by (induction op cl s rule: scan.induct) (auto split: option.split dest: scan_ref_Some(1))

lemma scan_wf: "list_all wf_seg (scan op cl s)"
  by (induction op cl s rule: scan.induct) (auto split: option.split dest: scan_ref_Some(2))

subsection \<open>Replacing names\<close>

lemma wf_replace: "wf_seg x \<Longrightarrow> (\<And>n m. f n = Some m \<Longrightarrow> is_ident m) \<Longrightarrow> wf_seg (replace_ref f x)"
  by (cases x) (auto simp: wf_ref_def split: option.split)

text \<open>Up to the next opening bracket replacing changes nothing.\<close>

lemma replace_head:
  obtains u t t' where "r = u @ t" "unscan op cl (map (replace_ref f) (scan op cl r)) = u @ t'" "op \<notin> set u"
    "t = [] \<longleftrightarrow> t' = []" "t = [] \<or> hd t = op" "t' = [] \<or> hd t' = op"
proof (induction r arbitrary: thesis)
  case Nil
  then show ?case by (auto intro: Nil [of "[]" "[]" "[]"])
next
  case (Cons c r)
  show ?case
  proof (cases "c = op")
    case True
    have "\<exists>t'. unscan op cl (map (replace_ref f) (scan op cl (c # r))) = op # t'"
      using True by (auto split: option.split)
    then show ?thesis using True by (auto intro: Cons.prems [of "[]" "c # r"])
  next
    case False
    from Cons.IH obtain u t t' where "r = u @ t" "unscan op cl (map (replace_ref f) (scan op cl r)) = u @ t'" "op \<notin> set u"
      "t = [] \<longleftrightarrow> t' = []" "t = [] \<or> hd t = op" "t' = [] \<or> hd t' = op" by blast
    with False show ?thesis by (intro Cons.prems [of "c # u" t t']) auto
  qed
qed

lemma scan_replace:
  assumes "brackets op cl" and "\<And>n m. f n = Some m \<Longrightarrow> is_ident m"
  shows "scan op cl (unscan op cl (map (replace_ref f) (scan op cl s))) = map (replace_ref f) (scan op cl s)"
proof (induction "length s" arbitrary: s rule: less_induct)
  case less
  show ?case
  proof (cases s)
    case (Cons c r)
    show ?thesis
    proof (cases "c = op")
      case False
      with less [of r] Cons show ?thesis by simp
    next
      case op: True
      show ?thesis
      proof (cases "scan_ref cl r")
        case None
        obtain u t t' where ut: "r = u @ t" "unscan op cl (map (replace_ref f) (scan op cl r)) = u @ t'"
          "t = [] \<longleftrightarrow> t' = []" "t = [] \<or> hd t = op" "t' = [] \<or> hd t' = op" by (rule replace_head [of r op cl f]) blast
        have st: "t = [] \<or> stopper cl (hd t)" "t' = [] \<or> stopper cl (hd t')" using ut assms(1) by (auto simp: brackets_def)
        from None have "scan_ref cl u = None" unfolding ut(1) scan_ref_local [OF st(1)] by simp
        then have "scan_ref cl (u @ t') = None" unfolding scan_ref_local [OF st(2)] by simp
        with None op Cons less [of r] show ?thesis by (simp add: ut(2))
      next
        case (Some x)
        obtain p w1 n w2 rest where x: "x = (p, w1, n, w2, rest)" by (cases x) auto
        have len: "length rest < length s" using scan_ref_length [of cl r] Some Cons x by fastforce
        have wf: "wf_ref p w1 n w2" using scan_ref_Some(2) Some x by blast
        have wf': "wf_ref p [] m []" if "f n = Some m" for m using wf assms(2) [OF that] by (auto simp: wf_ref_def)
        have R: "scan_ref cl (p @ CHR '':'' # w1 @ n @ w2 @ cl # t) = Some (p, w1, n, w2, t)" for t
          by (rule scan_ref_wf [OF wf assms(1)])
        have R': "scan_ref cl (p @ CHR '':'' # m @ cl # t) = Some (p, [], m, [], t)" if "f n = Some m" for m t
          using scan_ref_wf [OF wf' [OF that] assms(1)] by simp
        from less [OF len] show ?thesis
          using op Cons Some x R R' by (cases "f n") simp_all
      qed
    qed
  qed simp
qed

definition rename :: "(string \<Rightarrow> string option) \<Rightarrow> string \<Rightarrow> string" where
  "rename f n = (case f n of Some m \<Rightarrow> m | None \<Rightarrow> n)"

lemma names_replace:
  assumes "brackets op cl" and "\<And>n m. f n = Some m \<Longrightarrow> is_ident m"
  shows "names op cl (unscan op cl (map (replace_ref f) (scan op cl s))) = map (rename f) (names op cl s)"
proof -
  have "concat (map seg_name (map (replace_ref f) xs)) = map (rename f) (concat (map seg_name xs))" for xs
  proof (induction xs)
    case (Cons x xs)
    then show ?case by (cases x) (auto simp: rename_def split: option.split)
  qed simp
  then show ?thesis by (simp only: names_def scan_replace [OF assms])
qed

lemma replace_idle:
  assumes "\<And>n. n \<in> set (names op cl s) \<Longrightarrow> f n = None"
  shows "map (replace_ref f) (scan op cl s) = scan op cl s"
proof -
  have "replace_ref f x = x" if "x \<in> set (scan op cl s)" for x
  proof (cases x)
    case (Ref p w1 n w2)
    with that have "n \<in> set (names op cl s)" by (force simp: names_def)
    with assms Ref show ?thesis by simp
  qed simp
  then show ?thesis by (simp add: map_idI)
qed

subsection \<open>Two kinds of brackets\<close>

lemma names_skip: "op \<notin> set u \<Longrightarrow> names op cl (u @ v) = names op cl v"
  by (induction u) (auto simp: names_def)

lemma names_append:
  assumes "v = [] \<or> stopper cl (hd v)"
  shows "names op cl (u @ v) = names op cl u @ names op cl v"
proof (induction "length u" arbitrary: u rule: less_induct)
  case less
  show ?case
  proof (cases u)
    case (Cons c r)
    show ?thesis
    proof (cases "c = op \<and> scan_ref cl r \<noteq> None")
      case True
      then obtain p w1 n w2 rest where x: "scan_ref cl r = Some (p, w1, n, w2, rest)" by auto
      then have "length rest < length u" using scan_ref_length [OF x] Cons by simp
      from less [OF this] x True Cons show ?thesis by (simp add: names_def scan_ref_local [OF assms])
    next
      case False
      have "scan_ref cl r = None" if "c = op" using False that by blast
      with less [of r] Cons show ?thesis by (cases "c = op") (simp_all add: names_def scan_ref_local [OF assms])
    qed
  qed (simp add: names_def)
qed

lemma wf_ref_chars:
  assumes "wf_ref p w1 n w2" and "stopper cl op"
  shows "op \<notin> set (p @ CHR '':'' # w1 @ n @ w2)"
  using assms by (auto simp: wf_ref_def stopper_def is_ident_def list_all_iff)

text \<open>A reference in the other brackets separates the text and has no names of its own.\<close>

lemma names_across:
  assumes "list_all wf_seg segs" and "stopper cl op'" and "stopper cl cl'" and "stopper cl' op" and "op \<noteq> op'" and "op \<noteq> cl'"
    and "\<And>n m. f n = Some m \<Longrightarrow> is_ident m"
  shows "names op cl (u @ unscan op' cl' (map (replace_ref f) segs)) = names op cl (u @ unscan op' cl' segs)"
  using assms(1)
proof (induction segs arbitrary: u)
  case (Cons x segs)
  show ?case
  proof (cases x)
    case (Txt c)
    with Cons.IH [of "u @ [c]"] Cons.prems show ?thesis by simp
  next
    case (Ref p w1 n w2)
    have wf: "wf_ref p w1 n w2" using Cons.prems Ref by simp
    have skip: "names op cl (u @ op' # p @ CHR '':'' # v1 @ k @ v2 @ cl' # rest) = names op cl u @ names op cl rest"
      if "wf_ref p v1 k v2" for v1 k v2 rest
    proof -
      have "names op cl (u @ op' # p @ CHR '':'' # v1 @ k @ v2 @ cl' # rest)
          = names op cl u @ names op cl (op' # p @ CHR '':'' # v1 @ k @ v2 @ cl' # rest)"
        using assms(2) by (intro names_append) simp
      moreover have "op \<notin> set (op' # (p @ CHR '':'' # v1 @ k @ v2) @ [cl'])"
        using wf_ref_chars [OF that assms(4)] assms(5,6) by auto
      from names_skip [OF this, of cl rest]
      have "names op cl (op' # p @ CHR '':'' # v1 @ k @ v2 @ cl' # rest) = names op cl rest" by simp
      ultimately show ?thesis by simp
    qed
    have wf': "wf_ref p [] m []" if "f n = Some m" for m using wf assms(7) [OF that] by (auto simp: wf_ref_def)
    have IH: "names op cl (unscan op' cl' (map (replace_ref f) segs)) = names op cl (unscan op' cl' segs)"
      using Cons.IH [of "[]"] Cons.prems by simp
    show ?thesis
    proof (cases "f n")
      case None
      with skip [OF wf] IH Ref show ?thesis by simp
    next
      case (Some m)
      with skip [OF wf] skip [OF wf' [OF Some]] IH Ref show ?thesis by simp
    qed
  qed
qed simp

subsection \<open>The end of the text\<close>

lemma scan_ref_append:
  assumes "brackets op cl" and "scan_ref cl r = Some (p, w1, n, w2, rest)"
  shows "scan_ref cl (r @ w) = Some (p, w1, n, w2, rest @ w)"
  using scan_ref_Some(1) [OF assms(2)] scan_ref_wf [OF scan_ref_Some(2) [OF assms(2)] assms(1)] by simp

lemma scan_ref_append_None:
  assumes "brackets op cl" and "scan_ref cl r = None" and "cl \<notin> set w"
  shows "scan_ref cl (r @ w) = None"
proof (rule ccontr)
  assume "scan_ref cl (r @ w) \<noteq> None"
  then obtain p w1 n w2 rest where x: "scan_ref cl (r @ w) = Some (p, w1, n, w2, rest)" by auto
  note d = scan_ref_Some [OF x]
  let ?h = "p @ CHR '':'' # w1 @ n @ w2"
  from d(1) have "r @ w = (?h @ [cl]) @ rest" by simp
  then obtain us where "r = (?h @ [cl]) @ us \<and> us @ w = rest \<or> r @ us = ?h @ [cl] \<and> w = us @ rest"
    unfolding append_eq_append_conv2 by auto
  then show False
  proof
    assume "r = (?h @ [cl]) @ us \<and> us @ w = rest"
    then have "r = p @ CHR '':'' # w1 @ n @ w2 @ cl # us" by simp
    with scan_ref_wf [OF d(2) assms(1)] assms(2) show False by simp
  next
    assume b: "r @ us = ?h @ [cl] \<and> w = us @ rest"
    with assms(3) have "us = []" by (cases us rule: rev_cases) auto
    with b have "r = p @ CHR '':'' # w1 @ n @ w2 @ cl # []" by simp
    with scan_ref_wf [OF d(2) assms(1)] assms(2) show False by simp
  qed
qed

lemma names_tail:
  assumes "brackets op cl" and "op \<notin> set w" and "cl \<notin> set w"
  shows "names op cl (u @ w) = names op cl u"
proof (induction "length u" arbitrary: u rule: less_induct)
  case less
  show ?case
  proof (cases u)
    case Nil
    with names_skip [OF assms(2), of cl "[]"] show ?thesis by simp
  next
    case (Cons c r)
    show ?thesis
    proof (cases "c = op")
      case True
      show ?thesis
      proof (cases "scan_ref cl r")
        case None
        with True Cons less [of r] scan_ref_append_None [OF assms(1) None assms(3)] show ?thesis by (simp add: names_def)
      next
        case (Some x)
        obtain p w1 n w2 rest where x: "scan_ref cl r = Some (p, w1, n, w2, rest)" using Some by (cases x) auto
        have "length rest < length u" using scan_ref_length [OF x] Cons by simp
        from less [OF this] True Cons x scan_ref_append [OF assms(1) x] show ?thesis by (simp add: names_def)
      qed
    next
      case False
      with Cons less [of r] show ?thesis by (simp add: names_def)
    qed
  qed
qed

lemma rstrip_clause_tail: "\<exists>tail. s = rstrip_clause s @ tail \<and> (\<forall>c \<in> set tail. py_isspace c \<or> c = CHR '';'')"
proof -
  let ?a = "takeWhile py_isspace (rev s)" and ?r = "dropWhile py_isspace (rev s)"
  let ?b = "takeWhile (\<lambda>c. c = CHR '';'') ?r"
  have "rev s = ?a @ ?b @ dropWhile (\<lambda>c. c = CHR '';'') ?r" by simp
  then have "s = rstrip_clause s @ rev ?b @ rev ?a" unfolding rstrip_clause_def by (metis append_assoc rev_append rev_rev_ident)
  moreover have "\<forall>c \<in> set (rev ?b @ rev ?a). py_isspace c \<or> c = CHR '';''" by (auto dest: set_takeWhileD)
  ultimately show ?thesis by blast
qed

lemma find_alias_words: "find_alias s = Some a \<Longrightarrow> list_all is_word a"
  by (induction s) (auto simp: Let_def list_all_takeWhile split: if_splits)

text \<open>Characters that are no bracket: everything the corrector cuts off or adds at the end.\<close>

definition quiet :: "char \<Rightarrow> bool" where
  "quiet c \<longleftrightarrow> is_word c \<or> py_isspace c \<or> c = CHR '';'' \<or> c = CHR ''*''"

definition loud :: "char \<Rightarrow> char \<Rightarrow> bool" where
  "loud op cl \<longleftrightarrow> brackets op cl \<and> \<not> quiet op \<and> \<not> quiet cl"

lemma loud_brackets [simp]: "loud CHR ''('' CHR '')''" "loud CHR ''['' CHR '']''"
  by code_simp+

definition return_tail :: "string \<Rightarrow> string" where
  "return_tail s = CHR 0x0A # ''RETURN'' @ CHR '' '' # (case find_alias s of Some a \<Rightarrow> a | None \<Rightarrow> ''*'')"

lemma fst_add_return:
  "fst (add_return_clause s) =
     (if has_keyword ''MATCH'' s \<and> \<not> has_keyword ''RETURN'' s then rstrip_clause s @ return_tail s else s)"
  by (simp add: add_return_clause_def Let_def return_tail_def)

lemma return_tail_quiet: "list_all quiet (return_tail s)"
proof -
  have fixed: "list_all quiet (CHR 0x0A # ''RETURN'' @ [CHR '' ''])" "list_all quiet ''*''" by code_simp+
  have "list_all quiet (case find_alias s of Some a \<Rightarrow> a | None \<Rightarrow> ''*'')"
  proof (cases "find_alias s")
    case (Some a)
    then show ?thesis using find_alias_words [OF Some] by (auto simp: list_all_iff quiet_def)
  qed (use fixed(2) in simp)
  moreover have "return_tail s = (CHR 0x0A # ''RETURN'' @ [CHR '' '']) @ (case find_alias s of Some a \<Rightarrow> a | None \<Rightarrow> ''*'')"
    by (simp add: return_tail_def)
  ultimately show ?thesis using fixed(1) by (simp only: list_all_append)
qed

lemma names_quiet_tail:
  assumes "loud op cl" and "list_all quiet w"
  shows "names op cl (u @ w) = names op cl u"
  using assms by (intro names_tail) (auto simp: loud_def list_all_iff)

lemma names_add_return:
  assumes "loud op cl"
  shows "names op cl (fst (add_return_clause s)) = names op cl s"
proof -
  obtain tail where t: "s = rstrip_clause s @ tail" "\<forall>c \<in> set tail. py_isspace c \<or> c = CHR '';''"
    using rstrip_clause_tail by blast
  then have "list_all quiet tail" by (auto simp: list_all_iff quiet_def)
  from names_quiet_tail [OF assms this, of "rstrip_clause s"] have "names op cl (rstrip_clause s) = names op cl s"
    using t(1) by simp
  then show ?thesis by (simp add: fst_add_return names_quiet_tail [OF assms return_tail_quiet])
qed

lemma word_runs_split: "\<not> is_word c \<Longrightarrow> word_runs cur (u @ c # v) = word_runs cur u @ word_runs [] v"
  by (induction u arbitrary: cur) auto

lemma add_return_has_return:
  assumes "has_keyword ''MATCH'' s"
  shows "has_keyword ''RETURN'' (fst (add_return_clause s))"
proof (cases "has_keyword ''RETURN'' s")
  case False
  have c: "\<not> is_word CHR 0x0A" "\<not> is_word CHR '' ''" "''RETURN'' \<in> set (map py_upper (word_runs [] ''RETURN''))"
    by code_simp+
  show ?thesis
    unfolding fst_add_return return_tail_def has_keyword_def word_runs_split [OF c(1)] word_runs_split [OF c(2)]
    using assms False c(3) unfolding has_keyword_def by (simp only: word_runs_split [OF c(1)] word_runs_split [OF c(2)]
      simp_thms if_True if_False map_append set_append Un_iff)
qed (simp add: fst_add_return)

subsection \<open>Canonical names\<close>

lemma case_map_Some: "map_of (case_map f vs) k = Some c \<Longrightarrow> c \<in> set vs \<and> f c = k"
proof -
  have "map_of (fold (\<lambda>v. AList.update (f v) v) vs d) k = Some c \<Longrightarrow> (c \<in> set vs \<and> f c = k) \<or> map_of d k = Some c" for d
  proof (induction vs arbitrary: d)
    case (Cons v vs)
    from Cons.IH [of "AList.update (f v) v d"] Cons.prems show ?case
      by (auto simp: map_of_update_dict split: if_splits)
  qed simp
  from this [of "[]"] show "map_of (case_map f vs) k = Some c \<Longrightarrow> c \<in> set vs \<and> f c = k" by (simp add: case_map_def)
qed

lemma case_map_None: "map_of (case_map f vs) k = None \<longleftrightarrow> k \<notin> f ` set vs"
proof -
  have "map_of (fold (\<lambda>v. AList.update (f v) v) vs d) k = None \<longleftrightarrow> k \<notin> f ` set vs \<and> map_of d k = None" for d
    by (induction vs arbitrary: d) (auto simp: map_of_update_dict)
  from this [of "[]"] show ?thesis by (simp add: case_map_def)
qed

lemma canonical_ident: "list_all is_ident vs \<Longrightarrow> canonical f (case_map f vs) n = Some m \<Longrightarrow> is_ident m \<and> m \<in> set vs \<and> f m = f n"
  by (auto simp: canonical_def list_all_iff dest!: case_map_Some split: option.splits if_splits)

lemma canonical_rename:
  assumes "list_all is_ident vs"
  shows "canonical f (case_map f vs) (rename (canonical f (case_map f vs)) n) = None"
proof (cases "canonical f (case_map f vs) n")
  case (Some m)
  then have "map_of (case_map f vs) (f n) = Some m" by (auto simp: canonical_def split: option.splits if_splits)
  moreover have "f m = f n" using canonical_ident [OF assms Some] by simp
  ultimately show ?thesis using Some by (simp add: rename_def canonical_def)
qed (simp add: rename_def)

subsection \<open>Keywords\<close>

lemma word_runs_word: "list_all is_word u \<Longrightarrow> word_runs cur (u @ v) = word_runs (rev u @ cur) v"
  by (induction u arbitrary: cur) auto

lemma word_runs_space: "list_all py_isspace u \<Longrightarrow> word_runs [] (u @ v) = word_runs [] v"
  by (induction u) (auto dest: word_not_space)

lemma word_runs_seg:
  assumes "wf_ref p w1 n w2" and "brackets op cl"
  shows "word_runs cur (op # p @ CHR '':'' # w1 @ n @ w2 @ cl # v) = word_runs cur [] @ word_runs [] p @ [n] @ word_runs [] v"
proof -
  have d: "\<not> is_word op" "\<not> is_word cl" using assms(2) by (auto simp: brackets_def stopper_def)
  have n: "n \<noteq> []" "list_all is_word n" "list_all py_isspace w1" "list_all py_isspace w2"
    using assms(1) by (auto simp: wf_ref_def is_ident_def)
  have "word_runs (rev n) (w2 @ cl # v) = [n] @ word_runs [] v"
  proof (cases w2)
    case Nil
    with n(1) d(2) show ?thesis by simp
  next
    case (Cons c w)
    then have "\<not> is_word c" "word_runs [] (w @ cl # v) = word_runs [] (cl # v)"
      using n(4) word_not_space word_runs_space [of w "cl # v"] by auto
    with Cons n(1) d(2) show ?thesis by simp
  qed
  then show ?thesis
    using word_runs_split [of op cur "[]"] word_runs_split [of "CHR '':''" "[]" p] d n
    by (simp add: word_runs_space word_runs_word)
qed

lemma case_fold: "py_lower a = py_lower b \<longleftrightarrow> py_upper a = py_upper b"
proof -
  let ?u = "\<lambda>c::char. if 97 \<le> (of_char c :: nat) \<and> (of_char c :: nat) \<le> 122 then char_of (of_char c - 32 :: nat) else c"
  let ?l = "\<lambda>c::char. if 65 \<le> (of_char c :: nat) \<and> (of_char c :: nat) \<le> 90 then char_of (of_char c + 32 :: nat) else c"
  have ul: "?u (?l c) = ?u c" "?l (?u c) = ?l c" for c :: char by auto
  have "py_upper (py_lower s) = py_upper s" "py_lower (py_upper s) = py_lower s" for s
    unfolding py_upper_def py_lower_def map_map comp_def by (rule map_cong [OF refl], rule ul)+
  then show ?thesis by metis
qed

lemma keyword_replace:
  assumes "list_all wf_seg segs" and "brackets op cl" and "\<And>n m. f n = Some m \<Longrightarrow> is_ident m \<and> py_upper m = py_upper n"
  shows "map py_upper (word_runs cur (unscan op cl (map (replace_ref f) segs))) = map py_upper (word_runs cur (unscan op cl segs))"
  using assms(1)
proof (induction segs arbitrary: cur)
  case (Cons x segs)
  show ?case
  proof (cases x)
    case (Ref p w1 n w2)
    have wf: "wf_ref p w1 n w2" using Cons.prems Ref by simp
    have wf': "wf_ref p [] m []" if "f n = Some m" for m using wf assms(3) [OF that] by (auto simp: wf_ref_def)
    show ?thesis
    proof (cases "f n")
      case None
      with Ref Cons word_runs_seg [OF wf assms(2)] show ?thesis by simp
    next
      case (Some m)
      with Ref Cons word_runs_seg [OF wf assms(2)] word_runs_seg [OF wf' [OF Some] assms(2), simplified] assms(3) [OF Some]
      show ?thesis by simp
    qed
  qed (use Cons in simp)
qed simp

lemma keyword_fix_case:
  assumes "brackets op cl" and "\<And>n m. f n = Some m \<Longrightarrow> is_ident m \<and> py_upper m = py_upper n"
  shows "has_keyword k (fst (fix_case op cl what f s)) = has_keyword k s"
  using keyword_replace [OF scan_wf [of op cl s] assms, where cur = "[]"] by (simp add: has_keyword_def fix_case_def unscan_scan)

lemma word_runs_blank: "list_all py_isspace s \<Longrightarrow> word_runs [] s = []"
  using word_runs_space [of s "[]"] by simp

lemma strip_blank: "py_strip s = [] \<longleftrightarrow> list_all py_isspace s"
proof -
  have "dropWhile py_isspace s = [] \<longleftrightarrow> (\<forall>c \<in> set s. py_isspace c)" by (rule dropWhile_eq_Nil_conv)
  moreover have "rev (dropWhile py_isspace (rev (dropWhile py_isspace s))) = [] \<longleftrightarrow> dropWhile py_isspace s = []"
  proof (cases "dropWhile py_isspace s")
    case (Cons c r)
    then have "\<not> py_isspace c" by (metis hd_dropWhile list.sel(1) list.distinct(1))
    then show ?thesis unfolding Cons by (simp add: dropWhile_append)
  next
    case Nil
    show ?thesis unfolding Nil by simp
  qed
  ultimately show ?thesis by (simp add: py_strip_def list_all_iff)
qed

lemma keyword_not_blank: "has_keyword k s \<Longrightarrow> py_strip s \<noteq> []"
  unfolding strip_blank has_keyword_def by (auto dest: word_runs_blank)

subsection \<open>What the corrector does\<close>

abbreviation canon_label :: "string list \<Rightarrow> string \<Rightarrow> string option" where
  "canon_label labels \<equiv> canonical py_lower (case_map py_lower labels)"

abbreviation canon_rel :: "string list \<Rightarrow> string \<Rightarrow> string option" where
  "canon_rel rel_types \<equiv> canonical py_upper (case_map py_upper rel_types)"

definition fixed_names :: "string list \<Rightarrow> string list \<Rightarrow> string \<Rightarrow> string" where
  "fixed_names labels rel_types s = fst (fix_rel_type_case (cc_init labels rel_types) (fst (fix_label_case (cc_init labels rel_types) s)))"

lemma cr_corrected_eq:
  "cr_corrected (cc_correct (cc_init labels rel_types) s) =
     (if py_strip s = [] then s else fst (add_return_clause (fixed_names labels rel_types s)))"
  by (simp add: cc_correct_def fixed_names_def split: prod.split)

lemma labels_fixed:
  assumes "list_all is_ident labels" and "list_all is_ident rel_types"
  shows "find_labels (fixed_names labels rel_types s) = map (rename (canon_label labels)) (find_labels s)"
proof -
  note I = canonical_ident [OF assms(1), of py_lower, THEN conjunct1] canonical_ident [OF assms(2), of py_upper, THEN conjunct1]
  let ?t = "fst (fix_label_case (cc_init labels rel_types) s)"
  have "names CHR ''('' CHR '')'' (fixed_names labels rel_types s) = names CHR ''('' CHR '')'' ?t"
    using names_across [OF scan_wf [of "CHR ''[''" "CHR '']''" ?t], where u = "[]" and op = "CHR ''(''" and cl = "CHR '')''"
        and f = "canon_rel rel_types"] I(2)
    by (simp add: fixed_names_def fix_rel_type_case_def fix_case_def cc_init_def unscan_scan)
  also have "names CHR ''('' CHR '')'' ?t = map (rename (canon_label labels)) (names CHR ''('' CHR '')'' s)"
    using names_replace [where f = "canon_label labels" and op = "CHR ''(''" and cl = "CHR '')''"] I(1)
    by (simp add: fix_label_case_def fix_case_def cc_init_def)
  finally show ?thesis by (simp add: find_labels_def)
qed

lemma rel_types_fixed:
  assumes "list_all is_ident labels" and "list_all is_ident rel_types"
  shows "find_rel_types (fixed_names labels rel_types s) = map (rename (canon_rel rel_types)) (find_rel_types s)"
proof -
  note I = canonical_ident [OF assms(1), of py_lower, THEN conjunct1] canonical_ident [OF assms(2), of py_upper, THEN conjunct1]
  let ?t = "fst (fix_label_case (cc_init labels rel_types) s)"
  have "names CHR ''['' CHR '']'' (fixed_names labels rel_types s) = map (rename (canon_rel rel_types)) (names CHR ''['' CHR '']'' ?t)"
    using names_replace [where f = "canon_rel rel_types" and op = "CHR ''[''" and cl = "CHR '']''"] I(2)
    by (simp add: fixed_names_def fix_rel_type_case_def fix_case_def cc_init_def)
  also have "names CHR ''['' CHR '']'' ?t = names CHR ''['' CHR '']'' s"
    using names_across [OF scan_wf [of "CHR ''(''" "CHR '')''" s], where u = "[]" and op = "CHR ''[''" and cl = "CHR '']''"
        and f = "canon_label labels"] I(1)
    by (simp add: fix_label_case_def fix_case_def cc_init_def unscan_scan)
  finally show ?thesis by (simp add: find_rel_types_def)
qed

lemma keywords_fixed:
  assumes "list_all is_ident labels" and "list_all is_ident rel_types"
  shows "has_keyword k (fixed_names labels rel_types s) = has_keyword k s"
proof -
  have l: "is_ident m \<and> py_upper m = py_upper n" if "canon_label labels n = Some m" for n m
    using canonical_ident [OF assms(1) that] case_fold by blast
  have r: "is_ident m \<and> py_upper m = py_upper n" if "canon_rel rel_types n = Some m" for n m
    using canonical_ident [OF assms(2) that] by blast
  show ?thesis
    unfolding fixed_names_def fix_rel_type_case_def fix_label_case_def
    by (simp add: cc_init_def keyword_fix_case [OF char_classes(2) r] keyword_fix_case [OF char_classes(1) l])
qed

lemma word_runs_quiet_tail: "\<forall>c \<in> set w. \<not> is_word c \<Longrightarrow> word_runs cur (u @ w) = word_runs cur u"
proof (cases w)
  case (Cons c v)
  assume "\<forall>c \<in> set w. \<not> is_word c"
  moreover from this have "word_runs [] v = []" unfolding Cons by (induction v) auto
  ultimately show ?thesis by (simp add: Cons word_runs_split)
qed simp

lemma add_return_keeps_match: "has_keyword ''MATCH'' s \<Longrightarrow> has_keyword ''MATCH'' (fst (add_return_clause s))"
proof -
  assume m: "has_keyword ''MATCH'' s"
  obtain tail where t: "s = rstrip_clause s @ tail" "\<forall>c \<in> set tail. py_isspace c \<or> c = CHR '';''"
    using rstrip_clause_tail by blast
  have "\<not> is_word CHR '';''" "\<not> is_word CHR 0x0A" by code_simp+
  note nw = this
  have "\<forall>c \<in> set tail. \<not> is_word c" using t(2) nw word_not_space by blast
  from word_runs_quiet_tail [OF this, of "[]" "rstrip_clause s"] t(1) have "word_runs [] s = word_runs [] (rstrip_clause s)" by simp
  moreover have "word_runs [] (rstrip_clause s @ return_tail s) = word_runs [] (rstrip_clause s) @ word_runs [] (tl (return_tail s))"
    using word_runs_split [OF nw(2), of "[]" "rstrip_clause s"] by (simp add: return_tail_def del: word_runs.simps)
  ultimately have "has_keyword ''MATCH'' (rstrip_clause s @ return_tail s)"
    using m unfolding has_keyword_def by (simp del: word_runs.simps)
  with m show ?thesis unfolding fst_add_return by simp
qed

lemma add_return_names [simp]:
  "find_labels (fst (add_return_clause s)) = find_labels s" "find_rel_types (fst (add_return_clause s)) = find_rel_types s"
  by (simp_all add: find_labels_def find_rel_types_def names_add_return)

lemma fixed_idle:
  assumes "\<And>n. n \<in> set (find_labels s) \<Longrightarrow> canon_label labels n = None"
    and "\<And>n. n \<in> set (find_rel_types s) \<Longrightarrow> canon_rel rel_types n = None"
  shows "fix_label_case (cc_init labels rel_types) s = (s, [])" and "fix_rel_type_case (cc_init labels rel_types) s = (s, [])"
proof -
  have quietly: "concat (map (replace_note what f) (scan op cl s)) = []" if "\<And>n. n \<in> set (names op cl s) \<Longrightarrow> f n = None" for what f op cl
  proof -
    have "replace_note what f x = []" if "x \<in> set (scan op cl s)" for x
    proof (cases x)
      case (Ref p w1 n w2)
      with that have "n \<in> set (names op cl s)" by (force simp: names_def)
      with Ref \<open>\<And>n. n \<in> set (names op cl s) \<Longrightarrow> f n = None\<close> show ?thesis by simp
    qed simp
    then show ?thesis by simp
  qed
  have idle: "fix_case op cl what f s = (s, [])" if "\<And>n. n \<in> set (names op cl s) \<Longrightarrow> f n = None" for what f op cl
    using replace_idle [OF that] quietly [OF that] by (simp add: fix_case_def unscan_scan)
  show "fix_label_case (cc_init labels rel_types) s = (s, [])"
    using idle [OF assms(1) [unfolded find_labels_def]] by (simp add: fix_label_case_def cc_init_def)
  show "fix_rel_type_case (cc_init labels rel_types) s = (s, [])"
    using idle [OF assms(2) [unfolded find_rel_types_def]] by (simp add: fix_rel_type_case_def cc_init_def)
qed

lemma canonical_known: "canonical f (case_map f vs) n = None \<Longrightarrow> list_all is_ident vs \<Longrightarrow> f n \<in> f ` set vs \<Longrightarrow> n \<in> set vs"
proof -
  assume a: "canonical f (case_map f vs) n = None" "list_all is_ident vs" "f n \<in> f ` set vs"
  from a(3) obtain c where c: "map_of (case_map f vs) (f n) = Some c" using case_map_None [of f vs "f n"] by (cases "map_of (case_map f vs) (f n)") auto
  then have "c \<in> set vs" using case_map_Some [OF c] by simp
  moreover have "c \<noteq> []" using a(2) \<open>c \<in> set vs\<close> by (auto simp: list_all_iff is_ident_def)
  ultimately show "n \<in> set vs" using a(1) c by (auto simp: canonical_def split: if_splits)
qed

lemma rename_key: "list_all is_ident vs \<Longrightarrow> f (rename (canonical f (case_map f vs)) n) = f n"
  by (cases "canonical f (case_map f vs) n") (auto simp: rename_def dest: canonical_ident)

subsection \<open>What the validator accepts\<close>

lemma concat_map_Nil: "concat (map f xs) = [] \<longleftrightarrow> list_all (\<lambda>x. f x = []) xs"
  by (simp add: list_all_iff)

lemma check_label_ok: "fst (check_label valid l) = [] \<longleftrightarrow> l = ''Node'' \<or> py_lower l \<in> py_lower ` set valid"
  by (auto simp: check_label_def case_map_None split: option.split dest!: case_map_Some intro: rev_image_eqI)

lemma check_rel_type_ok: "fst (check_rel_type valid t) = [] \<longleftrightarrow> py_upper t \<in> py_upper ` set valid"
  by (auto simp: check_rel_type_def case_map_None split: option.split dest!: case_map_Some intro: rev_image_eqI)

definition known_labels :: "string list \<Rightarrow> string \<Rightarrow> bool" where
  "known_labels valid s \<longleftrightarrow> list_all (\<lambda>l. l = ''Node'' \<or> py_lower l \<in> py_lower ` set valid) (find_labels s)"

definition known_rel_types :: "string list \<Rightarrow> string \<Rightarrow> bool" where
  "known_rel_types valid s \<longleftrightarrow> list_all (\<lambda>t. py_upper t \<in> py_upper ` set valid) (find_rel_types s)"

lemma check_labels_ok: "fst (check_labels valid s) = [] \<longleftrightarrow> known_labels valid s"
  by (simp add: check_labels_def Let_def known_labels_def check_label_ok list_all_iff)

lemma check_relationships_ok: "fst (check_relationships valid s) = [] \<longleftrightarrow> known_rel_types valid s"
  by (simp add: check_relationships_def Let_def known_rel_types_def check_rel_type_ok list_all_iff)

lemma compute_score_unit: "0 \<le> compute_score es ws \<and> compute_score es ws \<le> 1"
  by (simp add: compute_score_def py_round_unit)

lemma cv_validate_valid:
  "vl_is_valid (cv_validate v s) \<longleftrightarrow> has_keyword ''MATCH'' s \<and> has_keyword ''RETURN'' s
     \<and> (cv_valid_labels v = [] \<or> known_labels (cv_valid_labels v) s)
     \<and> (cv_valid_rel_types v = [] \<or> known_rel_types (cv_valid_rel_types v) s)"
proof (cases "py_strip s = []")
  case True
  then have "\<not> has_keyword ''MATCH'' s" using keyword_not_blank by blast
  with True show ?thesis by (simp add: cv_validate_def)
next
  case False
  have v: "vl_is_valid (cv_validate v s) \<longleftrightarrow> check_syntax s = [] \<and> check_return_clause s = []
      \<and> (cv_valid_labels v = [] \<or> fst (check_labels (cv_valid_labels v) s) = [])
      \<and> (cv_valid_rel_types v = [] \<or> fst (check_relationships (cv_valid_rel_types v) s) = [])"
    using False by (auto simp: cv_validate_def Let_def split: prod.split)
  show ?thesis unfolding v check_labels_ok check_relationships_ok check_syntax_def check_return_clause_def by simp
qed

lemma cv_validate_score: "0 \<le> vl_score (cv_validate v s) \<and> vl_score (cv_validate v s) \<le> 1"
  using compute_score_unit by (simp add: cv_validate_def Let_def split: prod.split)

lemma cv_validate_failure:
  "vl_failure_type (cv_validate v s) = FT_SCHEMA \<longleftrightarrow> \<not> vl_is_valid (cv_validate v s)"
  by (simp add: cv_validate_def Let_def classify_failure_type_def split: prod.split)

text \<open>The corrected text uses only the canonical spellings, and a text with such spellings draws no warnings.\<close>

lemma corrected_canonical:
  fixes s :: string
  assumes "list_all is_ident labels" and "list_all is_ident rel_types"
  defines "s' \<equiv> fst (add_return_clause (fixed_names labels rel_types s))"
  shows "n \<in> set (find_labels s') \<Longrightarrow> canon_label labels n = None" and "n \<in> set (find_rel_types s') \<Longrightarrow> canon_rel rel_types n = None"
  using canonical_rename [OF assms(1), of py_lower] canonical_rename [OF assms(2), of py_upper]
  by (auto simp: s'_def labels_fixed [OF assms(1,2)] rel_types_fixed [OF assms(1,2)])

lemma corrected_again:
  fixes s :: string
  assumes "list_all is_ident labels" and "list_all is_ident rel_types"
  defines "s' \<equiv> fst (add_return_clause (fixed_names labels rel_types s))"
  shows "cc_correct (cc_init labels rel_types) s' = \<lparr>cr_original = s', cr_corrected = s', cr_applied = [], cr_was_modified = False\<rparr>"
proof -
  note idle = fixed_idle [OF corrected_canonical [OF assms(1,2), of _ s, folded s'_def]]
  have "add_return_clause s' = (s', [])"
  proof (cases "has_keyword ''MATCH'' (fixed_names labels rel_types s)")
    case True
    then have "has_keyword ''RETURN'' s'" unfolding s'_def by (rule add_return_has_return)
    then show ?thesis by (simp add: add_return_clause_def)
  next
    case False
    then have "s' = fixed_names labels rel_types s" by (simp add: s'_def fst_add_return)
    with False show ?thesis by (simp add: add_return_clause_def)
  qed
  with idle show ?thesis by (simp add: cc_correct_def)
qed

lemma no_case_warnings:
  assumes "list_all is_ident labels" and "list_all is_ident rel_types"
    and "\<And>n. n \<in> set (find_labels s) \<Longrightarrow> canon_label labels n = None"
    and "\<And>n. n \<in> set (find_rel_types s) \<Longrightarrow> canon_rel rel_types n = None"
  shows "snd (check_labels labels s) = []" and "snd (check_relationships rel_types s) = []"
proof -
  have "snd (check_label labels n) = []" if "n \<in> set (find_labels s)" for n
    using canonical_known [OF assms(3) [OF that] assms(1)] case_map_None [of py_lower labels "py_lower n"]
    by (cases "map_of (case_map py_lower labels) (py_lower n)") (auto simp: check_label_def)
  then show "snd (check_labels labels s) = []" by (simp add: check_labels_def Let_def)
  have "snd (check_rel_type rel_types n) = []" if "n \<in> set (find_rel_types s)" for n
    using canonical_known [OF assms(4) [OF that] assms(2)] case_map_None [of py_upper rel_types "py_upper n"]
    by (cases "map_of (case_map py_upper rel_types) (py_upper n)") (auto simp: check_rel_type_def)
  then show "snd (check_relationships rel_types s) = []" by (simp add: check_relationships_def Let_def)
qed

lemma corrected_known:
  fixes s :: string
  assumes "list_all is_ident labels" and "list_all is_ident rel_types"
  defines "s' \<equiv> fst (add_return_clause (fixed_names labels rel_types s))"
  shows "known_labels labels s \<Longrightarrow> known_labels labels s'" and "known_rel_types rel_types s \<Longrightarrow> known_rel_types rel_types s'"
proof -
  have r: "rename (canon_label labels) l = ''Node'' \<or> py_lower (rename (canon_label labels) l) \<in> py_lower ` set labels"
    if "l = ''Node'' \<or> py_lower l \<in> py_lower ` set labels" for l
  proof (cases "canon_label labels l")
    case (Some m)
    then have "m \<in> set labels" using canonical_ident [OF assms(1)] by blast
    with Some show ?thesis by (simp add: rename_def)
  next
    case None
    with that show ?thesis by (simp add: rename_def)
  qed
  then show "known_labels labels s \<Longrightarrow> known_labels labels s'"
    unfolding known_labels_def s'_def add_return_names labels_fixed [OF assms(1,2)] list_all_iff set_map ball_simps(9) by blast
  show "known_rel_types rel_types s \<Longrightarrow> known_rel_types rel_types s'"
    using rename_key [OF assms(2), of py_upper]
    by (auto simp: known_rel_types_def list_all_iff s'_def rel_types_fixed [OF assms(1,2)])
qed

section \<open>Properties\<close>

text \<open>C10. The corrector does exactly what it says.  With labels and relationship types that are identifiers, the corrected text
  has the labels and the relationship types of the original in the same order, each replaced by the known name it equals up to
  case; nothing else is renamed and the keywords stay.  A text with MATCH leaves with a RETURN clause.  Correcting the corrected
  text changes nothing and reports nothing.  And when the original has a MATCH clause and every name is known up to case,
  the validator accepts the corrected text without errors, warnings or loss of score.\<close>

theorem corrector_exact:
  assumes "list_all is_ident labels" and "list_all is_ident rel_types" and "py_strip s \<noteq> []"
    and "c = cc_init labels rel_types" and "s' = cr_corrected (cc_correct c s)"
  shows "find_labels s' = map (rename (canonical py_lower (cc_label_lookup c))) (find_labels s)
    \<and> find_rel_types s' = map (rename (canonical py_upper (cc_rel_lookup c))) (find_rel_types s)
    \<and> (has_keyword ''MATCH'' s \<longrightarrow> has_keyword ''RETURN'' s')
    \<and> cc_correct c s' = \<lparr>cr_original = s', cr_corrected = s', cr_applied = [], cr_was_modified = False\<rparr>
    \<and> (has_keyword ''MATCH'' s \<and> known_labels labels s \<and> known_rel_types rel_types s \<and> labels \<noteq> [] \<and> rel_types \<noteq> [] \<longrightarrow>
        cv_validate (cv_from_labels_and_types labels rel_types) s' =
          \<lparr>vl_is_valid = True, vl_errors = [], vl_warnings = [], vl_score = 1, vl_failure_type = FT_NONE\<rparr>)"
proof (intro conjI impI)
  have s': "s' = fst (add_return_clause (fixed_names labels rel_types s))"
    using assms(3) by (simp add: assms(4,5) cr_corrected_eq)
  show "find_labels s' = map (rename (canonical py_lower (cc_label_lookup c))) (find_labels s)"
    by (simp add: s' assms(4) cc_init_def labels_fixed [OF assms(1,2)])
  show "find_rel_types s' = map (rename (canonical py_upper (cc_rel_lookup c))) (find_rel_types s)"
    by (simp add: s' assms(4) cc_init_def rel_types_fixed [OF assms(1,2)])
  show ret: "has_keyword ''RETURN'' s'" if "has_keyword ''MATCH'' s"
    unfolding s' using that by (intro add_return_has_return) (simp add: keywords_fixed [OF assms(1,2)])
  show "cc_correct c s' = \<lparr>cr_original = s', cr_corrected = s', cr_applied = [], cr_was_modified = False\<rparr>"
    unfolding s' assms(4) by (rule corrected_again [OF assms(1,2)])
  assume k: "has_keyword ''MATCH'' s \<and> known_labels labels s \<and> known_rel_types rel_types s \<and> labels \<noteq> [] \<and> rel_types \<noteq> []"
  note w = no_case_warnings [OF assms(1,2) corrected_canonical [OF assms(1,2), of _ s, folded s']]
  have e: "fst (check_labels labels s') = []" "fst (check_relationships rel_types s') = []"
    unfolding check_labels_ok check_relationships_ok s' using corrected_known [OF assms(1,2)] k by blast+
  from e w have ch: "check_labels labels s' = ([], [])" "check_relationships rel_types s' = ([], [])" by (simp_all add: prod_eq_iff)
  have "has_keyword ''MATCH'' s'" unfolding s' by (rule add_return_keeps_match) (simp add: keywords_fixed [OF assms(1,2)] k)
  then have "check_syntax s' = []" "check_return_clause s' = []" "py_strip s' \<noteq> []"
    using ret k keyword_not_blank by (simp_all add: check_syntax_def check_return_clause_def)
  then show "cv_validate (cv_from_labels_and_types labels rel_types) s' =
        \<lparr>vl_is_valid = True, vl_errors = [], vl_warnings = [], vl_score = 1, vl_failure_type = FT_NONE\<rparr>"
    using k ch by (simp add: cv_validate_def cv_from_labels_and_types_def check_relationship_directions_def compute_score_def
      classify_failure_type_def py_round_one)
qed

theorem corrector_exact_witness:
  "\<exists>s'. cr_corrected (cc_correct (cc_init [''Vessel''] [''DOCKED_AT'']) ''match (v:vessel)-[ r : docked_at ]->(w:Vessel);'') = s'
     \<and> find_labels s' = [''Vessel'', ''Vessel''] \<and> find_rel_types s' = [''DOCKED_AT''] \<and> has_keyword ''RETURN'' s'
     \<and> vl_score (cv_validate (cv_from_labels_and_types [''Vessel''] [''DOCKED_AT'']) s') = 1"
proof -
  let ?s = "''match (v:vessel)-[ r : docked_at ]->(w:Vessel);''"
  let ?c = "cc_init [''Vessel''] [''DOCKED_AT'']"
  have e: "list_all is_ident [''Vessel'']" "list_all is_ident [''DOCKED_AT'']" "py_strip ?s \<noteq> []" by code_simp+
  have v: "has_keyword ''MATCH'' ?s" "known_labels [''Vessel''] ?s" "known_rel_types [''DOCKED_AT''] ?s"
    "map (rename (canonical py_lower (cc_label_lookup ?c))) (find_labels ?s) = [''Vessel'', ''Vessel'']"
    "map (rename (canonical py_upper (cc_rel_lookup ?c))) (find_rel_types ?s) = [''DOCKED_AT'']" by code_simp+
  from corrector_exact [OF e refl refl] v show ?thesis by (simp only: list.distinct simp_thms) simp
qed


text \<open>Only outgoing arrows are compared with the ontology, and the target of one pattern is not the source of the next: an
  incoming arrow the wrong way round and the second hop of a chain go unnoticed.\<close>

lemma directions_partly_checked:
  "find_outgoing ''(a:Port)<-[r:AT]-(b:Vessel)'' = [] \<and> find_outgoing ''(a:A)-[r:R]->(b:B)-[q:Q]->(c:C)'' = [(''A'', ''R'', ''B'')]"
  by code_simp

end
