(* ===== verification/Query_Generator.thy ===== *)
theory Query_Generator
  imports Cypher_Check "HOL-Library.Sublist"
begin

text \<open>
  \<^verbatim>\<open>core/kg/query_generator.py\<close>: Cypher, SQL and MongoDB text from a structured query.

  Operators, intents and aggregation functions are their text (a member of the string enumerations is used through its value
  everywhere).  An optional list that is \<open>None\<close> or empty is the empty list: the code only asks whether there is something in it.
  Values are JSON; how a number is printed is the argument \<open>num\<close>, everything else of \<^verbatim>\<open>str\<close> and \<^verbatim>\<open>json.dumps\<close> that the
  generator uses is defined here.  Generation fails with an index error when the name of the object type leaves no first letter.
\<close>

section \<open>Texts of values\<close>

type_synonym num_text = "real \<Rightarrow> string"

definition hex_digit :: "nat \<Rightarrow> char" where
  "hex_digit d = (if d < 10 then char_of (48 + d) else char_of (87 + d))"

text \<open>The quotes of \<^verbatim>\<open>repr\<close>: double quotes only when the text has a single quote and no double quote.\<close>

definition repr_char :: "char \<Rightarrow> char \<Rightarrow> string" where
  "repr_char q c = (if c = q \<or> c = CHR 0x5C then [CHR 0x5C, c]
     else if c = CHR 0x0A then [CHR 0x5C, CHR ''n''] else if c = CHR 0x0D then [CHR 0x5C, CHR ''r'']
     else if c = CHR 0x09 then [CHR 0x5C, CHR ''t'']
     else let n = (of_char c :: nat) in
       if n < 32 \<or> 127 \<le> n \<and> n \<le> 160 \<or> n = 173 then [CHR 0x5C, CHR ''x'', hex_digit (n div 16), hex_digit (n mod 16)] else [c])"

definition repr_str :: "string \<Rightarrow> string" where
  "repr_str s = (let q = (if CHR 0x27 \<in> set s \<and> CHR 0x22 \<notin> set s then CHR 0x22 else CHR 0x27) in q # concat (map (repr_char q) s) @ [q])"

fun py_repr :: "num_text \<Rightarrow> json \<Rightarrow> string" where
  "py_repr num JNull = ''None''"
| "py_repr num (JBool b) = (if b then ''True'' else ''False'')"
| "py_repr num (JNum x) = num x"
| "py_repr num (JStr s) = repr_str s"
| "py_repr num (JList xs) = ''['' @ join_with '', '' (map (py_repr num) xs) @ '']''"
| "py_repr num (JObj kvs) = ''{'' @ join_with '', '' (map (\<lambda>(k, v). repr_str k @ '': '' @ py_repr num v) kvs) @ ''}''"

definition py_show :: "num_text \<Rightarrow> json \<Rightarrow> string" where
  "py_show num v = (case v of JStr s \<Rightarrow> s | _ \<Rightarrow> py_repr num v)"

text \<open>\<^verbatim>\<open>json.dumps\<close> escapes everything outside printable ASCII.\<close>

definition dump_char :: "char \<Rightarrow> string" where
  "dump_char c = (let n = (of_char c :: nat) in
     if c = CHR 0x22 \<or> c = CHR 0x5C then [CHR 0x5C, c]
     else if n = 10 then [CHR 0x5C, CHR ''n''] else if n = 13 then [CHR 0x5C, CHR ''r''] else if n = 9 then [CHR 0x5C, CHR ''t'']
     else if n = 12 then [CHR 0x5C, CHR ''f''] else if n = 8 then [CHR 0x5C, CHR ''b'']
     else if 32 \<le> n \<and> n \<le> 126 then [c]
     else [CHR 0x5C, CHR ''u'', CHR ''0'', CHR ''0'', hex_digit (n div 16), hex_digit (n mod 16)])"

definition dump_str :: "string \<Rightarrow> string" where
  "dump_str s = dquote (concat (map dump_char s))"

fun dumps :: "num_text \<Rightarrow> json \<Rightarrow> string" where
  "dumps num JNull = ''null''"
| "dumps num (JBool b) = (if b then ''true'' else ''false'')"
| "dumps num (JNum x) = num x"
| "dumps num (JStr s) = dump_str s"
| "dumps num (JList xs) = ''['' @ join_with '', '' (map (dumps num) xs) @ '']''"
| "dumps num (JObj kvs) = ''{'' @ join_with '', '' (map (\<lambda>(k, v). dump_str k @ '': '' @ dumps num v) kvs) @ ''}''"

text \<open>With \<^verbatim>\<open>indent=2\<close>; \<open>l\<close> is the indentation of the enclosing line.\<close>

definition block :: "nat \<Rightarrow> string \<Rightarrow> string list \<Rightarrow> string \<Rightarrow> string" where
  "block l a xs z = (if xs = [] then a @ z
     else a @ [CHR 0x0A] @ replicate (l + 2) (CHR '' '') @ join_with ('','' @ [CHR 0x0A] @ replicate (l + 2) (CHR '' '')) xs
       @ [CHR 0x0A] @ replicate l (CHR '' '') @ z)"

fun dumps_indent :: "num_text \<Rightarrow> nat \<Rightarrow> json \<Rightarrow> string" where
  "dumps_indent num l (JList xs) = block l ''['' (map (dumps_indent num (l + 2)) xs) '']''"
| "dumps_indent num l (JObj kvs) = block l ''{'' (map (\<lambda>(k, v). dump_str k @ '': '' @ dumps_indent num (l + 2) v) kvs) ''}''"
| "dumps_indent num l v = dumps num v"

section \<open>Structured queries\<close>

record query_intent =
  qi_intent :: string
  qi_confidence :: real
  qi_sub_intent :: "string option"

record extracted_filter =
  ef_field :: string
  ef_operator :: string
  ef_value :: json
  ef_confidence :: real

record relationship_spec =
  rs_type :: string
  rs_direction :: string
  rs_target_entity :: "string option"
  rs_alias :: "string option"

record aggregation_spec =
  as_function :: string
  as_field :: "string option"
  as_alias :: "string option"

record sort_spec =
  ss_field :: string
  ss_direction :: string

record pagination =
  pg_limit :: "int option"
  pg_offset :: "int option"

record structured_query =
  sq_intent :: query_intent
  sq_object_types :: "string list"
  sq_properties :: "string list"
  sq_filters :: "extracted_filter list"
  sq_relationships :: "relationship_spec list"
  sq_aggregations :: "aggregation_spec list"
  sq_group_by :: "string list"
  sq_sorting :: "sort_spec list"
  sq_pagination :: "pagination option"
  sq_reasoning_type :: string

record generated_query =
  gq_language :: string
  gq_query :: string
  gq_parameters :: "(string, json) dict"
  gq_explanation :: "string option"
  gq_complexity :: string
  gq_warnings :: "string list option"

datatype generator_error = IndexOutOfRange | UnsupportedLanguage string

text \<open>\<^verbatim>\<open>x or y\<close> for optional text, and a number that is absent or zero.\<close>

definition text_or :: "string option \<Rightarrow> string \<Rightarrow> string" where
  "text_or x y = (case x of Some s \<Rightarrow> if s = [] then y else s | None \<Rightarrow> y)"

definition given :: "string option \<Rightarrow> bool" where
  "given x \<longleftrightarrow> (case x of Some s \<Rightarrow> s \<noteq> [] | None \<Rightarrow> False)"

definition number_clause :: "string \<Rightarrow> string \<Rightarrow> int option \<Rightarrow> string" where
  "number_clause a z x = (case x of Some n \<Rightarrow> if n = 0 then [] else a @ int_str n @ z | None \<Rightarrow> [])"

definition newline :: "string \<Rightarrow> string" where
  "newline s = CHR 0x0A # s"

definition estimate_complexity :: "structured_query \<Rightarrow> string" where
  "estimate_complexity q =
     (let score = real (length (sq_filters q)) + real (length (sq_relationships q)) * 2 + real (length (sq_aggregations q)) * 2
                + real (length (sq_group_by q)) + real (length (sq_sorting q)) * (1 / 2) in
      if score \<le> 2 then ''simple'' else if score \<le> 5 then ''moderate'' else ''complex'')"

definition object_type_or :: "structured_query \<Rightarrow> string \<Rightarrow> string" where
  "object_type_or q d = (case sq_object_types q of [] \<Rightarrow> d | t # _ \<Rightarrow> t)"

section \<open>Cypher\<close>

definition gen_param :: "nat \<Rightarrow> string" where
  "gen_param i = ''p'' @ nat_str i"

definition cypher_condition :: "string \<Rightarrow> extracted_filter \<Rightarrow> string \<Rightarrow> string" where
  "cypher_condition alias f p =
     (let fd = alias @ ''.'' @ ef_field f in
      case map_of
        [(''equals'', fd @ '' = $'' @ p),
         (''not_equals'', fd @ '' <> $'' @ p),
         (''contains'', fd @ '' CONTAINS $'' @ p),
         (''starts_with'', fd @ '' STARTS WITH $'' @ p),
         (''ends_with'', fd @ '' ENDS WITH $'' @ p),
         (''greater_than'', fd @ '' > $'' @ p),
         (''greater_than_or_equals'', fd @ '' >= $'' @ p),
         (''less_than'', fd @ '' < $'' @ p),
         (''less_than_or_equals'', fd @ '' <= $'' @ p),
         (''in'', fd @ '' IN $'' @ p),
         (''not_in'', ''NOT '' @ fd @ '' IN $'' @ p),
         (''is_null'', fd @ '' IS NULL''),
         (''is_not_null'', fd @ '' IS NOT NULL''),
         (''matches_regex'', fd @ '' =~ $'' @ p)] (ef_operator f) of
        Some c \<Rightarrow> c
      | None \<Rightarrow> fd @ '' = $'' @ p)"

definition cypher_aggregation :: "string \<Rightarrow> aggregation_spec \<Rightarrow> string" where
  "cypher_aggregation alias a =
     (let name = text_or (as_alias a) (py_lower (as_function a)) in
      if given (as_field a) then as_function a @ ''('' @ alias @ ''.'' @ the (as_field a) @ '') AS '' @ name
      else as_function a @ ''('' @ alias @ '') AS '' @ name)"

text \<open>The loop over the relationships; \<open>i\<close> is \<open>param_index\<close>.\<close>

definition cypher_arrow :: "string \<Rightarrow> relationship_spec \<Rightarrow> string" where
  "cypher_arrow alias r =
     (if rs_direction r = ''incoming'' then ''<-['' @ alias @ '':'' @ rs_type r @ '']-''
      else if rs_direction r = ''bidirectional'' then ''-['' @ alias @ '':'' @ rs_type r @ '']-''
      else ''-['' @ alias @ '':'' @ rs_type r @ '']->'')"

fun cypher_rels :: "nat \<Rightarrow> relationship_spec list \<Rightarrow> string" where
  "cypher_rels i [] = []"
| "cypher_rels i (r # rs) =
     newline (cypher_arrow (''r'' @ nat_str i) r @ ''('' @ ''t'' @ nat_str i @ '':'' @ text_or (rs_target_entity r) ''Node'' @ '')'')
     @ cypher_rels (i + 1) rs"

text \<open>The loop over the filters: conditions and parameters.\<close>

fun cypher_filters :: "string \<Rightarrow> nat \<Rightarrow> extracted_filter list \<Rightarrow> string list \<Rightarrow> (string, json) dict \<Rightarrow> string list \<times> (string, json) dict" where
  "cypher_filters alias i [] cs ps = (cs, ps)"
| "cypher_filters alias i (f # fs) cs ps =
     (let c = cypher_condition alias f (gen_param i) in
      if c = [] then cypher_filters alias i fs cs ps
      else cypher_filters alias (i + 1) fs (cs @ [c])
             (if ef_operator f \<in> {''is_null'', ''is_not_null''} then ps else AList.update (gen_param i) (ef_value f) ps))"

definition where_text :: "string list \<Rightarrow> string" where
  "where_text cs = (if cs = [] then [] else newline (''WHERE '' @ join_with '' AND '' cs))"

definition cypher_return :: "string \<Rightarrow> structured_query \<Rightarrow> string" where
  "cypher_return alias q =
     (let intent = qi_intent (sq_intent q) in
      if intent = ''COUNT'' then ''count('' @ alias @ '') AS count''
      else if intent = ''AGGREGATE'' \<and> sq_aggregations q \<noteq> []
      then (let aggs = join_with '', '' (map (cypher_aggregation alias) (sq_aggregations q)) in
            if sq_group_by q \<noteq> [] then join_with '', '' (map (\<lambda>f. alias @ ''.'' @ f) (sq_group_by q)) @ '', '' @ aggs else aggs)
      else if sq_properties q \<noteq> [] then join_with '', '' (map (\<lambda>p. alias @ ''.'' @ p @ '' AS '' @ p) (sq_properties q))
      else alias)"

definition cypher_tail :: "string \<Rightarrow> structured_query \<Rightarrow> string" where
  "cypher_tail alias q =
     (if sq_sorting q = [] then []
      else newline (''ORDER BY '' @ join_with '', '' (map (\<lambda>s. alias @ ''.'' @ ss_field s @ '' '' @ ss_direction s) (sq_sorting q))))
     @ (case sq_pagination q of
          None \<Rightarrow> []
        | Some p \<Rightarrow> number_clause (newline ''SKIP '') [] (pg_offset p) @ number_clause (newline ''LIMIT '') [] (pg_limit p))"

definition generate_cypher :: "structured_query \<Rightarrow> (generator_error, generated_query) res" where
  "generate_cypher q =
     (let ot = object_type_or q ''Node'' in
      case py_lower ot of
        [] \<Rightarrow> Inl IndexOutOfRange
      | c # _ \<Rightarrow>
          (let alias = [c];
               (cs, ps) = cypher_filters alias (1 + length (sq_relationships q)) (sq_filters q) [] [];
               text = ''MATCH ('' @ alias @ '':'' @ ot @ '')'' @ cypher_rels 1 (sq_relationships q) @ where_text cs
                 @ newline (''RETURN '' @ cypher_return alias q) @ cypher_tail alias q
           in Inr \<lparr>gq_language = ''cypher'', gq_query = text, gq_parameters = ps,
                   gq_explanation = Some (''Neo4j Cypher query for '' @ qi_intent (sq_intent q) @ '' on '' @ ot),
                   gq_complexity = estimate_complexity q, gq_warnings = None\<rparr>))"

section \<open>SQL\<close>

definition to_snake_case :: "string \<Rightarrow> string" where
  "to_snake_case s =
     dropWhile (\<lambda>c. c = CHR ''_'') (py_lower (concat (map (\<lambda>c. if 65 \<le> (of_char c :: nat) \<and> (of_char c :: nat) \<le> 90 then [CHR ''_'', c] else [c]) s)))"

definition sql_condition :: "num_text \<Rightarrow> string \<Rightarrow> extracted_filter \<Rightarrow> string \<times> json" where
  "sql_condition num alias f =
     (let fd = alias @ ''.'' @ to_snake_case (ef_field f); v = ef_value f in
      case map_of
        [(''equals'', (fd @ '' = ?'', v)),
         (''not_equals'', (fd @ '' != ?'', v)),
         (''contains'', (fd @ '' ILIKE ?'', JStr (''%'' @ py_show num v @ ''%''))),
         (''starts_with'', (fd @ '' ILIKE ?'', JStr (py_show num v @ ''%''))),
         (''ends_with'', (fd @ '' ILIKE ?'', JStr (''%'' @ py_show num v))),
         (''greater_than'', (fd @ '' > ?'', v)),
         (''greater_than_or_equals'', (fd @ '' >= ?'', v)),
         (''less_than'', (fd @ '' < ?'', v)),
         (''less_than_or_equals'', (fd @ '' <= ?'', v)),
         (''in'', (fd @ '' = ANY(?)'', v)),
         (''is_null'', (fd @ '' IS NULL'', JNull)),
         (''is_not_null'', (fd @ '' IS NOT NULL'', JNull))] (ef_operator f) of
        Some c \<Rightarrow> c
      | None \<Rightarrow> (fd @ '' = ?'', v))"

definition sql_aggregation :: "string \<Rightarrow> aggregation_spec \<Rightarrow> string" where
  "sql_aggregation alias a =
     (let name = text_or (as_alias a) (py_lower (as_function a)) in
      if given (as_field a) then as_function a @ ''('' @ alias @ ''.'' @ to_snake_case (the (as_field a)) @ '') AS '' @ name
      else as_function a @ ''(*) AS '' @ name)"

fun sql_joins :: "string \<Rightarrow> string \<Rightarrow> nat \<Rightarrow> relationship_spec list \<Rightarrow> string" where
  "sql_joins alias table i [] = []"
| "sql_joins alias table i (r # rs) =
     (let j = ''t'' @ nat_str i in
      newline (''JOIN '' @ to_snake_case (text_or (rs_target_entity r) ''target'') @ '' '' @ j @ '' ON '' @ alias @ ''.id = '' @ j @ ''.'' @ table @ ''_id''))
     @ sql_joins alias table (i + 1) rs"

fun sql_filters :: "num_text \<Rightarrow> string \<Rightarrow> nat \<Rightarrow> extracted_filter list \<Rightarrow> string list \<Rightarrow> (string, json) dict \<Rightarrow> string list \<times> (string, json) dict" where
  "sql_filters num alias i [] cs ps = (cs, ps)"
| "sql_filters num alias i (f # fs) cs ps =
     (let (c, v) = sql_condition num alias f in
      sql_filters num alias (i + 1) fs (cs @ [c]) (if v = JNull then ps else AList.update (''$'' @ nat_str i) v ps))"

definition sql_select :: "string \<Rightarrow> structured_query \<Rightarrow> string" where
  "sql_select alias q =
     (let intent = qi_intent (sq_intent q) in
      if intent = ''COUNT'' then ''COUNT(*) AS count''
      else if intent = ''AGGREGATE'' \<and> sq_aggregations q \<noteq> []
      then (let aggs = join_with '', '' (map (sql_aggregation alias) (sq_aggregations q)) in
            if sq_group_by q \<noteq> []
            then join_with '', '' (map (\<lambda>f. alias @ ''.'' @ to_snake_case f) (sq_group_by q)) @ '', '' @ aggs else aggs)
      else if sq_properties q \<noteq> [] then join_with '', '' (map (\<lambda>p. alias @ ''.'' @ to_snake_case p) (sq_properties q))
      else alias @ ''.*'')"

definition sql_tail :: "string \<Rightarrow> structured_query \<Rightarrow> string" where
  "sql_tail alias q =
     (if qi_intent (sq_intent q) = ''AGGREGATE'' \<and> sq_group_by q \<noteq> []
      then newline (''GROUP BY '' @ join_with '', '' (map (\<lambda>f. alias @ ''.'' @ to_snake_case f) (sq_group_by q))) else [])
     @ (if sq_sorting q = [] then []
        else newline (''ORDER BY '' @ join_with '', '' (map (\<lambda>s. alias @ ''.'' @ to_snake_case (ss_field s) @ '' '' @ ss_direction s) (sq_sorting q))))
     @ (case sq_pagination q of
          None \<Rightarrow> []
        | Some p \<Rightarrow> number_clause (newline ''LIMIT '') [] (pg_limit p) @ number_clause (newline ''OFFSET '') [] (pg_offset p))"

definition generate_sql :: "num_text \<Rightarrow> structured_query \<Rightarrow> (generator_error, generated_query) res" where
  "generate_sql num q =
     (let ot = object_type_or q ''objects''; table = to_snake_case ot in
      case table of
        [] \<Rightarrow> Inl IndexOutOfRange
      | c # _ \<Rightarrow>
          (let alias = [c]; ws = map (\<lambda>r. ''Relationship '' @ rs_type r @ '' requires proper FK configuration'') (sq_relationships q);
               (cs, ps) = sql_filters num alias (1 + length (sq_relationships q)) (sq_filters q) [] [];
               text = ''SELECT '' @ sql_select alias q @ newline (''FROM '' @ table @ '' '' @ alias)
                 @ sql_joins alias table 1 (sq_relationships q) @ where_text cs @ sql_tail alias q
           in Inr \<lparr>gq_language = ''sql'', gq_query = text, gq_parameters = ps,
                   gq_explanation = Some (''PostgreSQL query for '' @ qi_intent (sq_intent q) @ '' on '' @ ot),
                   gq_complexity = estimate_complexity q, gq_warnings = (if ws = [] then None else Some ws)\<rparr>))"

section \<open>MongoDB\<close>

definition mongo_condition :: "num_text \<Rightarrow> extracted_filter \<Rightarrow> json" where
  "mongo_condition num f =
     (let v = ef_value f in
      case map_of
        [(''equals'', v),
         (''not_equals'', JObj [(''$ne'', v)]),
         (''contains'', JObj [(''$regex'', v), (''$options'', JStr ''i'')]),
         (''starts_with'', JObj [(''$regex'', JStr (''^'' @ py_show num v)), (''$options'', JStr ''i'')]),
         (''ends_with'', JObj [(''$regex'', JStr (py_show num v @ ''$'')), (''$options'', JStr ''i'')]),
         (''greater_than'', JObj [(''$gt'', v)]),
         (''greater_than_or_equals'', JObj [(''$gte'', v)]),
         (''less_than'', JObj [(''$lt'', v)]),
         (''less_than_or_equals'', JObj [(''$lte'', v)]),
         (''in'', JObj [(''$in'', v)]),
         (''not_in'', JObj [(''$nin'', v)]),
         (''is_null'', JObj [(''$eq'', JNull)]),
         (''is_not_null'', JObj [(''$ne'', JNull)]),
         (''matches_regex'', JObj [(''$regex'', v)])] (ef_operator f) of
        Some c \<Rightarrow> c
      | None \<Rightarrow> v)"

definition mongo_filter :: "num_text \<Rightarrow> extracted_filter list \<Rightarrow> (string, json) dict" where
  "mongo_filter num fs = fold (\<lambda>f. AList.update (ef_field f) (mongo_condition num f)) fs []"

definition dict_of :: "(string \<times> json) list \<Rightarrow> (string, json) dict" where
  "dict_of kvs = fold (\<lambda>(k, v). AList.update k v) kvs []"

definition sort_doc :: "structured_query \<Rightarrow> json" where
  "sort_doc q = JObj (dict_of (map (\<lambda>s. (ss_field s, JNum (if ss_direction s = ''ASC'' then 1 else - 1))) (sq_sorting q)))"

definition mongo_accumulator :: "aggregation_spec \<Rightarrow> (string, json) dict \<Rightarrow> (string, json) dict" where
  "mongo_accumulator a g =
     (let name = text_or (as_alias a) (py_lower (as_function a));
          fd = JStr (''$'' @ (case as_field a of Some f \<Rightarrow> f | None \<Rightarrow> ''None'')) in
      if as_function a = ''COUNT'' then AList.update name (JObj [(''$sum'', JNum 1)]) g
      else if as_function a = ''SUM'' then AList.update name (JObj [(''$sum'', fd)]) g
      else if as_function a = ''AVG'' then AList.update name (JObj [(''$avg'', fd)]) g
      else if as_function a = ''MIN'' then AList.update name (JObj [(''$min'', fd)]) g
      else if as_function a = ''MAX'' then AList.update name (JObj [(''$max'', fd)]) g
      else if as_function a = ''DISTINCT'' then AList.update name (JObj [(''$addToSet'', fd)]) g
      else g)"

definition number_stage :: "string \<Rightarrow> int option \<Rightarrow> json list" where
  "number_stage k x = (case x of Some n \<Rightarrow> if n = 0 then [] else [JObj [(k, JNum (of_int n))]] | None \<Rightarrow> [])"

definition build_mongo_pipeline :: "structured_query \<Rightarrow> (string, json) dict \<Rightarrow> json list" where
  "build_mongo_pipeline q flt =
     (if flt = [] then [] else [JObj [(''$match'', JObj flt)]])
     @ (if sq_aggregations q = [] then []
        else [JObj [(''$group'', JObj (fold mongo_accumulator (sq_aggregations q)
               [(''_id'', if sq_group_by q = [] then JNull else JObj (dict_of (map (\<lambda>f. (f, JStr (''$'' @ f))) (sq_group_by q))))]))]])
     @ (if sq_sorting q = [] then [] else [JObj [(''$sort'', sort_doc q)]])
     @ (case sq_pagination q of
          None \<Rightarrow> []
        | Some p \<Rightarrow> number_stage ''$skip'' (pg_offset p) @ number_stage ''$limit'' (pg_limit p))"

definition mongo_find :: "num_text \<Rightarrow> structured_query \<Rightarrow> (string, json) dict \<Rightarrow> string" where
  "mongo_find num q flt =
     newline (''  '' @ dumps_indent num 0 (JObj flt))
     @ (if sq_properties q = [] then []
        else '','' @ newline (''  '' @ dumps_indent num 0 (JObj (dict_of (map (\<lambda>p. (p, JNum 1)) (sq_properties q))))))
     @ newline '')''
     @ (if sq_sorting q = [] then [] else ''.sort('' @ dumps num (sort_doc q) @ '')'')
     @ (case sq_pagination q of
          None \<Rightarrow> []
        | Some p \<Rightarrow> number_clause ''.skip('' '')'' (pg_offset p) @ number_clause ''.limit('' '')'' (pg_limit p))"

definition generate_mongodb :: "num_text \<Rightarrow> structured_query \<Rightarrow> generated_query" where
  "generate_mongodb num q =
     (let coll = object_type_or q ''objects''; flt = mongo_filter num (sq_filters q); intent = qi_intent (sq_intent q);
          text = ''db.'' @ coll @
            (if intent = ''COUNT'' then ''.countDocuments('' @ dumps_indent num 0 (JObj flt) @ '')''
             else if intent = ''AGGREGATE'' \<and> sq_aggregations q \<noteq> []
             then ''.aggregate('' @ dumps_indent num 0 (JList (build_mongo_pipeline q flt)) @ '')''
             else ''.find('' @ mongo_find num q flt)
      in \<lparr>gq_language = ''mongodb'', gq_query = text, gq_parameters = [],
          gq_explanation = Some (''MongoDB query for '' @ intent @ '' on '' @ coll),
          gq_complexity = estimate_complexity q, gq_warnings = None\<rparr>)"

section \<open>The generator\<close>

definition generate :: "num_text \<Rightarrow> structured_query \<Rightarrow> string \<Rightarrow> (generator_error, generated_query) res" where
  "generate num q lang =
     (if lang = ''cypher'' then generate_cypher q else if lang = ''sql'' then generate_sql num q
      else if lang = ''mongodb'' then Inr (generate_mongodb num q) else Inl (UnsupportedLanguage lang))"

definition generate_all :: "num_text \<Rightarrow> structured_query \<Rightarrow> (generator_error, generated_query list) res" where
  "generate_all num q =
     (case generate_cypher q of
        Inl e \<Rightarrow> Inl e
      | Inr c \<Rightarrow> (case generate_sql num q of Inl e \<Rightarrow> Inl e | Inr s \<Rightarrow> Inr [c, s, generate_mongodb num q]))"

section \<open>Parameters\<close>

lemma map_of_range: "map_of xs k = Some c \<Longrightarrow> list_all (\<lambda>(_, v). P v) xs \<Longrightarrow> P c"
  by (auto simp: list_all_iff dest!: map_of_SomeD)

lemma cypher_condition_ne: "cypher_condition alias f p \<noteq> []"
proof -
  have "P (cypher_condition alias f p)" if "P = (\<lambda>c. c \<noteq> [])" for P
    unfolding cypher_condition_def Let_def
    by (auto simp only: option.case split: option.split dest!: map_of_range [where P = P]) (simp_all add: that)
  then show ?thesis by blast
qed

definition binds :: "extracted_filter \<Rightarrow> bool" where
  "binds f \<longleftrightarrow> ef_operator f \<notin> {''is_null'', ''is_not_null''}"

lemma gen_param_inj: "gen_param i = gen_param j \<longleftrightarrow> i = j"
  using nat_str_inj by (auto simp: gen_param_def)

lemma update_new: "k \<notin> fst ` set ps \<Longrightarrow> AList.update k v ps = ps @ [(k, v)]"
  by (induction ps) auto

lemma cypher_filters_eq:
  assumes "\<And>j. i \<le> j \<Longrightarrow> gen_param j \<notin> fst ` set ps"
  shows "cypher_filters alias i fs cs ps =
    (cs @ map (\<lambda>(j, f). cypher_condition alias f (gen_param j)) (enumerate i fs),
     ps @ map (\<lambda>(j, f). (gen_param j, ef_value f)) (filter (\<lambda>(j, f). binds f) (enumerate i fs)))"
  using assms
proof (induction fs arbitrary: i cs ps)
  case (Cons f fs)
  have "AList.update (gen_param i) (ef_value f) ps = ps @ [(gen_param i, ef_value f)]" using Cons.prems by (intro update_new) simp
  moreover have "gen_param j \<notin> fst ` set (ps @ [(gen_param i, ef_value f)])" if "Suc i \<le> j" for j
    using Cons.prems [of j] that by (auto simp: gen_param_inj)
  ultimately show ?case
    using Cons.IH [of "Suc i"] Cons.prems by (simp add: cypher_condition_ne binds_def Let_def del: set_append)
qed simp

text \<open>The same query with other filter values.\<close>

definition with_values :: "(json \<Rightarrow> json) \<Rightarrow> structured_query \<Rightarrow> structured_query" where
  "with_values g q = q\<lparr>sq_filters := map (\<lambda>f. f\<lparr>ef_value := g (ef_value f)\<rparr>) (sq_filters q)\<rparr>"

lemma with_values_simps [simp]:
  "sq_object_types (with_values g q) = sq_object_types q" "sq_relationships (with_values g q) = sq_relationships q"
  "sq_intent (with_values g q) = sq_intent q" "sq_aggregations (with_values g q) = sq_aggregations q"
  "sq_group_by (with_values g q) = sq_group_by q" "sq_sorting (with_values g q) = sq_sorting q"
  "sq_pagination (with_values g q) = sq_pagination q" "sq_properties (with_values g q) = sq_properties q"
  "sq_filters (with_values g q) = map (\<lambda>f. f\<lparr>ef_value := g (ef_value f)\<rparr>) (sq_filters q)"
  by (simp_all add: with_values_def)

lemma enumerate_map: "enumerate i (map h xs) = map (\<lambda>(j, x). (j, h x)) (enumerate i xs)"
  by (induction xs arbitrary: i) auto

lemma cypher_condition_value [simp]: "cypher_condition alias (f\<lparr>ef_value := v\<rparr>) p = cypher_condition alias f p"
  by (simp add: cypher_condition_def)

lemma binds_value [simp]: "binds (f\<lparr>ef_value := v\<rparr>) = binds f"
  by (simp add: binds_def)

definition first_param :: "structured_query \<Rightarrow> nat" where
  "first_param q = 1 + length (sq_relationships q)"

definition bound_values :: "structured_query \<Rightarrow> (string, json) dict" where
  "bound_values q = map (\<lambda>(j, f). (gen_param j, ef_value f)) (filter (\<lambda>(j, f). binds f) (enumerate (first_param q) (sq_filters q)))"

definition cypher_conditions :: "string \<Rightarrow> structured_query \<Rightarrow> string list" where
  "cypher_conditions alias q = map (\<lambda>(j, f). cypher_condition alias f (gen_param j)) (enumerate (first_param q) (sq_filters q))"

definition cypher_text :: "char \<Rightarrow> structured_query \<Rightarrow> string" where
  "cypher_text c q = ''MATCH ('' @ [c] @ '':'' @ object_type_or q ''Node'' @ '')'' @ cypher_rels 1 (sq_relationships q)
     @ where_text (cypher_conditions [c] q) @ newline (''RETURN '' @ cypher_return [c] q) @ cypher_tail [c] q"

lemma generate_cypher_eq:
  "generate_cypher q = (case py_lower (object_type_or q ''Node'') of
     [] \<Rightarrow> Inl IndexOutOfRange
   | c # _ \<Rightarrow> Inr \<lparr>gq_language = ''cypher'', gq_query = cypher_text c q, gq_parameters = bound_values q,
       gq_explanation = Some (''Neo4j Cypher query for '' @ qi_intent (sq_intent q) @ '' on '' @ object_type_or q ''Node''),
       gq_complexity = estimate_complexity q, gq_warnings = None\<rparr>)"
  by (simp add: generate_cypher_def Let_def cypher_filters_eq cypher_text_def cypher_conditions_def bound_values_def first_param_def
      split: list.split)

lemma bound_values_with: "bound_values (with_values g q) = map (\<lambda>(k, v). (k, g v)) (bound_values q)"
  by (simp add: bound_values_def first_param_def enumerate_map filter_map comp_def case_prod_unfold)

lemma cypher_return_with: "cypher_return alias (with_values g q) = cypher_return alias q"
  by (simp add: cypher_return_def Let_def)

lemma cypher_tail_with: "cypher_tail alias (with_values g q) = cypher_tail alias q"
  by (simp add: cypher_tail_def)

lemma cypher_text_with: "cypher_text c (with_values g q) = cypher_text c q"
  by (simp add: cypher_text_def cypher_conditions_def first_param_def enumerate_map comp_def case_prod_unfold object_type_or_def
      cypher_return_with cypher_tail_with)

lemma generate_cypher_with:
  "generate_cypher (with_values g q) =
     map_sum id (\<lambda>r. r\<lparr>gq_parameters := map (\<lambda>(k, v). (k, g v)) (gq_parameters r)\<rparr>) (generate_cypher q)"
  by (simp add: generate_cypher_eq bound_values_with cypher_text_with object_type_or_def estimate_complexity_def split: list.split)

lemma bound_values_distinct: "distinct (map fst (bound_values q))"
proof -
  have "map fst (bound_values q) = map gen_param (map fst (filter (\<lambda>(j, f). binds f) (enumerate (first_param q) (sq_filters q))))"
    by (simp add: bound_values_def case_prod_unfold comp_def)
  moreover have "distinct (map fst (filter (\<lambda>(j, f). binds f) (enumerate (first_param q) (sq_filters q))))"
    by (rule distinct_map_filter) simp
  ultimately show ?thesis by (simp only: distinct_map [of gen_param]) (auto simp: inj_on_def gen_param_inj)
qed

text \<open>A filter that binds a value names its parameter at the end of its condition.\<close>

lemma cypher_condition_param:
  assumes "binds f"
  shows "suffix (''$'' @ p) (cypher_condition alias f p)"
proof -
  have R: "suffix (''$'' @ p) c" if "map_of xs (ef_operator f) = Some c"
    "list_all (\<lambda>(k, c). k = ''is_null'' \<or> k = ''is_not_null'' \<or> suffix (''$'' @ p) c) xs" for xs c
    using assms that(2) map_of_SomeD [OF that(1)] by (auto simp: binds_def list_all_iff)
  let ?fd = "alias @ ''.'' @ ef_field f"
  show ?thesis
  proof (cases "map_of
        [(''equals'', ?fd @ '' = $'' @ p), (''not_equals'', ?fd @ '' <> $'' @ p), (''contains'', ?fd @ '' CONTAINS $'' @ p),
         (''starts_with'', ?fd @ '' STARTS WITH $'' @ p), (''ends_with'', ?fd @ '' ENDS WITH $'' @ p), (''greater_than'', ?fd @ '' > $'' @ p),
         (''greater_than_or_equals'', ?fd @ '' >= $'' @ p), (''less_than'', ?fd @ '' < $'' @ p), (''less_than_or_equals'', ?fd @ '' <= $'' @ p),
         (''in'', ?fd @ '' IN $'' @ p), (''not_in'', ''NOT '' @ ?fd @ '' IN $'' @ p), (''is_null'', ?fd @ '' IS NULL''),
         (''is_not_null'', ?fd @ '' IS NOT NULL''), (''matches_regex'', ?fd @ '' =~ $'' @ p)] (ef_operator f)")
    case None
    then show ?thesis unfolding cypher_condition_def Let_def by (simp only: option.case) (simp add: suffix_def)
  next
    case (Some c)
    have "suffix (''$'' @ p) c"
      by (rule R [OF Some]) (simp add: suffix_Cons suffix_append)
    with Some show ?thesis unfolding cypher_condition_def Let_def by (simp only: option.case)
  qed
qed

text \<open>The text of an SQL query does not depend on the values either.\<close>

lemma sql_condition_text: "fst (sql_condition num alias (f\<lparr>ef_value := v\<rparr>)) = fst (sql_condition num alias f)"
proof -
  have fst_map_of: "map_option fst (map_of xs k) = map_of (map (\<lambda>(k, c, v). (k, c)) xs) k" for xs :: "(string \<times> string \<times> json) list" and k
    by (induction xs) auto
  have pick: "fst (case map_of xs k of Some c \<Rightarrow> c | None \<Rightarrow> (d, v)) = (case map_option fst (map_of xs k) of Some c \<Rightarrow> c | None \<Rightarrow> d)"
    for xs :: "(string \<times> string \<times> json) list" and k d v
    by (simp split: option.split)
  show ?thesis unfolding sql_condition_def Let_def pick fst_map_of by simp
qed

lemma sql_filters_text:
  "fst (sql_filters num alias i (map (\<lambda>f. f\<lparr>ef_value := g (ef_value f)\<rparr>) fs) cs ps) = fst (sql_filters num alias i fs cs ps')"
proof (induction fs arbitrary: i cs ps ps')
  case (Cons f fs)
  have "fst (sql_condition num alias (f\<lparr>ef_value := g (ef_value f)\<rparr>)) = fst (sql_condition num alias f)" by (rule sql_condition_text)
  with Cons.IH show ?case by (simp add: case_prod_unfold Let_def)
qed simp

lemma sql_tail_with: "sql_select alias (with_values g q) = sql_select alias q" "sql_tail alias (with_values g q) = sql_tail alias q"
  by (simp_all add: sql_select_def sql_tail_def Let_def)

lemma generate_sql_with:
  "map_sum id gq_query (generate_sql num (with_values g q)) = map_sum id gq_query (generate_sql num q)"
  by (simp add: generate_sql_def object_type_or_def sql_tail_with Let_def case_prod_unfold sql_filters_text [where ps' = "[]"] split: list.split)

section \<open>Reading generated Cypher\<close>

lemma digit_word: "d < 10 \<Longrightarrow> is_word (digit_char d)"
  by (simp add: is_word_def digit_char_def Let_def)

lemma nat_str_words: "list_all is_word (nat_str n)"
proof (induction n rule: nat_str.induct)
  case (1 n)
  then show ?case by (subst nat_str.simps) (simp add: digit_word)
qed

definition no_colon :: "string \<Rightarrow> bool" where
  "no_colon s \<longleftrightarrow> list_all (\<lambda>c. c \<noteq> CHR '':'') s"

lemma no_colon_simps [simp]:
  "no_colon []" "no_colon (c # s) \<longleftrightarrow> c \<noteq> CHR '':'' \<and> no_colon s" "no_colon (s @ t) \<longleftrightarrow> no_colon s \<and> no_colon t"
  "no_colon (newline s) \<longleftrightarrow> no_colon s"
  by (auto simp: no_colon_def newline_def)

lemma no_colon_words: "list_all is_word s \<Longrightarrow> no_colon s"
  by (auto simp: no_colon_def list_all_iff)

lemma no_colon_join: "no_colon sep \<Longrightarrow> list_all no_colon xs \<Longrightarrow> no_colon (join_with sep xs)"
  by (induction sep xs rule: join_with.induct) auto

lemma names_no_colon: "no_colon w \<Longrightarrow> names op cl w = []"
proof (induction w)
  case (Cons c r)
  have "scan_ref cl r = None"
  proof (rule ccontr)
    assume "scan_ref cl r \<noteq> None"
    then obtain p w1 n w2 rest where "scan_ref cl r = Some (p, w1, n, w2, rest)" by auto
    from scan_ref_Some(1) [OF this] Cons.prems show False by simp
  qed
  with Cons show ?case by (simp add: names_def)
qed (simp add: names_def)

lemma names_ref:
  assumes "brackets op cl" and "list_all is_word a" and "is_ident n"
  shows "names op cl (op # a @ CHR '':'' # n @ cl # t) = n # names op cl t"
proof -
  have "wf_ref a [] n []" unfolding wf_ref_def using assms(2,3) by (intro conjI exI [of _ "[]"] exI [of _ a]) auto
  from scan_ref_wf [OF this assms(1), of t] show ?thesis by (simp add: names_def)
qed

lemma words_no_bracket: "list_all is_word s \<Longrightarrow> CHR ''('' \<notin> set s \<and> CHR ''['' \<notin> set s"
proof -
  have "\<not> is_word CHR ''(''" "\<not> is_word CHR ''[''" by code_simp+
  then show "list_all is_word s \<Longrightarrow> CHR ''('' \<notin> set s \<and> CHR ''['' \<notin> set s" by (auto simp: list_all_iff)
qed

lemma ident_words: "is_ident n \<Longrightarrow> list_all is_word n"
  by (simp add: is_ident_def)

definition target_of :: "relationship_spec \<Rightarrow> string" where
  "target_of r = text_or (rs_target_entity r) ''Node''"

definition clean_rel :: "relationship_spec \<Rightarrow> bool" where
  "clean_rel r \<longleftrightarrow> is_ident (rs_type r) \<and> is_ident (target_of r)"

text \<open>One relationship, cut at its brackets.\<close>

lemma cypher_rel_shape:
  "\<exists>x y. newline (cypher_arrow (''r'' @ a) r @ ''('' @ ''t'' @ a @ '':'' @ text_or (rs_target_entity r) ''Node'' @ '')'') =
     x @ CHR ''['' # (''r'' @ a) @ CHR '':'' # rs_type r @ CHR '']'' # y @ CHR ''('' # (''t'' @ a) @ CHR '':'' # target_of r @ [CHR '')'']
   \<and> CHR ''['' \<notin> set x \<and> CHR ''('' \<notin> set x \<and> CHR ''['' \<notin> set y \<and> CHR ''('' \<notin> set y"
proof -
  have "\<exists>x y. newline (cypher_arrow (''r'' @ a) r) = x @ CHR ''['' # (''r'' @ a) @ CHR '':'' # rs_type r @ CHR '']'' # y
     \<and> CHR ''['' \<notin> set x \<and> CHR ''('' \<notin> set x \<and> CHR ''['' \<notin> set y \<and> CHR ''('' \<notin> set y"
    unfolding cypher_arrow_def newline_def
    by (intro exI [of _ "CHR 0x0A # (if rs_direction r = ''incoming'' then ''<-'' else ''-'')"]
        exI [of _ "if rs_direction r = ''incoming'' \<or> rs_direction r = ''bidirectional'' then ''-'' else ''->''"]) auto
  then obtain x y where "newline (cypher_arrow (''r'' @ a) r) = x @ CHR ''['' # (''r'' @ a) @ CHR '':'' # rs_type r @ CHR '']'' # y"
    "CHR ''['' \<notin> set x \<and> CHR ''('' \<notin> set x \<and> CHR ''['' \<notin> set y \<and> CHR ''('' \<notin> set y" by blast
  then show ?thesis by (intro exI [of _ x] exI [of _ y]) (simp add: newline_def target_of_def)
qed

lemma names_rels:
  assumes "list_all clean_rel rs"
  shows "find_labels (cypher_rels i rs @ w) = map target_of rs @ find_labels w
    \<and> find_rel_types (cypher_rels i rs @ w) = map rs_type rs @ find_rel_types w"
  using assms
proof (induction rs arbitrary: i)
  case (Cons r rs)
  have c: "is_ident (rs_type r)" "is_ident (target_of r)" "list_all clean_rel rs"
    using Cons.prems clean_rel_def [of r] by simp_all
  note w = ident_words [OF c(1), THEN words_no_bracket] ident_words [OF c(2), THEN words_no_bracket] nat_str_words [of i, THEN words_no_bracket]
  have rt: "list_all is_word (''r'' @ nat_str i)" "list_all is_word (''t'' @ nat_str i)"
    using nat_str_words by (simp_all add: is_word_def is_letter_def)
  obtain x y where xy: "newline (cypher_arrow (''r'' @ nat_str i) r @ ''('' @ ''t'' @ nat_str i @ '':'' @ text_or (rs_target_entity r) ''Node'' @ '')'') =
     x @ CHR ''['' # (''r'' @ nat_str i) @ CHR '':'' # rs_type r @ CHR '']'' # y @ CHR ''('' # (''t'' @ nat_str i) @ CHR '':'' # target_of r @ [CHR '')'']"
    "CHR ''['' \<notin> set x" "CHR ''('' \<notin> set x" "CHR ''['' \<notin> set y" "CHR ''('' \<notin> set y"
    using cypher_rel_shape [of "nat_str i" r] by blast
  let ?rest = "cypher_rels (i + 1) rs @ w"
  show ?case
  proof
    have "CHR ''('' \<notin> set (x @ CHR ''['' # (''r'' @ nat_str i) @ CHR '':'' # rs_type r @ CHR '']'' # y)" using xy w by simp
    from names_skip [OF this, of "CHR '')''"] names_ref [OF char_classes(1) rt(2) c(2), of ?rest]
    show "find_labels (cypher_rels i (r # rs) @ w) = map target_of (r # rs) @ find_labels w"
      using Cons.IH [OF c(3), of "i + 1"] by (simp only: cypher_rels.simps xy(1)) (simp add: find_labels_def)
    have "CHR ''['' \<notin> set (y @ CHR ''('' # (''t'' @ nat_str i) @ CHR '':'' # target_of r @ [CHR '')''])" using xy w by simp
    from names_skip [OF xy(2), of "CHR '']''"] names_skip [OF this, of "CHR '']''" ?rest]
      names_ref [OF char_classes(2) rt(1) c(1)]
    show "find_rel_types (cypher_rels i (r # rs) @ w) = map rs_type (r # rs) @ find_rel_types w"
      using Cons.IH [OF c(3), of "i + 1"] by (simp only: cypher_rels.simps xy(1)) (simp add: find_rel_types_def)
  qed
qed simp

text \<open>Names that are identifiers, and no colon in what is spliced in behind them.\<close>

definition clean_agg :: "aggregation_spec \<Rightarrow> bool" where
  "clean_agg a \<longleftrightarrow> no_colon (as_function a) \<and> no_colon (text_or (as_field a) []) \<and> no_colon (text_or (as_alias a) (py_lower (as_function a)))"

definition clean_query :: "structured_query \<Rightarrow> bool" where
  "clean_query q \<longleftrightarrow> is_ident (object_type_or q ''Node'') \<and> list_all clean_rel (sq_relationships q)
     \<and> list_all (\<lambda>f. no_colon (ef_field f)) (sq_filters q) \<and> list_all no_colon (sq_properties q) \<and> list_all clean_agg (sq_aggregations q)
     \<and> list_all no_colon (sq_group_by q) \<and> list_all (\<lambda>s. no_colon (ss_field s) \<and> no_colon (ss_direction s)) (sq_sorting q)"

lemma no_colon_condition: "no_colon alias \<Longrightarrow> no_colon (ef_field f) \<Longrightarrow> no_colon p \<Longrightarrow> no_colon (cypher_condition alias f p)"
proof -
  assume "no_colon alias" "no_colon (ef_field f)" "no_colon p"
  then show ?thesis
    unfolding cypher_condition_def Let_def
    by (auto simp only: option.case split: option.split dest!: map_of_range [where P = no_colon]) simp_all
qed

lemma no_colon_nat [simp]: "no_colon (nat_str n)" "no_colon (int_str i)" "no_colon (gen_param n)"
  using nat_str_words no_colon_words by (auto simp: int_str_def gen_param_def)

lemma no_colon_number: "no_colon a \<Longrightarrow> no_colon z \<Longrightarrow> no_colon (number_clause a z x)"
  by (auto simp: number_clause_def split: option.split)

lemma no_colon_aggregation: "no_colon alias \<Longrightarrow> clean_agg a \<Longrightarrow> no_colon (cypher_aggregation alias a)"
  by (auto simp: cypher_aggregation_def clean_agg_def Let_def given_def text_or_def split: option.splits if_splits)

lemma no_colon_return:
  assumes "no_colon alias" and "clean_query q"
  shows "no_colon (cypher_return alias q)"
proof -
  have "no_colon (join_with '', '' (map (cypher_aggregation alias) (sq_aggregations q)))"
    using assms by (intro no_colon_join) (auto simp: clean_query_def list_all_iff no_colon_aggregation)
  moreover have "no_colon (join_with '', '' (map (\<lambda>f. alias @ ''.'' @ f) (sq_group_by q)))"
    using assms by (intro no_colon_join) (auto simp: clean_query_def list_all_iff)
  moreover have "no_colon (join_with '', '' (map (\<lambda>p. alias @ ''.'' @ p @ '' AS '' @ p) (sq_properties q)))"
    using assms by (intro no_colon_join) (auto simp: clean_query_def list_all_iff)
  ultimately show ?thesis using assms(1) unfolding cypher_return_def Let_def by (simp only: no_colon_simps split: if_split) simp
qed

lemma no_colon_tail:
  assumes "no_colon alias" and "clean_query q"
  shows "no_colon (cypher_tail alias q)"
proof -
  have "no_colon (join_with '', '' (map (\<lambda>s. alias @ ''.'' @ ss_field s @ '' '' @ ss_direction s) (sq_sorting q)))"
    using assms by (intro no_colon_join) (auto simp: clean_query_def list_all_iff)
  then show ?thesis by (auto simp: cypher_tail_def intro!: no_colon_number split: option.split)
qed

lemma no_colon_where:
  assumes "no_colon alias" and "clean_query q"
  shows "no_colon (where_text (cypher_conditions alias q))"
proof -
  have "no_colon (join_with '' AND '' (cypher_conditions alias q))"
    using assms by (intro no_colon_join)
      (auto simp: clean_query_def list_all_iff cypher_conditions_def intro!: no_colon_condition dest!: in_set_enumerate_eq [THEN iffD1])
  then show ?thesis by (simp add: where_text_def)
qed

lemma cypher_text_names:
  assumes "clean_query q" and "is_word c"
  shows "find_labels (cypher_text c q) = object_type_or q ''Node'' # map target_of (sq_relationships q)
    \<and> find_rel_types (cypher_text c q) = map rs_type (sq_relationships q)"
proof -
  have al: "no_colon [c]" using assms(2) by (intro no_colon_words) simp
  let ?ot = "object_type_or q ''Node''"
  let ?w = "where_text (cypher_conditions [c] q) @ newline (''RETURN '' @ cypher_return [c] q) @ cypher_tail [c] q"
  have w: "no_colon ?w"
    using no_colon_where [OF al assms(1)] no_colon_return [OF al assms(1)] no_colon_tail [OF al assms(1)] by simp
  have ot: "is_ident ?ot" "list_all clean_rel (sq_relationships q)" using assms(1) by (simp_all add: clean_query_def)
  let ?r = "cypher_rels 1 (sq_relationships q) @ ?w"
  have tx: "cypher_text c q = ''MATCH '' @ CHR ''('' # [c] @ CHR '':'' # ?ot @ CHR '')'' # ?r" by (simp add: cypher_text_def)
  have rest: "find_labels ?r = map target_of (sq_relationships q)" "find_rel_types ?r = map rs_type (sq_relationships q)"
    using names_rels [OF ot(2)] names_no_colon [OF w] by (simp_all add: find_labels_def find_rel_types_def)
  have "CHR ''('' \<notin> set ''MATCH ''" by simp
  from names_skip [OF this, of "CHR '')''"] names_ref [OF char_classes(1) _ ot(1), of "[c]" ?r] assms(2) rest(1)
  have l: "find_labels (cypher_text c q) = ?ot # map target_of (sq_relationships q)"
    unfolding tx find_labels_def by simp
  have "CHR ''['' \<notin> set (''MATCH '' @ CHR ''('' # [c] @ CHR '':'' # ?ot @ [CHR '')''])"
    using words_no_bracket [OF ident_words [OF ot(1)]] words_no_bracket [of "[c]"] assms(2) by auto
  from names_skip [OF this, of "CHR '']''" ?r] rest(2)
  have "find_rel_types (cypher_text c q) = map rs_type (sq_relationships q)"
    unfolding tx find_rel_types_def by simp
  with l show ?thesis by blast
qed

lemma cypher_text_keywords: "has_keyword ''MATCH'' (cypher_text c q)" "has_keyword ''RETURN'' (cypher_text c q)"
proof -
  have s: "\<not> is_word CHR '' ''" "\<not> is_word CHR 0x0A" by code_simp+
  have m: "''MATCH'' \<in> set (map py_upper (word_runs [] ''MATCH''))" "''RETURN'' \<in> set (map py_upper (word_runs [] ''RETURN''))" by code_simp+
  have t: "cypher_text c q = ''MATCH'' @ CHR '' '' # (''('' @ [c] @ '':'' @ object_type_or q ''Node'' @ '')'' @ cypher_rels 1 (sq_relationships q)
      @ where_text (cypher_conditions [c] q)) @ CHR 0x0A # ''RETURN'' @ CHR '' '' # (cypher_return [c] q @ cypher_tail [c] q)"
    by (simp add: cypher_text_def newline_def)
  show "has_keyword ''MATCH'' (cypher_text c q)"
    unfolding has_keyword_def t word_runs_split [OF s(1)] using m(1) by (simp only: map_append set_append Un_iff simp_thms)
  show "has_keyword ''RETURN'' (cypher_text c q)"
    unfolding has_keyword_def t word_runs_split [OF s(1)] word_runs_split [OF s(2)] append_assoc [symmetric]
    using m(2) by (simp only: map_append set_append Un_iff simp_thms)
qed

lemma lower_head: "is_ident n \<Longrightarrow> \<exists>c r. py_lower n = c # r \<and> is_word c"
proof (cases n)
  case (Cons d r)
  assume "is_ident n"
  then have "is_word d" using Cons by (simp add: is_ident_def)
  then have "is_word (if 65 \<le> (of_char d :: nat) \<and> (of_char d :: nat) \<le> 90 then char_of (of_char d + 32 :: nat) else d)"
    by (auto simp: is_word_def is_letter_def Let_def)
  then show ?thesis by (simp add: Cons py_lower_def)
qed (simp add: is_ident_def)

lemma generated_cypher_exists: "clean_query q \<Longrightarrow> \<exists>r. generate_cypher q = Inr r"
  using lower_head [of "object_type_or q ''Node''"] by (auto simp: generate_cypher_eq clean_query_def)

section \<open>Properties\<close>


definition sample_query :: structured_query where
  "sample_query = \<lparr>sq_intent = \<lparr>qi_intent = ''FIND'', qi_confidence = 1, qi_sub_intent = None\<rparr>, sq_object_types = [''Vessel''], sq_properties = [''name''],
     sq_filters = [\<lparr>ef_field = ''imo'', ef_operator = ''is_not_null'', ef_value = JNull, ef_confidence = 1\<rparr>,
       \<lparr>ef_field = ''kind'', ef_operator = ''equals'', ef_value = JStr ''x'', ef_confidence = 1\<rparr>],
     sq_relationships = [\<lparr>rs_type = ''DOCKED_AT'', rs_direction = ''outgoing'', rs_target_entity = Some ''Berth'', rs_alias = None\<rparr>],
     sq_aggregations = [], sq_group_by = [], sq_sorting = [], sq_pagination = Some \<lparr>pg_limit = Some 5, pg_offset = None\<rparr>,
     sq_reasoning_type = ''direct''\<rparr>"


text \<open>C19. Generator and validator fit together.  For a query whose object type, targets and relationship types are identifiers and
  whose other texts hold no colon, generation succeeds, and what the validator reads off the text is what was put in: the labels are
  the object type and the targets in order, the relationship types those of the query.  The validator therefore accepts it precisely
  when these names are known up to case (as far as names are configured); nothing else about the query can make it fail.\<close>

theorem generated_cypher_validates:
  assumes "clean_query q"
  shows "\<exists>r. generate_cypher q = Inr r
    \<and> find_labels (gq_query r) = object_type_or q ''Node'' # map target_of (sq_relationships q)
    \<and> find_rel_types (gq_query r) = map rs_type (sq_relationships q)
    \<and> (vl_is_valid (cv_validate v (gq_query r)) \<longleftrightarrow>
        (cv_valid_labels v = [] \<or> list_all (\<lambda>l. l = ''Node'' \<or> py_lower l \<in> py_lower ` set (cv_valid_labels v))
           (object_type_or q ''Node'' # map target_of (sq_relationships q)))
        \<and> (cv_valid_rel_types v = [] \<or> list_all (\<lambda>t. py_upper t \<in> py_upper ` set (cv_valid_rel_types v)) (map rs_type (sq_relationships q))))"
proof -
  obtain c rest where c: "py_lower (object_type_or q ''Node'') = c # rest" "is_word c"
    using lower_head assms unfolding clean_query_def by blast
  then obtain r where r: "generate_cypher q = Inr r" "gq_query r = cypher_text c q" by (auto simp: generate_cypher_eq)
  show ?thesis
    using r cypher_text_names [OF assms c(2)]
    by (intro exI [of _ r]) (simp add: cv_validate_valid cypher_text_keywords known_labels_def known_rel_types_def)
qed

theorem generated_cypher_validates_witness:
  "\<exists>r. generate_cypher sample_query = Inr r \<and> vl_is_valid (cv_validate (cv_from_labels_and_types [''Vessel'', ''berth''] [''DOCKED_AT'']) (gq_query r))"
proof -
  have c: "clean_query sample_query" by code_simp
  have k: "list_all (\<lambda>l. l = ''Node'' \<or> py_lower l \<in> py_lower ` set (cv_valid_labels (cv_from_labels_and_types [''Vessel'', ''berth''] [''DOCKED_AT''])))
      (object_type_or sample_query ''Node'' # map target_of (sq_relationships sample_query))"
    "list_all (\<lambda>t. py_upper t \<in> py_upper ` set (cv_valid_rel_types (cv_from_labels_and_types [''Vessel'', ''berth''] [''DOCKED_AT''])))
      (map rs_type (sq_relationships sample_query))" by code_simp+
  from generated_cypher_validates [OF c, of "cv_from_labels_and_types [''Vessel'', ''berth''] [''DOCKED_AT'']"] k show ?thesis by blast
qed

subsection \<open>Where the languages disagree\<close>

text \<open>SQL has no negated membership and no regular expressions: both become equality.\<close>

lemma sql_not_in_is_equality:
  "sql_condition num a \<lparr>ef_field = ''kind'', ef_operator = ''not_in'', ef_value = v, ef_confidence = 1\<rparr>
     = sql_condition num a \<lparr>ef_field = ''kind'', ef_operator = ''equals'', ef_value = v, ef_confidence = 1\<rparr>"
  by (simp add: sql_condition_def)

text \<open>A second filter on the same field replaces the first in MongoDB.\<close>

lemma mongo_keeps_last_filter:
  "mongo_filter num [\<lparr>ef_field = ''year'', ef_operator = ''greater_than'', ef_value = a, ef_confidence = 1\<rparr>,
     \<lparr>ef_field = ''year'', ef_operator = ''less_than'', ef_value = b, ef_confidence = 1\<rparr>] = [(''year'', JObj [(''$lt'', b)])]"
  by (simp add: mongo_filter_def mongo_condition_def)

text \<open>Two joined names are not checked: the relationship type does not appear in SQL at all.\<close>

lemma sql_ignores_rel_type:
  "sql_joins a t i [\<lparr>rs_type = x, rs_direction = d, rs_target_entity = e, rs_alias = l\<rparr>]
     = sql_joins a t i [\<lparr>rs_type = y, rs_direction = d', rs_target_entity = e, rs_alias = l\<rparr>]"
  by (simp add: Let_def)

end
