(* ===== verification/Text_To_Cypher.thy ===== *)
theory Text_To_Cypher
  imports Query_Generator Cypher_Builder
begin

text \<open>
  \<^verbatim>\<open>core/kg/pipeline.py\<close>, \<^verbatim>\<open>core/kg/ontology_bridge.py\<close> and \<^verbatim>\<open>core/kg/hallucination_detector.py\<close>: from text to a checked Cypher
  query.

  The parser of natural language and the language model are arguments: they return a result or raise an error with a text.  The
  Korean patterns of the detector are an argument too (characters here have eight bits), as are its dictionaries.  A warning
  of the builder is an entry of a list in its state.
\<close>

section \<open>Checking a structured query against the ontology\<close>

datatype bridge_warning = EntityUnknown string | PropertyUnknown string string | FilterUnknown string string | RelationUnknown string

definition check_entity :: "structured_query \<Rightarrow> ontology \<Rightarrow> string \<Rightarrow> bridge_warning list" where
  "check_entity q ont l =
     (case get_object_type ont l of
        None \<Rightarrow> [EntityUnknown l]
      | Some ot \<Rightarrow> concat (map (\<lambda>p. if get_property ot p = None then [PropertyUnknown p l] else []) (sq_properties q))
          @ concat (map (\<lambda>f. if get_property ot (ef_field f) = None then [FilterUnknown (ef_field f) l] else []) (sq_filters q)))"

definition validate_structured_query :: "structured_query \<Rightarrow> ontology \<Rightarrow> bridge_warning list" where
  "validate_structured_query q ont =
     concat (map (check_entity q ont) (sq_object_types q))
     @ concat (map (\<lambda>r. if get_link_type ont (rs_type r) = None then [RelationUnknown (rs_type r)] else []) (sq_relationships q))"

fun bridge_text :: "bridge_warning \<Rightarrow> string" where
  "bridge_text (EntityUnknown l) = ''Entity label '' @ squote l @ '' not found in ontology''"
| "bridge_text (PropertyUnknown p l) = ''Property '' @ squote p @ '' not found for entity '' @ squote l"
| "bridge_text (FilterUnknown p l) = ''Filter property '' @ squote p @ '' not found for entity '' @ squote l"
| "bridge_text (RelationUnknown r) = ''Relationship type '' @ squote r @ '' not found in ontology''"

record ontology_context =
  oc_labels :: "string list"
  oc_relationships :: "string list"
  oc_properties :: "(string, string list) dict"

definition get_ontology_context_for_query :: "ontology \<Rightarrow> ontology_context" where
  "get_ontology_context_for_query ont =
     \<lparr>oc_labels = sort (map ot_name (get_all_object_types ont)), oc_relationships = sort (map lt_name (get_all_link_types ont)),
      oc_properties = fold (\<lambda>ot d. if ot_properties ot = [] then d else AList.update (ot_name ot) (map fst (ot_properties ot)) d)
        (get_all_object_types ont) []\<rparr>"

section \<open>The builder that knows the ontology\<close>

text \<open>All references in round brackets as alias and label; the alias may be empty.\<close>

function find_refs :: "string \<Rightarrow> (string \<times> string) list" where
  "find_refs [] = []"
| "find_refs (c # r) =
     (if c \<noteq> CHR ''('' then find_refs r
      else (case scan_ref_with (\<lambda>n. n \<noteq> []) CHR '')'' r of
              None \<Rightarrow> find_refs r
            | Some (p, w1, n, w2, rest) \<Rightarrow> (py_strip p, n) # find_refs rest))"
  by pat_completeness auto
termination
  by (relation "measure length") (auto dest: scan_ref_with_length)

definition extract_labels :: "string \<Rightarrow> string list" where
  "extract_labels p = map snd (find_refs p)"

datatype builder_warning = LabelNotFound string string | PropertyNotFound string string

record aware_builder =
  ab_base :: cypher_builder
  ab_ontology :: "ontology option"
  ab_alias_to_label :: "(string, string) dict"
  ab_warned :: "builder_warning list"

definition ab_init :: "ontology option \<Rightarrow> aware_builder" where
  "ab_init ont = \<lparr>ab_base = cy_init, ab_ontology = ont, ab_alias_to_label = [], ab_warned = []\<rparr>"

definition ab_match :: "string \<Rightarrow> aware_builder \<Rightarrow> aware_builder" where
  "ab_match p b =
     (let b = (case ab_ontology b of
                 None \<Rightarrow> b
               | Some ont \<Rightarrow>
                   b\<lparr>ab_warned := ab_warned b @ concat (map (\<lambda>l. if get_object_type ont l = None then [LabelNotFound l (on_name ont)] else []) (extract_labels p)),
                     ab_alias_to_label := fold (\<lambda>(a, l). AList.update a l) (filter (\<lambda>(a, l). a \<noteq> []) (find_refs p)) (ab_alias_to_label b)\<rparr>)
      in b\<lparr>ab_base := match_pattern p (ab_base b)\<rparr>)"

definition check_property_ref :: "aware_builder \<Rightarrow> ontology \<Rightarrow> string \<times> string \<Rightarrow> builder_warning list" where
  "check_property_ref b ont = (\<lambda>(alias, prop).
     case map_of (ab_alias_to_label b) alias of
       None \<Rightarrow> []
     | Some l \<Rightarrow> (case get_object_type ont l of
                   None \<Rightarrow> []
                 | Some ot \<Rightarrow> if get_property ot prop = None then [PropertyNotFound prop l] else []))"

definition ab_where :: "string \<Rightarrow> (string, json) dict \<Rightarrow> aware_builder \<Rightarrow> aware_builder" where
  "ab_where cond params b =
     (let b = (case ab_ontology b of
                 None \<Rightarrow> b
               | Some ont \<Rightarrow> b\<lparr>ab_warned := ab_warned b @ concat (map (check_property_ref b ont) (property_pairs cond))\<rparr>)
      in b\<lparr>ab_base := where_condition cond params (ab_base b)\<rparr>)"

section \<open>The hallucination detector\<close>

record detection_result =
  dt_is_valid :: bool
  dt_mentioned :: "string list"
  dt_verified :: "string list"
  dt_hallucinated :: "string list"
  dt_confidence :: real

record hallucination_detector =
  hd_known_labels :: "string list"
  hd_known_entities :: "string list"
  hd_known_names :: "string list"
  hd_synonym_map :: "(string, string) dict"

text \<open>\<^verbatim>\<open>[A-Z][a-zA-Z]*(\s+[A-Z][a-zA-Z]*)*\b\<close>: what follows the first word, up to a word boundary; as many words as possible.\<close>

definition is_upper :: "char \<Rightarrow> bool" where
  "is_upper c \<longleftrightarrow> (let n = (of_char c :: nat) in 65 \<le> n \<and> n \<le> 90)"

function more_words :: "string \<Rightarrow> string option" where
  "more_words s =
     (let sp = takeWhile py_isspace s; r = dropWhile py_isspace s in
      case (if sp \<noteq> [] \<and> r \<noteq> [] \<and> is_upper (hd r)
            then map_option (\<lambda>m. sp @ takeWhile is_letter r @ m) (more_words (dropWhile is_letter r)) else None) of
        Some m \<Rightarrow> Some m
      | None \<Rightarrow> if s = [] \<or> \<not> is_word (hd s) then Some [] else None)"
  by pat_completeness auto
termination
proof (relation "measure length", goal_cases)
  case (2 s sp r)
  then have "length (dropWhile is_letter r) \<le> length r" "sp @ r = s" "sp \<noteq> []" by (auto intro: length_dropWhile_le)
  then show ?case by (cases sp) auto
qed simp

declare more_words.simps [simp del]

text \<open>The matches from left to right; \<open>b\<close> tells whether the previous character is no word character.\<close>

function english_names :: "bool \<Rightarrow> string \<Rightarrow> string list" where
  "english_names b [] = []"
| "english_names b (c # s) =
     (let w = takeWhile is_letter s; r = dropWhile is_letter s in
      case (if b \<and> is_upper c then more_words r else None) of
        None \<Rightarrow> english_names (\<not> is_word c) s
      | Some m \<Rightarrow> (c # w @ m) # english_names False (drop (length m) r))"
  by pat_completeness auto
termination
  by (relation "measure (\<lambda>(b, s). length s)") (auto simp: less_Suc_eq_le le_diff_conv intro: trans_le_add1 [OF length_dropWhile_le])

definition sub_text :: "string \<Rightarrow> string \<Rightarrow> bool" where
  "sub_text p t \<longleftrightarrow> py_find t p 0 \<noteq> None"

text \<open>\<open>_add\<close>: a name once, in order of its first appearance.\<close>

definition add_names :: "string list \<Rightarrow> string list \<Rightarrow> string list" where
  "add_names ns acc = fold (\<lambda>n acc. if n \<in> set acc then acc else acc @ [n]) ns acc"

definition longest_first :: "string list \<Rightarrow> string list" where
  "longest_first ns = sort_key (\<lambda>n. - int (length n)) ns"

definition extract_entities :: "(string \<Rightarrow> string list) \<Rightarrow> string list \<Rightarrow> hallucination_detector \<Rightarrow> string \<Rightarrow> string list" where
  "extract_entities korean named d t =
     (if py_strip t = [] then []
      else add_names (filter (\<lambda>n. 2 \<le> length n) (english_names True t))
          (add_names (filter (\<lambda>n. 3 \<le> length n) (korean t))
          (add_names (filter (\<lambda>n. sub_text n t) (longest_first (hd_known_names d)))
          (add_names (filter (\<lambda>n. sub_text n t) (longest_first named)) []))))"

definition is_known_entity :: "hallucination_detector \<Rightarrow> string \<Rightarrow> bool" where
  "is_known_entity d e \<longleftrightarrow>
     (if e \<in> set (hd_known_names d) then True
      else if e \<in> set (hd_known_labels d) then True
      else if e \<in> set (hd_known_entities d) then True
      else if e \<in> set (map fst (hd_synonym_map d)) then True
      else if e \<in> set (map snd (hd_synonym_map d)) then True
      else if list_ex (\<lambda>n. py_lower n = py_lower e) (hd_known_names d) then True
      else list_ex (\<lambda>l. py_lower l = py_lower e) (hd_known_labels d))"

definition hd_validate :: "(string \<Rightarrow> string list) \<Rightarrow> string list \<Rightarrow> hallucination_detector \<Rightarrow> string \<Rightarrow> detection_result" where
  "hd_validate korean named d t =
     (let mentioned = extract_entities korean named d t in
      if py_strip t = [] \<or> mentioned = []
      then \<lparr>dt_is_valid = True, dt_mentioned = [], dt_verified = [], dt_hallucinated = [], dt_confidence = 1\<rparr>
      else (let verified = filter (is_known_entity d) mentioned; wrong = filter (\<lambda>e. \<not> is_known_entity d e) mentioned in
            \<lparr>dt_is_valid = (length wrong = 0), dt_mentioned = mentioned, dt_verified = verified, dt_hallucinated = wrong,
             dt_confidence = real (length verified) / real (length mentioned)\<rparr>))"

section \<open>The pipeline\<close>

record parse_result =
  pr_query :: structured_query
  pr_confidence :: real
  pr_unresolved_terms :: "string list"
  pr_parse_details :: "(string, json) dict"

record pipeline_output =
  po_input_text :: string
  po_parse_result :: parse_result
  po_generated_query :: "generated_query option"
  po_success :: bool
  po_error :: "string option"
  po_reasoning_type :: "string option"
  po_validation_errors :: "cypher_error list"
  po_validation_warnings :: "cypher_warning list"
  po_validation_score :: "real option"
  po_corrections_applied :: "string list"
  po_failure_type :: "failure_type option"
  po_hallucination_result :: "detection_result option"

record text_pipeline =
  tp_parse :: "string \<Rightarrow> (string, parse_result) res"
  tp_llm :: "(string \<Rightarrow> (string, generated_query) res) option"
  tp_ontology :: "ontology option"
  tp_validator :: "cypher_validator option"
  tp_corrector :: "cypher_corrector option"
  tp_detector :: "(string \<Rightarrow> detection_result) option"

definition empty_query :: structured_query where
  "empty_query = \<lparr>sq_intent = \<lparr>qi_intent = ''FIND'', qi_confidence = 0, qi_sub_intent = None\<rparr>, sq_object_types = [], sq_properties = [],
     sq_filters = [], sq_relationships = [], sq_aggregations = [], sq_group_by = [], sq_sorting = [], sq_pagination = None,
     sq_reasoning_type = ''DIRECT''\<rparr>"

definition failed_output :: "string \<Rightarrow> parse_result \<Rightarrow> string \<Rightarrow> pipeline_output" where
  "failed_output t p e = \<lparr>po_input_text = t, po_parse_result = p, po_generated_query = None, po_success = False, po_error = Some e,
     po_reasoning_type = None, po_validation_errors = [], po_validation_warnings = [], po_validation_score = None,
     po_corrections_applied = [], po_failure_type = None, po_hallucination_result = None\<rparr>"

text \<open>The text of an exception; an empty name of the object type is the only reason why the rule based generator fails.\<close>

fun generator_error_text :: "generator_error \<Rightarrow> string" where
  "generator_error_text IndexOutOfRange = ''string index out of range''"
| "generator_error_text (UnsupportedLanguage l) = ''Unsupported query language: '' @ l"

definition tp_generate :: "text_pipeline \<Rightarrow> string \<Rightarrow> structured_query \<Rightarrow> (string, generated_query) res" where
  "tp_generate tp t q =
     (case tp_llm tp of Some llm \<Rightarrow> llm t | None \<Rightarrow> map_sum generator_error_text id (generate_cypher q))"

text \<open>Step 4: warnings of the bridge are added to those of the generator.\<close>

definition bridge_step :: "ontology option \<Rightarrow> structured_query \<Rightarrow> generated_query \<Rightarrow> generated_query" where
  "bridge_step ont q g =
     (case ont of
        None \<Rightarrow> g
      | Some o' \<Rightarrow> (let ws = map bridge_text (validate_structured_query q o') in
          if ws = [] then g else g\<lparr>gq_warnings := Some ((case gq_warnings g of Some old \<Rightarrow> old | None \<Rightarrow> []) @ ws)\<rparr>))"

text \<open>Steps 5 and 6: the query, the verdict on it and the corrections.\<close>

definition check_step :: "cypher_validator option \<Rightarrow> cypher_corrector option \<Rightarrow> generated_query
    \<Rightarrow> generated_query \<times> validation_result option \<times> string list" where
  "check_step vo co g =
     (case vo of
        None \<Rightarrow> (g, None, [])
      | Some v \<Rightarrow>
          (let val = cv_validate v (gq_query g) in
           case co of
             None \<Rightarrow> (g, Some val, [])
           | Some c \<Rightarrow>
               if vl_is_valid val then (g, Some val, [])
               else (let cor = cc_correct c (gq_query g) in
                     if cr_was_modified cor
                     then (g\<lparr>gq_query := cr_corrected cor\<rparr>, Some (cv_validate v (cr_corrected cor)), cr_applied cor)
                     else (g, Some val, []))))"

definition scope_step :: "(string + project_context) option \<Rightarrow> generated_query \<Rightarrow> generated_query" where
  "scope_step project g =
     (case project of
        None \<Rightarrow> g
      | Some p \<Rightarrow> g\<lparr>gq_query := inject_project_label (gq_query g) (case p of Inl s \<Rightarrow> project_label s | Inr c \<Rightarrow> kp_label c)\<rparr>)"

definition process :: "text_pipeline \<Rightarrow> string \<Rightarrow> (string + project_context) option \<Rightarrow> pipeline_output" where
  "process tp t project =
     (case tp_parse tp t of
        Inl e \<Rightarrow> failed_output t \<lparr>pr_query = empty_query, pr_confidence = 0, pr_unresolved_terms = [], pr_parse_details = [(''error'', JStr e)]\<rparr>
                   (''Parse error: '' @ e)
      | Inr p \<Rightarrow>
          if sq_object_types (pr_query p) = [] then failed_output t p ''No entities could be extracted from the input text''
          else (case tp_generate tp t (pr_query p) of
                  Inl e \<Rightarrow> failed_output t p (''Generation error: '' @ e)
                | Inr g0 \<Rightarrow>
                    (let g1 = bridge_step (tp_ontology tp) (pr_query p) g0;
                         (g2, verdict, remarks) = check_step (tp_validator tp) (tp_corrector tp) g1;
                         found = map_option (\<lambda>d. d (gq_query g2)) (tp_detector tp)
                     in \<lparr>po_input_text = t, po_parse_result = p, po_generated_query = Some (scope_step project g2), po_success = True,
                         po_error = None, po_reasoning_type = Some (sq_reasoning_type (pr_query p)),
                         po_validation_errors = (case verdict of Some v \<Rightarrow> vl_errors v | None \<Rightarrow> []),
                         po_validation_warnings = (case verdict of Some v \<Rightarrow> vl_warnings v | None \<Rightarrow> []),
                         po_validation_score = map_option vl_score verdict, po_corrections_applied = remarks,
                         po_failure_type = map_option vl_failure_type verdict, po_hallucination_result = found\<rparr>)))"

datatype query_error = NoObjectType | GenerationRaised generator_error

definition process_to_cypher :: "structured_query \<Rightarrow> (string + project_context) option \<Rightarrow> (query_error, generated_query) res" where
  "process_to_cypher q project =
     (if sq_object_types q = [] then Inl NoObjectType
      else (case generate_cypher q of Inl e \<Rightarrow> Inl (GenerationRaised e) | Inr g \<Rightarrow> Inr (scope_step project g)))"

section \<open>The steps\<close>

lemma check_step_cases:
  assumes "check_step (Some v) co g = (g', verdict, remarks)"
  shows "verdict = Some (cv_validate v (gq_query g'))"
    and "remarks \<noteq> [] \<Longrightarrow> \<exists>c. co = Some c \<and> gq_query g' = cr_corrected (cc_correct c (gq_query g)) \<and> \<not> vl_is_valid (cv_validate v (gq_query g))"
    and "gq_query g' = gq_query g \<or> (\<exists>c. co = Some c \<and> gq_query g' = cr_corrected (cc_correct c (gq_query g)))"
  using assms by (auto simp: check_step_def Let_def split: option.splits if_splits)

lemma check_step_text:
  "gq_query (fst (check_step (Some v) (Some c) g)) =
     (if vl_is_valid (cv_validate v (gq_query g)) then gq_query g else cr_corrected (cc_correct c (gq_query g)))"
proof -
  have "cr_corrected (cc_correct c s) = s" if "\<not> cr_was_modified (cc_correct c s)" for s
    using that by (auto simp: cc_correct_def split: prod.splits if_splits)
  then show ?thesis by (simp add: check_step_def Let_def)
qed

lemma bridge_step_query [simp]: "gq_query (bridge_step ont q g) = gq_query g" "gq_parameters (bridge_step ont q g) = gq_parameters g"
  by (auto simp: bridge_step_def Let_def split: option.split)

text \<open>Correcting does not change which names are known.\<close>

lemma rename_known_label:
  assumes "list_all is_ident labels"
  shows "rename (canon_label labels) l = ''Node'' \<or> py_lower (rename (canon_label labels) l) \<in> py_lower ` set labels
     \<longleftrightarrow> l = ''Node'' \<or> py_lower l \<in> py_lower ` set labels"
proof (cases "canon_label labels l")
  case (Some m)
  then have m: "m \<in> set labels" "py_lower m = py_lower l" using canonical_ident [OF assms] by blast+
  then have "py_lower l \<in> py_lower ` set labels" by (metis imageI)
  with Some m show ?thesis by (simp add: rename_def)
qed (simp add: rename_def)

lemma corrected_known_iff:
  fixes s :: string
  assumes "list_all is_ident labels" and "list_all is_ident rel_types"
  defines "s' \<equiv> fst (add_return_clause (fixed_names labels rel_types s))"
  shows "known_labels labels s' = known_labels labels s" and "known_rel_types rel_types s' = known_rel_types rel_types s"
proof -
  show "known_labels labels s' = known_labels labels s"
    unfolding known_labels_def s'_def add_return_names labels_fixed [OF assms(1,2)] list_all_iff set_map ball_simps(9)
      rename_known_label [OF assms(1)] ..
  show "known_rel_types rel_types s' = known_rel_types rel_types s"
    using rename_key [OF assms(2), of py_upper] by (simp add: known_rel_types_def list_all_iff s'_def rel_types_fixed [OF assms(1,2)])
qed

lemma correction_keeps_verdict:
  assumes "list_all is_ident labels" and "list_all is_ident rel_types"
    and "has_keyword ''MATCH'' s" and "has_keyword ''RETURN'' s"
  shows "vl_is_valid (cv_validate (cv_from_labels_and_types labels rel_types) (cr_corrected (cc_correct (cc_init labels rel_types) s)))
    = vl_is_valid (cv_validate (cv_from_labels_and_types labels rel_types) s)"
proof -
  let ?s' = "fst (add_return_clause (fixed_names labels rel_types s))"
  have "has_keyword ''MATCH'' ?s'" "has_keyword ''RETURN'' ?s'"
    using assms(3) add_return_keeps_match add_return_has_return by (simp_all add: keywords_fixed [OF assms(1,2)])
  then show ?thesis
    using assms(3,4) keyword_not_blank [OF assms(3)] corrected_known_iff [OF assms(1,2)]
    by (simp add: cr_corrected_eq cv_validate_valid cv_from_labels_and_types_def)
qed

lemma vl_valid_errors: "vl_is_valid (cv_validate v s) \<longleftrightarrow> vl_errors (cv_validate v s) = []"
  by (simp add: cv_validate_def Let_def split: prod.split)

lemma process_success:
  "po_success (process tp t project) \<longleftrightarrow> (\<exists>p g. tp_parse tp t = Inr p \<and> sq_object_types (pr_query p) \<noteq> [] \<and> tp_generate tp t (pr_query p) = Inr g)"
  by (auto simp: process_def failed_output_def Let_def split: sum.split prod.split)

lemma process_failed: "\<not> po_success (process tp t project) \<Longrightarrow> po_generated_query (process tp t project) = None \<and> po_error (process tp t project) \<noteq> None"
  by (auto simp: process_def failed_output_def Let_def split: sum.splits prod.splits if_splits)

text \<open>A successful run in terms of its steps.\<close>

lemma process_steps:
  assumes "tp_parse tp t = Inr p" and "sq_object_types (pr_query p) \<noteq> []" and "tp_generate tp t (pr_query p) = Inr g0"
    and "check_step (tp_validator tp) (tp_corrector tp) (bridge_step (tp_ontology tp) (pr_query p) g0) = (g2, verdict, remarks)"
  shows "po_generated_query (process tp t project) = Some (scope_step project g2)"
    and "po_validation_errors (process tp t project) = (case verdict of Some v \<Rightarrow> vl_errors v | None \<Rightarrow> [])"
    and "po_validation_score (process tp t project) = map_option vl_score verdict"
    and "po_failure_type (process tp t project) = map_option vl_failure_type verdict"
    and "po_corrections_applied (process tp t project) = remarks"
  using assms by (simp_all add: process_def Let_def)

lemma scope_step_query:
  "gq_query (scope_step project g) = (case label_of project of None \<Rightarrow> gq_query g | Some l \<Rightarrow> inject_project_label (gq_query g) l)"
  by (auto simp: scope_step_def label_of_def split: option.split sum.split)

text \<open>The rule-based path with validator and corrector over the same names.\<close>

lemma process_rule_based:
  assumes "tp_parse tp t = Inr p" and "sq_object_types (pr_query p) \<noteq> []" and "clean_query (pr_query p)" and "tp_llm tp = None"
    and "list_all is_ident labels" and "list_all is_ident rel_types" and "v = cv_from_labels_and_types labels rel_types"
    and "tp_validator tp = Some v" and "tp_corrector tp = Some (cc_init labels rel_types)"
  shows "po_validation_errors (process tp t project) = [] \<longleftrightarrow>
          (labels = [] \<or> list_all (\<lambda>l. l = ''Node'' \<or> py_lower l \<in> py_lower ` set labels)
             (object_type_or (pr_query p) ''Node'' # map target_of (sq_relationships (pr_query p))))
          \<and> (rel_types = [] \<or> list_all (\<lambda>r. py_upper r \<in> py_upper ` set rel_types) (map rs_type (sq_relationships (pr_query p))))"
proof -
  obtain c rest where c: "py_lower (object_type_or (pr_query p) ''Node'') = c # rest" "is_word c"
    using lower_head assms(3) unfolding clean_query_def by blast
  then obtain g0 where g0: "generate_cypher (pr_query p) = Inr g0" "gq_query g0 = cypher_text c (pr_query p)" by (auto simp: generate_cypher_eq)
  then have gen: "tp_generate tp t (pr_query p) = Inr g0" using assms(4) by (simp add: tp_generate_def)
  let ?g1 = "bridge_step (tp_ontology tp) (pr_query p) g0"
  obtain g2 verdict remarks where cs: "check_step (tp_validator tp) (tp_corrector tp) ?g1 = (g2, verdict, remarks)"
    by (metis prod_cases3)
  have "verdict = Some (cv_validate v (gq_query g2))" using check_step_cases(1) cs assms(8) by simp
  then have e: "po_validation_errors (process tp t project) = [] \<longleftrightarrow> vl_is_valid (cv_validate v (gq_query g2))"
    using process_steps(2) [OF assms(1,2) gen cs] by (simp add: vl_valid_errors)
  have "vl_is_valid (cv_validate v (gq_query g2)) = vl_is_valid (cv_validate v (gq_query g0))"
    using check_step_text [of v "cc_init labels rel_types" ?g1] cs assms(7,8,9)
      correction_keeps_verdict [OF assms(5,6), of "gq_query g0"] by (auto simp: g0(2) cypher_text_keywords)
  with e show ?thesis
    using cypher_text_names [OF assms(3) c(2)] assms(7)
    by (simp add: g0(2) cv_validate_valid cypher_text_keywords known_labels_def known_rel_types_def cv_from_labels_and_types_def)
qed

section \<open>Properties\<close>

text \<open>C9. The verdict of the pipeline is about the query it returns.  The run succeeds exactly when parsing and generation succeed
  and an object type was found; otherwise there is an error and no query.  With a validator, the errors, the score and the failure
  type are those of one text, and the returned query is this text with the project label put in, corrected or not.
  On the rule-based path, with validator and corrector over the same names and a query of plain names, there are no errors
  precisely when all names of the query are known up to case: correcting cannot turn a rejected query into an accepted one.\<close>

theorem pipeline_verdict_exact:
  assumes "tp_validator tp = Some v"
  shows "(po_success (process tp t project) \<longleftrightarrow>
        (\<exists>p g. tp_parse tp t = Inr p \<and> sq_object_types (pr_query p) \<noteq> [] \<and> tp_generate tp t (pr_query p) = Inr g))
    \<and> (\<not> po_success (process tp t project) \<longrightarrow> po_generated_query (process tp t project) = None \<and> po_error (process tp t project) \<noteq> None)
    \<and> (po_success (process tp t project) \<longrightarrow> (\<exists>g s. po_generated_query (process tp t project) = Some g
        \<and> gq_query g = (case label_of project of None \<Rightarrow> s | Some l \<Rightarrow> inject_project_label s l)
        \<and> po_validation_errors (process tp t project) = vl_errors (cv_validate v s)
        \<and> po_validation_score (process tp t project) = Some (vl_score (cv_validate v s))
        \<and> po_failure_type (process tp t project) = Some (vl_failure_type (cv_validate v s))))
    \<and> (\<forall>p labels rel_types. tp_parse tp t = Inr p \<and> sq_object_types (pr_query p) \<noteq> [] \<and> clean_query (pr_query p) \<and> tp_llm tp = None
        \<and> list_all is_ident labels \<and> list_all is_ident rel_types \<and> v = cv_from_labels_and_types labels rel_types
        \<and> tp_corrector tp = Some (cc_init labels rel_types) \<longrightarrow>
        (po_validation_errors (process tp t project) = [] \<longleftrightarrow>
          (labels = [] \<or> list_all (\<lambda>l. l = ''Node'' \<or> py_lower l \<in> py_lower ` set labels)
             (object_type_or (pr_query p) ''Node'' # map target_of (sq_relationships (pr_query p))))
          \<and> (rel_types = [] \<or> list_all (\<lambda>r. py_upper r \<in> py_upper ` set rel_types) (map rs_type (sq_relationships (pr_query p))))))"
proof (intro conjI impI allI)
  assume "po_success (process tp t project)"
  then obtain p g0 where p: "tp_parse tp t = Inr p" "sq_object_types (pr_query p) \<noteq> []" "tp_generate tp t (pr_query p) = Inr g0"
    unfolding process_success by blast
  obtain g2 verdict remarks where c: "check_step (tp_validator tp) (tp_corrector tp) (bridge_step (tp_ontology tp) (pr_query p) g0) = (g2, verdict, remarks)"
    by (metis prod_cases3)
  have v: "verdict = Some (cv_validate v (gq_query g2))" using check_step_cases(1) c assms by simp
  show "\<exists>g s. po_generated_query (process tp t project) = Some g
        \<and> gq_query g = (case label_of project of None \<Rightarrow> s | Some l \<Rightarrow> inject_project_label s l)
        \<and> po_validation_errors (process tp t project) = vl_errors (cv_validate v s)
        \<and> po_validation_score (process tp t project) = Some (vl_score (cv_validate v s))
        \<and> po_failure_type (process tp t project) = Some (vl_failure_type (cv_validate v s))"
    using process_steps [OF p c] v scope_step_query by (intro exI [of _ "scope_step project g2"] exI [of _ "gq_query g2"]) simp
qed (use process_success process_failed process_rule_based assms in blast)+

definition sample_text_pipeline :: text_pipeline where
  "sample_text_pipeline = \<lparr>tp_parse = (\<lambda>t. Inr \<lparr>pr_query = sample_query, pr_confidence = 1, pr_unresolved_terms = [], pr_parse_details = []\<rparr>),
     tp_llm = None, tp_ontology = None, tp_validator = Some (cv_from_labels_and_types [''Vessel''] [''DOCKED_AT'']),
     tp_corrector = Some (cc_init [''Vessel''] [''DOCKED_AT'']), tp_detector = None\<rparr>"

theorem pipeline_verdict_exact_witness:
  "po_success (process sample_text_pipeline ''ships'' None) \<and> po_validation_errors (process sample_text_pipeline ''ships'' None) \<noteq> []"
proof -
  let ?v = "cv_from_labels_and_types [''Vessel''] [''DOCKED_AT'']"
  let ?p = "\<lparr>pr_query = sample_query, pr_confidence = 1, pr_unresolved_terms = [], pr_parse_details = []\<rparr>"
  have v: "tp_validator sample_text_pipeline = Some ?v" and c: "tp_corrector sample_text_pipeline = Some (cc_init [''Vessel''] [''DOCKED_AT''])"
    and p: "tp_parse sample_text_pipeline ''ships'' = Inr ?p" and l: "tp_llm sample_text_pipeline = None"
    by (simp_all add: sample_text_pipeline_def)
  have q: "sq_object_types sample_query \<noteq> []" "clean_query sample_query" "list_all is_ident [''Vessel'']" "list_all is_ident [''DOCKED_AT'']"
    "\<not> list_all (\<lambda>l. l = ''Node'' \<or> py_lower l \<in> py_lower ` set [''Vessel''])
        (object_type_or sample_query ''Node'' # map target_of (sq_relationships sample_query))" by code_simp+
  obtain r where "generate_cypher sample_query = Inr r" using generated_cypher_exists [OF q(2)] by blast
  then have g: "tp_generate sample_text_pipeline ''ships'' sample_query = Inr r" by (simp add: tp_generate_def l)
  note P = pipeline_verdict_exact [OF v, of "''ships''" None]
  have "po_success (process sample_text_pipeline ''ships'' None)" using P p q(1) g by fastforce
  moreover have "po_validation_errors (process sample_text_pipeline ''ships'' None) \<noteq> []"
    using P [THEN conjunct2, THEN conjunct2, THEN conjunct2, THEN spec [of _ ?p], THEN spec [of _ "[''Vessel'']"], THEN spec [of _ "[''DOCKED_AT'']"]]
      p q l c by (simp only: parse_result.select_convs list.distinct simp_thms)
  ultimately show ?thesis ..
qed

end
