(* ===== verification/Quality_Gate.thy ===== *)
theory Quality_Gate
  imports Text_To_Cypher
begin

text \<open>
  \<^verbatim>\<open>core/kg/quality_gate.py\<close> with the questions of \<^verbatim>\<open>maritime/evaluation/dataset.py\<close>: checks of an ontology, of the
  evaluation data and of the pipeline, and the report over them.

  What a check found is a constructor that carries the numbers and names from which the code renders its message and its
  details.  The built-in dataset and the sample questions are arguments, and so is what the pipeline answers to a question.  A
  collection of names is a list.  The run over the loaded ontology is modelled; loading it is not.
\<close>

section \<open>Reports\<close>

datatype check_status = CK_PASSED | CK_FAILED | CK_SKIPPED | CK_WARNING

record 'd check_result =
  ck_name :: string
  ck_status :: check_status
  ck_details :: 'd

type_synonym 'd gate_report = "'d check_result list"

definition gate_add :: "'d check_result \<Rightarrow> 'd gate_report \<Rightarrow> 'd gate_report" where
  "gate_add r rep = rep @ [r]"

definition gate_passed :: "'d gate_report \<Rightarrow> bool" where
  "gate_passed rep = list_all (\<lambda>c. ck_status c \<noteq> CK_FAILED) rep"

definition status_count :: "check_status \<Rightarrow> 'd gate_report \<Rightarrow> nat" where
  "status_count s rep = length (filter (\<lambda>c. ck_status c = s) rep)"

fun status_icon :: "check_status \<Rightarrow> string" where
  "status_icon CK_PASSED = ''[PASS]''"
| "status_icon CK_FAILED = ''[FAIL]''"
| "status_icon CK_SKIPPED = ''[SKIP]''"
| "status_icon CK_WARNING = ''[WARN]''"

definition gate_summary :: "('d check_result \<Rightarrow> string) \<Rightarrow> string \<Rightarrow> 'd gate_report \<Rightarrow> string" where
  "gate_summary message timestamp rep =
     (let rule = replicate 60 (CHR ''='') in
      join_with [CHR 0x0A]
        ([rule, ''  KG Quality Gate Report'', ''  Timestamp: '' @ timestamp,
          ''  Verdict:   '' @ (if gate_passed rep then ''PASSED'' else ''FAILED''),
          ''  Checks:    '' @ nat_str (length rep) @ '' total, '' @ nat_str (status_count CK_PASSED rep) @ '' passed, ''
            @ nat_str (status_count CK_FAILED rep) @ '' failed, '' @ nat_str (status_count CK_SKIPPED rep) @ '' skipped, ''
            @ nat_str (status_count CK_WARNING rep) @ '' warnings'', rule]
         @ map (\<lambda>c. ''  '' @ status_icon (ck_status c) @ '' '' @ ck_name c @ '': '' @ message c) rep @ [rule]))"

section \<open>The evaluation data\<close>

datatype reasoning_type = DIRECT | BRIDGE | COMPARISON | INTERSECTION | COMPOSITION

datatype difficulty = EASY | MEDIUM | HARD

definition reasoning_types :: "reasoning_type list" where
  "reasoning_types = [DIRECT, BRIDGE, COMPARISON, INTERSECTION, COMPOSITION]"

definition difficulties :: "difficulty list" where
  "difficulties = [EASY, MEDIUM, HARD]"

fun reasoning_type_value :: "reasoning_type \<Rightarrow> string" where
  "reasoning_type_value DIRECT = ''DIRECT''"
| "reasoning_type_value BRIDGE = ''BRIDGE''"
| "reasoning_type_value COMPARISON = ''COMPARISON''"
| "reasoning_type_value INTERSECTION = ''INTERSECTION''"
| "reasoning_type_value COMPOSITION = ''COMPOSITION''"

fun difficulty_value :: "difficulty \<Rightarrow> string" where
  "difficulty_value EASY = ''EASY''"
| "difficulty_value MEDIUM = ''MEDIUM''"
| "difficulty_value HARD = ''HARD''"

record eval_question =
  eq_question :: string
  eq_ground_truth_cypher :: string
  eq_expected_labels :: "string list"
  eq_reasoning_type :: reasoning_type
  eq_difficulty :: difficulty
  eq_description :: string

type_synonym eval_dataset = "eval_question list"

definition add_question :: "eval_question \<Rightarrow> eval_dataset \<Rightarrow> eval_dataset" where
  "add_question q ds = ds @ [q]"

definition get_by_difficulty :: "eval_dataset \<Rightarrow> difficulty \<Rightarrow> eval_question list" where
  "get_by_difficulty ds d = filter (\<lambda>q. eq_difficulty q = d) ds"

definition get_by_reasoning_type :: "eval_dataset \<Rightarrow> reasoning_type \<Rightarrow> eval_question list" where
  "get_by_reasoning_type ds r = filter (\<lambda>q. eq_reasoning_type q = r) ds"

definition dataset_summary :: "eval_dataset \<Rightarrow> string" where
  "dataset_summary ds =
     join_with [CHR 0x0A]
       ([''EvalDataset: '' @ nat_str (length ds) @ '' questions'', [], ''By Difficulty:'']
        @ map (\<lambda>d. ''  '' @ difficulty_value d @ '': '' @ nat_str (length (get_by_difficulty ds d))) difficulties
        @ [[], ''By Reasoning Type:'']
        @ concat (map (\<lambda>r. let n = length (get_by_reasoning_type ds r) in
            if 0 < n then [''  '' @ reasoning_type_value r @ '': '' @ nat_str n] else []) reasoning_types))"

section \<open>The checks\<close>

datatype dataset_issue =
    WrongTotal nat
  | WrongDifficulty difficulty nat nat
  | MissingReasoningType reasoning_type
  | MissingCypher nat
  | MissingLabels nat

datatype gate_detail =
    Counts nat nat
  | OntologyInvalid nat nat "schema_error list"
  | MissingLabelNames "string list" "string list" nat
  | AllLabels "string list" nat
  | DatasetIssues "dataset_issue list" nat
  | DatasetGood nat "string list"
  | NoRelationshipTypes
  | BrokenEndpoints nat "(string \<times> string \<times> string) list"
  | RelationshipCount nat
  | PropertyCounts nat nat nat
  | RequiredWithoutProperties nat nat nat "string list"
  | SampleRun nat nat real "(string \<times> string) list"
  | NeedsNeo4j "real option"

record quality_gate =
  qg_max_orphan_rate :: real
  qg_min_query_success_rate :: real
  qg_required_labels :: "string list"

definition default_required_labels :: "string list" where
  "default_required_labels = [''Vessel'', ''Port'', ''Voyage'', ''Organization'', ''Incident'', ''TestFacility'', ''Experiment'', ''Sensor'',
     ''Observation'', ''Role'']"

definition qg_init :: "real \<Rightarrow> real \<Rightarrow> string list option \<Rightarrow> quality_gate" where
  "qg_init orphan success labels = \<lparr>qg_max_orphan_rate = orphan, qg_min_query_success_rate = success,
     qg_required_labels = (case labels of None \<Rightarrow> default_required_labels | Some ls \<Rightarrow> ls)\<rparr>"

definition check_ontology_consistency :: "ontology \<Rightarrow> gate_detail check_result" where
  "check_ontology_consistency ont =
     (let n = length (get_all_object_types ont); k = length (get_all_link_types ont); (ok, errors) = on_validate ont;
          result = (\<lambda>s d. \<lparr>ck_name = ''ontology_consistency'', ck_status = s, ck_details = d\<rparr>) in
      if n = 0 \<or> k = 0 then result CK_FAILED (Counts n k)
      else if \<not> ok then result CK_WARNING (OntologyInvalid n k (take 10 errors))
      else result CK_PASSED (Counts n k))"

definition check_required_labels :: "quality_gate \<Rightarrow> ontology \<Rightarrow> gate_detail check_result" where
  "check_required_labels g ont =
     (let existing = map ot_name (get_all_object_types ont); required = qg_required_labels g;
          missing = filter (\<lambda>l. l \<notin> set existing) required in
      if missing \<noteq> [] then \<lparr>ck_name = ''required_labels'', ck_status = CK_FAILED,
          ck_details = MissingLabelNames missing required (length (remdups existing))\<rparr>
      else \<lparr>ck_name = ''required_labels'', ck_status = CK_PASSED, ck_details = AllLabels required (length (remdups existing))\<rparr>)"

fun expected_count :: "difficulty \<Rightarrow> nat" where
  "expected_count EASY = 60"
| "expected_count MEDIUM = 100"
| "expected_count HARD = 140"

definition dataset_issues :: "eval_dataset \<Rightarrow> dataset_issue list" where
  "dataset_issues ds =
     (let mc = length (filter (\<lambda>q. eq_ground_truth_cypher q = []) ds); ml = length (filter (\<lambda>q. eq_expected_labels q = []) ds) in
      (if length ds \<noteq> 300 then [WrongTotal (length ds)] else [])
      @ concat (map (\<lambda>d. let n = length (get_by_difficulty ds d) in
            if n \<noteq> expected_count d then [WrongDifficulty d (expected_count d) n] else []) difficulties)
      @ concat (map (\<lambda>r. if r \<notin> set (map eq_reasoning_type ds) then [MissingReasoningType r] else []) reasoning_types)
      @ (if 0 < mc then [MissingCypher mc] else []) @ (if 0 < ml then [MissingLabels ml] else []))"

definition check_evaluation_dataset :: "eval_dataset \<Rightarrow> gate_detail check_result" where
  "check_evaluation_dataset ds =
     (let issues = dataset_issues ds in
      if issues \<noteq> [] then \<lparr>ck_name = ''evaluation_dataset'', ck_status = CK_FAILED, ck_details = DatasetIssues issues (length ds)\<rparr>
      else \<lparr>ck_name = ''evaluation_dataset'', ck_status = CK_PASSED,
            ck_details = DatasetGood (length ds) (sort (map reasoning_type_value (remdups (map eq_reasoning_type ds))))\<rparr>)"

definition broken_endpoints :: "ontology \<Rightarrow> (string \<times> string \<times> string) list" where
  "broken_endpoints ont =
     (let existing = map ot_name (get_all_object_types ont) in
      concat (map (\<lambda>lt. (if lt_from_type lt \<notin> set existing then [(lt_name lt, ''from_type'', lt_from_type lt)] else [])
          @ (if lt_to_type lt \<notin> set existing then [(lt_name lt, ''to_type'', lt_to_type lt)] else [])) (get_all_link_types ont)))"

definition check_relationship_types :: "ontology \<Rightarrow> gate_detail check_result" where
  "check_relationship_types ont =
     (let k = length (get_all_link_types ont); broken = broken_endpoints ont;
          result = (\<lambda>s d. \<lparr>ck_name = ''relationship_types'', ck_status = s, ck_details = d\<rparr>) in
      if k = 0 then result CK_FAILED NoRelationshipTypes
      else if broken \<noteq> [] then result CK_WARNING (BrokenEndpoints k (take 10 broken))
      else result CK_PASSED (RelationshipCount k))"

definition check_node_property_completeness :: "quality_gate \<Rightarrow> ontology \<Rightarrow> gate_detail check_result" where
  "check_node_property_completeness g ont =
     (let all = get_all_object_types ont; without = map ot_name (filter (\<lambda>ot. ot_properties ot = []) all);
          with_props = length (filter (\<lambda>ot. ot_properties ot \<noteq> []) all);
          required = filter (\<lambda>l. l \<in> set without) (qg_required_labels g) in
      if required \<noteq> [] then \<lparr>ck_name = ''node_property_completeness'', ck_status = CK_WARNING,
          ck_details = RequiredWithoutProperties (length all) with_props (length without) required\<rparr>
      else \<lparr>ck_name = ''node_property_completeness'', ck_status = CK_PASSED,
            ck_details = PropertyCounts (length all) with_props (length without)\<rparr>)"

text \<open>\<open>run\<close> is what \<^verbatim>\<open>pipeline.process\<close> does with a question: an output, or an exception with its text.\<close>

definition sample_ok :: "(string, pipeline_output) res \<Rightarrow> bool" where
  "sample_ok r = (case r of Inl e \<Rightarrow> False | Inr out \<Rightarrow> po_success out \<and> po_generated_query out \<noteq> None)"

definition sample_failure :: "string \<Rightarrow> (string, pipeline_output) res \<Rightarrow> string \<times> string" where
  "sample_failure q r = (q, case r of Inl e \<Rightarrow> e | Inr out \<Rightarrow> text_or (po_error out) ''no output'')"

definition check_pipeline_sample :: "quality_gate \<Rightarrow> (string \<Rightarrow> (string, pipeline_output) res) \<Rightarrow> string list \<Rightarrow> gate_detail check_result" where
  "check_pipeline_sample g run qs =
     (let good = length (filter (\<lambda>q. sample_ok (run q)) qs); n = length qs; rate = (if 0 < n then real good / real n else 0);
          failures = map (\<lambda>q. sample_failure q (run q)) (filter (\<lambda>q. \<not> sample_ok (run q)) qs);
          result = (\<lambda>s d. \<lparr>ck_name = ''pipeline_sample'', ck_status = s, ck_details = d\<rparr>) in
      if qg_min_query_success_rate g \<le> rate then result CK_PASSED (SampleRun good n rate [])
      else if 0 < rate then result CK_WARNING (SampleRun good n rate failures)
      else result CK_FAILED (SampleRun 0 n 0 failures))"

definition check_orphan_rate :: "quality_gate \<Rightarrow> gate_detail check_result" where
  "check_orphan_rate g = \<lparr>ck_name = ''orphan_rate'', ck_status = CK_SKIPPED, ck_details = NeedsNeo4j (Some (qg_max_orphan_rate g))\<rparr>"

definition check_node_count :: "gate_detail check_result" where
  "check_node_count = \<lparr>ck_name = ''node_count'', ck_status = CK_SKIPPED, ck_details = NeedsNeo4j None\<rparr>"

definition qg_run_all :: "quality_gate \<Rightarrow> eval_dataset \<Rightarrow> (string \<Rightarrow> (string, pipeline_output) res) \<Rightarrow> string list \<Rightarrow> ontology \<Rightarrow> gate_detail gate_report" where
  "qg_run_all g ds run qs ont =
     (let rep = gate_add (check_ontology_consistency ont) [];
          rep = gate_add (check_required_labels g ont) rep;
          rep = gate_add (check_evaluation_dataset ds) rep;
          rep = gate_add (check_relationship_types ont) rep;
          rep = gate_add (check_node_property_completeness g ont) rep;
          rep = gate_add (check_pipeline_sample g run qs) rep;
          rep = gate_add (check_orphan_rate g) rep
      in gate_add check_node_count rep)"

section \<open>What the gate decides\<close>

lemma gate_passed_simps [simp]:
  "gate_passed [] = True" "gate_passed (r # rep) \<longleftrightarrow> ck_status r \<noteq> CK_FAILED \<and> gate_passed rep"
  "gate_passed (gate_add r rep) \<longleftrightarrow> gate_passed rep \<and> ck_status r \<noteq> CK_FAILED"
  by (auto simp: gate_passed_def gate_add_def)

lemma status_counts_total:
  "status_count CK_PASSED rep + status_count CK_FAILED rep + status_count CK_SKIPPED rep + status_count CK_WARNING rep = length rep"
proof (induction rep)
  case (Cons c rep)
  then show ?case by (cases "ck_status c") (simp_all add: status_count_def)
qed (simp add: status_count_def)

lemma gate_passed_count: "gate_passed rep \<longleftrightarrow> status_count CK_FAILED rep = 0"
  by (simp add: gate_passed_def status_count_def filter_empty_conv list_all_iff)

lemma ontology_check_failed:
  "ck_status (check_ontology_consistency ont) = CK_FAILED \<longleftrightarrow> get_all_object_types ont = [] \<or> get_all_link_types ont = []"
  by (simp add: check_ontology_consistency_def Let_def split: prod.split)

lemma labels_check_failed:
  "ck_status (check_required_labels g ont) = CK_FAILED \<longleftrightarrow> \<not> set (qg_required_labels g) \<subseteq> ot_name ` set (get_all_object_types ont)"
  by (auto simp: check_required_labels_def Let_def filter_empty_conv)

definition balanced :: "eval_dataset \<Rightarrow> bool" where
  "balanced ds \<longleftrightarrow> list_all (\<lambda>d. length (get_by_difficulty ds d) = expected_count d) difficulties
     \<and> list_all (\<lambda>r. r \<in> set (map eq_reasoning_type ds)) reasoning_types
     \<and> list_all (\<lambda>q. eq_ground_truth_cypher q \<noteq> [] \<and> eq_expected_labels q \<noteq> []) ds"

lemma difficulty_total: "length (get_by_difficulty ds EASY) + length (get_by_difficulty ds MEDIUM) + length (get_by_difficulty ds HARD) = length ds"
proof (induction ds)
  case (Cons q ds)
  then show ?case by (cases "eq_difficulty q") (simp_all add: get_by_difficulty_def)
qed (simp add: get_by_difficulty_def)

lemma dataset_issues_none: "dataset_issues ds = [] \<longleftrightarrow> balanced ds"
proof -
  have "(\<forall>d \<in> set difficulties. length (get_by_difficulty ds d) = expected_count d) \<Longrightarrow> length ds = 300"
    using difficulty_total [of ds] by (simp add: difficulties_def)
  then show ?thesis
    by (auto simp: dataset_issues_def balanced_def Let_def list_all_iff filter_empty_conv)
qed

lemma dataset_check_failed: "ck_status (check_evaluation_dataset ds) = CK_FAILED \<longleftrightarrow> \<not> balanced ds"
  by (simp add: check_evaluation_dataset_def Let_def dataset_issues_none)

lemma relationship_check_failed: "ck_status (check_relationship_types ont) = CK_FAILED \<longleftrightarrow> get_all_link_types ont = []"
  by (simp add: check_relationship_types_def Let_def)

lemma property_check_passes: "ck_status (check_node_property_completeness g ont) \<noteq> CK_FAILED"
  by (simp add: check_node_property_completeness_def Let_def)

lemma sample_check_failed:
  "ck_status (check_pipeline_sample g run qs) = CK_FAILED \<longleftrightarrow> 0 < qg_min_query_success_rate g \<and> list_all (\<lambda>q. \<not> sample_ok (run q)) qs"
proof -
  have "0 < real (length (filter (\<lambda>q. sample_ok (run q)) qs)) / real (length qs) \<longleftrightarrow> \<not> list_all (\<lambda>q. \<not> sample_ok (run q)) qs"
    by (cases qs) (auto simp: list_all_iff filter_empty_conv zero_less_divide_iff)
  moreover have "real (length (filter (\<lambda>q. sample_ok (run q)) qs)) / real (length qs) = 0 \<longleftrightarrow> list_all (\<lambda>q. \<not> sample_ok (run q)) qs"
    by (cases qs) (auto simp: list_all_iff filter_empty_conv)
  ultimately show ?thesis by (auto simp: check_pipeline_sample_def Let_def)
qed

section \<open>Properties\<close>


text \<open>One good answer out of three passes a gate that asks for nine out of ten.\<close>

lemma success_rate_only_warns:
  "sample_ok (run a) \<Longrightarrow> ck_status (check_pipeline_sample (qg_init orphan (9 / 10) labels) run [a, b, c]) \<noteq> CK_FAILED"
  by (simp add: sample_check_failed)

end
