(* ===== verification/Consistency.thy ===== *)
theory Consistency
  imports Quality_Gate
begin

text \<open>
  \<^verbatim>\<open>core/kg/consistency/checks.py\<close> and \<^verbatim>\<open>core/kg/consistency/checker.py\<close>: checks of a schema and of the graph behind a session.

  A session is an argument: it takes the text of a query with its parameters and returns rows or raises an error with a text.
  Details are constructors from which the code renders messages.  The sets of a schema are lists in the order of their iteration.
  For the specification the graph itself is modelled, and \<open>answers\<close> says what the database returns for the queries
  the checks send.
\<close>

section \<open>Schemas\<close>

record property_schema =
  ps_expected_type :: string
  ps_enum_values :: "string list option"
  ps_min_cardinality :: int
  ps_max_cardinality :: "int option"

record label_schema =
  ls_properties :: "(string, property_schema) dict"
  ls_required_properties :: "string list"

record schema_definition =
  sd_labels :: "(string, label_schema) dict"
  sd_relationship_types :: "string list"

section \<open>Sessions\<close>

type_synonym row = "(string, json) dict"
type_synonym session = "string \<Rightarrow> (string, json) dict \<Rightarrow> (string, row list) res"

text \<open>The queries of the checks with their texts and parameters.\<close>

datatype graph_query =
    WrongType string string string
  | MissingProperty string string
  | NotAllowed string string "string list"
  | DegreeBelow string int
  | DegreeAbove string int
  | Orphans string
  | AllOrphans
  | Endpoints

definition bq :: "string \<Rightarrow> string" where
  "bq s = CHR 0x60 # s @ [CHR 0x60]"

definition qprop :: "string \<Rightarrow> string" where
  "qprop p = ''n.'' @ bq p"

definition match_label :: "string \<Rightarrow> string" where
  "match_label l = ''MATCH (n:'' @ bq l @ '') ''"

text \<open>\<open>_TYPE_PREDICATES\<close>\<close>

definition type_predicate :: "string \<Rightarrow> string \<Rightarrow> string option" where
  "type_predicate t p =
     (let m = ''apoc.meta.type('' @ qprop p @ '')''; q = squote; lst = (\<lambda>xs. '' IN ['' @ join_with '', '' (map squote xs) @ '']'') in
      map_of
        [(''str'', m @ '' = '' @ q ''STRING''),
         (''int'', m @ '' = '' @ q ''INTEGER''),
         (''float'', m @ lst [''FLOAT'', ''DOUBLE'']),
         (''bool'', m @ '' = '' @ q ''BOOLEAN''),
         (''datetime'', m @ lst [''DATE'', ''DATE_TIME'', ''LOCAL_DATE_TIME'']),
         (''list'', m @ lst [''LIST'', ''ARRAY'']),
         (''point'', m @ '' = '' @ q ''POINT'')] t)"

fun query_text :: "graph_query \<Rightarrow> string" where
  "query_text (WrongType l p t) = match_label l @ ''WHERE '' @ qprop p @ '' IS NOT NULL AND NOT ('' @ (case type_predicate t p of Some x \<Rightarrow> x | None \<Rightarrow> [])
     @ '') RETURN count(n) AS bad_count''"
| "query_text (MissingProperty l p) = match_label l @ ''WHERE '' @ qprop p @ '' IS NULL RETURN count(n) AS missing_count''"
| "query_text (NotAllowed l p vs) = match_label l @ ''WHERE '' @ qprop p @ '' IS NOT NULL AND NOT '' @ qprop p
     @ '' IN $allowed RETURN count(n) AS bad_count, collect(DISTINCT '' @ qprop p @ '')[..5] AS sample_bad''"
| "query_text (DegreeBelow l k) = match_label l @ ''WITH n, size([(n)--() | 1]) AS deg WHERE deg < $min_card RETURN count(n) AS bad_count''"
| "query_text (DegreeAbove l k) = match_label l @ ''WITH n, size([(n)--() | 1]) AS deg WHERE deg > $max_card RETURN count(n) AS bad_count''"
| "query_text (Orphans l) = match_label l @ ''WHERE NOT (n)--() RETURN count(n) AS orphan_count''"
| "query_text AllOrphans = ''MATCH (n) WHERE NOT (n)--() RETURN labels(n) AS node_labels, count(n) AS orphan_count''"
| "query_text Endpoints = ''MATCH (a)-[r]->(b) WITH type(r) AS rel_type,      labels(a) AS start_labels,      labels(b) AS end_labels,      count(*) AS rel_count RETURN rel_type, start_labels, end_labels, rel_count ORDER BY rel_count DESC LIMIT 500''"

fun query_params :: "graph_query \<Rightarrow> (string, json) dict" where
  "query_params (NotAllowed l p vs) = [(''allowed'', JList (map JStr vs))]"
| "query_params (DegreeBelow l k) = [(''min_card'', JNum (of_int k))]"
| "query_params (DegreeAbove l k) = [(''max_card'', JNum (of_int k))]"
| "query_params _ = []"

definition ask :: "session \<Rightarrow> graph_query \<Rightarrow> (string, row list) res" where
  "ask s q = s (query_text q) (query_params q)"

text \<open>\<^verbatim>\<open>record[k]\<close> raises for a key that is not there, and comparing something that is no number raises.\<close>

definition row_get :: "string \<Rightarrow> row \<Rightarrow> (string, json) res" where
  "row_get k r = (case map_of r k of Some v \<Rightarrow> Inr v | None \<Rightarrow> Inl (squote k))"

definition row_number :: "string \<Rightarrow> row \<Rightarrow> (string, real) res" where
  "row_number k r = (case row_get k r of Inl e \<Rightarrow> Inl e | Inr (JNum x) \<Rightarrow> Inr x | Inr _ \<Rightarrow> Inl ''not a number'')"

text \<open>\<^verbatim>\<open>record = result.single(); record[k] if record else 0\<close>\<close>

definition single_count :: "session \<Rightarrow> graph_query \<Rightarrow> string \<Rightarrow> (string, real) res" where
  "single_count s q k =
     (case ask s q of Inl e \<Rightarrow> Inl e | Inr [] \<Rightarrow> Inr 0 | Inr (r # rs) \<Rightarrow> if r = [] then Inr 0 else row_number k r)"

text \<open>A loop that asks for one count after another and keeps the positive ones; it stops at the first error.\<close>

fun collect_counts :: "session \<Rightarrow> string \<Rightarrow> graph_query list \<Rightarrow> (graph_query \<times> real) list \<Rightarrow> (string, (graph_query \<times> real) list) res" where
  "collect_counts s k [] acc = Inr acc"
| "collect_counts s k (q # qs) acc =
     (case single_count s q k of
        Inl e \<Rightarrow> Inl e
      | Inr n \<Rightarrow> collect_counts s k qs (if 0 < n then acc @ [(q, n)] else acc))"

section \<open>The checks\<close>

datatype schema_issue =
    EmptyLabel
  | UndefinedRequired string "string list"
  | EmptyEnum string string
  | NegativeMin string string
  | MaxBelowMin string string

datatype dangling = Dangling json "string list" "string list" "string list" "string list" real

datatype consistency_detail =
    SchemaIssues "schema_issue list"
  | SchemaSize nat nat
  | NoConnection
  | NoConstraints
  | NoLabels
  | CheckRaised string
  | Violations "(graph_query \<times> real) list"
  | CheckedPairs nat
  | ConstrainedLabels "string list"
  | OrphanSummary real "(json \<times> real) list"
  | DanglingFound nat real "dangling list" "string list"
  | KnownLabels "string list"

type_synonym 'd check_run = "schema_definition \<Rightarrow> session option \<Rightarrow> 'd check_result"

record 'd consistency_check =
  cc_name :: string
  cc_requires_connection :: bool
  cc_check :: "'d check_run"

abbreviation result_of :: "string \<Rightarrow> check_status \<Rightarrow> consistency_detail \<Rightarrow> consistency_detail check_result" where
  "result_of n s d \<equiv> \<lparr>ck_name = n, ck_status = s, ck_details = d\<rparr>"

subsection \<open>The schema itself\<close>

definition property_issues :: "string \<Rightarrow> string \<times> property_schema \<Rightarrow> schema_issue list" where
  "property_issues l = (\<lambda>(p, ps).
     (if ps_enum_values ps = Some [] then [EmptyEnum l p] else [])
     @ (if ps_min_cardinality ps < 0 then [NegativeMin l p] else [])
     @ (case ps_max_cardinality ps of Some m \<Rightarrow> if m < ps_min_cardinality ps then [MaxBelowMin l p] else [] | None \<Rightarrow> []))"

definition label_issues :: "string \<times> label_schema \<Rightarrow> schema_issue list" where
  "label_issues = (\<lambda>(l, ls).
     if py_strip l = [] then [EmptyLabel]
     else (let undefined_req = filter (\<lambda>p. p \<notin> set (map fst (ls_properties ls))) (ls_required_properties ls) in
           (if undefined_req \<noteq> [] then [UndefinedRequired l (sort undefined_req)] else []) @ concat (map (property_issues l) (ls_properties ls))))"

definition schema_issues :: "schema_definition \<Rightarrow> schema_issue list" where
  "schema_issues sd = concat (map label_issues (sd_labels sd))"

definition schema_alignment :: "consistency_detail check_run" where
  "schema_alignment sd session =
     (if schema_issues sd \<noteq> [] then result_of ''schema_alignment'' CK_FAILED (SchemaIssues (schema_issues sd))
      else result_of ''schema_alignment'' CK_PASSED (SchemaSize (length (sd_labels sd)) (length (sd_relationship_types sd))))"

subsection \<open>Counting violations\<close>

text \<open>Three checks that differ in their queries: nothing counted passes, anything counted fails, an error fails.\<close>

definition counting_check :: "string \<Rightarrow> string \<Rightarrow> (schema_definition \<Rightarrow> graph_query list) \<Rightarrow> (schema_definition \<Rightarrow> consistency_detail) \<Rightarrow> consistency_detail check_run" where
  "counting_check name k queries good sd session =
     (case session of
        None \<Rightarrow> result_of name CK_SKIPPED NoConnection
      | Some s \<Rightarrow>
          (case collect_counts s k (queries sd) [] of
             Inl e \<Rightarrow> result_of name CK_FAILED (CheckRaised e)
           | Inr vs \<Rightarrow> if vs \<noteq> [] then result_of name CK_FAILED (Violations vs) else result_of name CK_PASSED (good sd)))"

definition type_queries :: "schema_definition \<Rightarrow> graph_query list" where
  "type_queries sd =
     concat (map (\<lambda>(l, ls). concat (map (\<lambda>(p, ps).
        if type_predicate (ps_expected_type ps) p = None then [] else [WrongType l p (ps_expected_type ps)]) (ls_properties ls))) (sd_labels sd))"

definition property_type_check :: "consistency_detail check_run" where
  "property_type_check =
     counting_check ''property_type'' ''bad_count'' type_queries
       (\<lambda>sd. CheckedPairs (sum_list (map (\<lambda>(l, ls). length (ls_properties ls)) (sd_labels sd))))"

definition required_queries :: "schema_definition \<Rightarrow> graph_query list" where
  "required_queries sd = concat (map (\<lambda>(l, ls). map (MissingProperty l) (ls_required_properties ls)) (sd_labels sd))"

definition required_property_check :: "consistency_detail check_run" where
  "required_property_check =
     counting_check ''required_property'' ''missing_count'' required_queries
       (\<lambda>sd. CheckedPairs (sum_list (map (\<lambda>(l, ls). length (ls_required_properties ls)) (sd_labels sd))))"

definition enum_queries :: "schema_definition \<Rightarrow> graph_query list" where
  "enum_queries sd =
     concat (map (\<lambda>(l, ls). concat (map (\<lambda>(p, ps).
        case ps_enum_values ps of None \<Rightarrow> [] | Some vs \<Rightarrow> [NotAllowed l p vs]) (ls_properties ls))) (sd_labels sd))"

text \<open>The row of this check has the sample as well; a row without it raises before anything is compared.\<close>

definition enum_value_check :: "consistency_detail check_run" where
  "enum_value_check sd session =
     counting_check ''enum_value'' ''bad_count'' enum_queries
       (\<lambda>sd. CheckedPairs (length (enum_queries sd))) sd
       (map_option (\<lambda>s t ps. case s t ps of
          Inr (r # rs) \<Rightarrow> (case map_of r ''bad_count'' of None \<Rightarrow> Inr (r # rs)
                          | Some _ \<Rightarrow> if map_of r ''sample_bad'' = None then Inl (squote ''sample_bad'') else Inr (r # rs))
        | x \<Rightarrow> x) session)"

subsection \<open>Cardinalities\<close>

text \<open>The most restrictive bounds over the properties of a label.\<close>

definition label_bounds :: "label_schema \<Rightarrow> int \<times> int option" where
  "label_bounds ls =
     (let mins = map (\<lambda>(p, ps). ps_min_cardinality ps) (ls_properties ls);
          maxs = concat (map (\<lambda>(p, ps). case ps_max_cardinality ps of Some m \<Rightarrow> [m] | None \<Rightarrow> []) (ls_properties ls))
      in (if mins = [] then 0 else Max (set mins), if maxs = [] then None else Some (Min (set maxs))))"

definition constrained_labels :: "schema_definition \<Rightarrow> (string \<times> int \<times> int option) list" where
  "constrained_labels sd =
     filter (\<lambda>(l, mn, mx). 0 < mn \<or> mx \<noteq> None) (map (\<lambda>(l, ls). (l, label_bounds ls)) (sd_labels sd))"

definition degree_queries :: "schema_definition \<Rightarrow> graph_query list" where
  "degree_queries sd =
     concat (map (\<lambda>(l, mn, mx). (if 0 < mn then [DegreeBelow l mn] else []) @ (case mx of Some m \<Rightarrow> [DegreeAbove l m] | None \<Rightarrow> []))
       (constrained_labels sd))"

definition cardinality_check :: "consistency_detail check_run" where
  "cardinality_check sd session =
     (case session of
        None \<Rightarrow> result_of ''cardinality'' CK_SKIPPED NoConnection
      | Some s \<Rightarrow>
          if constrained_labels sd = [] then result_of ''cardinality'' CK_SKIPPED NoConstraints
          else counting_check ''cardinality'' ''bad_count'' degree_queries (\<lambda>sd. ConstrainedLabels (map fst (constrained_labels sd))) sd (Some s))"

subsection \<open>Orphans and unknown endpoints\<close>

fun orphan_rows :: "row list \<Rightarrow> real \<Rightarrow> (json \<times> real) list \<Rightarrow> (string, real \<times> (json \<times> real) list) res" where
  "orphan_rows [] n acc = Inr (n, acc)"
| "orphan_rows (r # rs) n acc =
     (case row_number ''orphan_count'' r of
        Inl e \<Rightarrow> Inl e
      | Inr k \<Rightarrow> (case row_get ''node_labels'' r of Inl e \<Rightarrow> Inl e | Inr ls \<Rightarrow> orphan_rows rs (n + k) (acc @ [(ls, k)])))"

definition orphan_label :: "graph_query \<Rightarrow> json" where
  "orphan_label q = (case q of Orphans l \<Rightarrow> JStr l | _ \<Rightarrow> JNull)"

definition orphan_summary :: "schema_definition \<Rightarrow> session \<Rightarrow> (string, real \<times> (json \<times> real) list) res" where
  "orphan_summary sd s =
     (if sd_labels sd = []
      then (case ask s AllOrphans of Inl e \<Rightarrow> Inl e | Inr rows \<Rightarrow> orphan_rows rows 0 [])
      else (case collect_counts s ''orphan_count'' (map (\<lambda>(l, ls). Orphans l) (sd_labels sd)) [] of
              Inl e \<Rightarrow> Inl e
            | Inr found \<Rightarrow> Inr (sum_list (map snd found), map (\<lambda>(q, n). (orphan_label q, n)) found)))"

definition orphan_node_check :: "consistency_detail check_run" where
  "orphan_node_check sd session =
     (case session of
        None \<Rightarrow> result_of ''orphan_node'' CK_SKIPPED NoConnection
      | Some s \<Rightarrow>
          (case orphan_summary sd s of
             Inl e \<Rightarrow> result_of ''orphan_node'' CK_FAILED (CheckRaised e)
           | Inr (n, by_label) \<Rightarrow> if 0 < n then result_of ''orphan_node'' CK_WARNING (OrphanSummary n by_label)
                                else result_of ''orphan_node'' CK_PASSED (OrphanSummary 0 [])))"

fun text_list :: "json \<Rightarrow> (string, string list) res" where
  "text_list (JList xs) =
     (if list_all (\<lambda>x. case x of JStr _ \<Rightarrow> True | _ \<Rightarrow> False) xs
      then Inr (map (\<lambda>x. case x of JStr t \<Rightarrow> t | _ \<Rightarrow> []) xs) else Inl ''not labels'')"
| "text_list _ = Inl ''not labels''"

fun dangling_rows :: "string list \<Rightarrow> row list \<Rightarrow> dangling list \<Rightarrow> (string, dangling list) res" where
  "dangling_rows known [] acc = Inr acc"
| "dangling_rows known (r # rs) acc =
     (case (row_get ''start_labels'' r, row_get ''end_labels'' r) of
        (Inr a, Inr b) \<Rightarrow>
          (case (text_list a, text_list b) of
             (Inr starts, Inr ends) \<Rightarrow>
               (let us = filter (\<lambda>l. l \<notin> set known) starts; ue = filter (\<lambda>l. l \<notin> set known) ends in
                if us = [] \<and> ue = [] then dangling_rows known rs acc
                else (case (row_get ''rel_type'' r, row_number ''rel_count'' r) of
                        (Inr t, Inr n) \<Rightarrow> dangling_rows known rs (acc @ [Dangling t starts ends us ue n])
                      | (Inl e, _) \<Rightarrow> Inl e
                      | (_, Inl e) \<Rightarrow> Inl e))
           | (Inl e, _) \<Rightarrow> Inl e
           | (_, Inl e) \<Rightarrow> Inl e)
      | (Inl e, _) \<Rightarrow> Inl e
      | (_, Inl e) \<Rightarrow> Inl e)"

fun dangling_count :: "dangling \<Rightarrow> real" where
  "dangling_count (Dangling t a b ua ub n) = n"

definition dangling_relationship_check :: "consistency_detail check_run" where
  "dangling_relationship_check sd session =
     (let known = map fst (sd_labels sd); name = ''dangling_relationship'' in
      case session of
        None \<Rightarrow> result_of name CK_SKIPPED NoConnection
      | Some s \<Rightarrow>
          if known = [] then result_of name CK_SKIPPED NoLabels
          else (case ask s Endpoints of
                  Inl e \<Rightarrow> result_of name CK_FAILED (CheckRaised e)
                | Inr rows \<Rightarrow>
                    (case dangling_rows known rows [] of
                       Inl e \<Rightarrow> result_of name CK_FAILED (CheckRaised e)
                     | Inr ds \<Rightarrow>
                         if ds \<noteq> [] then result_of name CK_WARNING
                             (DanglingFound (length ds) (sum_list (map dangling_count ds)) (take 20 ds) (sort known))
                         else result_of name CK_PASSED (KnownLabels (sort known)))))"

section \<open>The checker\<close>

definition default_checks :: "consistency_detail consistency_check list" where
  "default_checks =
     [\<lparr>cc_name = ''schema_alignment'', cc_requires_connection = False, cc_check = schema_alignment\<rparr>,
      \<lparr>cc_name = ''property_type'', cc_requires_connection = True, cc_check = property_type_check\<rparr>,
      \<lparr>cc_name = ''required_property'', cc_requires_connection = True, cc_check = required_property_check\<rparr>,
      \<lparr>cc_name = ''enum_value'', cc_requires_connection = True, cc_check = enum_value_check\<rparr>,
      \<lparr>cc_name = ''cardinality'', cc_requires_connection = True, cc_check = cardinality_check\<rparr>,
      \<lparr>cc_name = ''orphan_node'', cc_requires_connection = True, cc_check = orphan_node_check\<rparr>,
      \<lparr>cc_name = ''dangling_relationship'', cc_requires_connection = True, cc_check = dangling_relationship_check\<rparr>]"

record consistency_checker =
  kc_schema :: schema_definition
  kc_checks :: "consistency_detail consistency_check list"

definition kc_init :: "schema_definition \<Rightarrow> consistency_detail consistency_check list option \<Rightarrow> consistency_checker" where
  "kc_init sd checks = \<lparr>kc_schema = sd, kc_checks = (case checks of None \<Rightarrow> default_checks | Some cs \<Rightarrow> cs)\<rparr>"

definition add_check :: "consistency_detail consistency_check \<Rightarrow> consistency_checker \<Rightarrow> consistency_checker" where
  "add_check c kc = kc\<lparr>kc_checks := kc_checks kc @ [c]\<rparr>"

definition run_selected :: "consistency_detail consistency_check list \<Rightarrow> schema_definition \<Rightarrow> session option \<Rightarrow> consistency_detail gate_report" where
  "run_selected cs sd session = fold (\<lambda>c rep. gate_add (cc_check c sd session) rep) cs []"

definition run_offline :: "consistency_checker \<Rightarrow> consistency_detail gate_report" where
  "run_offline kc = run_selected (filter (\<lambda>c. \<not> cc_requires_connection c) (kc_checks kc)) (kc_schema kc) None"

definition kc_run_all :: "consistency_checker \<Rightarrow> session option \<Rightarrow> consistency_detail gate_report" where
  "kc_run_all kc session = run_selected (kc_checks kc) (kc_schema kc) session"

definition run_checks :: "consistency_checker \<Rightarrow> string list \<Rightarrow> session option \<Rightarrow> consistency_detail gate_report" where
  "run_checks kc ns session = run_selected (filter (\<lambda>c. cc_name c \<in> set ns) (kc_checks kc)) (kc_schema kc) session"

definition check_names :: "consistency_checker \<Rightarrow> string list" where
  "check_names kc = map cc_name (kc_checks kc)"

section \<open>The graph behind the session\<close>

text \<open>Nodes with labels and properties (the type of a property as \<^verbatim>\<open>apoc.meta.type\<close> names it, and its value), and relationships
  between nodes given by their positions.\<close>

record graph_node =
  gn_labels :: "string list"
  gn_props :: "(string, string \<times> json) dict"

record graph_rel =
  gr_start :: nat
  gr_type :: string
  gr_end :: nat

record graph =
  g_nodes :: "graph_node list"
  g_rels :: "graph_rel list"

definition node_labels :: "graph \<Rightarrow> nat \<Rightarrow> string list" where
  "node_labels g i = gn_labels (g_nodes g ! i)"

definition node_prop :: "graph \<Rightarrow> nat \<Rightarrow> string \<Rightarrow> (string \<times> json) option" where
  "node_prop g i p = map_of (gn_props (g_nodes g ! i)) p"

definition labelled :: "graph \<Rightarrow> string \<Rightarrow> nat list" where
  "labelled g l = filter (\<lambda>i. l \<in> set (node_labels g i)) [0..<length (g_nodes g)]"

definition degree :: "graph \<Rightarrow> nat \<Rightarrow> nat" where
  "degree g i = length (filter (\<lambda>r. gr_start r = i \<or> gr_end r = i) (g_rels g))"

definition stored_types :: "string \<Rightarrow> string list option" where
  "stored_types t = map_of [(''str'', [''STRING'']), (''int'', [''INTEGER'']), (''float'', [''FLOAT'', ''DOUBLE'']), (''bool'', [''BOOLEAN'']),
     (''datetime'', [''DATE'', ''DATE_TIME'', ''LOCAL_DATE_TIME'']), (''list'', [''LIST'', ''ARRAY'']), (''point'', [''POINT''])] t"

definition type_fits :: "string \<Rightarrow> string \<Rightarrow> bool" where
  "type_fits t ty \<longleftrightarrow> (case stored_types t of None \<Rightarrow> True | Some tys \<Rightarrow> ty \<in> set tys)"

text \<open>The nodes a query counts.\<close>

fun violates :: "graph \<Rightarrow> graph_query \<Rightarrow> nat \<Rightarrow> bool" where
  "violates g (WrongType l p t) i = (case node_prop g i p of None \<Rightarrow> False | Some (ty, v) \<Rightarrow> \<not> type_fits t ty)"
| "violates g (MissingProperty l p) i = (node_prop g i p = None)"
| "violates g (NotAllowed l p vs) i = (case node_prop g i p of None \<Rightarrow> False | Some (ty, v) \<Rightarrow> v \<notin> JStr ` set vs)"
| "violates g (DegreeBelow l k) i = (int (degree g i) < k)"
| "violates g (DegreeAbove l k) i = (k < int (degree g i))"
| "violates g (Orphans l) i = (degree g i = 0)"
| "violates g _ i = False"

fun query_label :: "graph_query \<Rightarrow> string" where
  "query_label (WrongType l p t) = l"
| "query_label (MissingProperty l p) = l"
| "query_label (NotAllowed l p vs) = l"
| "query_label (DegreeBelow l k) = l"
| "query_label (DegreeAbove l k) = l"
| "query_label (Orphans l) = l"
| "query_label _ = []"

fun count_key :: "graph_query \<Rightarrow> string" where
  "count_key (MissingProperty l p) = ''missing_count''"
| "count_key (Orphans l) = ''orphan_count''"
| "count_key _ = ''bad_count''"

definition violators :: "graph \<Rightarrow> graph_query \<Rightarrow> nat list" where
  "violators g q = filter (violates g q) (labelled g (query_label q))"

definition counted :: "graph \<Rightarrow> session \<Rightarrow> graph_query \<Rightarrow> bool" where
  "counted g s q \<longleftrightarrow> (\<exists>r. ask s q = Inr [r] \<and> map_of r (count_key q) = Some (JNum (real (length (violators g q)))) \<and> map_of r ''sample_bad'' \<noteq> None)"

definition endpoint_row :: "row \<Rightarrow> (string list \<times> string list) option" where
  "endpoint_row r = (case (row_get ''start_labels'' r, row_get ''end_labels'' r, row_get ''rel_type'' r, row_number ''rel_count'' r) of
     (Inr a, Inr b, Inr t, Inr n) \<Rightarrow> (case (text_list a, text_list b) of (Inr xs, Inr ys) \<Rightarrow> Some (xs, ys) | _ \<Rightarrow> None) | _ \<Rightarrow> None)"

definition rel_groups :: "graph \<Rightarrow> (string list \<times> string list) list" where
  "rel_groups g = map (\<lambda>r. (node_labels g (gr_start r), node_labels g (gr_end r))) (g_rels g)"

text \<open>What the database returns for the queries of a schema: counts of the nodes each query describes (the row of every query may
  have a sample), and the label lists at the ends of relationships, all of them unless there are more than 500 groups.\<close>

definition answers :: "graph \<Rightarrow> session \<Rightarrow> schema_definition \<Rightarrow> bool" where
  "answers g s sd \<longleftrightarrow>
     (\<forall>q \<in> set (type_queries sd @ required_queries sd @ enum_queries sd @ degree_queries sd @ map (\<lambda>(l, ls). Orphans l) (sd_labels sd)). counted g s q)
     \<and> (\<exists>rows. ask s AllOrphans = Inr rows \<and> (\<forall>r \<in> set rows. \<exists>ls n. map_of r ''node_labels'' = Some ls \<and> map_of r ''orphan_count'' = Some (JNum n)))
     \<and> (\<exists>rows. ask s Endpoints = Inr rows \<and> (\<forall>r \<in> set rows. endpoint_row r \<noteq> None)
         \<and> set (map (the \<circ> endpoint_row) rows) \<subseteq> set (rel_groups g)
         \<and> (length (remdups (map (\<lambda>r. (gr_type r, node_labels g (gr_start r), node_labels g (gr_end r))) (g_rels g))) \<le> 500 \<longrightarrow>
             set (map (the \<circ> endpoint_row) rows) = set (rel_groups g)))"

text \<open>What the checks are there for.\<close>

definition node_conforms :: "graph \<Rightarrow> label_schema \<Rightarrow> nat \<Rightarrow> bool" where
  "node_conforms g ls i \<longleftrightarrow>
     (\<forall>(p, ps) \<in> set (ls_properties ls).
        (case node_prop g i p of None \<Rightarrow> True
         | Some (ty, v) \<Rightarrow> type_fits (ps_expected_type ps) ty \<and> (case ps_enum_values ps of None \<Rightarrow> True | Some vs \<Rightarrow> v \<in> JStr ` set vs))
        \<and> ps_min_cardinality ps \<le> int (degree g i)
        \<and> (case ps_max_cardinality ps of None \<Rightarrow> True | Some m \<Rightarrow> int (degree g i) \<le> m))
     \<and> (\<forall>p \<in> set (ls_required_properties ls). node_prop g i p \<noteq> None)"

definition conforms :: "graph \<Rightarrow> schema_definition \<Rightarrow> bool" where
  "conforms g sd \<longleftrightarrow> (\<forall>(l, ls) \<in> set (sd_labels sd). \<forall>i \<in> set (labelled g l). node_conforms g ls i)"

section \<open>Counting\<close>

lemma single_count_counted: "counted g s q \<Longrightarrow> k = count_key q \<Longrightarrow> single_count s q k = Inr (real (length (violators g q)))"
  by (auto simp: counted_def single_count_def row_number_def row_get_def)

lemma collect_counts_counted:
  assumes "\<forall>q \<in> set qs. counted g s q \<and> count_key q = k"
  shows "collect_counts s k qs acc =
    Inr (acc @ map (\<lambda>q. (q, real (length (violators g q)))) (filter (\<lambda>q. violators g q \<noteq> []) qs))"
  using assms
proof (induction qs arbitrary: acc)
  case (Cons q qs)
  then show ?case by (simp add: single_count_counted [of g s q])
qed simp

lemma counting_check_status:
  assumes "\<forall>q \<in> set (queries sd). counted g s q \<and> count_key q = k"
  shows "ck_status (counting_check n k queries good sd (Some s)) = CK_FAILED \<longleftrightarrow> (\<exists>q \<in> set (queries sd). violators g q \<noteq> [])"
  using collect_counts_counted [OF assms] by (auto simp: counting_check_def filter_empty_conv)

lemma violators_empty: "violators g q = [] \<longleftrightarrow> (\<forall>i \<in> set (labelled g (query_label q)). \<not> violates g q i)"
  by (simp add: violators_def filter_empty_conv)

lemma type_predicate_None: "type_predicate t p = None \<longleftrightarrow> stored_types t = None"
  unfolding type_predicate_def stored_types_def Let_def map_of_eq_None_iff by simp

lemma query_keys:
  "q \<in> set (type_queries sd) \<Longrightarrow> count_key q = ''bad_count''" "q \<in> set (required_queries sd) \<Longrightarrow> count_key q = ''missing_count''"
  "q \<in> set (enum_queries sd) \<Longrightarrow> count_key q = ''bad_count''" "q \<in> set (degree_queries sd) \<Longrightarrow> count_key q = ''bad_count''"
  by (auto simp: type_queries_def required_queries_def enum_queries_def degree_queries_def split: if_splits option.splits)

text \<open>What each group of queries finds, said of the nodes.\<close>

definition on_nodes :: "graph \<Rightarrow> schema_definition \<Rightarrow> (label_schema \<Rightarrow> nat \<Rightarrow> bool) \<Rightarrow> bool" where
  "on_nodes g sd P \<longleftrightarrow> (\<forall>(l, ls) \<in> set (sd_labels sd). \<forall>i \<in> set (labelled g l). P ls i)"

lemma type_queries_clean:
  "(\<forall>q \<in> set (type_queries sd). violators g q = []) \<longleftrightarrow> on_nodes g sd (\<lambda>ls i. \<forall>(p, ps) \<in> set (ls_properties ls).
     case node_prop g i p of None \<Rightarrow> True | Some (ty, v) \<Rightarrow> type_fits (ps_expected_type ps) ty)"
proof -
  have "type_fits t ty" if "stored_types t = None" for t ty using that by (simp add: type_fits_def)
  then have one: "(\<forall>q \<in> set (if type_predicate (ps_expected_type ps) p = None then [] else [WrongType l p (ps_expected_type ps)]). violators g q = [])
      \<longleftrightarrow> (\<forall>i \<in> set (labelled g l). case node_prop g i p of None \<Rightarrow> True | Some (ty, v) \<Rightarrow> type_fits (ps_expected_type ps) ty)" for l p ps
    by (auto simp: violators_empty type_predicate_None split: option.splits)
  show ?thesis
    unfolding type_queries_def on_nodes_def set_concat set_map UN_iff ball_UN ball_simps case_prod_unfold one by blast
qed

lemma required_queries_clean:
  "(\<forall>q \<in> set (required_queries sd). violators g q = []) \<longleftrightarrow>
     on_nodes g sd (\<lambda>ls i. \<forall>p \<in> set (ls_required_properties ls). node_prop g i p \<noteq> None)"
proof -
  have one: "violators g (MissingProperty l p) = [] \<longleftrightarrow> (\<forall>i \<in> set (labelled g l). node_prop g i p \<noteq> None)" for l p
    by (simp add: violators_empty)
  show ?thesis unfolding required_queries_def on_nodes_def set_concat set_map UN_iff ball_UN ball_simps case_prod_unfold one by blast
qed

lemma enum_queries_clean:
  "(\<forall>q \<in> set (enum_queries sd). violators g q = []) \<longleftrightarrow> on_nodes g sd (\<lambda>ls i. \<forall>(p, ps) \<in> set (ls_properties ls).
     case node_prop g i p of None \<Rightarrow> True | Some (ty, v) \<Rightarrow> (case ps_enum_values ps of None \<Rightarrow> True | Some vs \<Rightarrow> v \<in> JStr ` set vs))"
proof -
  have one: "(\<forall>q \<in> set (case ps_enum_values ps of None \<Rightarrow> [] | Some vs \<Rightarrow> [NotAllowed l p vs]). violators g q = [])
      \<longleftrightarrow> (\<forall>i \<in> set (labelled g l). case node_prop g i p of None \<Rightarrow> True
             | Some (ty, v) \<Rightarrow> (case ps_enum_values ps of None \<Rightarrow> True | Some vs \<Rightarrow> v \<in> JStr ` set vs))" for l p ps
    by (auto simp: violators_empty split: option.splits)
  show ?thesis unfolding enum_queries_def on_nodes_def set_concat set_map UN_iff ball_UN ball_simps case_prod_unfold one by blast
qed

text \<open>The combined bounds of a label hold exactly when the bounds of all its properties do.\<close>

lemma label_bounds_iff:
  fixes d :: nat
  shows "(fst (label_bounds ls) \<le> int d \<and> (case snd (label_bounds ls) of None \<Rightarrow> True | Some m \<Rightarrow> int d \<le> m))
    \<longleftrightarrow> (\<forall>(p, ps) \<in> set (ls_properties ls). ps_min_cardinality ps \<le> int d \<and> (case ps_max_cardinality ps of None \<Rightarrow> True | Some m \<Rightarrow> int d \<le> m))"
proof -
  let ?mins = "map (\<lambda>(p, ps). ps_min_cardinality ps) (ls_properties ls)"
  let ?maxs = "concat (map (\<lambda>(p, ps). case ps_max_cardinality ps of Some m \<Rightarrow> [m] | None \<Rightarrow> []) (ls_properties ls))"
  have b: "fst (label_bounds ls) = (if ?mins = [] then 0 else Max (set ?mins))" "snd (label_bounds ls) = (if ?maxs = [] then None else Some (Min (set ?maxs)))"
    unfolding label_bounds_def Let_def by simp_all
  have mn: "fst (label_bounds ls) \<le> int d \<longleftrightarrow> (\<forall>m \<in> set ?mins. m \<le> int d)"
    unfolding b(1) by (cases "?mins = []") (simp_all only: if_True if_False Max_le_iff finite_set set_empty simp_thms, simp)
  have mx: "(case snd (label_bounds ls) of None \<Rightarrow> True | Some m \<Rightarrow> int d \<le> m) \<longleftrightarrow> (\<forall>m \<in> set ?maxs. int d \<le> m)"
    unfolding b(2) by (cases "?maxs = []") (simp_all only: if_True if_False Min_ge_iff finite_set set_empty simp_thms option.case, simp)
  have "(\<forall>m \<in> set ?maxs. int d \<le> m) \<longleftrightarrow> (\<forall>(p, ps) \<in> set (ls_properties ls). case ps_max_cardinality ps of None \<Rightarrow> True | Some m \<Rightarrow> int d \<le> m)"
    by (fastforce split: option.splits)
  then show ?thesis unfolding mn mx by auto
qed

lemma degree_queries_clean:
  "(\<forall>q \<in> set (degree_queries sd). violators g q = []) \<longleftrightarrow> on_nodes g sd (\<lambda>ls i. \<forall>(p, ps) \<in> set (ls_properties ls).
     ps_min_cardinality ps \<le> int (degree g i) \<and> (case ps_max_cardinality ps of None \<Rightarrow> True | Some m \<Rightarrow> int (degree g i) \<le> m))"
proof -
  have one: "(0 < mn \<or> mx \<noteq> None \<longrightarrow>
       (\<forall>q \<in> set ((if 0 < mn then [DegreeBelow l mn] else []) @ (case mx of Some m \<Rightarrow> [DegreeAbove l m] | None \<Rightarrow> [])). violators g q = []))
     \<longleftrightarrow> (\<forall>i \<in> set (labelled g l). mn \<le> int (degree g i) \<and> (case mx of None \<Rightarrow> True | Some m \<Rightarrow> int (degree g i) \<le> m))" for l mn mx
    by (cases "0 < mn"; cases mx) (auto simp: violators_empty not_less intro: order_trans [of mn 0])
  have parts: "(\<forall>q \<in> set (concat (map f (filter P (map h xs)))). R q) \<longleftrightarrow> (\<forall>x \<in> set xs. P (h x) \<longrightarrow> (\<forall>q \<in> set (f (h x)). R q))"
    for f :: "'b \<Rightarrow> graph_query list" and P R and h :: "'a \<Rightarrow> 'b" and xs by auto
  show ?thesis
    unfolding degree_queries_def constrained_labels_def parts on_nodes_def
    by (rule ball_cong [OF refl]) (simp only: case_prod_unfold fst_conv snd_conv one label_bounds_iff [unfolded case_prod_unfold])
qed

section \<open>The checks and the graph\<close>

lemma answers_counted:
  assumes "answers g s sd"
  shows "\<forall>q \<in> set (type_queries sd). counted g s q \<and> count_key q = ''bad_count''"
    and "\<forall>q \<in> set (required_queries sd). counted g s q \<and> count_key q = ''missing_count''"
    and "\<forall>q \<in> set (enum_queries sd). counted g s q \<and> count_key q = ''bad_count''"
    and "\<forall>q \<in> set (degree_queries sd). counted g s q \<and> count_key q = ''bad_count''"
    and "\<forall>q \<in> set (map (\<lambda>(l, ls). Orphans l) (sd_labels sd)). counted g s q \<and> count_key q = ''orphan_count''"
  using assms query_keys by (auto simp: answers_def)

lemma type_check_failed:
  "answers g s sd \<Longrightarrow> ck_status (property_type_check sd (Some s)) = CK_FAILED \<longleftrightarrow> (\<exists>q \<in> set (type_queries sd). violators g q \<noteq> [])"
  unfolding property_type_check_def by (rule counting_check_status) (rule answers_counted)

lemma required_check_failed:
  "answers g s sd \<Longrightarrow> ck_status (required_property_check sd (Some s)) = CK_FAILED \<longleftrightarrow> (\<exists>q \<in> set (required_queries sd). violators g q \<noteq> [])"
  unfolding required_property_check_def by (rule counting_check_status) (rule answers_counted)

lemma enum_check_failed:
  assumes "answers g s sd"
  shows "ck_status (enum_value_check sd (Some s)) = CK_FAILED \<longleftrightarrow> (\<exists>q \<in> set (enum_queries sd). violators g q \<noteq> [])"
  unfolding enum_value_check_def option.map
proof (rule counting_check_status, rule ballI)
  fix q assume "q \<in> set (enum_queries sd)"
  then have "counted g s q" "count_key q = ''bad_count''" using answers_counted(3) [OF assms] by simp_all
  then show "counted g (\<lambda>t ps. case s t ps of
          Inr (r # rs) \<Rightarrow> (case map_of r ''bad_count'' of None \<Rightarrow> Inr (r # rs)
                          | Some _ \<Rightarrow> if map_of r ''sample_bad'' = None then Inl (squote ''sample_bad'') else Inr (r # rs))
        | x \<Rightarrow> x) q \<and> count_key q = ''bad_count''"
    by (auto simp: counted_def ask_def)
qed

lemma cardinality_check_failed:
  assumes "answers g s sd"
  shows "ck_status (cardinality_check sd (Some s)) = CK_FAILED \<longleftrightarrow> (\<exists>q \<in> set (degree_queries sd). violators g q \<noteq> [])"
proof (cases "constrained_labels sd = []")
  case True
  then show ?thesis by (simp add: cardinality_check_def degree_queries_def)
next
  case False
  have "ck_status (counting_check ''cardinality'' ''bad_count'' degree_queries (\<lambda>sd. ConstrainedLabels (map fst (constrained_labels sd))) sd (Some s)) = CK_FAILED
      \<longleftrightarrow> (\<exists>q \<in> set (degree_queries sd). violators g q \<noteq> [])"
    by (rule counting_check_status) (rule answers_counted(4) [OF assms])
  with False show ?thesis by (simp add: cardinality_check_def)
qed

lemma orphan_check_status:
  assumes "answers g s sd" and "sd_labels sd \<noteq> []"
  shows "ck_status (orphan_node_check sd (Some s)) =
    (if on_nodes g sd (\<lambda>ls i. 0 < degree g i) then CK_PASSED else CK_WARNING)"
proof -
  let ?qs = "map (\<lambda>(l, ls). Orphans l) (sd_labels sd)"
  let ?found = "map (\<lambda>q. (q, real (length (violators g q)))) (filter (\<lambda>q. violators g q \<noteq> []) ?qs)"
  have c: "collect_counts s ''orphan_count'' ?qs [] = Inr ?found"
    using collect_counts_counted [OF answers_counted(5) [OF assms(1)], of "[]"] by simp
  have pos: "0 < sum_list (map snd (map (\<lambda>q. (q, real (length (violators g q)))) (filter (\<lambda>q. violators g q \<noteq> []) xs)))
      \<longleftrightarrow> (\<exists>q \<in> set xs. violators g q \<noteq> [])" for xs
  proof (induction xs)
    case (Cons q xs)
    have "0 \<le> sum_list (map snd (map (\<lambda>q. (q, real (length (violators g q)))) (filter (\<lambda>q. violators g q \<noteq> []) xs)))"
      by (rule sum_list_nonneg) auto
    with Cons show ?case by (auto simp: add_pos_nonneg)
  qed simp
  have one: "violators g (Orphans l) = [] \<longleftrightarrow> (\<forall>i \<in> set (labelled g l). 0 < degree g i)" for l by (simp add: violators_empty)
  have "(\<exists>q \<in> set ?qs. violators g q \<noteq> []) \<longleftrightarrow> \<not> on_nodes g sd (\<lambda>ls i. 0 < degree g i)"
    unfolding on_nodes_def set_map case_prod_unfold using one by auto
  with pos [of ?qs] show ?thesis
    unfolding orphan_node_check_def orphan_summary_def using assms(2) c by simp
qed

lemma dangling_rows_known:
  assumes "\<forall>r \<in> set rows. endpoint_row r \<noteq> None"
  shows "\<exists>ds. dangling_rows known rows acc = Inr ds
    \<and> (ds = [] \<longleftrightarrow> acc = [] \<and> (\<forall>(a, b) \<in> set (map (the \<circ> endpoint_row) rows). set a \<subseteq> set known \<and> set b \<subseteq> set known))"
  using assms
proof (induction rows arbitrary: acc)
  case (Cons r rows)
  from Cons.prems obtain a b t n xs ys where r: "row_get ''start_labels'' r = Inr a" "row_get ''end_labels'' r = Inr b"
    "row_get ''rel_type'' r = Inr t" "row_number ''rel_count'' r = Inr n" "text_list a = Inr xs" "text_list b = Inr ys"
    and e: "endpoint_row r = Some (xs, ys)"
    by (auto simp: endpoint_row_def split: sum.splits prod.splits)
  let ?us = "filter (\<lambda>l. l \<notin> set known) xs" and ?ue = "filter (\<lambda>l. l \<notin> set known) ys"
  have k: "?us = [] \<and> ?ue = [] \<longleftrightarrow> set xs \<subseteq> set known \<and> set ys \<subseteq> set known" by (auto simp: filter_empty_conv)
  show ?case
  proof (cases "?us = [] \<and> ?ue = []")
    case True
    with Cons.IH [of acc] Cons.prems r e k show ?thesis by simp
  next
    case False
    with Cons.IH [of "acc @ [Dangling t xs ys ?us ?ue n]"] Cons.prems r e k show ?thesis by (auto simp: Let_def)
  qed
qed simp

lemma dangling_check_status:
  assumes "answers g s sd" and "sd_labels sd \<noteq> []"
  shows "ck_status (dangling_relationship_check sd (Some s)) \<noteq> CK_FAILED"
    and "length (remdups (map (\<lambda>r. (gr_type r, node_labels g (gr_start r), node_labels g (gr_end r))) (g_rels g))) \<le> 500 \<Longrightarrow>
      ck_status (dangling_relationship_check sd (Some s)) = CK_PASSED \<longleftrightarrow>
      (\<forall>r \<in> set (g_rels g). set (node_labels g (gr_start r)) \<union> set (node_labels g (gr_end r)) \<subseteq> fst ` set (sd_labels sd))"
proof -
  obtain rows where rows: "ask s Endpoints = Inr rows" "\<forall>r \<in> set rows. endpoint_row r \<noteq> None"
    and all: "length (remdups (map (\<lambda>r. (gr_type r, node_labels g (gr_start r), node_labels g (gr_end r))) (g_rels g))) \<le> 500 \<Longrightarrow>
      set (map (the \<circ> endpoint_row) rows) = set (rel_groups g)"
    using assms(1) by (auto simp: answers_def)
  obtain ds where ds: "dangling_rows (map fst (sd_labels sd)) rows [] = Inr ds"
    "ds = [] \<longleftrightarrow> (\<forall>(a, b) \<in> set (map (the \<circ> endpoint_row) rows). set a \<subseteq> set (map fst (sd_labels sd)) \<and> set b \<subseteq> set (map fst (sd_labels sd)))"
    using dangling_rows_known [OF rows(2), of "map fst (sd_labels sd)" "[]"] by (simp only: simp_thms) blast
  have st: "ck_status (dangling_relationship_check sd (Some s)) = (if ds = [] then CK_PASSED else CK_WARNING)"
    using assms(2) rows(1) ds(1) by (simp add: dangling_relationship_check_def Let_def)
  then show "ck_status (dangling_relationship_check sd (Some s)) \<noteq> CK_FAILED" by simp
  assume "length (remdups (map (\<lambda>r. (gr_type r, node_labels g (gr_start r), node_labels g (gr_end r))) (g_rels g))) \<le> 500"
  from all [OF this] ds(2) show "ck_status (dangling_relationship_check sd (Some s)) = CK_PASSED \<longleftrightarrow>
      (\<forall>r \<in> set (g_rels g). set (node_labels g (gr_start r)) \<union> set (node_labels g (gr_end r)) \<subseteq> fst ` set (sd_labels sd))"
    unfolding st by (simp add: rel_groups_def)
qed

lemma orphan_rows_ok:
  "\<forall>r \<in> set rows. \<exists>ls n. map_of r ''node_labels'' = Some ls \<and> map_of r ''orphan_count'' = Some (JNum n) \<Longrightarrow>
    \<exists>x. orphan_rows rows n acc = Inr x"
  by (induction rows arbitrary: n acc) (auto simp: row_number_def row_get_def)

lemma warnings_only:
  assumes "answers g s sd"
  shows "ck_status (orphan_node_check sd (Some s)) \<noteq> CK_FAILED" and "ck_status (dangling_relationship_check sd (Some s)) \<noteq> CK_FAILED"
proof -
  obtain rows where rows: "ask s AllOrphans = Inr rows"
    "\<forall>r \<in> set rows. \<exists>ls n. map_of r ''node_labels'' = Some ls \<and> map_of r ''orphan_count'' = Some (JNum n)"
    using assms unfolding answers_def by (elim conjE exE) blast
  obtain x where "orphan_rows rows 0 [] = Inr x" using orphan_rows_ok [OF rows(2)] by blast
  with rows(1) show "ck_status (orphan_node_check sd (Some s)) \<noteq> CK_FAILED"
    using orphan_check_status [OF assms] by (cases "sd_labels sd = []"; cases x) (simp_all add: orphan_node_check_def orphan_summary_def)
  show "ck_status (dangling_relationship_check sd (Some s)) \<noteq> CK_FAILED"
    using dangling_check_status(1) [OF assms] by (cases "sd_labels sd = []") (simp_all add: dangling_relationship_check_def)
qed

lemma run_selected_eq: "run_selected cs sd session = map (\<lambda>c. cc_check c sd session) cs"
proof -
  have "fold (\<lambda>c rep. gate_add (cc_check c sd session) rep) cs acc = acc @ map (\<lambda>c. cc_check c sd session) cs" for acc
    by (induction cs arbitrary: acc) (simp_all add: gate_add_def)
  then show ?thesis by (simp add: run_selected_def)
qed

lemma alignment_failed: "ck_status (schema_alignment sd session) = CK_FAILED \<longleftrightarrow> schema_issues sd \<noteq> []"
  by (simp add: schema_alignment_def)

lemma node_conforms_parts:
  "conforms g sd \<longleftrightarrow> on_nodes g sd (\<lambda>ls i. \<forall>(p, ps) \<in> set (ls_properties ls).
        case node_prop g i p of None \<Rightarrow> True | Some (ty, v) \<Rightarrow> type_fits (ps_expected_type ps) ty)
    \<and> on_nodes g sd (\<lambda>ls i. \<forall>p \<in> set (ls_required_properties ls). node_prop g i p \<noteq> None)
    \<and> on_nodes g sd (\<lambda>ls i. \<forall>(p, ps) \<in> set (ls_properties ls).
        case node_prop g i p of None \<Rightarrow> True | Some (ty, v) \<Rightarrow> (case ps_enum_values ps of None \<Rightarrow> True | Some vs \<Rightarrow> v \<in> JStr ` set vs))
    \<and> on_nodes g sd (\<lambda>ls i. \<forall>(p, ps) \<in> set (ls_properties ls).
        ps_min_cardinality ps \<le> int (degree g i) \<and> (case ps_max_cardinality ps of None \<Rightarrow> True | Some m \<Rightarrow> int (degree g i) \<le> m))"
proof -
  have split: "(case x of None \<Rightarrow> True | Some (ty, v) \<Rightarrow> P ty \<and> Q v) \<longleftrightarrow>
      (case x of None \<Rightarrow> True | Some (ty, v) \<Rightarrow> P ty) \<and> (case x of None \<Rightarrow> True | Some (ty, v) \<Rightarrow> Q v)" for x :: "(string \<times> json) option" and P Q
    by (auto split: option.split)
  show ?thesis unfolding conforms_def on_nodes_def node_conforms_def split by blast
qed

section \<open>Properties\<close>


text \<open>A session over a table of the queries of a schema and a graph without relationships.\<close>

definition table_session :: "graph \<Rightarrow> graph_query list \<Rightarrow> session" where
  "table_session g qs t ps =
     (case List.find (\<lambda>q. query_text q = t \<and> query_params q = ps) qs of
        None \<Rightarrow> Inr []
      | Some q \<Rightarrow> Inr [[(count_key q, JNum (real (length (violators g q)))), (''sample_bad'', JList [])]])"

definition sample_schema :: schema_definition where
  "sample_schema = \<lparr>sd_labels = [(''Vessel'', \<lparr>ls_properties = [(''name'', \<lparr>ps_expected_type = ''str'', ps_enum_values = None,
     ps_min_cardinality = 1, ps_max_cardinality = None\<rparr>)], ls_required_properties = [''name'']\<rparr>)], sd_relationship_types = []\<rparr>"

definition vessel_graph :: graph where
  "vessel_graph = \<lparr>g_nodes = [\<lparr>gn_labels = [''Vessel''], gn_props = [(''name'', (''STRING'', JStr ''Dream''))]\<rparr>], g_rels = []\<rparr>"


text \<open>A cardinality counts relationships in both directions: one that only arrives satisfies a lower bound.\<close>

lemma degree_counts_incoming:
  "degree \<lparr>g_nodes = [a, b], g_rels = [\<lparr>gr_start = 0, gr_type = t, gr_end = 1\<rparr>]\<rparr> 1 = 1"
  by (simp add: degree_def)

end
