(* ===== verification/Spec2Isabelle.thy ===== *)
theory Spec2Isabelle
  imports Circuit_Breaker Workflow_Executor Memory_Cache Response_Cache Rate_Limit Scheduler RBAC ETL
    Entity_Resolver Lineage Streaming Cypher_Builder Ws_Manager Retrieval Agent_Runtime
    Execution_Worker Consistency
begin

text \<open>
  Verification of the core of the flux platform, a knowledge-graph service written in Python.

  \<^bold>\<open>The program.\<close>  A gateway (\<^verbatim>\<open>gateway/\<close>) admits HTTP requests, limits their rate, answers repeated GET
  requests from a cache, keeps the WebSocket clients of the platform and protects the services behind it with a circuit breaker.  The core service
  (\<^verbatim>\<open>core/kg\<close>) decides who may read which class of data, loads records into the graph with an ETL pipeline, resolves
  duplicate entity names, records where data came from, takes messages from streams, turns questions into checked graph queries, holds its graph against a schema, and guards its own outgoing calls with a second circuit breaker, cache and
  rate limiter.  The workflow service (\<^verbatim>\<open>core/workflow\<close>) runs graphs of nodes in topological order, by hand, on
  a schedule or through webhook tokens.  The document service (\<^verbatim>\<open>rag/\<close>) cuts texts into chunks and retrieves them, and the agents
  (\<^verbatim>\<open>agent/\<close>) answer questions by calling registered tools.

  \<^bold>\<open>Theories, sources and what is shown.\<close>

  \<^item> \<^verbatim>\<open>Prelude\<close>: insertion-ordered dictionaries, results of raising code, integer and string routines of Python.
  \<^item> \<^verbatim>\<open>Circuit_Breaker\<close> (\<^verbatim>\<open>core/kg/utils/circuit_breaker.py\<close>, \<^verbatim>\<open>gateway/middleware/circuit_breaker.py\<close>): one record and
    one definition per method for each breaker.  \<open>cb_step\<close> interleaves calls that overlap, \<open>cb_run\<close> is
    sequential use.  Shown: the accounting invariant of all reachable states, refusal until the recovery timeout,
    opening after exactly the threshold of failures, recovery, and a way in which overlapping calls close
    the breaker early.  The locale \<open>breaker\<close> is what callers rely on; both breakers interpret it.
  \<^item> \<^verbatim>\<open>Workflow_Graph\<close> and \<^verbatim>\<open>Workflow_Executor\<close> (\<^verbatim>\<open>core/workflow/models.py\<close>, \<^verbatim>\<open>base_node.py\<close>, \<^verbatim>\<open>registry.py\<close>,
    \<^verbatim>\<open>executor.py\<close>): graph construction, Kahn's algorithm with its queue and in-degree dictionary, and the execution loop
    with inputs, skipping, errors and progress notifications.  Shown: the order is a complete topological
    order, an error is raised exactly for cyclic graphs, every node runs at most once on the outputs of its
    predecessors, and the final status agrees with the node states.
  \<^item> \<^verbatim>\<open>Repositories\<close> (\<^verbatim>\<open>core/kg/db/memory_*_repo.py\<close>): the tables of workflows, documents and executions in memory.  Shown: they
    refine maps from identifiers to records.  The locale \<open>repository\<close> is what the routes and the worker rely on; the
    workflow and the execution repository interpret it.
  \<^item> \<^verbatim>\<open>Execution_Worker\<close> (\<^verbatim>\<open>core/workflow/execution_worker.py\<close> and the routes that submit executions): queue, consumer, semaphore,
    tasks and recovery.  \<open>wk_step\<close> interleaves requests, the consumer, the stages of each task, stops, process ends and restarts.  Shown: no execution is lost,
    the outcome of a run is what is stored, a queued task gets through, the pool is bounded, and which
    requests are refused.
  \<^item> \<^verbatim>\<open>Memory_Cache\<close> (\<^verbatim>\<open>core/kg/cache\<close>): the LRU cache with expiry.  Shown: the entries are exactly the most
    recently used ones, and reads return the last value written while it is fresh.  The locale
    \<open>cache_backend\<close> is the protocol of \<^verbatim>\<open>backend.py\<close>; its client lemma is read-through caching.
  \<^item> \<^verbatim>\<open>Response_Cache\<close> (\<^verbatim>\<open>gateway/middleware/cache.py\<close>): the response cache with its path index.  Shown: entries and index
    agree after any run and invalidation is effective.
  \<^item> \<^verbatim>\<open>Rate_Limit\<close> (\<^verbatim>\<open>gateway/middleware/rate_limit.py\<close>, \<^verbatim>\<open>core/kg/api/middleware/rate_limit.py\<close>): sliding window, Redis
    window, token bucket and the dispatch of both middlewares.  Shown: the window refines a log of admissions and admits at
    most the limit per window, the burst bound of the bucket, and headers and status codes.  The locale
    \<open>rate_limit_backend\<close> is what the gateway's dispatch relies on; the memory and the Redis backend interpret it.
  \<^item> \<^verbatim>\<open>Scheduler\<close> (\<^verbatim>\<open>core/workflow/scheduler.py\<close>): the cron subset, the schedule table with its tasks, and the webhook
    tokens.  Shown: the next run of minute and daily expressions, that live tasks are exactly the
    enabled schedules, and that tokens validate exactly between creation and revocation.
  \<^item> \<^verbatim>\<open>RBAC\<close> (\<^verbatim>\<open>core/kg/rbac\<close>): models, policy decisions over an explicit permission graph, secure queries.  Shown:
    exact conditions for access and for filtering, exact effect of role changes, round trips through Neo4j properties.
  \<^item> \<^verbatim>\<open>ETL\<close> (\<^verbatim>\<open>core/kg/etl\<close>): validation, transforms, dead letter queue, batch loader, raw store and pipeline.  Shown: every
    record is accounted for once, the loader sends all records in order in batches, normalisation is idempotent.
  \<^item> \<^verbatim>\<open>Fuzzy_Matcher\<close> and \<^verbatim>\<open>Entity_Resolver\<close> (\<^verbatim>\<open>core/kg/entity_resolution\<close>): similarity measures and the resolver with
    union-find on a parent array.  Shown: the rolling-row table is the length of a shortest edit script, all
    scores lie in the unit interval, and the resolved groups are the connected components of the match graph.  The
    locale \<open>union_find\<close> is the contract that the grouping loops use; the parent array interprets it.
  \<^item> \<^verbatim>\<open>Lineage\<close> (\<^verbatim>\<open>core/kg/lineage\<close>): the provenance graph, recording levels and policy, and the recorder with its flush into
    Neo4j.  Shown: the traversals stop on every graph and find exactly the reachable nodes, recorded edges join stored nodes
    and are allowed by the policy, levels and classifications are monotone.  \<open>replay\<close> feeds the recorder with the
    calls that a run of the ETL pipeline makes.
  \<^item> \<^verbatim>\<open>Streaming\<close> (\<^verbatim>\<open>core/kg/streaming\<close>): consumer, processor and the dead letter queues in memory and in a file.  Shown: per topic
    no message is lost, repeated or reordered, failed batches are exactly the dead letters, and the file restores the
    queue after a restart.  The locale \<open>stream_source\<close> is the consumer interface of \<^verbatim>\<open>consumer.py\<close>; the in-memory consumer
    interprets it.
  \<^item> \<^verbatim>\<open>Cypher_Builder\<close> (\<^verbatim>\<open>core/kg/cypher_builder.py\<close>, \<^verbatim>\<open>core/kg/project.py\<close>): the query builder, its templates and the injection of
    project labels.  Shown: the query of structured options is a reference query with numbered parameters, the values of
    filters never reach the text, and injection only inserts labels.
  \<^item> \<^verbatim>\<open>Ontology\<close> (\<^verbatim>\<open>core/kg/ontology/core.py\<close>): object types, link types, actions, interfaces and functions with their
    registries.  Shown: an ontology that was built by its operations is well formed.  The locale
    \<open>definition_registry\<close> is the contract the registries share; each of them interprets it.
  \<^item> \<^verbatim>\<open>Cypher_Check\<close> (\<^verbatim>\<open>core/kg/cypher_validator.py\<close>, \<^verbatim>\<open>cypher_corrector.py\<close>): one scanner reads the labels, relationship types and properties
    that the regular expressions find.  Shown: the exact conditions for acceptance, and what correction changes.
  \<^item> \<^verbatim>\<open>Query_Generator\<close> (\<^verbatim>\<open>core/kg/query_generator.py\<close>): structured queries as Cypher, SQL and MongoDB text.  Shown: the values of filters
    are bound and never written out, and the validator reads off generated text what was put in.
  \<^item> \<^verbatim>\<open>Text_To_Cypher\<close> (\<^verbatim>\<open>core/kg/pipeline.py\<close>, \<^verbatim>\<open>ontology_bridge.py\<close>, \<^verbatim>\<open>hallucination_detector.py\<close>): the steps from a question to a checked
    query.  Shown: the verdict belongs to the query that is returned, and when it is positive.
  \<^item> \<^verbatim>\<open>Quality_Gate\<close> (\<^verbatim>\<open>core/kg/quality_gate.py\<close>, the data set class): the eight checks and the report.  Shown: the verdict as a
    condition on the ontology, the questions and the answers.
  \<^item> \<^verbatim>\<open>Consistency\<close> (\<^verbatim>\<open>core/kg/consistency\<close>): schema, seven checks over an arbitrary session, and the checker.  Shown: over a database that
    answers the queries as meant, the report says whether each node of the graph conforms to the schema.
  \<^item> \<^verbatim>\<open>Ws_Manager\<close> (\<^verbatim>\<open>gateway/ws\<close>): connections, rooms, broadcasts and messages.  \<open>ws_step\<close> interleaves the locked sections.  Shown:
    the tables agree in every reachable state, the manager implements a set of connections with a membership
    relation, room broadcasts reach exactly the working members, and messages survive JSON.
  \<^item> \<^verbatim>\<open>Chunker\<close> (\<^verbatim>\<open>rag/documents/chunker.py\<close>): splitting, merging and offsets.  Shown: chunks are greedy runs of the segments, and
    the offsets are right when no segment is blank.
  \<^item> \<^verbatim>\<open>Retrieval\<close> (\<^verbatim>\<open>rag/engines\<close>): the in-memory vector store, cosine and BM25 search, four rerankers, reciprocal rank fusion, the
    hybrid engine and the retrieval metrics.  Shown: keyword search ranks exactly the chunks with a query term, fusion adds
    the reciprocal ranks, the engine returns at most the asked number of indexed chunks, cosines and metrics stay in
    their intervals.  The locale \<open>reranker\<close> is what the engine relies on; all four rerankers interpret it.
  \<^item> \<^verbatim>\<open>Agent_Tools\<close> and \<^verbatim>\<open>Agent_Runtime\<close> (\<^verbatim>\<open>agent/memory\<close>, \<^verbatim>\<open>agent/tools\<close>, \<^verbatim>\<open>agent/skills\<close>, \<^verbatim>\<open>agent/runtime\<close>): buffer memory, both
    registries and the ReAct, pipeline and batch engines.  Shown: a ReAct run ends within its steps and fails only on arguments
    that are not an object, a pipeline chains the outputs of its steps, a batch accounts for every item.  The locale
    \<open>tool_runner\<close> is what the engines rely on; the tool registry interprets it.

  \<^bold>\<open>Modelling.\<close>  A class is a record and a method is a function from the old state to the new one, with raised exceptions as
  \<open>Inl\<close> or \<open>None\<close>.  Clock readings are arguments; a method that reads the clock twice takes two.  Floats are
  reals, so rounding is not considered; Python integers are \<open>int\<close>, or \<open>nat\<close> for indices.  Text is 8-bit.  A method that
  holds a lock is one step.  Code outside the repository is an argument: the Redis pipeline, the Neo4j
  session, the token repository, node functions, message and tool handlers, the language model, sockets, the md5 key, JSON
  encoding, ISO dates and the ratio of difflib.  So is the name
  normaliser of the matchers, about which nothing is assumed.

  \<^bold>\<open>Loops.\<close>  No definition uses fuel.  The loops of \<open>kahn\<close>, \<open>load_batches\<close>, \<open>bfs_loop\<close>, \<open>split_acc\<close>, \<open>inject_nodes\<close>,
  \<open>inject_from\<close>, and the scanners \<open>scan\<close>, \<open>property_pairs\<close>, \<open>find_outgoing\<close>, \<open>find_refs\<close>, \<open>more_words\<close> and \<open>english_names\<close> have termination measures; the \<open>find\<close> of union-find is a partial function, and its termination on every forest is part of \<open>resolve_components\<close>.  All other
  loops are structural recursion or folds.

  \<^bold>\<open>Behaviour worth knowing.\<close>  Some theorems record what the code does where its comments promise something else: the
  clause of the secure builder, suspended users in result filtering, revocation when the
  repository fails, minute schedules just before midnight, windows in Redis that never reset under steady traffic, the reset hint
  of the sliding window, ingestion events that the default policy drops, lineage edges that every flush creates again, dead letters
  written after a broken line, buffers lost by a flush without a handler, offsets of chunks around blank segments,
  node types named like a clause keyword, which escape the project scope, retrying pipeline steps that allow no attempt,
  permits of the worker pool that a malformed task takes away, status messages under an identifier nobody knows, arrow
  directions that are not compared, SQL without a negated membership, MongoDB filters that replace each other, a success
  rate that only warns, and degrees that count both directions.

  \<^bold>\<open>Not modelled.\<close>  Most HTTP handlers, authentication tokens, database adapters, crawlers, language-model and embedding
  clients, document parsers, vector databases, concrete agent tools and the MCP transport, ontology data, most of the maritime
  domain pack, user interface and deployment: they are I/O, declarative data or calls into external services.  Inside the
  modelled packages the splicing of access clauses into Cypher text, date parsing in the ETL transforms, the
  persistence of ETL state and memory providers on files and Redis are left out.  The parser of natural language and the evaluation
  metrics are the natural next components.
\<close>

end
